(* ===== verification/Prelude.thy ===== *)
theory Prelude
  imports Main "HOL-Library.Word"
begin

unbundle bit_operations_syntax

text \<open>
  Shared material of the development: the machine integer types of the C++ sources, the
  little-endian view of a word as bytes (the sources read and write multi-byte values through
  \<open>memcpy\<close> on little-endian machines only, and assert so), and the generic lemmas on words and lists
  that several components use. The collection \<open>bq_simps\<close> holds the rewrite rules the
  component proofs share.
\<close>

named_theorems bq_simps \<open>rewrite rules shared by the components\<close>

type_synonym u8 = "8 word"
type_synonym u16 = "16 word"
type_synonym u32 = "32 word"
type_synonym u64 = "64 word"

section \<open>Little-endian bytes\<close>

definition le_byte :: "nat \<Rightarrow> 'a::len word \<Rightarrow> u8" where
  "le_byte k v = ucast (drop_bit (8 * k) v)"

definition le_bytes :: "nat \<Rightarrow> 'a::len word \<Rightarrow> u8 list" where
  "le_bytes n v = map (\<lambda>k. le_byte k v) [0..<n]"

fun le_word :: "u8 list \<Rightarrow> 'a::len word" where
  "le_word [] = 0"
| "le_word (b # bs) = ucast b OR push_bit 8 (le_word bs)"

lemma length_le_bytes [simp]: "length (le_bytes n v) = n"
  by (simp add: le_bytes_def)

lemma nth_le_bytes [simp]: "k < n \<Longrightarrow> le_bytes n v ! k = le_byte k v"
  by (simp add: le_bytes_def)

lemma bit_le_byte: "bit (le_byte k (v :: 'a::len word)) i \<longleftrightarrow> i < 8 \<and> bit v (8 * k + i)"
  by (auto simp: le_byte_def bit_simps)

lemma bit_le_word:
  "bit (le_word bs :: 'a::len word) i \<longleftrightarrow>
     i < LENGTH('a) \<and> i div 8 < length bs \<and> bit (bs ! (i div 8)) (i mod 8)"
proof (induction bs arbitrary: i)
  case Nil
  then show ?case by simp
next
  case (Cons b bs)
  show ?case
  proof (cases "i < 8")
    case True
    then show ?thesis by (auto simp: bit_simps)
  next
    case False
    then have "i div 8 = Suc ((i - 8) div 8)" "i mod 8 = (i - 8) mod 8"
      by (simp_all add: le_div_geq le_mod_geq)
    moreover have "\<not> bit b i" using False by (auto dest: bit_imp_le_length)
    ultimately show ?thesis using False Cons.IH [of "i - 8"]
      by (auto simp: bit_simps)
  qed
qed

lemma le_word_le_bytes: "(le_word (le_bytes n v) :: 'a::len word) = take_bit (8 * n) (v :: 'a word)"
  by (rule bit_word_eqI) (auto simp: bit_le_word bit_le_byte bit_simps less_mult_imp_div_less
      div_less_iff_less_mult ac_simps)

lemma le_word_le_bytes_id [simp]:
  "LENGTH('a) \<le> 8 * n \<Longrightarrow> (le_word (le_bytes n v) :: 'a::len word) = v"
  by (simp add: le_word_le_bytes take_bit_word_eq_self)

lemma le_byte_le_word:
  "k < length bs \<Longrightarrow> 8 * length bs \<le> LENGTH('a) \<Longrightarrow> le_byte k (le_word bs :: 'a::len word) = bs ! k"
  by (rule bit_word_eqI) (auto simp: bit_le_byte bit_le_word)

lemma le_bytes_le_word:
  "8 * length bs \<le> LENGTH('a) \<Longrightarrow> le_bytes (length bs) (le_word bs :: 'a::len word) = bs"
  by (rule nth_equalityI) (simp_all add: le_byte_le_word)

lemma unat_lt2p: "unat (v :: 'a::len word) < 2 ^ LENGTH('a)"
  by (rule unsigned_less)

lemma take_bit_word_less:
  assumes "unat v < 2 ^ n"
  shows "take_bit n v = (v :: 'a::len word)"
proof -
  have "unat (take_bit n v) = unat v"
    using assms by (simp add: unsigned_take_bit_eq take_bit_nat_eq_self)
  then show ?thesis by (simp only: word_unat_eq_iff)
qed

lemma unat_less_exp_bits:
  assumes "\<And>i. bit (v :: 'a::len word) i \<Longrightarrow> i < n"
  shows "unat v < 2 ^ n"
proof -
  have "take_bit n v = v"
    using assms by (intro bit_word_eqI) (auto simp: bit_simps)
  then have "take_bit n (unat v) = unat v" by (metis unsigned_take_bit_eq)
  then show ?thesis by (metis take_bit_nat_less_exp)
qed

lemma bit_less_exp: "unat (v :: 'a::len word) < 2 ^ n \<Longrightarrow> bit v i \<Longrightarrow> i < n"
  by (metis bit_take_bit_iff take_bit_word_less)

lemma unat_le_word_less:
  "unat (le_word bs :: 'a::len word) < 2 ^ (8 * length bs)"
  by (rule unat_less_exp_bits) (auto simp: bit_le_word div_less_iff_less_mult ac_simps)

lemma unat_le_word_snoc_less:
  assumes "unat b < 2 ^ j"
  shows "unat (le_word (bs @ [b]) :: 'a::len word) < 2 ^ (8 * length bs + j)"
proof (rule unat_less_exp_bits)
  fix i assume i: "bit (le_word (bs @ [b]) :: 'a word) i"
  show "i < 8 * length bs + j"
  proof (cases "i div 8 < length bs")
    case True
    then show ?thesis by (simp add: div_less_iff_less_mult)
  next
    case False
    then have "i div 8 = length bs" "bit b (i mod 8)"
      using i by (auto simp: bit_le_word nth_append less_Suc_eq)
    moreover from this have "i mod 8 < j" using assms by (blast intro: bit_less_exp)
    ultimately show ?thesis by (metis add_less_cancel_left mult_div_mod_eq)
  qed
qed

lemma unat_le_byte: "unat (le_byte k v) = unat v div 2 ^ (8 * k) mod 256"
  unfolding le_byte_def unsigned_ucast_eq unat_drop_bit_eq
  by (simp add: take_bit_eq_mod drop_bit_eq_div)

lemma unat_le_byte_less:
  assumes "unat v < 2 ^ (8 * k + j)"
  shows "unat (le_byte k v) < 2 ^ j"
proof -
  have "unat (le_byte k v) \<le> unat v div 2 ^ (8 * k)"
    by (simp add: unat_le_byte)
  also have "\<dots> < 2 ^ j"
    using assms by (simp add: less_mult_imp_div_less power_add mult.commute)
  finally show ?thesis .
qed

section \<open>Masks and powers of two on naturals\<close>

lemma nat_and_mask: "(x :: nat) AND (2 ^ k - Suc 0) = x mod 2 ^ k"
  using take_bit_eq_mask [of k x] by (simp add: take_bit_eq_mod mask_eq_exp_minus_1)

definition pow2 :: "nat \<Rightarrow> bool" where
  "pow2 n \<longleftrightarrow> (\<exists>k. n = 2 ^ k)"

lemma pow2_and_mask: "pow2 n \<Longrightarrow> (x :: nat) AND (n - Suc 0) = x mod n"
  by (auto simp: pow2_def nat_and_mask)

lemma pow2_pos: "pow2 n \<Longrightarrow> 0 < n"
  by (auto simp: pow2_def)

lemma pow2_numerals [simp]: "pow2 1" "pow2 2" "pow2 4" "pow2 8" "pow2 16" "pow2 32" "pow2 64"
  unfolding pow2_def
  by (rule exI [of _ 0], simp, rule exI [of _ 1], simp, rule exI [of _ 2], simp, rule exI [of _ 3], simp,
      rule exI [of _ 4], simp, rule exI [of _ 5], simp, rule exI [of _ 6], simp)

lemma pow2_dvd: "pow2 m \<Longrightarrow> pow2 n \<Longrightarrow> m \<le> n \<Longrightarrow> m dvd n"
  by (auto simp: pow2_def intro: le_imp_power_dvd dest: power_le_imp_le_exp [rotated])

end
