(* ===== verification/Vlq.thy ===== *)
theory Vlq
  imports Prelude
begin

text \<open>
  The integer codecs of \<open>src/bq_log/utils/log_utils.h\<close>: \<open>log_utils::zigzag\<close> (signed to unsigned, small
  magnitudes first) and \<open>log_utils::vlq\<close>, the variable length quantity every number of the compressed log
  format is written in. An encoding of \<open>n\<close> bytes starts with a unary length prefix in the first
  byte; the values of \<open>n\<close> bytes start right after the largest value of \<open>n - 1\<close> bytes.
  A template argument \<open>T\<close> is modelled by its size \<open>sz\<close> in bytes (1, 2, 4 or 8).
\<close>

section \<open>Zigzag\<close>

definition zigzag_encode :: "'a::len word \<Rightarrow> 'a word" where
  "zigzag_encode v = push_bit 1 v XOR signed_drop_bit (LENGTH('a) - 1) v"

definition zigzag_decode :: "'a::len word \<Rightarrow> 'a word" where
  "zigzag_decode v = drop_bit 1 v XOR (0 - (v AND 1))"

section \<open>Length classes\<close>

definition vlq_prefix :: "nat \<Rightarrow> u8" where
  "vlq_prefix len = (if len = 9 then 0 else push_bit (8 - len) 1)"

fun vlq_min_value :: "nat \<Rightarrow> u64" where
  "vlq_min_value 0 = 0"
| "vlq_min_value (Suc 0) = 0"
| "vlq_min_value (Suc (Suc n)) = vlq_min_value (Suc n) + push_bit (Suc n * 7) 1"

definition vlq_max_bytes_count :: "nat \<Rightarrow> nat" where
  "vlq_max_bytes_count sz = sz + 1"

definition get_vlq_encode_length :: "u64 \<Rightarrow> nat" where
  "get_vlq_encode_length value =
     (if value < vlq_min_value 2 then 1
      else if value < vlq_min_value 3 then 2
      else if value < vlq_min_value 4 then 3
      else if value < vlq_min_value 5 then 4
      else if value < vlq_min_value 6 then 5
      else if value < vlq_min_value 7 then 6
      else if value < vlq_min_value 8 then 7
      else if value < vlq_min_value 9 then 8
      else 9)"

definition get_vlq_data_min_size :: "nat \<Rightarrow> u64" where
  "get_vlq_data_min_size len = map vlq_min_value [1..<10] ! (len - 1)"

definition get_vlq_data_max_size :: "nat \<Rightarrow> u64" where
  "get_vlq_data_max_size len = (map (\<lambda>k. vlq_min_value k - 1) [2..<10] @ [0xFFFFFFFFFFFFFFFF]) ! (len - 1)"

definition vlq_length_lut :: "nat list" where
  "vlq_length_lut = [9, 8] @ replicate 2 7 @ replicate 4 6 @ replicate 8 5 @ replicate 16 4
     @ replicate 32 3 @ replicate 64 2 @ replicate 128 1"

definition get_vlq_decode_length :: "u8 \<Rightarrow> nat" where
  "get_vlq_decode_length prefix_byte = vlq_length_lut ! unat prefix_byte"

section \<open>Encoder and decoder\<close>

text \<open>
  \<open>vlq_encode\<close>: byte 0 carries the prefix and the most significant byte of the offset into the
  length class, the bytes after it the lower bytes in little-endian order. In the class of nine
  bytes the prefix byte is 0 and all eight bytes follow.
\<close>

definition vlq_encode :: "u64 \<Rightarrow> u8 list" where
  "vlq_encode value =
     (let len = get_vlq_encode_length value;
          encoded_value = value - vlq_min_value len
      in (if len = 9 then vlq_prefix 9 else vlq_prefix len + le_byte (len - 1) encoded_value)
         # le_bytes (len - 1) encoded_value)"

text \<open>
  \<open>vlq_decode<T>\<close> reads from a raw pointer. \<open>Vlq_invalid\<close> is \<open>invalid_decode_length\<close>;
  \<open>Vlq_overread\<close> stands for a read past the bytes that are there, which the C++ does not check.
\<close>

datatype vlq_result = Vlq_ok nat u64 | Vlq_invalid | Vlq_overread

definition vlq_decode :: "nat \<Rightarrow> u8 list \<Rightarrow> vlq_result" where
  "vlq_decode sz src =
     (case src of
        [] \<Rightarrow> Vlq_overread
      | b # rest \<Rightarrow>
          let len = get_vlq_decode_length b in
          if len > vlq_max_bytes_count sz then Vlq_invalid
          else if length rest < len - 1 then Vlq_overread
          else let target = (if len = 9 then le_word (take 8 rest)
                             else le_word (take (len - 1) rest @ [b - vlq_prefix len]))
               in Vlq_ok len (take_bit (8 * sz) (target + vlq_min_value len)))"

section \<open>Lemmas on length classes\<close>

lemma vlq_min_value_vals:
  "vlq_min_value 1 = 0" "vlq_min_value 2 = 0x80" "vlq_min_value 3 = 0x4080"
  "vlq_min_value 4 = 0x204080" "vlq_min_value 5 = 0x10204080" "vlq_min_value 6 = 0x810204080"
  "vlq_min_value 7 = 0x40810204080" "vlq_min_value 8 = 0x2040810204080"
  "vlq_min_value 9 = 0x102040810204080" "vlq_min_value (Suc 0) = 0"
  "vlq_min_value (Suc (Suc 0)) = 0x80"
  by (simp_all add: numeral_eq_Suc)

declare vlq_min_value.simps [simp del]

lemma vlq_prefix_vals:
  "vlq_prefix 1 = 128" "vlq_prefix 2 = 64" "vlq_prefix 3 = 32" "vlq_prefix 4 = 16"
  "vlq_prefix 5 = 8" "vlq_prefix 6 = 4" "vlq_prefix 7 = 2" "vlq_prefix 8 = 1" "vlq_prefix 9 = 0"
  by (simp_all add: vlq_prefix_def)

lemma get_vlq_encode_length_cases:
  "get_vlq_encode_length v \<in> {1, 2, 3, 4, 5, 6, 7, 8, 9}"
  by (simp add: get_vlq_encode_length_def)

lemma get_vlq_encode_length_range:
  "1 \<le> get_vlq_encode_length v \<and> get_vlq_encode_length v \<le> 9"
  by (simp add: get_vlq_encode_length_def)

lemma length_vlq_encode: "length (vlq_encode v) = get_vlq_encode_length v"
  using get_vlq_encode_length_range [of v] by (simp add: vlq_encode_def Let_def)

lemma length_class_lower: "vlq_min_value (get_vlq_encode_length v) \<le> v"
  unfolding get_vlq_encode_length_def vlq_min_value_vals
  by (simp add: vlq_min_value_vals not_less split: if_split)

lemma length_class_upper:
  "get_vlq_encode_length v \<le> 8 \<Longrightarrow> v < vlq_min_value (Suc (get_vlq_encode_length v))"
  by (simp add: get_vlq_encode_length_def vlq_min_value_vals split: if_splits)

lemma length_class_cases:
  "1 \<le> n \<Longrightarrow> n \<le> 8 \<Longrightarrow> n = 1 \<or> n = 2 \<or> n = 3 \<or> n = 4 \<or> n = 5 \<or> n = 6 \<or> n = 7 \<or> n = (8 :: nat)"
  by arith

lemma unat_vlq_min_value_Suc:
  "1 \<le> n \<Longrightarrow> n \<le> 8 \<Longrightarrow> unat (vlq_min_value (Suc n)) = unat (vlq_min_value n) + 2 ^ (7 * n)"
  by (drule (1) length_class_cases) (elim disjE; simp add: vlq_min_value_vals)

lemma vlq_offset_less:
  assumes "get_vlq_encode_length v \<le> 8"
  shows "unat (v - vlq_min_value (get_vlq_encode_length v)) < 2 ^ (7 * get_vlq_encode_length v)"
proof -
  let ?n = "get_vlq_encode_length v"
  have "unat v < unat (vlq_min_value ?n) + 2 ^ (7 * ?n)"
    using length_class_upper [OF assms] get_vlq_encode_length_range [of v] assms
    by (simp only: word_less_nat_alt unat_vlq_min_value_Suc)
  moreover have "unat (vlq_min_value ?n) \<le> unat v"
    using length_class_lower [of v] by (simp only: word_le_nat_alt)
  moreover have "unat (v - vlq_min_value ?n) = unat v - unat (vlq_min_value ?n)"
    using length_class_lower [of v] by (rule unat_sub)
  ultimately show ?thesis by linarith
qed

lemma unat_vlq_prefix: "1 \<le> n \<Longrightarrow> n \<le> 8 \<Longrightarrow> unat (vlq_prefix n) = 2 ^ (8 - n)"
  by (drule (1) length_class_cases) (elim disjE; simp add: vlq_prefix_def)

lemma vlq_length_lut_nth:
  "1 \<le> n \<Longrightarrow> n \<le> 8 \<Longrightarrow> 2 ^ (8 - n) \<le> k \<Longrightarrow> k < 2 ^ (9 - n) \<Longrightarrow> vlq_length_lut ! k = n"
  by (drule (1) length_class_cases)
    (elim disjE; auto simp: vlq_length_lut_def nth_append nth_Cons')

lemma get_vlq_decode_length_prefix:
  assumes "1 \<le> n" "n \<le> 8" "unat x < 2 ^ (8 - n)"
  shows "get_vlq_decode_length (vlq_prefix n + x) = n"
proof -
  have two: "2 ^ (9 - n) = 2 * (2 :: nat) ^ (8 - n)"
    using assms(2) by (simp flip: power_Suc add: Suc_diff_le)
  have "(2 :: nat) ^ (9 - n) \<le> 2 ^ 8"
    using assms(1) by (intro power_increasing) auto
  then have "unat (vlq_prefix n + x) = 2 ^ (8 - n) + unat x"
    using assms two by (simp add: unat_word_ariths unat_vlq_prefix)
  then show ?thesis
    using assms two by (simp add: get_vlq_decode_length_def vlq_length_lut_nth)
qed

lemma get_vlq_decode_length_zero: "get_vlq_decode_length 0 = 9"
  by (simp add: get_vlq_decode_length_def vlq_length_lut_def)

lemma vlq_head_less:
  assumes "get_vlq_encode_length v \<le> 8"
  shows "unat (le_byte (get_vlq_encode_length v - 1) (v - vlq_min_value (get_vlq_encode_length v)))
           < 2 ^ (8 - get_vlq_encode_length v)"
proof -
  let ?n = "get_vlq_encode_length v"
  have "7 * ?n = 8 * (?n - 1) + (8 - ?n)"
    using get_vlq_encode_length_range [of v] assms by arith
  then show ?thesis
    using vlq_offset_less [OF assms] by (simp add: unat_le_byte_less)
qed

lemma get_vlq_decode_length_encode:
  "get_vlq_decode_length (hd (vlq_encode v)) = get_vlq_encode_length v"
proof (cases "get_vlq_encode_length v = 9")
  case True
  then show ?thesis by (simp add: vlq_encode_def vlq_prefix_def get_vlq_decode_length_zero)
next
  case False
  then have "get_vlq_encode_length v \<le> 8"
    using get_vlq_encode_length_range [of v] by arith
  then show ?thesis
    using vlq_head_less [of v] get_vlq_encode_length_range [of v] False
    by (simp add: vlq_encode_def Let_def get_vlq_decode_length_prefix)
qed

lemma le_word_offset:
  assumes "get_vlq_encode_length v \<le> 8"
  defines "n \<equiv> get_vlq_encode_length v"
  shows "le_word (le_bytes (n - 1) (v - vlq_min_value n) @ [le_byte (n - 1) (v - vlq_min_value n)])
           = v - vlq_min_value n"
proof -
  have "le_bytes (n - 1) e @ [le_byte (n - 1) e] = le_bytes n e" for e :: u64
    using get_vlq_encode_length_range [of v]
    by (cases n) (simp_all add: n_def le_bytes_def)
  moreover have "(2 :: nat) ^ (7 * n) \<le> 2 ^ (8 * n)"
    by (rule power_increasing) simp_all
  then have "unat (v - vlq_min_value n) < 2 ^ (8 * n)"
    using vlq_offset_less [OF assms(1)] unfolding n_def by (rule less_le_trans [rotated])
  then have "take_bit (8 * n) (v - vlq_min_value n) = v - vlq_min_value n"
    by (rule take_bit_word_less)
  ultimately show ?thesis by (simp add: le_word_le_bytes)
qed

section \<open>Lemmas on zigzag and on canonical encodings\<close>

lemma zigzag_sign:
  "signed_drop_bit (LENGTH('a) - 1) (v :: 'a::len word) = (if bit v (LENGTH('a) - 1) then - 1 else 0)"
  by (rule bit_word_eqI) (auto simp: bit_simps not_less_eq_eq)

lemma zigzag_low_bit: "(v :: 'a::len word) AND 1 = (if bit v 0 then 1 else 0)"
  by (rule bit_word_eqI) (auto simp: bit_simps intro: gr0I)

lemma bit_zigzag_encode:
  "bit (zigzag_encode (v :: 'a::len word)) i \<longleftrightarrow> i < LENGTH('a) \<and>
     (if i = 0 then bit v (LENGTH('a) - 1) else bit v (i - 1) \<noteq> bit v (LENGTH('a) - 1))"
  unfolding zigzag_encode_def zigzag_sign bit_xor_iff bit_push_bit_iff
  by (auto simp: bit_simps possible_bit_def)

lemma bit_zigzag_decode:
  "bit (zigzag_decode (v :: 'a::len word)) i \<longleftrightarrow> i < LENGTH('a) \<and> (bit v (Suc i) \<noteq> bit v 0)"
  unfolding zigzag_decode_def zigzag_low_bit bit_xor_iff bit_drop_bit_eq
  by (auto simp: bit_simps possible_bit_def dest: bit_imp_le_length)

lemma zigzag_decode_encode: "zigzag_decode (zigzag_encode v) = v"
proof (rule bit_word_eqI)
  fix n assume "n < LENGTH('a)"
  then show "bit (zigzag_decode (zigzag_encode v)) n = bit (v :: 'a word) n"
    by (cases "n = LENGTH('a) - 1") (auto simp: bit_zigzag_encode bit_zigzag_decode)
qed

lemma zigzag_encode_decode: "zigzag_encode (zigzag_decode v) = v"
  by (rule bit_word_eqI) (auto simp: bit_zigzag_encode bit_zigzag_decode dest: bit_imp_le_length)

lemma vlq_length_lut_range:
  assumes "0 < k" "k < 256"
  shows "1 \<le> vlq_length_lut ! k \<and> vlq_length_lut ! k \<le> 8
    \<and> 2 ^ (8 - vlq_length_lut ! k) \<le> k \<and> k < 2 ^ (9 - vlq_length_lut ! k)"
proof -
  have "\<exists>n. 1 \<le> n \<and> n \<le> 8 \<and> 2 ^ (8 - n) \<le> k \<and> k < 2 ^ (9 - n)"
  proof (rule exI [of _ "if k < 2 then 8 else if k < 4 then 7 else if k < 8 then 6 else if k < 16 then 5
      else if k < 32 then 4 else if k < 64 then 3 else if k < 128 then 2 else 1"])
  qed (use assms in auto)
  then show ?thesis using vlq_length_lut_nth by metis
qed

lemma get_vlq_decode_length_range:
  assumes "get_vlq_decode_length b \<noteq> 9"
  defines "n \<equiv> get_vlq_decode_length b"
  shows "1 \<le> n \<and> n \<le> 8 \<and> unat (b - vlq_prefix n) < 2 ^ (8 - n)"
proof -
  have "b \<noteq> 0" using assms get_vlq_decode_length_zero by metis
  then have b: "0 < unat b" "unat b < 256"
    using unat_lt2p [of b] by (simp_all add: unat_gt_0)
  note r = vlq_length_lut_range [OF b, folded get_vlq_decode_length_def n_def]
  then have "unat (b - vlq_prefix n) = unat b - 2 ^ (8 - n)"
    by (simp add: unat_sub word_le_nat_alt unat_vlq_prefix)
  moreover have "2 ^ (9 - n) = 2 * (2 :: nat) ^ (8 - n)"
    using r by (simp flip: power_Suc add: Suc_diff_le [symmetric])
  ultimately show ?thesis using r by linarith
qed

lemma get_vlq_encode_length_class:
  assumes "1 \<le> n" "n \<le> 8" "unat raw < 2 ^ (7 * n)"
  shows "get_vlq_encode_length (raw + vlq_min_value n) = n"
proof -
  have "n \<in> {1, 2, 3, 4, 5, 6, 7, 8}" using assms(1,2) by auto
  then show ?thesis using assms(3)
    by (elim insertE emptyE)
      (auto simp: get_vlq_encode_length_def vlq_min_value_vals word_less_nat_alt unat_word_ariths)
qed

section \<open>Properties\<close>

lemma vlq_decode_encode_append:
  assumes "get_vlq_encode_length v \<le> vlq_max_bytes_count sz"
  shows "vlq_decode sz (vlq_encode v @ rest) = Vlq_ok (get_vlq_encode_length v) (take_bit (8 * sz) v)"
proof (cases "get_vlq_encode_length v = 9")
  case True
  have "take 8 (le_bytes 8 (v - vlq_min_value 9) @ rest) = le_bytes 8 (v - vlq_min_value 9)"
    by simp
  then show ?thesis
    using True assms
    by (simp add: vlq_encode_def vlq_decode_def vlq_prefix_def get_vlq_decode_length_zero)
next
  case False
  let ?n = "get_vlq_encode_length v"
  have n: "?n \<le> 8" using False get_vlq_encode_length_range [of v] by arith
  have "get_vlq_decode_length (vlq_prefix ?n + le_byte (?n - 1) (v - vlq_min_value ?n)) = ?n"
    using vlq_head_less [OF n] get_vlq_encode_length_range [of v] n
    by (simp add: get_vlq_decode_length_prefix)
  then show ?thesis
    using False assms le_word_offset [OF n] by (simp add: vlq_encode_def vlq_decode_def Let_def)
qed

lemma vlq_encode_length_sz:
  assumes "sz \<in> {1, 2, 4, 8}" "unat v < 2 ^ (8 * sz)"
  shows "get_vlq_encode_length v \<le> vlq_max_bytes_count sz"
  using assms get_vlq_encode_length_range [of v]
  by (auto simp: get_vlq_encode_length_def vlq_min_value_vals vlq_max_bytes_count_def
      word_less_nat_alt)

lemma get_vlq_data_min_size_eq:
  "1 \<le> n \<Longrightarrow> n \<le> 9 \<Longrightarrow> get_vlq_data_min_size n = vlq_min_value n"
  by (simp add: get_vlq_data_min_size_def del: upt_Suc upt_rec_numeral)

lemma get_vlq_data_max_size_eq:
  "1 \<le> n \<Longrightarrow> n \<le> 9 \<Longrightarrow>
     get_vlq_data_max_size n = (if n = 9 then 0xFFFFFFFFFFFFFFFF else vlq_min_value (Suc n) - 1)"
  by (auto simp: get_vlq_data_max_size_def nth_append simp del: upt_Suc upt_rec_numeral)

lemma vlq_length_iff:
  assumes "1 \<le> n" "n \<le> 9"
  shows "get_vlq_encode_length v = n \<longleftrightarrow> get_vlq_data_min_size n \<le> v \<and> v \<le> get_vlq_data_max_size n"
proof -
  have "n = 9 \<or> n = 1 \<or> n = 2 \<or> n = 3 \<or> n = 4 \<or> n = 5 \<or> n = 6 \<or> n = 7 \<or> n = 8"
    using assms by arith
  then show ?thesis
    using unat_lt2p [of v]
    by (elim disjE)
      (auto simp: get_vlq_encode_length_def get_vlq_data_min_size_eq get_vlq_data_max_size_eq
        vlq_min_value_vals word_less_nat_alt word_le_nat_alt)
qed

text \<open>
  C17. Whatever follows the encoding in the stream, \<open>vlq_decode<T>\<close> gives back every value of the
  unsigned type \<open>T\<close> and the number of bytes \<open>vlq_encode\<close> wrote, which is at most \<open>sizeof(T) + 1\<close>.
\<close>

theorem vlq_roundtrip:
  assumes "sz \<in> {1, 2, 4, 8}" and "unat v < 2 ^ (8 * sz)"
  shows "vlq_decode sz (vlq_encode v @ rest) = Vlq_ok (length (vlq_encode v)) v
    \<and> length (vlq_encode v) \<le> vlq_max_bytes_count sz"
  using vlq_decode_encode_append [OF vlq_encode_length_sz [OF assms]] vlq_encode_length_sz [OF assms]
  by (simp add: length_vlq_encode take_bit_word_less [OF assms(2)])

theorem vlq_roundtrip_witness:
  "vlq_decode 4 (vlq_encode 300 @ [7]) = Vlq_ok (length (vlq_encode 300)) 300
    \<and> length (vlq_encode 300) \<le> vlq_max_bytes_count 4"
  by (rule vlq_roundtrip) simp_all

text \<open>
  The encoding is minimal and the length classes tile the 64-bit range: the encoding of \<open>v\<close> has
  \<open>n\<close> bytes exactly when \<open>v\<close> lies between the bounds the library reports for \<open>n\<close> bytes, and the first
  byte alone tells the reader how long the encoding is.
\<close>

theorem vlq_length_classes:
  assumes "1 \<le> n" and "n \<le> 9"
  shows "(length (vlq_encode v) = n \<longleftrightarrow> get_vlq_data_min_size n \<le> v \<and> v \<le> get_vlq_data_max_size n)
    \<and> get_vlq_decode_length (hd (vlq_encode v)) = length (vlq_encode v)"
  by (simp add: length_vlq_encode vlq_length_iff [OF assms] get_vlq_decode_length_encode)

theorem vlq_length_classes_witness:
  "(length (vlq_encode 128) = 2 \<longleftrightarrow> get_vlq_data_min_size 2 \<le> 128 \<and> 128 \<le> get_vlq_data_max_size 2)
    \<and> get_vlq_decode_length (hd (vlq_encode 128)) = length (vlq_encode 128)"
  by (rule vlq_length_classes) simp_all

text \<open>
  C31. Encodings of up to eight bytes are canonical: any byte sequence the 64-bit decoder accepts with such
  a length is exactly the encoding of the value it returns, so no value has two short encodings.
\<close>

theorem vlq_decode_canonical:
  assumes "vlq_decode 8 src = Vlq_ok n v" and "n \<le> 8"
  shows "vlq_encode v = take n src"
proof -
  from assms obtain b rest where src: "src = b # rest"
    and n: "n = get_vlq_decode_length b" "n - 1 \<le> length rest"
    and v: "v = le_word (take (n - 1) rest @ [b - vlq_prefix n]) + vlq_min_value n"
    by (auto simp: vlq_decode_def Let_def take_bit_word_eq_self split: list.splits if_splits)
  let ?xs = "take (n - 1) rest @ [b - vlq_prefix n]" and ?raw = "v - vlq_min_value n"
  have r: "1 \<le> n" "unat (b - vlq_prefix n) < 2 ^ (8 - n)"
    using get_vlq_decode_length_range [of b] n assms(2) by auto
  have len: "length ?xs = n" using n r by simp
  have top: "unat (le_word ?xs :: u64) < 2 ^ (7 * n)"
    using unat_le_word_snoc_less [OF r(2), of "take (n - 1) rest"] len r(1) assms(2)
    by (simp add: algebra_simps)
  have "get_vlq_encode_length v = n"
    unfolding v by (rule get_vlq_encode_length_class [OF r(1) assms(2) top])
  moreover have "le_byte (n - 1) ?raw = b - vlq_prefix n" "le_bytes (n - 1) ?raw = take (n - 1) rest"
    using len r assms(2) n(2)
    by (simp_all add: v le_byte_le_word nth_append list_eq_iff_nth_eq)
  ultimately show ?thesis
    using assms(2) r src by (cases n) (simp_all add: vlq_encode_def Let_def)
qed

theorem vlq_decode_canonical_witness: "vlq_encode 300 = take 2 [64, 172, 9]"
  by (rule vlq_decode_canonical) (simp_all add: vlq_decode_def get_vlq_decode_length_def Let_def
      vlq_length_lut_def nth_append nth_Cons' vlq_max_bytes_count_def vlq_prefix_def vlq_min_value_vals)

text \<open>
  Zigzag is a bijection between the signed and the unsigned values of a width.
\<close>

theorem zigzag_bijective:
  "zigzag_decode (zigzag_encode v) = v \<and> zigzag_encode (zigzag_decode v) = v"
  by (simp add: zigzag_decode_encode zigzag_encode_decode)

end
