(* ===== verification/Bq_String.thy ===== *)
theory Bq_String
  imports Prelude
begin

text \<open>
  The byte string class \<open>bq::string\<close> of \<open>include/bq_common/types/string_impl.h\<close>, as far as the configuration
  and category code uses it: comparison, prefix test, search, substring, replacement, splitting,
  trimming and the header-only hash. A string is a list of bytes (\<open>char list\<close>); the search functions
  work on the C string, which ends at the first NUL byte. \<open>None\<close> is \<open>npos\<close> for a position, a failed
  assertion for \<open>substr\<close>, and a loop that does not end for \<open>split\<close> and \<open>replace\<close>.
\<close>

section \<open>C library character functions\<close>

definition isspace_c :: "char \<Rightarrow> bool" where
  "isspace_c c \<longleftrightarrow> (of_char c :: nat) \<in> {9, 10, 11, 12, 13, 32}"

definition toupper_c :: "char \<Rightarrow> char" where
  "toupper_c c = (if 97 \<le> (of_char c :: nat) \<and> (of_char c :: nat) \<le> 122
                  then char_of ((of_char c :: nat) - 32) else c)"

section \<open>Operations\<close>

definition c_str :: "string \<Rightarrow> string" where
  "c_str s = takeWhile (\<lambda>c. c \<noteq> CHR 0x00) s"

definition str_begin_with :: "string \<Rightarrow> string \<Rightarrow> bool" where
  "str_begin_with s pat = (if length s < length pat then False else take (length pat) s = pat)"

definition str_end_with :: "string \<Rightarrow> string \<Rightarrow> bool" where
  "str_end_with s pat = (if length s < length pat then False else drop (length s - length pat) s = pat)"

definition str_equals_ignore_case :: "string \<Rightarrow> string \<Rightarrow> bool" where
  "str_equals_ignore_case s t =
     (if length s \<noteq> length t then False
      else list_all (\<lambda>(a, b). \<not> (a \<noteq> b \<and> toupper_c a \<noteq> toupper_c b)) (zip s t))"

definition str_substr :: "string \<Rightarrow> nat \<Rightarrow> nat option \<Rightarrow> string option" where
  "str_substr s pos count =
     (if pos < length s then
        (let n = (case count of None \<Rightarrow> length s - pos
                  | Some c \<Rightarrow> if pos + c > length s then length s - pos else c)
         in Some (take n (drop pos s)))
      else None)"

text \<open>\<open>strstr\<close>: the first position of a C string where another one starts.\<close>

fun strstr_c :: "string \<Rightarrow> string \<Rightarrow> nat option" where
  "strstr_c [] pat = (if pat = [] then Some 0 else None)"
| "strstr_c (c # s) pat =
     (if take (length pat) (c # s) = pat then Some 0 else map_option Suc (strstr_c s pat))"

definition str_find_from :: "string \<Rightarrow> string \<Rightarrow> nat \<Rightarrow> nat option" where
  "str_find_from s pat pos =
     (if length s \<le> pos then None
      else map_option (\<lambda>k. pos + k) (strstr_c (c_str (drop pos s)) (c_str pat)))"

fun find_last_loop :: "string \<Rightarrow> string \<Rightarrow> nat \<Rightarrow> nat option" where
  "find_last_loop s pat 0 = None"
| "find_last_loop s pat (Suc pos) =
     (if take (length pat) (drop (Suc pos) s) = pat then Some (Suc pos) else find_last_loop s pat pos)"

definition str_find_last :: "string \<Rightarrow> string \<Rightarrow> nat option" where
  "str_find_last s pat =
     (if length s = 0 \<or> length pat = 0 \<or> length s < length pat then None
      else find_last_loop s pat (length s - length pat))"

partial_function (option) replace_loop :: "string \<Rightarrow> string \<Rightarrow> string \<Rightarrow> nat \<Rightarrow> string \<Rightarrow> string option" where
  "replace_loop s from to pos result =
     (if pos < length s then
        (case str_find_from s from pos of
           Some found \<Rightarrow> replace_loop s from to (found + length from)
                           (result @ take (found - pos) (drop pos s) @ to)
         | None \<Rightarrow> Some (result @ drop pos s))
      else Some result)"

definition str_replace :: "string \<Rightarrow> string \<Rightarrow> string \<Rightarrow> string option" where
  "str_replace s from to = replace_loop s from to 0 []"

partial_function (option) split_loop :: "string \<Rightarrow> string \<Rightarrow> bool \<Rightarrow> nat \<Rightarrow> string list \<Rightarrow> string list option" where
  "split_loop s delim include_empty last_offset result =
     (if last_offset \<le> length s then
        (case str_find_from s delim last_offset of
           None \<Rightarrow>
             (let last_str = (if last_offset < length s then drop last_offset s else [])
              in Some (if include_empty \<or> last_str \<noteq> [] then result @ [last_str] else result))
         | Some new_offset \<Rightarrow>
             (let last_str = take (new_offset - last_offset) (drop last_offset s)
              in split_loop s delim include_empty (new_offset + length delim)
                   (if include_empty \<or> last_str \<noteq> [] then result @ [last_str] else result)))
      else Some result)"

definition str_split :: "string \<Rightarrow> string \<Rightarrow> bool \<Rightarrow> string list option" where
  "str_split s delim include_empty = split_loop s delim include_empty 0 []"

fun trim_start :: "string \<Rightarrow> nat" where
  "trim_start [] = 0"
| "trim_start (c # s) = (if isspace_c c then Suc (trim_start s) else 0)"

fun trim_end :: "string \<Rightarrow> nat \<Rightarrow> nat" where
  "trim_end s 0 = 0"
| "trim_end s (Suc end_pos) = (if isspace_c (s ! end_pos) then trim_end s end_pos else end_pos)"

definition str_trim :: "string \<Rightarrow> string" where
  "str_trim s =
     (let start_pos = trim_start s in
      if start_pos \<ge> length s then []
      else take (trim_end s (length s) - start_pos + 1) (drop start_pos s))"

fun hash_loop :: "(char \<Rightarrow> char) \<Rightarrow> string \<Rightarrow> u64 \<Rightarrow> u64" where
  "hash_loop f [] h = h"
| "hash_loop f (c # s) h = hash_loop f s ((h * 1099511628211) XOR scast (of_char (f c) :: u8))"

definition str_get_hash :: "string \<Rightarrow> u64" where
  "str_get_hash s = hash_loop id s 0"

definition str_get_hash_ignore_case :: "string \<Rightarrow> u64" where
  "str_get_hash_ignore_case s = hash_loop toupper_c s 0"

section \<open>Search\<close>

lemma strstr_c_Some:
  assumes "strstr_c s pat = Some k"
  shows "k + length pat \<le> length s" "take (length pat) (drop k s) = pat"
    "\<And>j. j < k \<Longrightarrow> take (length pat) (drop j s) \<noteq> pat"
  using assms
proof (induction s arbitrary: k)
  case Nil
  { case 1 with Nil show ?case by (simp split: if_splits) }
  { case 2 with Nil show ?case by (simp split: if_splits) }
  { case 3 with Nil show ?case by (simp split: if_splits) }
next
  case (Cons c s)
  { case 1 with Cons show ?case
      by (auto split: if_splits dest: arg_cong [of _ _ length]) }
  { case 2 with Cons show ?case by (auto split: if_splits) }
  { case (3 j) with Cons show ?case
      by (cases j) (auto split: if_splits) }
qed

lemma strstr_c_None: "strstr_c s pat = None \<Longrightarrow> j \<le> length s \<Longrightarrow> take (length pat) (drop j s) \<noteq> pat"
proof (induction s arbitrary: j)
  case Nil
  then show ?case by (simp split: if_splits)
next
  case (Cons c s)
  then show ?case by (cases j) (auto split: if_splits)
qed

lemma strstr_c_progress:
  assumes "strstr_c s d = Some k" "d \<noteq> []"
  shows "length s - (k + length d) < length s"
proof -
  have "0 < length d" using assms(2) by simp
  then show ?thesis using strstr_c_Some(1) [OF assms(1)] by linarith
qed

lemma c_str_id: "CHR 0x00 \<notin> set s \<Longrightarrow> c_str s = s"
  by (auto simp: c_str_def takeWhile_eq_all_conv)

lemma str_find_from_suffix:
  assumes "CHR 0x00 \<notin> set s" "CHR 0x00 \<notin> set pat" "pat \<noteq> []" "pos \<le> length s"
  shows "str_find_from s pat pos = map_option ((+) pos) (strstr_c (drop pos s) pat)"
proof (cases "pos = length s")
  case True
  then show ?thesis using assms by (simp add: str_find_from_def)
next
  case False
  moreover have "CHR 0x00 \<notin> set (drop pos s)" using assms(1) by (meson in_set_dropD)
  ultimately show ?thesis using assms by (simp add: str_find_from_def c_str_id)
qed

section \<open>Splitting and replacing\<close>

function pieces :: "string \<Rightarrow> string \<Rightarrow> string list" where
  "pieces s delim =
     (case strstr_c s delim of
        None \<Rightarrow> [s]
      | Some k \<Rightarrow> if delim = [] then [s] else take k s # pieces (drop (k + length delim) s) delim)"
  by pat_completeness auto
termination
  by (relation "measure (\<lambda>(s, delim). length s)") (auto dest: strstr_c_progress)

declare pieces.simps [simp del]

fun join_with :: "string \<Rightarrow> string list \<Rightarrow> string" where
  "join_with d [] = []"
| "join_with d [p] = p"
| "join_with d (p # ps) = p @ d @ join_with d ps"

lemma pieces_nonempty: "pieces s d \<noteq> []"
  by (subst pieces.simps) (simp split: option.split)

lemma join_with_Cons: "ps \<noteq> [] \<Longrightarrow> join_with d (p # ps) = p @ d @ join_with d ps"
  by (cases ps) simp_all

lemma join_pieces: "join_with d (pieces s d) = s"
proof (induction s d rule: pieces.induct)
  case (1 s d)
  show ?case
  proof (cases "strstr_c s d")
    case None
    then show ?thesis by (simp add: pieces.simps [of s d])
  next
    case (Some k)
    show ?thesis
    proof (cases "d = []")
      case True
      then show ?thesis using Some by (simp add: pieces.simps [of s "[]"])
    next
      case False
      have "s = take k s @ take (length d) (drop k s) @ drop (k + length d) s"
        by (metis append_take_drop_id drop_drop add.commute)
      then show ?thesis
        using Some False 1 strstr_c_Some(2) [OF Some]
        by (simp add: pieces.simps [of s d] join_with_Cons pieces_nonempty)
    qed
  qed
qed

lemma split_loop_pieces:
  assumes "CHR 0x00 \<notin> set s" "CHR 0x00 \<notin> set d" "d \<noteq> []" "off \<le> length s"
  shows "split_loop s d inc off res = Some (res @ List.filter (\<lambda>p. inc \<or> p \<noteq> []) (pieces (drop off s) d))"
  using assms(4)
proof (induction "length s - off" arbitrary: off res rule: less_induct)
  case less
  show ?case
  proof (cases "strstr_c (drop off s) d")
    case None
    then show ?thesis
      using less.prems assms(1,2,3)
      by (auto simp: split_loop.simps [of s d] str_find_from_suffix pieces.simps [of "drop off s"])
  next
    case (Some k)
    have "k + length d \<le> length s - off" using strstr_c_Some(1) [OF Some] by simp
    moreover have "0 < length d" using assms(3) by simp
    ultimately have "off < length s" "length s - (off + k + length d) < length s - off"
      "off + k + length d \<le> length s" by linarith+
    then show ?thesis
      using less.hyps [of "off + k + length d"] less.prems assms(1,2,3) Some
      by (simp add: split_loop.simps [of s d _ off] str_find_from_suffix pieces.simps [of "drop off s"]
          ac_simps)
  qed
qed

lemma replace_loop_pieces:
  assumes "CHR 0x00 \<notin> set s" "CHR 0x00 \<notin> set d" "d \<noteq> []" "off \<le> length s"
  shows "replace_loop s d to off res = Some (res @ join_with to (pieces (drop off s) d))"
  using assms(4)
proof (induction "length s - off" arbitrary: off res rule: less_induct)
  case less
  show ?case
  proof (cases "strstr_c (drop off s) d")
    case None
    then show ?thesis
      using less.prems assms(1,2,3)
      by (simp add: replace_loop.simps [of s d] str_find_from_suffix pieces.simps [of "drop off s"])
  next
    case (Some k)
    have "k + length d \<le> length s - off" using strstr_c_Some(1) [OF Some] by simp
    moreover have "0 < length d" using assms(3) by simp
    ultimately have "off < length s" "length s - (off + k + length d) < length s - off"
      "off + k + length d \<le> length s" by linarith+
    then show ?thesis
      using less.hyps [of "off + k + length d" "res @ take k (drop off s) @ to"] less.prems assms(1,2,3) Some
      by (simp add: replace_loop.simps [of s d _ off] str_find_from_suffix pieces.simps [of "drop off s"]
          join_with_Cons pieces_nonempty ac_simps)
  qed
qed

lemma pieces_free:
  assumes "d \<noteq> []" "p \<in> set (pieces s d)"
  shows "strstr_c p d = None"
  using assms
proof (induction s d rule: pieces.induct)
  case (1 s d)
  show ?case
  proof (cases "strstr_c s d")
    case None
    then show ?thesis using "1.prems" by (simp add: pieces.simps [of s d])
  next
    case (Some k)
    then have "p = take k s \<or> p \<in> set (pieces (drop (k + length d) s) d)"
      using "1.prems" by (simp add: pieces.simps [of s d])
    then show ?thesis
    proof
      assume "p \<in> set (pieces (drop (k + length d) s) d)"
      then show ?thesis using 1 Some by simp
    next
      assume p: "p = take k s"
      show ?thesis
      proof (rule ccontr)
        assume "strstr_c p d \<noteq> None"
        then obtain j where j: "strstr_c (take k s) d = Some j" using p by auto
        have "j + length d \<le> k" using strstr_c_Some(1) [OF j] by simp
        moreover from this have "j < k" using "1.prems" by (cases d) auto
        moreover have "take (length d) (drop j s) = d"
          using strstr_c_Some(2) [OF j] \<open>j + length d \<le> k\<close> by (simp add: drop_take min_absorb1)
        ultimately show False using strstr_c_Some(3) [OF Some, of j] by simp
      qed
    qed
  qed
qed

section \<open>Trimming\<close>

lemma trim_start_dropWhile: "drop (trim_start s) s = dropWhile isspace_c s"
  by (induction s) auto

lemma trim_start_length: "length s \<le> trim_start s \<longleftrightarrow> dropWhile isspace_c s = []"
  by (induction s) auto

lemma trim_end_split:
  assumes "\<exists>i < n. \<not> isspace_c (s ! i)" "n \<le> length s"
  shows "\<exists>e < n. trim_end s n = e \<and> \<not> isspace_c (s ! e) \<and> (\<forall>i. e < i \<and> i < n \<longrightarrow> isspace_c (s ! i))"
  using assms by (induction n) (auto simp: less_Suc_eq)

lemma dropWhile_rev_spec:
  assumes "e < length s" "\<not> P (s ! e)" "\<forall>i. e < i \<and> i < length s \<longrightarrow> P (s ! i)"
  shows "rev (dropWhile P (rev s)) = take (Suc e) s"
proof -
  have "s = take (Suc e) s @ drop (Suc e) s" by simp
  moreover have "\<forall>x \<in> set (drop (Suc e) s). P x"
    using assms(3) by (auto simp: in_set_conv_nth)
  ultimately have "dropWhile P (rev s) = dropWhile P (rev (take (Suc e) s))"
    by (metis dropWhile_append2 rev_append set_rev)
  then show ?thesis using assms(1,2) by (simp add: take_Suc_conv_app_nth)
qed

lemma trim_start_le: "i < trim_start s \<Longrightarrow> isspace_c (s ! i)"
  by (induction s arbitrary: i) (auto simp: nth_Cons split: if_splits nat.splits)

lemma trim_start_stop: "trim_start s < length s \<Longrightarrow> \<not> isspace_c (s ! trim_start s)"
  by (induction s) (auto split: if_splits)

section \<open>Properties\<close>

definition occurs_at :: "string \<Rightarrow> string \<Rightarrow> nat \<Rightarrow> bool" where
  "occurs_at s pat k \<longleftrightarrow> k + length pat \<le> length s \<and> take (length pat) (drop k s) = pat"

text \<open>
  C32. On texts without NUL characters and for a non-empty delimiter without NUL characters both loops end. With \<open>include_empty\<close> splitting loses nothing
  (joining the pieces gives the text back), no piece contains the delimiter, and replacing is splitting followed by joining with
  the replacement. Without it, which is the default, the pieces are the same except that the empty ones are left out.
\<close>

theorem str_split_replace:
  assumes "CHR 0x00 \<notin> set s" and "CHR 0x00 \<notin> set d" and "d \<noteq> []"
  shows "\<exists>ps. str_split s d True = Some ps \<and> join_with d ps = s
    \<and> list_all (\<lambda>p. strstr_c p d = None) ps \<and> str_replace s d to = Some (join_with to ps)
    \<and> str_split s d False = Some (List.filter (\<lambda>p. p \<noteq> []) ps)"
proof (intro exI conjI)
  show "str_split s d True = Some (pieces s d)"
    using split_loop_pieces [OF assms, of 0 True "[]"] by (simp add: str_split_def)
  show "str_split s d False = Some (List.filter (\<lambda>p. p \<noteq> []) (pieces s d))"
    using split_loop_pieces [OF assms, of 0 False "[]"] by (simp add: str_split_def)
  show "join_with d (pieces s d) = s" by (rule join_pieces)
  show "list_all (\<lambda>p. strstr_c p d = None) (pieces s d)"
    using pieces_free [OF assms(3)] by (simp add: list_all_iff)
  show "str_replace s d to = Some (join_with to (pieces s d))"
    using replace_loop_pieces [OF assms, of 0 to "[]"] by (simp add: str_replace_def)
qed

theorem str_split_replace_witness:
  "\<exists>ps. str_split ''a..b'' ''.'' True = Some ps \<and> join_with ''.'' ps = ''a..b''
    \<and> list_all (\<lambda>p. strstr_c p ''.'' = None) ps \<and> str_replace ''a..b'' ''.'' ''/'' = Some (join_with ''/'' ps)
    \<and> str_split ''a..b'' ''.'' False = Some (List.filter (\<lambda>p. p \<noteq> []) ps)"
  by (rule str_split_replace) simp_all

text \<open>\<open>trim\<close> removes exactly the leading and the trailing white space.\<close>

theorem str_trim_spec: "str_trim s = rev (dropWhile isspace_c (rev (dropWhile isspace_c s)))"
proof (cases "trim_start s < length s")
  case False
  moreover from this have "dropWhile isspace_c s = []" using trim_start_length [of s] by (simp only: not_less)
  ultimately show ?thesis
    by (simp add: str_trim_def Let_def del: dropWhile_eq_Nil_conv)
next
  case True
  let ?st = "trim_start s"
  obtain e where e: "e < length s" "trim_end s (length s) = e" "\<not> isspace_c (s ! e)"
    "\<forall>i. e < i \<and> i < length s \<longrightarrow> isspace_c (s ! i)"
    using trim_end_split [of "length s" s] True trim_start_stop [OF True] by auto
  have "?st \<le> e" using e(3) trim_start_le [of e s] by force
  moreover from this have "\<forall>i. e - ?st < i \<and> i < length (drop ?st s) \<longrightarrow> isspace_c (drop ?st s ! i)"
    by (auto intro!: e(4) [rule_format])
  ultimately have "rev (dropWhile isspace_c (rev (drop ?st s))) = take (Suc (e - ?st)) (drop ?st s)"
    using e by (intro dropWhile_rev_spec) auto
  then show ?thesis using True e(2) by (simp add: str_trim_def Let_def trim_start_dropWhile)
qed

lemma find_last_loop_Some:
  "find_last_loop s pat n = Some k \<longleftrightarrow>
     0 < k \<and> k \<le> n \<and> take (length pat) (drop k s) = pat
     \<and> (\<forall>j. k < j \<and> j \<le> n \<longrightarrow> take (length pat) (drop j s) \<noteq> pat)"
  by (induction n) (auto simp: le_Suc_eq)

text \<open>
  \<open>find_last\<close> returns the last occurrence of a non-empty pattern among the positions after the
  first: an occurrence at position 0 is never reported, because the loop stops at \<open>pos = 0\<close>
  before it compares there.
\<close>

theorem str_find_last_iff:
  "str_find_last s pat = Some k \<longleftrightarrow>
     0 < k \<and> pat \<noteq> [] \<and> occurs_at s pat k \<and> (\<forall>j > k. \<not> occurs_at s pat j)"
proof (cases "pat \<noteq> [] \<and> length pat \<le> length s")
  case True
  then show ?thesis
    by (auto simp: str_find_last_def find_last_loop_Some occurs_at_def)
next
  case False
  then show ?thesis by (auto simp: str_find_last_def occurs_at_def)
qed

theorem str_find_last_iff_witness:
  "str_find_last ''a/b/c'' ''/'' = Some 3 \<and> str_find_last ''/b'' ''/'' = None"
proof
  show "str_find_last ''a/b/c'' ''/'' = Some 3"
    by (subst str_find_last_iff) (auto simp: occurs_at_def le_Suc_eq)
  show "str_find_last ''/b'' ''/'' = None"
  proof (cases "str_find_last ''/b'' ''/''")
    case (Some k)
    then have "0 < k \<and> occurs_at ''/b'' ''/'' k" by (simp only: str_find_last_iff)
    then show ?thesis by (auto simp: occurs_at_def le_Suc_eq)
  qed simp
qed

lemma hash_loop_cong:
  "length s = length t \<Longrightarrow> list_all (\<lambda>(a, b). f a = f b) (zip s t) \<Longrightarrow> hash_loop f s h = hash_loop f t h"
  by (induction s t arbitrary: h rule: list_induct2) auto

text \<open>Strings that are equal up to case have the same case-insensitive hash.\<close>

theorem equals_ignore_case_hash:
  assumes "str_equals_ignore_case s t"
  shows "str_get_hash_ignore_case s = str_get_hash_ignore_case t"
  unfolding str_get_hash_ignore_case_def using assms
  by (intro hash_loop_cong) (auto simp: str_equals_ignore_case_def list_all_iff split: if_splits)

theorem equals_ignore_case_hash_witness:
  "str_get_hash_ignore_case ''Warning'' = str_get_hash_ignore_case ''WARNING''"
  by (rule equals_ignore_case_hash)
    (simp add: str_equals_ignore_case_def toupper_c_def char_of_def bit_iff_odd)

end
