(* ===== verification/Level_Bitmap.thy ===== *)
theory Level_Bitmap
  imports Bq_String
begin

text \<open>
  Level bitmaps and category masks, the two filters of a log object and of an appender:
  \<open>src/bq_log/log/log_level_bitmap.cpp\<close> and \<open>.h\<close>, and the two functions of \<open>src/bq_log/utils/log_utils.cpp\<close>
  that compute them from a configuration value. The configuration value is the variant of
  \<open>src/bq_common/utils/property_ex.h\<close>; decimals are opaque (the type parameter \<open>'d\<close>).
\<close>

datatype 'd property_value =
    Pv_boolean bool
  | Pv_decimal 'd
  | Pv_integral "64 word"
  | Pv_string string
  | Pv_array "'d property_value list"
  | Pv_object "(string \<times> 'd property_value) list"
  | Pv_null
  | Pv_invalid

datatype log_level = Verbose | Debug | Info | Warning | Error | Fatal

fun level_code :: "log_level \<Rightarrow> nat" where
  "level_code Verbose = 0"
| "level_code Debug = 1"
| "level_code Info = 2"
| "level_code Warning = 3"
| "level_code Error = 4"
| "level_code Fatal = 5"

section \<open>Level bitmap\<close>

definition bitmap_clear :: u32 where
  "bitmap_clear = 0"

definition have_level :: "u32 \<Rightarrow> log_level \<Rightarrow> bool" where
  "have_level bitmap level \<longleftrightarrow> bitmap AND push_bit (level_code level) 1 \<noteq> 0"

definition add_level :: "u32 \<Rightarrow> log_level \<Rightarrow> u32" where
  "add_level bitmap level = bitmap OR push_bit (level_code level) 1"

definition del_level :: "u32 \<Rightarrow> log_level \<Rightarrow> u32" where
  "del_level bitmap level = bitmap AND NOT (push_bit (level_code level) 1)"

definition add_level_string :: "u32 \<Rightarrow> string \<Rightarrow> u32" where
  "add_level_string bitmap s =
     (if str_equals_ignore_case s ''all'' then 0xFFFFFFFF
      else if str_equals_ignore_case s ''verbose'' then add_level bitmap Verbose
      else if str_equals_ignore_case s ''debug'' then add_level bitmap Debug
      else if str_equals_ignore_case s ''info'' then add_level bitmap Info
      else if str_equals_ignore_case s ''warning'' then add_level bitmap Warning
      else if str_equals_ignore_case s ''error'' then add_level bitmap Error
      else if str_equals_ignore_case s ''fatal'' then add_level bitmap Fatal
      else bitmap)"

section \<open>From the configuration\<close>

fun level_bitmap_loop :: "'d property_value list \<Rightarrow> u32 \<Rightarrow> u32" where
  "level_bitmap_loop [] tmp = tmp"
| "level_bitmap_loop (Pv_string s # items) tmp = level_bitmap_loop items (add_level_string tmp (str_trim s))"
| "level_bitmap_loop (_ # items) tmp = level_bitmap_loop items tmp"

definition get_log_level_bitmap_by_config :: "'d property_value \<Rightarrow> bool \<times> u32" where
  "get_log_level_bitmap_by_config cfg =
     (case cfg of Pv_array items \<Rightarrow> (True, level_bitmap_loop items 0)
      | _ \<Rightarrow> (False, bitmap_clear))"

fun mask_strings :: "'d property_value list \<Rightarrow> string list" where
  "mask_strings [] = []"
| "mask_strings (Pv_string s # items) = s # mask_strings items"
| "mask_strings (_ # items) = mask_strings items"

fun category_mask_loop :: "nat \<Rightarrow> string \<Rightarrow> string list \<Rightarrow> nat" where
  "category_mask_loop i name [] = 0"
| "category_mask_loop i name (m # ms) =
     (if name = m
         \<or> (length name > length m \<and> str_begin_with name m \<and> name ! length m = CHR ''.'') then 1
      else if i = 0 \<and> m = ''*default'' then 1
      else category_mask_loop i name ms)"

definition get_categories_mask_by_config :: "string list \<Rightarrow> 'd property_value \<Rightarrow> nat list" where
  "get_categories_mask_by_config names cfg =
     (let tmp = (case cfg of Pv_array items \<Rightarrow> mask_strings items | _ \<Rightarrow> [])
      in map (\<lambda>i. if tmp = [] then 1 else category_mask_loop i (names ! i) tmp) [0..<length names])"

section \<open>Lemmas\<close>

lemma level_code_less: "level_code l < 32"
  by (cases l) simp_all

lemma level_code_inject: "level_code l = level_code l' \<longleftrightarrow> l = l'"
  by (cases l; cases l') simp_all

lemma have_level_bit: "have_level b l \<longleftrightarrow> bit b (level_code l)"
proof -
  have "b AND push_bit (level_code l) 1 = (if bit b (level_code l) then push_bit (level_code l) 1 else 0)"
    by (rule bit_word_eqI) (auto simp: bit_simps)
  moreover have "push_bit (level_code l) (1 :: u32) \<noteq> 0"
    by (cases l) simp_all
  ultimately show ?thesis by (simp add: have_level_def)
qed

lemma have_level_add: "have_level (add_level b l) l' \<longleftrightarrow> l' = l \<or> have_level b l'"
  using level_code_less [of l']
  by (auto simp: have_level_bit add_level_def bit_simps level_code_inject)

lemma have_level_del: "have_level (del_level b l) l' \<longleftrightarrow> l' \<noteq> l \<and> have_level b l'"
  using level_code_less [of l']
  by (auto simp: have_level_bit del_level_def bit_simps level_code_inject)

lemma have_level_zero: "\<not> have_level 0 l"
  by (simp add: have_level_def)

lemma have_level_full: "have_level 0xFFFFFFFF l"
  by (cases l) (simp_all add: have_level_def)

fun level_name :: "log_level \<Rightarrow> string" where
  "level_name Verbose = ''verbose''"
| "level_name Debug = ''debug''"
| "level_name Info = ''info''"
| "level_name Warning = ''warning''"
| "level_name Error = ''error''"
| "level_name Fatal = ''fatal''"

definition names_level :: "string \<Rightarrow> log_level \<Rightarrow> bool" where
  "names_level s l \<longleftrightarrow> str_equals_ignore_case s ''all'' \<or> str_equals_ignore_case s (level_name l)"

lemma equals_ignore_case_upper: "str_equals_ignore_case s t \<longleftrightarrow> map toupper_c s = map toupper_c t"
  by (auto simp: str_equals_ignore_case_def list_all_length list_eq_iff_nth_eq)

lemma toupper_names:
  "map toupper_c ''all'' = ''ALL''" "map toupper_c (level_name Verbose) = ''VERBOSE''"
  "map toupper_c (level_name Debug) = ''DEBUG''" "map toupper_c (level_name Info) = ''INFO''"
  "map toupper_c (level_name Warning) = ''WARNING''" "map toupper_c (level_name Error) = ''ERROR''"
  "map toupper_c (level_name Fatal) = ''FATAL''"
  by (simp_all add: toupper_c_def char_of_def bit_iff_odd)

lemma have_level_add_string:
  "have_level (add_level_string b s) l \<longleftrightarrow> names_level s l \<or> have_level b l"
proof -
  note names = toupper_names [unfolded level_name.simps]
  show ?thesis
    unfolding add_level_string_def names_level_def equals_ignore_case_upper
    by (cases l) (simp_all only: names level_name.simps, auto simp: have_level_add have_level_full)
qed

lemma have_level_loop:
  "have_level (level_bitmap_loop items b) l \<longleftrightarrow>
     (\<exists>s. Pv_string s \<in> set items \<and> names_level (str_trim s) l) \<or> have_level b l"
  by (induction items b rule: level_bitmap_loop.induct) (auto simp: have_level_add_string)

lemma set_mask_strings: "set (mask_strings items) = {s. Pv_string s \<in> set items}"
  by (induction items rule: mask_strings.induct) auto

definition category_matches :: "string \<Rightarrow> string \<Rightarrow> bool" where
  "category_matches name m \<longleftrightarrow> name = m \<or> (\<exists>rest. name = m @ CHR ''.'' # rest)"

lemma category_test:
  "(name = m \<or> length name > length m \<and> str_begin_with name m \<and> name ! length m = CHR ''.'')
     \<longleftrightarrow> category_matches name m"
proof
  assume "name = m \<or> length name > length m \<and> str_begin_with name m \<and> name ! length m = CHR ''.''"
  then show "category_matches name m"
    by (auto simp: category_matches_def str_begin_with_def split: if_splits)
      (metis append_take_drop_id Cons_nth_drop_Suc)
qed (auto simp: category_matches_def str_begin_with_def)

lemma category_mask_loop_iff:
  "category_mask_loop i name ms = 1 \<longleftrightarrow>
     (\<exists>m \<in> set ms. category_matches name m) \<or> (i = 0 \<and> ''*default'' \<in> set ms)"
  by (induction ms) (auto simp: category_test [simplified])

section \<open>Properties\<close>

text \<open>
  C33. A configured level list enables exactly the levels it names: level \<open>l\<close> passes the computed bitmap
  iff some string item of the array is, after trimming and up to case, \<open>all\<close> or the name of \<open>l\<close>. Any other
  configuration value is refused and leaves every level disabled.
\<close>

theorem level_bitmap_config:
  "(case cfg of
      Pv_array items \<Rightarrow>
        fst (get_log_level_bitmap_by_config cfg)
        \<and> (have_level (snd (get_log_level_bitmap_by_config cfg)) l
             \<longleftrightarrow> (\<exists>s. Pv_string s \<in> set items \<and> names_level (str_trim s) l))
    | _ \<Rightarrow> \<not> fst (get_log_level_bitmap_by_config cfg)
           \<and> \<not> have_level (snd (get_log_level_bitmap_by_config cfg)) l)"
  by (simp add: get_log_level_bitmap_by_config_def bitmap_clear_def have_level_loop have_level_zero
      split: property_value.split)

text \<open>
  Adding and deleting a level changes that level only, and deleting undoes adding.
\<close>

theorem level_bitmap_update:
  assumes "\<not> have_level b l"
  shows "(have_level (add_level b l) l' \<longleftrightarrow> l' = l \<or> have_level b l')
    \<and> (have_level (del_level b l) l' \<longleftrightarrow> l' \<noteq> l \<and> have_level b l')
    \<and> del_level (add_level b l) l = b"
proof -
  have "del_level (add_level b l) l = b"
    using assms by (intro bit_word_eqI) (auto simp: have_level_bit add_level_def del_level_def bit_simps)
  then show ?thesis by (simp add: have_level_add have_level_del)
qed

theorem level_bitmap_update_witness:
  "(have_level (add_level 3 Fatal) Info \<longleftrightarrow> Info = Fatal \<or> have_level 3 Info)
   \<and> (have_level (del_level 3 Fatal) Info \<longleftrightarrow> Info \<noteq> Fatal \<and> have_level 3 Info)
   \<and> del_level (add_level 3 Fatal) Fatal = 3"
  by (rule level_bitmap_update) (simp add: have_level_def)

text \<open>
  C24. The category mask has one entry per category. With no mask strings every category is enabled;
  otherwise category \<open>i\<close> is enabled iff a mask string is its name or a dotted ancestor of it, or it
  is the default category and \<open>*default\<close> is listed.
\<close>

theorem categories_mask_config:
  assumes "i < length names"
  shows "length (get_categories_mask_by_config names (Pv_array items)) = length names
    \<and> (get_categories_mask_by_config names (Pv_array items) ! i = 1
        \<longleftrightarrow> (\<forall>s. Pv_string s \<notin> set items)
           \<or> (\<exists>m. Pv_string m \<in> set items \<and> category_matches (names ! i) m)
           \<or> (i = 0 \<and> Pv_string ''*default'' \<in> set items))"
proof -
  have "mask_strings items = [] \<longleftrightarrow> (\<forall>s. Pv_string s \<notin> set items)"
    using set_mask_strings [of items] by (metis empty_Collect_eq set_empty)
  then show ?thesis
    using assms category_mask_loop_iff [of i "names ! i" "mask_strings items"]
    by (auto simp: get_categories_mask_by_config_def Let_def set_mask_strings)
qed

theorem categories_mask_config_witness:
  "get_categories_mask_by_config ['''', ''a'', ''a.b'', ''ab''] (Pv_array [Pv_string ''a'' :: unit property_value]) ! 2 = 1"
  using categories_mask_config [of 2 "['''', ''a'', ''a.b'', ''ab'']" "[Pv_string ''a'' :: unit property_value]"]
  by (simp add: category_matches_def)

end
