(* ===== verification/Vernam.thy ===== *)
theory Vernam
  imports Prelude
begin

text \<open>
  The stream cipher of encrypted log segments, \<open>src/bq_common/encryption/vernam.cpp\<close>: the bytes of a buffer are
  combined with a key that repeats, starting at a position of the key stream. The four
  implementations (scalar, SSE, AVX2, NEON) treat the bytes up to the first aligned address one by one, then whole
  blocks of \<open>w\<close> = 8, 16, 32 or 16 bytes as long as the key is contiguous, then the rest.
  The buffer is the list \<open>buf\<close> and the address \<open>addr\<close> of its first byte. The result \<open>None\<close> is a read
  outside the key or a loop that does not end. The power-of-two size of the key is its length.
\<close>

section \<open>Loops\<close>

text \<open>The byte loop of the tails, and of the scalar and SSE heads: the position wraps with the mask.\<close>

fun xor_bytes_masked :: "u8 list \<Rightarrow> u8 list \<Rightarrow> nat \<Rightarrow> (u8 list \<times> nat) option" where
  "xor_bytes_masked key [] pos = Some ([], pos)"
| "xor_bytes_masked key (b # bs) pos =
     (if pos < length key then
        (case xor_bytes_masked key bs ((pos + 1) AND (length key - 1)) of
           None \<Rightarrow> None
         | Some (out, pos') \<Rightarrow> Some ((b XOR key ! pos) # out, pos'))
      else None)"

text \<open>The byte loop of the AVX2 and NEON heads: \<open>current_key_pos++\<close> without the mask.\<close>

fun xor_bytes_plain :: "u8 list \<Rightarrow> u8 list \<Rightarrow> nat \<Rightarrow> (u8 list \<times> nat) option" where
  "xor_bytes_plain key [] pos = Some ([], pos)"
| "xor_bytes_plain key (b # bs) pos =
     (if pos < length key then
        (case xor_bytes_plain key bs (pos + 1) of
           None \<Rightarrow> None
         | Some (out, pos') \<Rightarrow> Some ((b XOR key ! pos) # out, pos'))
      else None)"

text \<open>
  The block loop: \<open>n\<close> blocks of \<open>w\<close> bytes, one 64, 128 or 256 bit exclusive or each.
\<close>

fun xor_blocks :: "nat \<Rightarrow> nat \<Rightarrow> u8 list \<Rightarrow> u8 list \<Rightarrow> u8 list" where
  "xor_blocks w 0 p k = []"
| "xor_blocks w (Suc n) p k = map2 (XOR) (take w p) (take w k) @ xor_blocks w n (drop w p) (drop w k)"

partial_function (option) bulk_loop ::
    "nat \<Rightarrow> u8 list \<Rightarrow> u8 list \<Rightarrow> nat \<Rightarrow> u8 list \<Rightarrow> (u8 list \<times> u8 list \<times> nat) option" where
  "bulk_loop w key p pos out =
     (if w \<le> length p then
        (let contiguous_key_len = length key - pos;
             chunk_len = (if contiguous_key_len < length p then contiguous_key_len else length p);
             loop_len = chunk_len - (chunk_len AND (w - 1));
             res = xor_blocks w (loop_len div w) p (drop pos key);
             pos' = pos + loop_len
         in bulk_loop w key (drop loop_len p) (if pos' = length key then 0 else pos') (out @ res))
      else Some (out, p, pos))"

definition head_len :: "nat \<Rightarrow> nat \<Rightarrow> nat \<Rightarrow> nat" where
  "head_len w addr remaining =
     (let align_diff = (w - (addr AND (w - 1))) AND (w - 1)
      in if align_diff < remaining then align_diff else remaining)"

definition bulk_and_tail :: "nat \<Rightarrow> u8 list \<Rightarrow> u8 list \<Rightarrow> nat \<Rightarrow> u8 list \<Rightarrow> u8 list option" where
  "bulk_and_tail w key p pos out =
     (case bulk_loop w key p pos out of
        None \<Rightarrow> None
      | Some (out', p', pos') \<Rightarrow>
          map_option (\<lambda>(tl, _). out' @ tl) (xor_bytes_masked key p' (pos' AND (length key - 1))))"

section \<open>The four implementations and the dispatcher\<close>

definition vernam_encrypt_scalar :: "u8 list \<Rightarrow> nat \<Rightarrow> u8 list \<Rightarrow> nat \<Rightarrow> u8 list option" where
  "vernam_encrypt_scalar buf addr key key_stream_offset =
     (if buf = [] then Some []
      else
        (let h = head_len 8 addr (length buf) in
         case xor_bytes_masked key (take h buf) (key_stream_offset AND (length key - 1)) of
           None \<Rightarrow> None
         | Some (out, pos) \<Rightarrow>
             if drop h buf = [] then Some out else bulk_and_tail 8 key (drop h buf) pos out))"

definition vernam_encrypt_sse :: "u8 list \<Rightarrow> nat \<Rightarrow> u8 list \<Rightarrow> nat \<Rightarrow> u8 list option" where
  "vernam_encrypt_sse buf addr key key_stream_offset =
     (let h = head_len 16 addr (length buf) in
      case xor_bytes_masked key (take h buf) (key_stream_offset AND (length key - 1)) of
        None \<Rightarrow> None
      | Some (out, pos) \<Rightarrow>
          if length (drop h buf) < 16 then
            map_option (\<lambda>(tl, _). out @ tl) (xor_bytes_masked key (drop h buf) (pos AND (length key - 1)))
          else bulk_and_tail 16 key (drop h buf) pos out)"

definition vernam_encrypt_avx2 :: "u8 list \<Rightarrow> nat \<Rightarrow> u8 list \<Rightarrow> nat \<Rightarrow> u8 list option" where
  "vernam_encrypt_avx2 buf addr key key_stream_offset =
     (let h = head_len 32 addr (length buf) in
      case xor_bytes_plain key (take h buf) (key_stream_offset AND (length key - 1)) of
        None \<Rightarrow> None
      | Some (out, pos) \<Rightarrow>
          if length (drop h buf) < 32 then
            map_option (\<lambda>(tl, _). out @ tl) (xor_bytes_masked key (drop h buf) (pos AND (length key - 1)))
          else bulk_and_tail 32 key (drop h buf) pos out)"

definition vernam_encrypt_neon :: "u8 list \<Rightarrow> nat \<Rightarrow> u8 list \<Rightarrow> nat \<Rightarrow> u8 list option" where
  "vernam_encrypt_neon buf addr key key_stream_offset =
     (let h = head_len 16 addr (length buf) in
      case xor_bytes_plain key (take h buf) (key_stream_offset AND (length key - 1)) of
        None \<Rightarrow> None
      | Some (out, pos) \<Rightarrow> bulk_and_tail 16 key (drop h buf) pos out)"

text \<open>The platform the library is built for, with the run-time AVX2 flag on x86.\<close>

datatype platform = X86 bool | Arm_neon | Arm_plain | Other_cpu

fun vernam_encrypt_32bytes_aligned :: "platform \<Rightarrow> u8 list \<Rightarrow> nat \<Rightarrow> u8 list \<Rightarrow> nat \<Rightarrow> u8 list option" where
  "vernam_encrypt_32bytes_aligned (X86 avx2_support) buf addr key off =
     (if avx2_support then vernam_encrypt_avx2 buf addr key off else vernam_encrypt_sse buf addr key off)"
| "vernam_encrypt_32bytes_aligned Arm_neon buf addr key off = vernam_encrypt_neon buf addr key off"
| "vernam_encrypt_32bytes_aligned Arm_plain buf addr key off = vernam_encrypt_scalar buf addr key off"
| "vernam_encrypt_32bytes_aligned Other_cpu buf addr key off = vernam_encrypt_scalar buf addr key off"

section \<open>The key stream\<close>

fun key_stream_xor :: "u8 list \<Rightarrow> nat \<Rightarrow> u8 list \<Rightarrow> u8 list" where
  "key_stream_xor key off [] = []"
| "key_stream_xor key off (b # bs) = (b XOR key ! (off mod length key)) # key_stream_xor key (Suc off) bs"

lemma length_key_stream_xor [simp]: "length (key_stream_xor key off bs) = length bs"
  by (induction bs arbitrary: off) auto

lemma key_stream_xor_append:
  "key_stream_xor key off (xs @ ys) = key_stream_xor key off xs @ key_stream_xor key (off + length xs) ys"
  by (induction xs arbitrary: off) auto

lemma key_stream_xor_involution: "key_stream_xor key off (key_stream_xor key off bs) = bs"
  by (induction bs arbitrary: off) (auto simp: xor.assoc)

lemma key_stream_xor_cong_mod:
  "off mod length key = off' mod length key \<Longrightarrow> key_stream_xor key off bs = key_stream_xor key off' bs"
proof (induction bs arbitrary: off off')
  case (Cons b bs)
  then have "Suc off mod length key = Suc off' mod length key"
    using mod_Suc_eq [of off "length key"] mod_Suc_eq [of off' "length key"] by simp
  then show ?case using Cons.IH [of "Suc off" "Suc off'"] Cons.prems by simp
qed simp

lemma key_stream_xor_mod [simp]: "key_stream_xor key (off mod length key) bs = key_stream_xor key off bs"
  by (rule key_stream_xor_cong_mod) simp

section \<open>The loops compute the key stream\<close>

lemma xor_bytes_masked_eq:
  assumes "pow2 (length key)" "pos < length key"
  shows "xor_bytes_masked key bs pos = Some (key_stream_xor key pos bs, (pos + length bs) mod length key)"
  using assms(2)
proof (induction bs arbitrary: pos)
  case Nil
  then show ?case by simp
next
  case (Cons b bs)
  have "(pos + 1) AND (length key - 1) = Suc pos mod length key"
    using assms(1) by (simp add: pow2_and_mask [OF assms(1)])
  then show ?case
    using Cons pow2_pos [OF assms(1)] by (simp add: mod_simps)
qed

lemma xor_bytes_plain_eq:
  assumes "pos + length bs \<le> length key"
  shows "xor_bytes_plain key bs pos = Some (key_stream_xor key pos bs, pos + length bs)"
  using assms by (induction bs arbitrary: pos) simp_all

lemma key_stream_xor_map2:
  assumes "pos + length bs \<le> length key"
  shows "key_stream_xor key pos bs = map2 (XOR) bs (take (length bs) (drop pos key))"
  using assms
proof (induction bs arbitrary: pos)
  case (Cons b bs)
  then have "drop pos key = key ! pos # drop (Suc pos) key"
    by (simp add: Cons_nth_drop_Suc)
  then show ?case using Cons by simp
qed simp

lemma xor_blocks_eq:
  assumes "pos + n * w \<le> length key" "n * w \<le> length p"
  shows "xor_blocks w n p (drop pos key) = key_stream_xor key pos (take (n * w) p)"
  using assms
proof (induction n arbitrary: pos p)
  case (Suc n)
  have "take (w + n * w) p = take w p @ take (n * w) (drop w p)" by (simp add: take_add)
  moreover have "map2 (XOR) (take w p) (take w (drop pos key)) = key_stream_xor key pos (take w p)"
    using Suc.prems by (subst key_stream_xor_map2) auto
  moreover have "xor_blocks w n (drop w p) (drop (pos + w) key)
      = key_stream_xor key (pos + w) (take (n * w) (drop w p))"
    using Suc.prems by (intro Suc.IH) auto
  ultimately show ?case
    using Suc.prems by (simp add: key_stream_xor_append min_absorb1 ac_simps)
qed simp

lemma bulk_loop_eq:
  assumes key: "pow2 (length key)" and w: "pow2 w" "w \<le> length key"
    and pos: "w dvd pos" "pos \<le> length key"
  shows "\<exists>n pos'. bulk_loop w key p pos out = Some (out @ key_stream_xor key pos (take n p), drop n p, pos')
    \<and> pos' \<le> length key \<and> pos' mod length key = (pos + n) mod length key \<and> n \<le> length p"
  using pos
proof (induction "2 * length p + (if pos = length key then 1 else 0)" arbitrary: p pos out rule: less_induct)
  case less
  show ?case
  proof (cases "w \<le> length p")
    case False
    then show ?thesis using less.prems by (intro exI [of _ 0] exI [of _ pos]) (simp add: bulk_loop.simps)
  next
    case True
    define chunk where "chunk = (if length key - pos < length p then length key - pos else length p)"
    define n where "n = chunk - (chunk AND (w - 1))"
    define pos' where "pos' = (if pos + n = length key then 0 else pos + n)"
    have w0: "0 < w" using w(1) by (rule pow2_pos)
    have n: "n = chunk div w * w" by (simp add: n_def pow2_and_mask [OF w(1)] minus_mod_eq_div_mult)
    then have n_le: "n \<le> chunk" by simp
    then have bounds: "n \<le> length p" "pos + n \<le> length key"
      using less.prems by (auto simp: chunk_def split: if_splits)
    have "w dvd n" by (simp add: n)
    then have dvd': "w dvd pos'" using less.prems by (simp add: pos'_def)
    have wkey: "w dvd length key" using pow2_dvd [OF w(1) key w(2)] .
    have progress: "pos = length key \<and> n = 0 \<or> w \<le> n"
    proof (cases "pos = length key")
      case True
      then show ?thesis using n_le by (simp add: chunk_def split: if_splits)
    next
      case False
      then have "0 < length key - pos" using less.prems by simp
      moreover have "w dvd length key - pos" using wkey less.prems(1) by (rule dvd_diff_nat)
      ultimately have "w \<le> length key - pos" by (auto dest: dvd_imp_le)
      then have "w \<le> chunk" using True by (simp add: chunk_def)
      then have "1 \<le> chunk div w" using w0 by (simp add: Suc_le_eq div_greater_zero_iff)
      then show ?thesis by (simp add: n)
    qed
    have key0: "0 < length key" using key by (rule pow2_pos)
    have step: "bulk_loop w key p pos out
        = bulk_loop w key (drop n p) pos' (out @ key_stream_xor key pos (take n p))"
    proof -
      have "n div w * w = n" using \<open>w dvd n\<close> by simp
      then have blocks: "xor_blocks w (n div w) p (drop pos key) = key_stream_xor key pos (take n p)"
        using bounds xor_blocks_eq [of pos "n div w" w key p] by simp
      show ?thesis
        by (subst bulk_loop.simps, unfold Let_def if_P [OF True] chunk_def [symmetric] n_def [symmetric]
            pos'_def [symmetric] blocks) (rule refl)
    qed
    have mod': "pos' mod length key = (pos + n) mod length key" by (simp add: pos'_def)
    have "\<exists>m pos''. bulk_loop w key (drop n p) pos' (out @ key_stream_xor key pos (take n p))
        = Some ((out @ key_stream_xor key pos (take n p)) @ key_stream_xor key pos' (take m (drop n p)),
            drop m (drop n p), pos'')
      \<and> pos'' \<le> length key \<and> pos'' mod length key = (pos' + m) mod length key \<and> m \<le> length (drop n p)"
    proof (rule less.hyps)
      show "2 * length (drop n p) + (if pos' = length key then 1 else 0)
          < 2 * length p + (if pos = length key then 1 else 0)"
        using progress bounds w0 key0 by (auto simp: pos'_def)
      show "w dvd pos'" by (rule dvd')
      show "pos' \<le> length key" using bounds by (simp add: pos'_def)
    qed
    then obtain m pos'' where m: "bulk_loop w key p pos out
        = Some (out @ key_stream_xor key pos (take n p) @ key_stream_xor key pos' (take m (drop n p)),
            drop (m + n) p, pos'')"
      "pos'' \<le> length key" "pos'' mod length key = (pos' + m) mod length key" "m \<le> length p - n"
      by (auto simp: step)
    have "key_stream_xor key pos' (take m (drop n p)) = key_stream_xor key (pos + n) (take m (drop n p))"
      using mod' by (rule key_stream_xor_cong_mod)
    then have "key_stream_xor key pos (take n p) @ key_stream_xor key pos' (take m (drop n p))
        = key_stream_xor key pos (take (n + m) p)"
      using bounds by (simp add: take_add key_stream_xor_append min_absorb1)
    moreover have "(pos' + m) mod length key = (pos + (n + m)) mod length key"
      using mod' by (metis add.assoc mod_add_left_eq)
    ultimately show ?thesis
      using m bounds by (intro exI [of _ "n + m"] exI [of _ pos'']) (simp add: ac_simps)
  qed
qed

lemma bulk_and_tail_eq:
  assumes key: "pow2 (length key)" and w: "pow2 w" "w \<le> length key"
    and pos: "length p < w \<or> w dvd pos \<and> pos \<le> length key"
  shows "bulk_and_tail w key p pos out = Some (out @ key_stream_xor key pos p)"
proof (cases "length p < w")
  case True
  then show ?thesis using pow2_pos [OF key]
    by (simp add: bulk_and_tail_def bulk_loop.simps pow2_and_mask [OF key] xor_bytes_masked_eq [OF key])
next
  case False
  then obtain n pos' where n:
    "bulk_loop w key p pos out = Some (out @ key_stream_xor key pos (take n p), drop n p, pos')"
    "pos' mod length key = (pos + n) mod length key" "n \<le> length p"
    using bulk_loop_eq [OF key w, of pos p out] pos by blast
  have "key_stream_xor key pos p = key_stream_xor key pos (take n p) @ key_stream_xor key (pos + n) (drop n p)"
    using key_stream_xor_append [of key pos "take n p" "drop n p"] n(3) by (simp add: min_absorb1)
  moreover have "key_stream_xor key pos' (drop n p) = key_stream_xor key (pos + n) (drop n p)"
    using n(2) by (rule key_stream_xor_cong_mod)
  ultimately show ?thesis using n pow2_pos [OF key]
    by (simp add: bulk_and_tail_def pow2_and_mask [OF key] xor_bytes_masked_eq [OF key])
qed

lemma dvd_mod_add_complement: "0 < w \<Longrightarrow> (w :: nat) dvd x + (w - x mod w) mod w"
  by (metis add.commute add_diff_inverse_nat dvd_eq_mod_eq_0 mod_add_left_eq mod_add_right_eq
      mod_less_divisor mod_self not_less_iff_gr_or_eq)

lemma head_len_eq:
  fixes n :: nat
  assumes key: "pow2 (length key)" and w: "pow2 w" "w \<le> length key"
    and align: "addr mod w = off mod w"
  defines "h \<equiv> head_len w addr n" and "pos \<equiv> off mod length key"
  shows "h \<le> n" "pos + h \<le> length key" "n - h < w \<or> w dvd pos + h"
proof -
  have w0: "0 < w" using w(1) by (rule pow2_pos)
  have key0: "0 < length key" using key by (rule pow2_pos)
  have wkey: "w dvd length key" using pow2_dvd [OF w(1) key w(2)] .
  define d where "d = (w - addr mod w) mod w"
  have h: "h = min d n" by (simp add: h_def head_len_def d_def Let_def pow2_and_mask [OF w(1)])
  have "pos mod w = addr mod w"
    using align wkey by (simp add: pos_def mod_mod_cancel)
  then have dvd: "w dvd pos + d" using dvd_mod_add_complement [OF w0, of pos] by (simp add: d_def)
  have "d < w" using w0 by (simp add: d_def)
  moreover have "pos < length key" using key0 by (simp add: pos_def)
  moreover obtain a where a: "pos + d = w * a" using dvd by (elim dvdE)
  moreover obtain b where b: "length key = w * b" using wkey by (elim dvdE)
  ultimately have "w * a < w * (b + 1)" by (simp add: algebra_simps)
  then have "a < b + 1" using nat_mult_less_cancel1 [OF w0] by blast
  then have "a \<le> b" by simp
  then have "pos + d \<le> length key" using a b by simp
  then show "h \<le> n" "pos + h \<le> length key" "n - h < w \<or> w dvd pos + h"
    using dvd w0 by (auto simp: h min_def)
qed

definition key_ok :: "u8 list \<Rightarrow> nat \<Rightarrow> bool" where
  "key_ok key w \<longleftrightarrow> pow2 (length key) \<and> pow2 w \<and> w \<le> length key"

lemma head_then_rest:
  assumes "h \<le> length buf"
  shows "key_stream_xor key off (take h buf)
      @ key_stream_xor key (off mod length key + h) (drop h buf) = key_stream_xor key off buf"
  using key_stream_xor_append [of key "off mod length key" "take h buf" "drop h buf"] assms
  by (simp add: min_absorb1)

lemma vernam_plain_head_eq:
  fixes buf :: "u8 list"
  assumes "key_ok key w" "addr mod w = off mod w"
  defines "h \<equiv> head_len w addr (length buf)"
  shows "xor_bytes_plain key (take h buf) (off AND (length key - 1))
      = Some (key_stream_xor key (off mod length key) (take h buf), off mod length key + h)"
    "bulk_and_tail w key (drop h buf) (off mod length key + h) (key_stream_xor key (off mod length key) (take h buf))
      = Some (key_stream_xor key off buf)"
proof -
  note k = assms(1) [unfolded key_ok_def]
  note h = head_len_eq [of key w addr off "length buf", folded h_def]
  show "xor_bytes_plain key (take h buf) (off AND (length key - 1))
      = Some (key_stream_xor key (off mod length key) (take h buf), off mod length key + h)"
    using k assms(2) h by (simp add: pow2_and_mask xor_bytes_plain_eq min_absorb1)
  show "bulk_and_tail w key (drop h buf) (off mod length key + h) (key_stream_xor key (off mod length key) (take h buf))
      = Some (key_stream_xor key off buf)"
    using k assms(2) h by (subst bulk_and_tail_eq) (auto simp: head_then_rest)
qed

lemma vernam_masked_head_eq:
  fixes buf :: "u8 list"
  assumes "key_ok key w" "addr mod w = off mod w"
  defines "h \<equiv> head_len w addr (length buf)"
  shows "xor_bytes_masked key (take h buf) (off AND (length key - 1))
      = Some (key_stream_xor key (off mod length key) (take h buf), (off mod length key + h) mod length key)"
    "bulk_and_tail w key (drop h buf) ((off mod length key + h) mod length key)
        (key_stream_xor key (off mod length key) (take h buf)) = Some (key_stream_xor key off buf)"
proof -
  note k = assms(1) [unfolded key_ok_def]
  note h = head_len_eq [of key w addr off "length buf", folded h_def]
  have key0: "0 < length key" using k pow2_pos by blast
  show "xor_bytes_masked key (take h buf) (off AND (length key - 1))
      = Some (key_stream_xor key (off mod length key) (take h buf), (off mod length key + h) mod length key)"
    using k assms(2) h key0 by (simp add: pow2_and_mask xor_bytes_masked_eq min_absorb1)
  have "length (drop h buf) < w \<or> w dvd (off mod length key + h) mod length key
      \<and> (off mod length key + h) mod length key \<le> length key"
    using k assms(2) h key0 pow2_dvd by (auto simp: dvd_mod less_imp_le)
  then show "bulk_and_tail w key (drop h buf) ((off mod length key + h) mod length key)
        (key_stream_xor key (off mod length key) (take h buf)) = Some (key_stream_xor key off buf)"
    using k assms(2) h by (subst bulk_and_tail_eq) (auto simp: head_then_rest)
qed

lemma short_rest_eq:
  assumes "key_ok key w" "h \<le> length buf" "pos mod length key = (off mod length key + h) mod length key"
  shows "map_option (\<lambda>(tl, _). key_stream_xor key (off mod length key) (take h buf) @ tl)
      (xor_bytes_masked key (drop h buf) (pos AND (length key - 1))) = Some (key_stream_xor key off buf)"
proof -
  have k: "pow2 (length key)" "0 < length key" using assms(1) pow2_pos by (auto simp: key_ok_def)
  have "key_stream_xor key pos (drop h buf) = key_stream_xor key (off mod length key + h) (drop h buf)"
    by (rule key_stream_xor_cong_mod) (rule assms(3))
  then show ?thesis using k assms(2)
    by (simp add: pow2_and_mask xor_bytes_masked_eq head_then_rest)
qed

section \<open>What a stream cipher promises\<close>

text \<open>
  The interface the log file code relies on: encryption at an offset of the key stream keeps the length, undoes
  itself, and may be done piece by piece. The decoder reads a file in chunks of its own
  choice, so the law it needs is \<open>slice\<close>: a slice of the cipher text decrypts at its own offset.
\<close>

locale stream_cipher =
  fixes crypt :: "nat \<Rightarrow> u8 list \<Rightarrow> u8 list"
  assumes crypt_length: "length (crypt off xs) = length xs"
    and crypt_append: "crypt off (xs @ ys) = crypt off xs @ crypt (off + length xs) ys"
    and crypt_involution: "crypt off (crypt off xs) = xs"
begin

lemma crypt_drop: "drop m (crypt off xs) = crypt (off + m) (drop m xs)"
proof (cases "m \<le> length xs")
  case True
  then show ?thesis
    using crypt_append [of off "take m xs" "drop m xs"] by (simp add: crypt_length min_absorb1)
next
  case False
  moreover have "crypt (off + m) [] = []"
    using crypt_length [of "off + m" "[]"] by (simp only: list.size(3) length_0_conv)
  ultimately show ?thesis by (simp add: crypt_length)
qed

lemma crypt_take: "take n (crypt off xs) = crypt off (take n xs)"
  using crypt_append [of off "take n xs" "drop n xs"]
  by (cases "n \<le> length xs") (simp_all add: crypt_length min_absorb1)

lemma slice: "crypt (off + m) (take n (drop m (crypt off xs))) = take n (drop m xs)"
  by (simp add: crypt_drop crypt_take crypt_involution)

end

interpretation vernam: stream_cipher "key_stream_xor key" for key
  by unfold_locales (simp_all add: key_stream_xor_append key_stream_xor_involution)

section \<open>Properties\<close>

lemma key_ok_smaller:
  assumes "pow2 (length key)" "32 \<le> length key" "addr mod 32 = off mod 32" "w \<in> {8, 16, 32}"
  shows "key_ok key w \<and> addr mod w = off mod w"
proof -
  have "w dvd 32" using assms(4) by auto
  then have "addr mod w = off mod w" using assms(3) by (metis mod_mod_cancel)
  then show ?thesis using assms by (auto simp: key_ok_def)
qed

lemma vernam_all_eq:
  assumes "pow2 (length key)" "32 \<le> length key" "addr mod 32 = off mod 32"
  shows "vernam_encrypt_scalar buf addr key off = Some (key_stream_xor key off buf)"
    "vernam_encrypt_sse buf addr key off = Some (key_stream_xor key off buf)"
    "vernam_encrypt_avx2 buf addr key off = Some (key_stream_xor key off buf)"
    "vernam_encrypt_neon buf addr key off = Some (key_stream_xor key off buf)"
proof -
  note k = key_ok_smaller [OF assms, THEN conjunct1] key_ok_smaller [OF assms, THEN conjunct2]
  have len: "head_len w addr (length buf) \<le> length buf" for w
    by (simp add: head_len_def Let_def)
  have whole: "key_stream_xor key off (take n buf) = key_stream_xor key off buf" if "drop n buf = []" for n
    using that by simp
  show "vernam_encrypt_scalar buf addr key off = Some (key_stream_xor key off buf)"
    using vernam_masked_head_eq [OF k(1) k(2), of 8] whole
    by (auto simp: vernam_encrypt_scalar_def Let_def)
  show "vernam_encrypt_sse buf addr key off = Some (key_stream_xor key off buf)"
    using vernam_masked_head_eq [OF k(1) k(2), of 16] short_rest_eq [OF k(1), of 16 _ buf _ off] len
    by (auto simp: vernam_encrypt_sse_def Let_def)
  show "vernam_encrypt_avx2 buf addr key off = Some (key_stream_xor key off buf)"
    using vernam_plain_head_eq [OF k(1) k(2), of 32] short_rest_eq [OF k(1), of 32 _ buf _ off] len
    by (auto simp: vernam_encrypt_avx2_def Let_def)
  show "vernam_encrypt_neon buf addr key off = Some (key_stream_xor key off buf)"
    using vernam_plain_head_eq [OF k(1) k(2), of 16]
    by (auto simp: vernam_encrypt_neon_def Let_def)
qed

lemma key_stream_xor_nth:
  "i < length bs \<Longrightarrow> key_stream_xor key off bs ! i = bs ! i XOR key ! ((off + i) mod length key)"
  by (induction bs arbitrary: off i) (auto simp: nth_Cons split: nat.split)

text \<open>
  C15. Under the contract of the entry point (a key of a power of two of at least 32 bytes, and a buffer aligned
  like its offset in the key stream) every platform's implementation ends, never reads
  outside the key, and combines byte \<open>i\<close> of the buffer with key byte \<open>(off + i) mod size\<close>.
\<close>

theorem vernam_platforms_agree:
  assumes "pow2 (length key)" and "32 \<le> length key" and "addr mod 32 = off mod 32"
  shows "vernam_encrypt_32bytes_aligned p buf addr key off
    = Some (map (\<lambda>i. buf ! i XOR key ! ((off + i) mod length key)) [0..<length buf])"
proof -
  have "key_stream_xor key off buf = map (\<lambda>i. buf ! i XOR key ! ((off + i) mod length key)) [0..<length buf]"
    by (rule nth_equalityI) (simp_all add: key_stream_xor_nth)
  then show ?thesis using vernam_all_eq [OF assms]
    by (cases p rule: platform.exhaust) simp_all
qed

theorem vernam_platforms_agree_witness:
  "vernam_encrypt_32bytes_aligned (X86 True) [1, 2, 3] 37 (map of_nat [0..<32]) 5
    = Some (map (\<lambda>i. [1, 2, 3] ! i XOR map of_nat [0..<32] ! ((5 + i) mod length (map of_nat [0..<32] :: u8 list)))
        [0..<length [1, 2, 3 :: u8]])"
  by (rule vernam_platforms_agree) simp_all

text \<open>
  C34. Random access: what any platform encrypted, any platform decrypts slice by slice, each slice at its own
  offset of the key stream and at an address aligned like that offset.
\<close>

theorem vernam_decrypt_slice:
  assumes "pow2 (length key)" and "32 \<le> length key"
    and "addr mod 32 = off mod 32" and "addr' mod 32 = (off + m) mod 32"
    and "vernam_encrypt_32bytes_aligned p plain addr key off = Some cipher"
  shows "vernam_encrypt_32bytes_aligned p' (take n (drop m cipher)) addr' key (off + m) = Some (take n (drop m plain))"
proof -
  have eq: "vernam_encrypt_32bytes_aligned q buf a key o' = Some (key_stream_xor key o' buf)"
    if "a mod 32 = o' mod 32" for q buf a o'
    using vernam_all_eq [OF assms(1,2) that] by (cases q) simp_all
  show ?thesis
    using assms(5) vernam.slice [of key off m n plain] eq [OF assms(3)] eq [OF assms(4)] by simp
qed

theorem vernam_decrypt_slice_witness:
  "vernam_encrypt_32bytes_aligned Arm_neon
     (take 1 (drop 1 (the (vernam_encrypt_32bytes_aligned (X86 False) [1, 2, 3] 37 (replicate 32 7) 5)))) 38 (replicate 32 7) (5 + 1)
   = Some (take 1 (drop 1 [1, 2, 3]))"
proof (rule vernam_decrypt_slice)
  have "vernam_encrypt_32bytes_aligned (X86 False) [1, 2, 3] 37 (replicate 32 7) 5
      = Some (key_stream_xor (replicate 32 7) 5 [1, 2, 3])"
    using vernam_all_eq(2) [of "replicate 32 7" 37 5 "[1, 2, 3]"] by simp
  then show "vernam_encrypt_32bytes_aligned (X86 False) [1, 2, 3] 37 (replicate 32 7) 5
      = Some (the (vernam_encrypt_32bytes_aligned (X86 False) [1, 2, 3] 37 (replicate 32 7) 5))"
    by simp
qed simp_all

end
