(* ===== verification/Aes.thy ===== *)
theory Aes
  imports Prelude
begin

text \<open>
  The block cipher that protects the key of an encrypted log file, \<open>src/bq_common/encryption/aes.cpp\<close>: the class
  \<open>aes_core\<close> (S-boxes, key schedule, one block) and \<open>aes::encrypt\<close> and \<open>aes::decrypt\<close> (CBC over a whole
  buffer, no padding). A state is a list of 16 bytes; an assignment to a byte of the state
  is an update of the list.
\<close>

section \<open>Arithmetic in GF(256)\<close>

definition xtime :: "u8 \<Rightarrow> u8" where
  "xtime x = push_bit 1 x XOR (if x AND 0x80 \<noteq> 0 then 0x1b else 0)"

fun gf_mul_loop :: "nat \<Rightarrow> u8 \<Rightarrow> u8 \<Rightarrow> u8 \<Rightarrow> u8" where
  "gf_mul_loop 0 a b p = p"
| "gf_mul_loop (Suc n) a b p =
     (let p' = (if b AND 1 \<noteq> 0 then p XOR a else p);
          hi = a AND 0x80;
          a' = push_bit 1 a;
          a'' = (if hi \<noteq> 0 then a' XOR 0x1b else a')
      in gf_mul_loop n a'' (drop_bit 1 b) p')"

definition gf_mul :: "u8 \<Rightarrow> u8 \<Rightarrow> u8" where
  "gf_mul a b = gf_mul_loop 8 a b 0"

fun rcon_loop :: "nat \<Rightarrow> u8 \<Rightarrow> u8" where
  "rcon_loop 0 c = c"
| "rcon_loop (Suc n) c = rcon_loop n (xtime c)"

definition rcon :: "nat \<Rightarrow> u8" where
  "rcon i = (if i = 0 then 0 else rcon_loop (i - 1) 1)"

section \<open>S-boxes\<close>

definition sbox :: "u8 list" where
  "sbox =
    [0x63, 0x7c, 0x77, 0x7b, 0xf2, 0x6b, 0x6f, 0xc5, 0x30, 0x01, 0x67, 0x2b, 0xfe, 0xd7, 0xab, 0x76,
     0xca, 0x82, 0xc9, 0x7d, 0xfa, 0x59, 0x47, 0xf0, 0xad, 0xd4, 0xa2, 0xaf, 0x9c, 0xa4, 0x72, 0xc0,
     0xb7, 0xfd, 0x93, 0x26, 0x36, 0x3f, 0xf7, 0xcc, 0x34, 0xa5, 0xe5, 0xf1, 0x71, 0xd8, 0x31, 0x15,
     0x04, 0xc7, 0x23, 0xc3, 0x18, 0x96, 0x05, 0x9a, 0x07, 0x12, 0x80, 0xe2, 0xeb, 0x27, 0xb2, 0x75,
     0x09, 0x83, 0x2c, 0x1a, 0x1b, 0x6e, 0x5a, 0xa0, 0x52, 0x3b, 0xd6, 0xb3, 0x29, 0xe3, 0x2f, 0x84,
     0x53, 0xd1, 0x00, 0xed, 0x20, 0xfc, 0xb1, 0x5b, 0x6a, 0xcb, 0xbe, 0x39, 0x4a, 0x4c, 0x58, 0xcf,
     0xd0, 0xef, 0xaa, 0xfb, 0x43, 0x4d, 0x33, 0x85, 0x45, 0xf9, 0x02, 0x7f, 0x50, 0x3c, 0x9f, 0xa8,
     0x51, 0xa3, 0x40, 0x8f, 0x92, 0x9d, 0x38, 0xf5, 0xbc, 0xb6, 0xda, 0x21, 0x10, 0xff, 0xf3, 0xd2,
     0xcd, 0x0c, 0x13, 0xec, 0x5f, 0x97, 0x44, 0x17, 0xc4, 0xa7, 0x7e, 0x3d, 0x64, 0x5d, 0x19, 0x73,
     0x60, 0x81, 0x4f, 0xdc, 0x22, 0x2a, 0x90, 0x88, 0x46, 0xee, 0xb8, 0x14, 0xde, 0x5e, 0x0b, 0xdb,
     0xe0, 0x32, 0x3a, 0x0a, 0x49, 0x06, 0x24, 0x5c, 0xc2, 0xd3, 0xac, 0x62, 0x91, 0x95, 0xe4, 0x79,
     0xe7, 0xc8, 0x37, 0x6d, 0x8d, 0xd5, 0x4e, 0xa9, 0x6c, 0x56, 0xf4, 0xea, 0x65, 0x7a, 0xae, 0x08,
     0xba, 0x78, 0x25, 0x2e, 0x1c, 0xa6, 0xb4, 0xc6, 0xe8, 0xdd, 0x74, 0x1f, 0x4b, 0xbd, 0x8b, 0x8a,
     0x70, 0x3e, 0xb5, 0x66, 0x48, 0x03, 0xf6, 0x0e, 0x61, 0x35, 0x57, 0xb9, 0x86, 0xc1, 0x1d, 0x9e,
     0xe1, 0xf8, 0x98, 0x11, 0x69, 0xd9, 0x8e, 0x94, 0x9b, 0x1e, 0x87, 0xe9, 0xce, 0x55, 0x28, 0xdf,
     0x8c, 0xa1, 0x89, 0x0d, 0xbf, 0xe6, 0x42, 0x68, 0x41, 0x99, 0x2d, 0x0f, 0xb0, 0x54, 0xbb, 0x16]"

definition rsbox :: "u8 list" where
  "rsbox =
    [0x52, 0x09, 0x6a, 0xd5, 0x30, 0x36, 0xa5, 0x38, 0xbf, 0x40, 0xa3, 0x9e, 0x81, 0xf3, 0xd7, 0xfb,
     0x7c, 0xe3, 0x39, 0x82, 0x9b, 0x2f, 0xff, 0x87, 0x34, 0x8e, 0x43, 0x44, 0xc4, 0xde, 0xe9, 0xcb,
     0x54, 0x7b, 0x94, 0x32, 0xa6, 0xc2, 0x23, 0x3d, 0xee, 0x4c, 0x95, 0x0b, 0x42, 0xfa, 0xc3, 0x4e,
     0x08, 0x2e, 0xa1, 0x66, 0x28, 0xd9, 0x24, 0xb2, 0x76, 0x5b, 0xa2, 0x49, 0x6d, 0x8b, 0xd1, 0x25,
     0x72, 0xf8, 0xf6, 0x64, 0x86, 0x68, 0x98, 0x16, 0xd4, 0xa4, 0x5c, 0xcc, 0x5d, 0x65, 0xb6, 0x92,
     0x6c, 0x70, 0x48, 0x50, 0xfd, 0xed, 0xb9, 0xda, 0x5e, 0x15, 0x46, 0x57, 0xa7, 0x8d, 0x9d, 0x84,
     0x90, 0xd8, 0xab, 0x00, 0x8c, 0xbc, 0xd3, 0x0a, 0xf7, 0xe4, 0x58, 0x05, 0xb8, 0xb3, 0x45, 0x06,
     0xd0, 0x2c, 0x1e, 0x8f, 0xca, 0x3f, 0x0f, 0x02, 0xc1, 0xaf, 0xbd, 0x03, 0x01, 0x13, 0x8a, 0x6b,
     0x3a, 0x91, 0x11, 0x41, 0x4f, 0x67, 0xdc, 0xea, 0x97, 0xf2, 0xcf, 0xce, 0xf0, 0xb4, 0xe6, 0x73,
     0x96, 0xac, 0x74, 0x22, 0xe7, 0xad, 0x35, 0x85, 0xe2, 0xf9, 0x37, 0xe8, 0x1c, 0x75, 0xdf, 0x6e,
     0x47, 0xf1, 0x1a, 0x71, 0x1d, 0x29, 0xc5, 0x89, 0x6f, 0xb7, 0x62, 0x0e, 0xaa, 0x18, 0xbe, 0x1b,
     0xfc, 0x56, 0x3e, 0x4b, 0xc6, 0xd2, 0x79, 0x20, 0x9a, 0xdb, 0xc0, 0xfe, 0x78, 0xcd, 0x5a, 0xf4,
     0x1f, 0xdd, 0xa8, 0x33, 0x88, 0x07, 0xc7, 0x31, 0xb1, 0x12, 0x10, 0x59, 0x27, 0x80, 0xec, 0x5f,
     0x60, 0x51, 0x7f, 0xa9, 0x19, 0xb5, 0x4a, 0x0d, 0x2d, 0xe5, 0x7a, 0x9f, 0x93, 0xc9, 0x9c, 0xef,
     0xa0, 0xe0, 0x3b, 0x4d, 0xae, 0x2a, 0xf5, 0xb0, 0xc8, 0xeb, 0xbb, 0x3c, 0x83, 0x53, 0x99, 0x61,
     0x17, 0x2b, 0x04, 0x7e, 0xba, 0x77, 0xd6, 0x26, 0xe1, 0x69, 0x14, 0x63, 0x55, 0x21, 0x0c, 0x7d]"

definition sub_byte :: "u8 \<Rightarrow> u8" where
  "sub_byte b = sbox ! unat b"

definition inv_sub_byte :: "u8 \<Rightarrow> u8" where
  "inv_sub_byte b = rsbox ! unat b"

section \<open>Steps of a round\<close>

definition xor_block :: "u8 list \<Rightarrow> u8 list \<Rightarrow> u8 list" where
  "xor_block a b = map (\<lambda>i. a ! i XOR b ! i) [0..<16]"

definition add_round_key :: "u8 list \<Rightarrow> u8 list \<Rightarrow> u8 list" where
  "add_round_key state round_key = map (\<lambda>i. state ! i XOR round_key ! i) [0..<16]"

definition sub_bytes :: "u8 list \<Rightarrow> u8 list" where
  "sub_bytes s = map (\<lambda>i. sub_byte (s ! i)) [0..<16]"

definition inv_sub_bytes :: "u8 list \<Rightarrow> u8 list" where
  "inv_sub_bytes s = map (\<lambda>i. inv_sub_byte (s ! i)) [0..<16]"

definition shift_rows :: "u8 list \<Rightarrow> u8 list" where
  "shift_rows s =
     (let t = s ! 1; s = s[1 := s ! 5]; s = s[5 := s ! 9]; s = s[9 := s ! 13]; s = s[13 := t];
          t = s ! 2; s = s[2 := s ! 10]; s = s[10 := t];
          t = s ! 6; s = s[6 := s ! 14]; s = s[14 := t];
          t = s ! 15; s = s[15 := s ! 11]; s = s[11 := s ! 7]; s = s[7 := s ! 3]; s = s[3 := t]
      in s)"

definition inv_shift_rows :: "u8 list \<Rightarrow> u8 list" where
  "inv_shift_rows s =
     (let t = s ! 13; s = s[13 := s ! 9]; s = s[9 := s ! 5]; s = s[5 := s ! 1]; s = s[1 := t];
          t = s ! 2; s = s[2 := s ! 10]; s = s[10 := t];
          t = s ! 6; s = s[6 := s ! 14]; s = s[14 := t];
          t = s ! 3; s = s[3 := s ! 7]; s = s[7 := s ! 11]; s = s[11 := s ! 15]; s = s[15 := t]
      in s)"

definition mix_column :: "u8 \<Rightarrow> u8 \<Rightarrow> u8 \<Rightarrow> u8 \<Rightarrow> u8 list" where
  "mix_column a0 a1 a2 a3 =
     (let t = a0 XOR a1 XOR a2 XOR a3; u = a0
      in [a0 XOR (t XOR xtime (a0 XOR a1)), a1 XOR (t XOR xtime (a1 XOR a2)),
          a2 XOR (t XOR xtime (a2 XOR a3)), a3 XOR (t XOR xtime (a3 XOR u))])"

definition mix_columns :: "u8 list \<Rightarrow> u8 list" where
  "mix_columns s = concat (map (\<lambda>c. mix_column (s ! (4 * c)) (s ! (4 * c + 1)) (s ! (4 * c + 2)) (s ! (4 * c + 3))) [0..<4])"

definition inv_mix_column :: "u8 \<Rightarrow> u8 \<Rightarrow> u8 \<Rightarrow> u8 \<Rightarrow> u8 list" where
  "inv_mix_column a0 a1 a2 a3 =
     [gf_mul a0 0x0e XOR gf_mul a1 0x0b XOR gf_mul a2 0x0d XOR gf_mul a3 0x09,
      gf_mul a0 0x09 XOR gf_mul a1 0x0e XOR gf_mul a2 0x0b XOR gf_mul a3 0x0d,
      gf_mul a0 0x0d XOR gf_mul a1 0x09 XOR gf_mul a2 0x0e XOR gf_mul a3 0x0b,
      gf_mul a0 0x0b XOR gf_mul a1 0x0d XOR gf_mul a2 0x09 XOR gf_mul a3 0x0e]"

definition inv_mix_columns :: "u8 list \<Rightarrow> u8 list" where
  "inv_mix_columns s = concat (map (\<lambda>c. inv_mix_column (s ! (4 * c)) (s ! (4 * c + 1)) (s ! (4 * c + 2)) (s ! (4 * c + 3))) [0..<4])"

section \<open>Key schedule and one block\<close>

datatype key_bits = AES_128 | AES_192 | AES_256

fun key_size :: "key_bits \<Rightarrow> nat" where
  "key_size AES_128 = 128 div 8"
| "key_size AES_192 = 192 div 8"
| "key_size AES_256 = 256 div 8"

definition nk :: "key_bits \<Rightarrow> nat" where
  "nk kb = key_size kb div 4"

definition nr :: "key_bits \<Rightarrow> nat" where
  "nr kb = nk kb + 6"

definition round_key_words :: "key_bits \<Rightarrow> nat" where
  "round_key_words kb = 4 * (nr kb + 1)"

definition key_word_step :: "key_bits \<Rightarrow> nat \<Rightarrow> u8 list \<Rightarrow> u8 list" where
  "key_word_step kb i rk =
     (let temp = map (\<lambda>j. rk ! (4 * (i - 1) + j)) [0..<4];
          temp = (if i mod nk kb = 0 then
                    (let rot = [temp ! 1, temp ! 2, temp ! 3, temp ! 0];
                         sub = map sub_byte rot
                     in sub[0 := sub ! 0 XOR rcon (i div nk kb)])
                  else if nk kb > 6 \<and> i mod nk kb = 4 then map sub_byte temp
                  else temp)
      in rk @ map (\<lambda>j. rk ! (4 * (i - nk kb) + j) XOR temp ! j) [0..<4])"

definition key_expansion :: "key_bits \<Rightarrow> u8 list \<Rightarrow> u8 list" where
  "key_expansion kb key =
     fold (key_word_step kb) [nk kb..<round_key_words kb] (take (4 * nk kb) key)"

definition encrypt_round :: "u8 list \<Rightarrow> nat \<Rightarrow> u8 list \<Rightarrow> u8 list" where
  "encrypt_round rk round state =
     add_round_key (mix_columns (shift_rows (sub_bytes state))) (drop (16 * round) rk)"

definition encrypt_block :: "key_bits \<Rightarrow> u8 list \<Rightarrow> u8 list \<Rightarrow> u8 list" where
  "encrypt_block kb rk block =
     (let state = add_round_key block rk;
          state = fold (encrypt_round rk) [1..<nr kb] state
      in add_round_key (shift_rows (sub_bytes state)) (drop (16 * nr kb) rk))"

definition decrypt_round :: "u8 list \<Rightarrow> nat \<Rightarrow> u8 list \<Rightarrow> u8 list" where
  "decrypt_round rk round state =
     inv_mix_columns (add_round_key (inv_sub_bytes (inv_shift_rows state)) (drop (16 * round) rk))"

definition decrypt_block :: "key_bits \<Rightarrow> u8 list \<Rightarrow> u8 list \<Rightarrow> u8 list" where
  "decrypt_block kb rk block =
     (let state = add_round_key block (drop (16 * nr kb) rk);
          state = fold (decrypt_round rk) (rev [1..<nr kb]) state
      in add_round_key (inv_sub_bytes (inv_shift_rows state)) rk)"

section \<open>CBC over a buffer\<close>

text \<open>
  The loops of \<open>aes::encrypt\<close> and \<open>aes::decrypt\<close> over a block function. They work in place on a
  buffer whose size is a multiple of 16; a shorter rest cannot occur there.
\<close>

fun cbc_encrypt_loop :: "(u8 list \<Rightarrow> u8 list) \<Rightarrow> u8 list \<Rightarrow> u8 list \<Rightarrow> u8 list" where
  "cbc_encrypt_loop enc chain buf =
     (if length buf < 16 then buf
      else (let block = enc (xor_block (take 16 buf) chain)
            in block @ cbc_encrypt_loop enc block (drop 16 buf)))"

fun cbc_decrypt_loop :: "(u8 list \<Rightarrow> u8 list) \<Rightarrow> u8 list \<Rightarrow> u8 list \<Rightarrow> u8 list" where
  "cbc_decrypt_loop dec prev buf =
     (if length buf < 16 then buf
      else xor_block (dec (take 16 buf)) prev @ cbc_decrypt_loop dec (take 16 buf) (drop 16 buf))"

declare cbc_encrypt_loop.simps [simp del] cbc_decrypt_loop.simps [simp del]

text \<open>
  The result is the returned flag and the content of the output buffer \<open>out\<close> of size
  \<open>out_ciphertext_size\<close> (\<open>out_plaintext_size\<close>).
\<close>

definition iv_size :: nat where
  "iv_size = 16"

definition is_block_aligned :: "nat \<Rightarrow> bool" where
  "is_block_aligned n \<longleftrightarrow> n mod 16 = 0"

definition aes_encrypt :: "key_bits \<Rightarrow> u8 list \<Rightarrow> u8 list \<Rightarrow> u8 list \<Rightarrow> u8 list \<Rightarrow> bool \<times> u8 list" where
  "aes_encrypt kb key iv plaintext out =
     (if length key \<noteq> key_size kb then (False, out)
      else if length iv \<noteq> iv_size then (False, out)
      else if length out < length plaintext then (False, out)
      else if \<not> is_block_aligned (length plaintext) then (False, out)
      else if length plaintext = 0 then (True, out)
      else (True, cbc_encrypt_loop (encrypt_block kb (key_expansion kb key)) iv plaintext
                    @ drop (length plaintext) out))"

definition aes_decrypt :: "key_bits \<Rightarrow> u8 list \<Rightarrow> u8 list \<Rightarrow> u8 list \<Rightarrow> u8 list \<Rightarrow> bool \<times> u8 list" where
  "aes_decrypt kb key iv ciphertext out =
     (if length key \<noteq> key_size kb then (False, out)
      else if length iv \<noteq> iv_size then (False, out)
      else if length out < length ciphertext then (False, out)
      else if \<not> is_block_aligned (length ciphertext) then (False, out)
      else if length ciphertext = 0 then (True, out)
      else (True, cbc_decrypt_loop (decrypt_block kb (key_expansion kb key)) iv ciphertext
                    @ drop (length ciphertext) out))"

section \<open>S-boxes are inverse permutations\<close>

lemma rsbox_sbox: "map (\<lambda>b. rsbox ! unat b) sbox = map of_nat [0..<256]"
  by code_simp

lemma sbox_rsbox: "map (\<lambda>b. sbox ! unat b) rsbox = map of_nat [0..<256]"
  by code_simp

lemma length_sbox: "length sbox = 256" "length rsbox = 256"
  using arg_cong [OF rsbox_sbox, of length] arg_cong [OF sbox_rsbox, of length] by simp_all

lemma inv_sub_sub_byte [simp]: "inv_sub_byte (sub_byte b) = b"
proof -
  have "unat b < 256" using unat_lt2p [of b] by simp
  then show ?thesis
    using arg_cong [OF rsbox_sbox, of "\<lambda>xs. xs ! unat b"]
    by (simp add: inv_sub_byte_def sub_byte_def length_sbox)
qed

lemma sub_inv_sub_byte [simp]: "sub_byte (inv_sub_byte b) = b"
proof -
  have "unat b < 256" using unat_lt2p [of b] by simp
  then show ?thesis
    using arg_cong [OF sbox_rsbox, of "\<lambda>xs. xs ! unat b"]
    by (simp add: inv_sub_byte_def sub_byte_def length_sbox)
qed

section \<open>Column mixing\<close>

lemma xor_cancel: "(a :: u8) XOR (a XOR b) = b"
  by (simp flip: xor.assoc)

lemmas xor_ac = xor.assoc xor.commute xor.left_commute xor_cancel

lemma high_bit: "(a :: u8) AND 0x80 \<noteq> 0 \<longleftrightarrow> bit a 7"
proof -
  show ?thesis using and_exp_eq_0_iff_not_bit [of a 7] by simp
qed

lemma xtime_xor: "xtime (a XOR b) = xtime a XOR xtime b"
  by (auto simp: xtime_def high_bit push_bit_xor bit_xor_iff xor_ac)

lemma gf_mul_loop_Suc:
  "gf_mul_loop (Suc n) a b p = gf_mul_loop n (xtime a) (drop_bit 1 b) (if b AND 1 \<noteq> 0 then p XOR a else p)"
  by (simp add: Let_def xtime_def)

lemma gf_mul_unroll: "gf_mul a b = gf_mul_loop (Suc (Suc (Suc (Suc (Suc (Suc (Suc (Suc 0)))))))) a b 0"
  by (simp only: gf_mul_def eval_nat_numeral One_nat_def BitM.simps)

lemma gf_mul_consts:
  "gf_mul a 0x09 = a XOR xtime (xtime (xtime a))"
  "gf_mul a 0x0b = a XOR xtime a XOR xtime (xtime (xtime a))"
  "gf_mul a 0x0d = a XOR xtime (xtime a) XOR xtime (xtime (xtime a))"
  "gf_mul a 0x0e = xtime a XOR xtime (xtime a) XOR xtime (xtime (xtime a))"
  by (simp_all add: gf_mul_unroll gf_mul_loop_Suc xor.assoc del: gf_mul_loop.simps(2))

lemma inv_mix_mix_column:
  "mix_column a0 a1 a2 a3 = [b0, b1, b2, b3] \<Longrightarrow> inv_mix_column b0 b1 b2 b3 = [a0, a1, a2, a3]"
  by (auto simp: mix_column_def inv_mix_column_def gf_mul_consts xtime_xor Let_def xor_ac)

section \<open>A block\<close>

lemma block_cases:
  assumes "length s = 16"
  obtains a0 a1 a2 a3 a4 a5 a6 a7 a8 a9 a10 a11 a12 a13 a14 a15
  where "s = [a0, a1, a2, a3, a4, a5, a6, a7, a8, a9, a10, a11, a12, a13, a14, a15 :: u8]"
proof -
  have "s = map ((!) s) [0..<16]" using assms by (metis map_nth)
  also have "\<dots> = [s ! 0, s ! 1, s ! 2, s ! 3, s ! 4, s ! 5, s ! 6, s ! 7, s ! 8, s ! 9, s ! 10, s ! 11, s ! 12, s ! 13, s ! 14, s ! 15]"
    by (simp add: upt_rec numeral_nat)
  finally show ?thesis by (rule that)
qed

lemma length_steps [simp]:
  "length (xor_block a b) = 16" "length (add_round_key s k) = 16" "length (sub_bytes s) = 16"
  "length (inv_sub_bytes s) = 16" "length (shift_rows s) = length s" "length (inv_shift_rows s) = length s"
  "length (mix_columns s) = 16" "length (inv_mix_columns s) = 16"
  by (simp_all add: xor_block_def add_round_key_def sub_bytes_def inv_sub_bytes_def shift_rows_def
      inv_shift_rows_def mix_columns_def inv_mix_columns_def mix_column_def inv_mix_column_def Let_def
      length_concat comp_def upt_rec)

lemma xor_block_xor_block [simp]: "length a = 16 \<Longrightarrow> xor_block (xor_block a b) b = a"
  by (intro nth_equalityI) (simp_all add: xor_block_def xor.assoc)

lemma add_round_key_twice [simp]: "length s = 16 \<Longrightarrow> add_round_key (add_round_key s k) k = s"
  by (intro nth_equalityI) (simp_all add: add_round_key_def xor.assoc)

lemma inv_sub_sub_bytes [simp]: "length s = 16 \<Longrightarrow> inv_sub_bytes (sub_bytes s) = s"
  by (intro nth_equalityI) (simp_all add: inv_sub_bytes_def sub_bytes_def)

lemma inv_shift_shift_rows [simp]: "length s = 16 \<Longrightarrow> inv_shift_rows (shift_rows s) = s"
  by (erule block_cases) (simp add: inv_shift_rows_def shift_rows_def Let_def)

lemma mix_columns_16:
  "mix_columns [a0, a1, a2, a3, a4, a5, a6, a7, a8, a9, a10, a11, a12, a13, a14, a15]
    = mix_column a0 a1 a2 a3 @ mix_column a4 a5 a6 a7 @ mix_column a8 a9 a10 a11 @ mix_column a12 a13 a14 a15"
  by (simp add: mix_columns_def upt_rec)

lemma inv_mix_columns_append:
  assumes "c0 = [p0, p1, p2, p3]" "c1 = [p4, p5, p6, p7]" "c2 = [p8, p9, p10, p11]" "c3 = [p12, p13, p14, p15]"
  shows "inv_mix_columns (c0 @ c1 @ c2 @ c3)
    = inv_mix_column p0 p1 p2 p3 @ inv_mix_column p4 p5 p6 p7 @ inv_mix_column p8 p9 p10 p11 @ inv_mix_column p12 p13 p14 p15"
  by (simp add: assms inv_mix_columns_def upt_rec)

lemma mix_column_cases:
  obtains p0 p1 p2 p3 where "mix_column a0 a1 a2 a3 = [p0, p1, p2, p3]" "inv_mix_column p0 p1 p2 p3 = [a0, a1, a2, a3]"
  using inv_mix_mix_column by (simp add: mix_column_def Let_def)

lemma inv_mix_mix_columns [simp]:
  assumes "length s = 16" shows "inv_mix_columns (mix_columns s) = s"
proof -
  obtain a0 a1 a2 a3 a4 a5 a6 a7 a8 a9 a10 a11 a12 a13 a14 a15 where
    s: "s = [a0, a1, a2, a3, a4, a5, a6, a7, a8, a9, a10, a11, a12, a13, a14, a15]"
    using assms by (rule block_cases)
  obtain p0 p1 p2 p3 where c0: "mix_column a0 a1 a2 a3 = [p0, p1, p2, p3]" "inv_mix_column p0 p1 p2 p3 = [a0, a1, a2, a3]"
    by (rule mix_column_cases)
  obtain p4 p5 p6 p7 where c1: "mix_column a4 a5 a6 a7 = [p4, p5, p6, p7]" "inv_mix_column p4 p5 p6 p7 = [a4, a5, a6, a7]"
    by (rule mix_column_cases)
  obtain p8 p9 p10 p11 where c2: "mix_column a8 a9 a10 a11 = [p8, p9, p10, p11]" "inv_mix_column p8 p9 p10 p11 = [a8, a9, a10, a11]"
    by (rule mix_column_cases)
  obtain p12 p13 p14 p15 where c3: "mix_column a12 a13 a14 a15 = [p12, p13, p14, p15]"
    "inv_mix_column p12 p13 p14 p15 = [a12, a13, a14, a15]"
    by (rule mix_column_cases)
  show ?thesis
    unfolding s mix_columns_16 inv_mix_columns_append [OF c0(1) c1(1) c2(1) c3(1)] by (simp add: c0 c1 c2 c3)
qed

lemma decrypt_encrypt_round:
  "length s = 16 \<Longrightarrow>
    decrypt_round rk r (shift_rows (sub_bytes (encrypt_round rk r s))) = shift_rows (sub_bytes s)"
  by (simp add: decrypt_round_def encrypt_round_def)

lemma length_encrypt_round [simp]: "length (encrypt_round rk r s) = 16"
  by (simp add: encrypt_round_def)

lemma fold_encrypt_length: "length s = 16 \<Longrightarrow> length (fold (encrypt_round rk) rs s) = 16"
  by (induction rs arbitrary: s) simp_all

lemma fold_decrypt_encrypt:
  "length s = 16 \<Longrightarrow>
    fold (decrypt_round rk) (rev rs) (shift_rows (sub_bytes (fold (encrypt_round rk) rs s))) = shift_rows (sub_bytes s)"
  by (induction rs arbitrary: s) (simp_all add: decrypt_encrypt_round)

lemma decrypt_encrypt_block:
  "length b = 16 \<Longrightarrow> decrypt_block kb rk (encrypt_block kb rk b) = b"
  by (simp add: decrypt_block_def encrypt_block_def Let_def fold_decrypt_encrypt fold_encrypt_length)

lemma encrypt_block_length: "length (encrypt_block kb rk b) = 16"
  by (simp add: encrypt_block_def Let_def)

section \<open>Cipher block chaining over any block cipher\<close>

locale block_cipher =
  fixes enc dec :: "u8 list \<Rightarrow> u8 list"
  assumes length_enc: "length b = 16 \<Longrightarrow> length (enc b) = 16"
    and dec_enc: "length b = 16 \<Longrightarrow> dec (enc b) = b"
begin

lemma cbc_step:
  assumes "length buf = 16 * Suc n"
  shows "cbc_encrypt_loop enc iv buf
      = enc (xor_block (take 16 buf) iv) @ cbc_encrypt_loop enc (enc (xor_block (take 16 buf) iv)) (drop 16 buf)"
    and "length (enc (xor_block (take 16 buf) iv)) = 16" and "length (drop 16 buf) = 16 * n"
  using assms by (simp_all add: cbc_encrypt_loop.simps [of enc iv buf] Let_def length_enc)

lemma cbc_length: "length buf = 16 * n \<Longrightarrow> length (cbc_encrypt_loop enc iv buf) = 16 * n"
  by (induction n arbitrary: iv buf) (simp add: cbc_encrypt_loop.simps, simp add: cbc_step)

lemma cbc_roundtrip:
  "length buf = 16 * n \<Longrightarrow> cbc_decrypt_loop dec iv (cbc_encrypt_loop enc iv buf) = buf"
proof (induction n arbitrary: iv buf)
  case 0
  then show ?case by (simp add: cbc_encrypt_loop.simps cbc_decrypt_loop.simps)
next
  case (Suc n)
  note st = cbc_step(1,2) [OF Suc.prems, of iv] cbc_step(3) [OF Suc.prems]
  show ?case
    using Suc.IH [OF st(3)] Suc.prems st(2)
    by (simp add: st(1) cbc_decrypt_loop.simps [of dec iv] dec_enc)
qed

text \<open>A ciphertext can be cut at a block: the part behind the cut needs only the block before it.\<close>

lemma cbc_decrypt_append:
  assumes "length xs = 16" and "length ys = 16 * n"
  shows "cbc_decrypt_loop dec iv (ys @ xs @ zs)
    = cbc_decrypt_loop dec iv (ys @ xs) @ cbc_decrypt_loop dec xs zs"
  using assms(2)
proof (induction n arbitrary: iv ys)
  case 0
  then show ?case
    using assms(1) by (simp add: cbc_decrypt_loop.simps [of dec iv] cbc_decrypt_loop.simps [of dec xs "[]"])
next
  case (Suc n)
  have "cbc_decrypt_loop dec iv (ys @ us)
      = xor_block (dec (take 16 ys)) iv @ cbc_decrypt_loop dec (take 16 ys) (drop 16 ys @ us)" for us
    using Suc.prems by (simp add: cbc_decrypt_loop.simps [of dec iv])
  with Suc.IH [of "drop 16 ys" "take 16 ys"] Suc.prems show ?case by simp
qed

end

interpretation aes_core: block_cipher "encrypt_block kb rk" "decrypt_block kb rk" for kb rk
  by unfold_locales (simp_all add: encrypt_block_length decrypt_encrypt_block)

section \<open>Key schedule\<close>

lemma key_word_step_length [simp]: "length (key_word_step kb i rk) = length rk + 4"
  by (simp add: key_word_step_def Let_def)

lemma key_expansion_length:
  assumes "length key = key_size kb"
  shows "length (key_expansion kb key) = 16 * (nr kb + 1)"
proof -
  have "length (fold (key_word_step kb) ws rk) = length rk + 4 * length ws" for ws rk
    by (induction ws arbitrary: rk) simp_all
  then show ?thesis
    using assms by (cases kb) (simp_all add: key_expansion_def round_key_words_def nr_def nk_def)
qed

lemma key_word_step_prefix: "take (length rk) (key_word_step kb i rk) = rk"
  by (simp add: key_word_step_def Let_def)

section \<open>Properties\<close>

text \<open>
  For every key of the right size the schedule fills exactly \<open>nr + 1\<close> round keys, and decrypting a block under the schedule
  of its key inverts encrypting it, for each of the three key sizes.
\<close>

theorem aes_block_roundtrip:
  assumes "length key = key_size kb" and "length block = 16"
  shows "length (key_expansion kb key) = 16 * (nr kb + 1)
    \<and> length (encrypt_block kb (key_expansion kb key) block) = 16
    \<and> decrypt_block kb (key_expansion kb key) (encrypt_block kb (key_expansion kb key) block) = block"
  using assms by (simp add: key_expansion_length encrypt_block_length decrypt_encrypt_block)

theorem aes_block_roundtrip_witness:
  "decrypt_block AES_128 (key_expansion AES_128 (replicate 16 7)) (encrypt_block AES_128 (key_expansion AES_128 (replicate 16 7)) (replicate 16 1))
    = replicate 16 1"
  using aes_block_roundtrip [of "replicate 16 7" AES_128 "replicate 16 1"] by simp

lemma cbc_buffers_roundtrip:
  assumes "length key = key_size kb" and "length iv = 16" and "16 dvd length plain"
    and "length plain \<le> length out" and "length plain \<le> length out'"
  shows "\<exists>cipher. length cipher = length plain
    \<and> aes_encrypt kb key iv plain out = (True, cipher @ drop (length plain) out)
    \<and> aes_decrypt kb key iv cipher out' = (True, plain @ drop (length plain) out')"
proof -
  obtain n where n: "length plain = 16 * n" using assms(3) by blast
  let ?rk = "key_expansion kb key"
  let ?c = "cbc_encrypt_loop (encrypt_block kb ?rk) iv plain"
  have "length ?c = length plain" using aes_core.cbc_length [OF n] n by simp
  moreover have "cbc_decrypt_loop (decrypt_block kb ?rk) iv ?c = plain"
    using aes_core.cbc_roundtrip [OF n] .
  moreover have "plain = [] \<Longrightarrow> ?c = []" by (simp add: cbc_encrypt_loop.simps)
  ultimately show ?thesis
    using assms by (intro exI [of _ ?c]) (auto simp: aes_encrypt_def aes_decrypt_def iv_size_def is_block_aligned_def)
qed

text \<open>
  C27. What \<open>aes::encrypt\<close> accepts, \<open>aes::decrypt\<close> gives back under the same key and vector, in any buffer that is
  large enough, and both leave the bytes behind the text alone.
\<close>

theorem aes_cbc_roundtrip:
  assumes "length key = key_size kb" and "length iv = 16" and "16 dvd length plain"
    and "length plain \<le> length out" and "length plain \<le> length out'"
  shows "\<exists>cipher. length cipher = length plain
    \<and> aes_encrypt kb key iv plain out = (True, cipher @ drop (length plain) out)
    \<and> aes_decrypt kb key iv cipher out' = (True, plain @ drop (length plain) out')"
  by (rule cbc_buffers_roundtrip [OF assms])

theorem aes_cbc_roundtrip_witness:
  "\<exists>cipher. length cipher = 32
    \<and> aes_encrypt AES_256 (replicate 32 9) (replicate 16 3) (replicate 32 5) (replicate 33 0) = (True, cipher @ [0])
    \<and> aes_decrypt AES_256 (replicate 32 9) (replicate 16 3) cipher (replicate 32 0) = (True, replicate 32 5)"
  using aes_cbc_roundtrip [of "replicate 32 9" AES_256 "replicate 16 3" "replicate 32 5" "replicate 33 0" "replicate 32 0"]
  by simp

text \<open>
  The guards: a call is refused, and the output buffer left as it was, exactly when the key or the vector has a wrong
  size, the output is too small, or the text is not a whole number of blocks; encryption and decryption refuse the same calls.
\<close>

theorem aes_guards:
  "fst (aes_encrypt kb key iv txt out) = (length key = key_size kb \<and> length iv = 16 \<and> length txt \<le> length out \<and> 16 dvd length txt)
    \<and> fst (aes_decrypt kb key iv txt out) = fst (aes_encrypt kb key iv txt out)
    \<and> (fst (aes_encrypt kb key iv txt out) \<or> snd (aes_encrypt kb key iv txt out) = out \<and> snd (aes_decrypt kb key iv txt out) = out)"
  by (auto simp: aes_encrypt_def aes_decrypt_def iv_size_def is_block_aligned_def)

theorem aes_guards_witness:
  "fst (aes_encrypt AES_128 [] [] [] []) = False \<and> snd (aes_decrypt AES_128 [] [] [] [7]) = [7]"
  using aes_guards [of AES_128 "[]" "[]" "[]" "[]"] aes_guards [of AES_128 "[]" "[]" "[]" "[7]"] by auto

end
