(* ===== verification/Crc_Hash.thy ===== *)
theory Crc_Hash
  imports Prelude
begin

text \<open>
  The hash that identifies format strings and the pseudo random numbers of \<open>src/bq_common/utils/util.cpp\<close>: the table driven
  CRC-32C steps, the macro \<open>BQ_GEN_HASH_CORE\<close> (copy and hash with four lanes and overlapping tail
  blocks), its software and hardware instances, and the xorshift generators. Memory areas are lists of bytes.
\<close>

section \<open>CRC-32C steps\<close>

definition crc32c_table :: "u32 list" where
  "crc32c_table =
    [0x00000000, 0xF26B8303, 0xE13B70F7, 0x1350F3F4, 0xC79A971F, 0x35F1141C, 0x26A1E7E8, 0xD4CA64EB,
     0x8AD958CF, 0x78B2DBCC, 0x6BE22838, 0x9989AB3B, 0x4D43CFD0, 0xBF284CD3, 0xAC78BF27, 0x5E133C24,
     0x105EC76F, 0xE235446C, 0xF165B798, 0x030E349B, 0xD7C45070, 0x25AFD373, 0x36FF2087, 0xC494A384,
     0x9A879FA0, 0x68EC1CA3, 0x7BBCEF57, 0x89D76C54, 0x5D1D08BF, 0xAF768BBC, 0xBC267848, 0x4E4DFB4B,
     0x20BD8EDE, 0xD2D60DDD, 0xC186FE29, 0x33ED7D2A, 0xE72719C1, 0x154C9AC2, 0x061C6936, 0xF477EA35,
     0xAA64D611, 0x580F5512, 0x4B5FA6E6, 0xB93425E5, 0x6DFE410E, 0x9F95C20D, 0x8CC531F9, 0x7EAEB2FA,
     0x30E349B1, 0xC288CAB2, 0xD1D83946, 0x23B3BA45, 0xF779DEAE, 0x05125DAD, 0x1642AE59, 0xE4292D5A,
     0xBA3A117E, 0x4851927D, 0x5B016189, 0xA96AE28A, 0x7DA08661, 0x8FCB0562, 0x9C9BF696, 0x6EF07595,
     0x417B1DBC, 0xB3109EBF, 0xA0406D4B, 0x522BEE48, 0x86E18AA3, 0x748A09A0, 0x67DAFA54, 0x95B17957,
     0xCBA24573, 0x39C9C670, 0x2A993584, 0xD8F2B687, 0x0C38D26C, 0xFE53516F, 0xED03A29B, 0x1F682198,
     0x5125DAD3, 0xA34E59D0, 0xB01EAA24, 0x42752927, 0x96BF4DCC, 0x64D4CECF, 0x77843D3B, 0x85EFBE38,
     0xDBFC821C, 0x2997011F, 0x3AC7F2EB, 0xC8AC71E8, 0x1C661503, 0xEE0D9600, 0xFD5D65F4, 0x0F36E6F7,
     0x61C69362, 0x93AD1061, 0x80FDE395, 0x72966096, 0xA65C047D, 0x5437877E, 0x4767748A, 0xB50CF789,
     0xEB1FCBAD, 0x197448AE, 0x0A24BB5A, 0xF84F3859, 0x2C855CB2, 0xDEEEDFB1, 0xCDBE2C45, 0x3FD5AF46,
     0x7198540D, 0x83F3D70E, 0x90A324FA, 0x62C8A7F9, 0xB602C312, 0x44694011, 0x5739B3E5, 0xA55230E6,
     0xFB410CC2, 0x092A8FC1, 0x1A7A7C35, 0xE811FF36, 0x3CDB9BDD, 0xCEB018DE, 0xDDE0EB2A, 0x2F8B6829,
     0x82F63B78, 0x709DB87B, 0x63CD4B8F, 0x91A6C88C, 0x456CAC67, 0xB7072F64, 0xA457DC90, 0x563C5F93,
     0x082F63B7, 0xFA44E0B4, 0xE9141340, 0x1B7F9043, 0xCFB5F4A8, 0x3DDE77AB, 0x2E8E845F, 0xDCE5075C,
     0x92A8FC17, 0x60C37F14, 0x73938CE0, 0x81F80FE3, 0x55326B08, 0xA759E80B, 0xB4091BFF, 0x466298FC,
     0x1871A4D8, 0xEA1A27DB, 0xF94AD42F, 0x0B21572C, 0xDFEB33C7, 0x2D80B0C4, 0x3ED04330, 0xCCBBC033,
     0xA24BB5A6, 0x502036A5, 0x4370C551, 0xB11B4652, 0x65D122B9, 0x97BAA1BA, 0x84EA524E, 0x7681D14D,
     0x2892ED69, 0xDAF96E6A, 0xC9A99D9E, 0x3BC21E9D, 0xEF087A76, 0x1D63F975, 0x0E330A81, 0xFC588982,
     0xB21572C9, 0x407EF1CA, 0x532E023E, 0xA145813D, 0x758FE5D6, 0x87E466D5, 0x94B49521, 0x66DF1622,
     0x38CC2A06, 0xCAA7A905, 0xD9F75AF1, 0x2B9CD9F2, 0xFF56BD19, 0x0D3D3E1A, 0x1E6DCDEE, 0xEC064EED,
     0xC38D26C4, 0x31E6A5C7, 0x22B65633, 0xD0DDD530, 0x0417B1DB, 0xF67C32D8, 0xE52CC12C, 0x1747422F,
     0x49547E0B, 0xBB3FFD08, 0xA86F0EFC, 0x5A048DFF, 0x8ECEE914, 0x7CA56A17, 0x6FD599E3, 0x9DBE1AE0,
     0xD3D3E1AB, 0x21B862A8, 0x32E8915C, 0xC083125F, 0x144976B4, 0xE622F5B7, 0xF5720643, 0x07198540,
     0x590AB964, 0xAB613A67, 0xB831C993, 0x4A5A4A90, 0x9E902E7B, 0x6CFBAD78, 0x7FAB5E8C, 0x8DC0DD8F,
     0xE330A81A, 0x115B2B19, 0x020BD8ED, 0xF0605BEE, 0x24AA3F05, 0xD6C1BC06, 0xC5914FF2, 0x37FACCF1,
     0x69E9F0D5, 0x9B8273D6, 0x88D28022, 0x7AB90321, 0xAE7367CA, 0x5C18E4C9, 0x4F48173D, 0xBD23943E,
     0xF36E6F75, 0x0105EC76, 0x12551F82, 0xE03E9C81, 0x34F4F86A, 0xC69F7B69, 0xD5CF889D, 0x27A40B9E,
     0x79B737BA, 0x8BDCB4B9, 0x988C474D, 0x6AE7C44E, 0xBE2DA0A5, 0x4C4623A6, 0x5F16D052, 0xAD7D5351]"

definition crc32_sw_u8 :: "u32 \<Rightarrow> u8 \<Rightarrow> u32" where
  "crc32_sw_u8 crc v = drop_bit 8 crc XOR crc32c_table ! unat ((crc XOR ucast v) AND 0xFF)"

definition crc32_sw_u16 :: "u32 \<Rightarrow> 16 word \<Rightarrow> u32" where
  "crc32_sw_u16 crc v =
     (let crc = crc32_sw_u8 crc (ucast (v AND 0xFF)) in crc32_sw_u8 crc (ucast (drop_bit 8 v AND 0xFF)))"

definition crc32_sw_u32 :: "u32 \<Rightarrow> u32 \<Rightarrow> u32" where
  "crc32_sw_u32 crc v =
     (let crc = crc32_sw_u8 crc (ucast (v AND 0xFF));
          crc = crc32_sw_u8 crc (ucast (drop_bit 8 v AND 0xFF));
          crc = crc32_sw_u8 crc (ucast (drop_bit 16 v AND 0xFF))
      in crc32_sw_u8 crc (ucast (drop_bit 24 v AND 0xFF)))"

definition crc32_sw_u64 :: "u32 \<Rightarrow> u64 \<Rightarrow> u32" where
  "crc32_sw_u64 crc v =
     (let crc = crc32_sw_u32 crc (ucast (v AND 0xFFFFFFFF))
      in crc32_sw_u32 crc (ucast (drop_bit 32 v AND 0xFFFFFFFF)))"

text \<open>The four macro arguments \<open>CRC_U8\<close> to \<open>CRC_U64\<close>.\<close>

record crc_ops =
  crc_u8 :: "u32 \<Rightarrow> u8 \<Rightarrow> u32"
  crc_u16 :: "u32 \<Rightarrow> 16 word \<Rightarrow> u32"
  crc_u32 :: "u32 \<Rightarrow> u32 \<Rightarrow> u32"
  crc_u64 :: "u32 \<Rightarrow> u64 \<Rightarrow> u32"

definition sw_ops :: crc_ops where
  "sw_ops = \<lparr>crc_u8 = crc32_sw_u8, crc_u16 = crc32_sw_u16, crc_u32 = crc32_sw_u32, crc_u64 = crc32_sw_u64\<rparr>"

text \<open>
  The hardware steps \<open>_bq_crc32_u8_hw\<close> to \<open>_bq_crc32_u64_hw\<close> over the instructions \<open>insn\<close> of the machine, which are a parameter: they are
  those of the target \<open>t\<close> beside them, CRC-32C on x86 and the CRC-32 of polynomial 0x04C11DB7 on ARM, so that two targets have the same
  \<open>insn\<close> only if both are x86. The targets are those the preprocessor tells apart (\<open>Crc_arm_32\<close> and \<open>Crc_arm_64\<close> with \<open>__ARM_FEATURE_CRC32\<close>). Where no
  instruction is selected the code has an assertion and returns 0.
\<close>

datatype crc_target = Crc_x86_64 | Crc_x86_32 | Crc_arm_64 | Crc_arm_32 | Crc_none

definition crc32_u8_hw :: "crc_target \<Rightarrow> crc_ops \<Rightarrow> u32 \<Rightarrow> u8 \<Rightarrow> u32" where
  "crc32_u8_hw t insn crc v = (if t = Crc_none then 0 else crc_u8 insn crc v)"

definition crc32_u16_hw :: "crc_target \<Rightarrow> crc_ops \<Rightarrow> u32 \<Rightarrow> 16 word \<Rightarrow> u32" where
  "crc32_u16_hw t insn crc v = (if t = Crc_none then 0 else crc_u16 insn crc v)"

definition crc32_u32_hw :: "crc_target \<Rightarrow> crc_ops \<Rightarrow> u32 \<Rightarrow> u32 \<Rightarrow> u32" where
  "crc32_u32_hw t insn crc v = (if t = Crc_none then 0 else crc_u32 insn crc v)"

fun crc32_u64_hw :: "crc_target \<Rightarrow> crc_ops \<Rightarrow> u32 \<Rightarrow> u64 \<Rightarrow> u32" where
  "crc32_u64_hw Crc_x86_64 insn crc v = crc_u64 insn crc v"
| "crc32_u64_hw Crc_x86_32 insn crc v =
     (let crc = crc32_u32_hw Crc_x86_32 insn crc (ucast (v AND 0xFFFFFFFF))
      in crc32_u32_hw Crc_x86_32 insn crc (ucast (drop_bit 32 v AND 0xFFFFFFFF)))"
| "crc32_u64_hw Crc_arm_64 insn crc v = crc_u64 insn crc v"
| "crc32_u64_hw Crc_arm_32 insn crc v = 0"
| "crc32_u64_hw Crc_none insn crc v = 0"

definition hw_ops :: "crc_target \<Rightarrow> crc_ops \<Rightarrow> crc_ops" where
  "hw_ops t insn = \<lparr>crc_u8 = crc32_u8_hw t insn, crc_u16 = crc32_u16_hw t insn,
     crc_u32 = crc32_u32_hw t insn, crc_u64 = crc32_u64_hw t insn\<rparr>"

section \<open>Copy and hash\<close>

definition load :: "nat \<Rightarrow> u8 list \<Rightarrow> nat \<Rightarrow> 'a::len word" where
  "load n m a = le_word (take n (drop a m))"

definition store :: "bool \<Rightarrow> nat \<Rightarrow> u8 list \<Rightarrow> nat \<Rightarrow> 'a::len word \<Rightarrow> u8 list" where
  "store do_copy n m a v = (if do_copy then take a m @ le_bytes n v @ drop (a + n) m else m)"

record lanes =
  h1 :: u32
  h2 :: u32
  h3 :: u32
  h4 :: u32

definition lanes_init :: lanes where
  "lanes_init = \<lparr>h1 = 0xFFFFFFFF, h2 = 0xFFFFFFFF, h3 = 0xFFFFFFFF, h4 = 0xFFFFFFFF\<rparr>"

text \<open>One block of 32 bytes: read at \<open>s\<close>, written at \<open>d\<close>, one lane per word.\<close>

definition block32 :: "crc_ops \<Rightarrow> bool \<Rightarrow> u8 list \<Rightarrow> nat \<Rightarrow> lanes \<times> u8 list \<Rightarrow> lanes \<times> u8 list" where
  "block32 ops cp src a st =
     (let (l, dst) = st;
          v1 = load 8 src a; v2 = load 8 src (a + 8); v3 = load 8 src (a + 16); v4 = load 8 src (a + 24);
          dst = store cp 8 dst a v1; dst = store cp 8 dst (a + 8) v2;
          dst = store cp 8 dst (a + 16) v3; dst = store cp 8 dst (a + 24) v4
      in (\<lparr>h1 = crc_u64 ops (h1 l) v1, h2 = crc_u64 ops (h2 l) v2, h3 = crc_u64 ops (h3 l) v3, h4 = crc_u64 ops (h4 l) v4\<rparr>, dst))"

function block32_loop :: "crc_ops \<Rightarrow> bool \<Rightarrow> u8 list \<Rightarrow> nat \<Rightarrow> lanes \<times> u8 list \<Rightarrow> nat \<times> lanes \<times> u8 list" where
  "block32_loop ops cp src s st =
     (if s + 32 \<le> length src then block32_loop ops cp src (s + 32) (block32 ops cp src s st) else (s, st))"
  by pat_completeness auto
termination by (relation "measure (\<lambda>(ops, cp, src, s, st). length src - s)") auto

declare block32_loop.simps [simp del]

definition hash_long :: "crc_ops \<Rightarrow> bool \<Rightarrow> u8 list \<Rightarrow> u8 list \<Rightarrow> lanes \<times> u8 list" where
  "hash_long ops cp src dst =
     (let (s, st) = block32_loop ops cp src 0 (lanes_init, dst)
      in if s < length src then block32 ops cp src (length src - 32) st else st)"

definition hash_short :: "crc_ops \<Rightarrow> bool \<Rightarrow> u8 list \<Rightarrow> u8 list \<Rightarrow> lanes \<times> u8 list" where
  "hash_short ops cp src dst =
     (let l = lanes_init; len = length src; len_mix = of_nat len
      in if len \<ge> 16 then
           (let v1 = load 8 src 0; v2 = load 8 src 8;
                dst = store cp 8 dst 0 v1; dst = store cp 8 dst 8 v2;
                l = l\<lparr>h1 := crc_u64 ops (h1 l) v1, h2 := crc_u64 ops (h2 l) v2\<rparr>;
                v1 = load 8 src (len - 16); v2 = load 8 src (len - 16 + 8);
                dst = store cp 8 dst (len - 16) v1; dst = store cp 8 dst (len - 16 + 8) v2
            in (l\<lparr>h3 := crc_u64 ops (h3 l XOR len_mix) v1, h4 := crc_u64 ops (h4 l XOR len_mix) v2\<rparr>, dst))
         else if len \<ge> 8 then
           (let v = load 8 src 0; dst = store cp 8 dst 0 v;
                l = l\<lparr>h1 := crc_u64 ops (h1 l) v\<rparr>;
                v = load 8 src (len - 8); dst = store cp 8 dst (len - 8) v
            in (l\<lparr>h2 := crc_u64 ops (h2 l XOR len_mix) v\<rparr>, dst))
         else if len \<ge> 4 then
           (let v = load 4 src 0; dst = store cp 4 dst 0 v;
                l = l\<lparr>h1 := crc_u32 ops (h1 l) v\<rparr>;
                v = load 4 src (len - 4); dst = store cp 4 dst (len - 4) v
            in (l\<lparr>h2 := crc_u32 ops (h2 l XOR len_mix) v\<rparr>, dst))
         else if len > 0 then
           (let (s, d, l, dst) =
                  (if len AND 2 \<noteq> 0 then
                     (let v = load 2 src 0
                      in (2, 2, l\<lparr>h1 := crc_u16 ops (h1 l XOR len_mix) v\<rparr>, store cp 2 dst 0 v))
                   else (0, 0, l, dst))
            in if len AND 1 \<noteq> 0 then
                 (let v = load 1 src s in (l\<lparr>h2 := crc_u8 ops (h2 l XOR len_mix) v\<rparr>, store cp 1 dst d v))
               else (l, dst))
         else (l, dst))"

definition combine_lanes :: "lanes \<Rightarrow> u64" where
  "combine_lanes l =
     (let h3_rot = push_bit 17 (h3 l) OR drop_bit 15 (h3 l);
          h4_rot = push_bit 19 (h4 l) OR drop_bit 13 (h4 l);
          low = ucast (h1 l XOR h3_rot); high = ucast (h2 l XOR h4_rot)
      in push_bit 32 high OR low)"

definition hash_core :: "crc_ops \<Rightarrow> bool \<Rightarrow> u8 list \<Rightarrow> u8 list \<Rightarrow> u64 \<times> u8 list" where
  "hash_core ops cp src dst =
     (let (l, dst) = (if length src \<ge> 32 then hash_long ops cp src dst else hash_short ops cp src dst)
      in (combine_lanes l, dst))"

text \<open>
  The dispatchers: \<open>t\<close> is the target, \<open>insn\<close> its instructions, and the flag is \<open>_bq_crc32_supported_\<close>.
\<close>

definition bq_memcpy_with_hash :: "crc_target \<Rightarrow> crc_ops \<Rightarrow> bool \<Rightarrow> u8 list \<Rightarrow> u8 list \<Rightarrow> u64 \<times> u8 list" where
  "bq_memcpy_with_hash t insn crc32_supported dst src =
     hash_core (if crc32_supported then hw_ops t insn else sw_ops) True src dst"

definition bq_hash_only :: "crc_target \<Rightarrow> crc_ops \<Rightarrow> bool \<Rightarrow> u8 list \<Rightarrow> u64" where
  "bq_hash_only t insn crc32_supported src =
     fst (hash_core (if crc32_supported then hw_ops t insn else sw_ops) False src [])"

definition get_hash :: "crc_target \<Rightarrow> crc_ops \<Rightarrow> bool \<Rightarrow> u8 list \<Rightarrow> u32" where
  "get_hash t insn crc32_supported data =
     (let h64 = bq_hash_only t insn crc32_supported data in ucast (h64 XOR drop_bit 32 h64))"

definition get_hash_64 :: "crc_target \<Rightarrow> crc_ops \<Rightarrow> bool \<Rightarrow> u8 list \<Rightarrow> u64" where
  "get_hash_64 t insn crc32_supported data = bq_hash_only t insn crc32_supported data"

section \<open>Pseudo random numbers\<close>

text \<open>
  The thread local seeds are threaded through; \<open>now\<close> is the value of \<open>time(nullptr)\<close>. Both functions return
  the value, which is also the new seed.
\<close>

definition rand_step :: "u32 \<Rightarrow> u32" where
  "rand_step x =
     (let x = x XOR push_bit 13 x; x = x XOR drop_bit 17 x in x XOR push_bit 5 x)"

definition rand :: "u32 \<Rightarrow> u32 \<Rightarrow> u32" where
  "rand now rand_seed = rand_step (if rand_seed = 0 then now else rand_seed)"

definition rand64_step :: "u64 \<Rightarrow> u64" where
  "rand64_step x =
     (let x = x XOR push_bit 13 x; x = x XOR drop_bit 7 x in x XOR push_bit 17 x)"

definition rand64 :: "u32 \<Rightarrow> u32 \<Rightarrow> u64 \<Rightarrow> u64 \<times> u32" where
  "rand64 now rand_seed rand_seed_64 =
     (if rand_seed_64 = 0
      then (let r = rand now rand_seed in (rand64_step (ucast r), r))
      else (rand64_step rand_seed_64, rand_seed))"

section \<open>The table is the bit-serial CRC-32C\<close>

definition crc_bit :: "u32 \<Rightarrow> u32" where
  "crc_bit c = (if bit c 0 then drop_bit 1 c XOR 0x82F63B78 else drop_bit 1 c)"

definition crc_byte :: "u32 \<Rightarrow> u8 \<Rightarrow> u32" where
  "crc_byte crc v = (crc_bit ^^ 8) (crc XOR ucast v)"

lemma crc_bit_xor: "crc_bit (a XOR b) = crc_bit a XOR crc_bit b"
  by (auto simp: crc_bit_def bit_xor_iff drop_bit_xor xor.assoc xor.commute xor.left_commute)

lemma crc_bits_xor: "(crc_bit ^^ n) (a XOR b) = (crc_bit ^^ n) a XOR (crc_bit ^^ n) b"
  by (induction n) (simp_all add: crc_bit_xor)

lemma crc_bits_high: "(\<And>i. i < n \<Longrightarrow> \<not> bit c i) \<Longrightarrow> (crc_bit ^^ n) c = drop_bit n c"
proof (induction n)
  case (Suc n)
  then have "(crc_bit ^^ n) c = drop_bit n c" by simp
  moreover have "\<not> bit (drop_bit n c) 0" using Suc.prems [of n] by (simp add: bit_drop_bit_eq)
  moreover have "crc_bit d = drop_bit 1 d" if "\<not> bit d 0" for d using that by (simp add: crc_bit_def)
  ultimately show ?case by simp
qed simp

text \<open>The table is linear in its index, so its eight powers of two determine it.\<close>

fun spread :: "u32 list \<Rightarrow> u32 list \<Rightarrow> u32 list" where
  "spread [] t = t"
| "spread (b # bs) t = spread bs (t @ map (\<lambda>x. b XOR x) t)"

lemma spread_length: "length (spread bs t) = 2 ^ length bs * length t"
  by (induction bs arbitrary: t) simp_all

lemma of_nat_high_xor: "j < 2 ^ n \<Longrightarrow> n < 32 \<Longrightarrow> (of_nat (2 ^ n + j) :: u32) = 2 ^ n XOR of_nat j"
proof -
  assume j: "j < 2 ^ n" and n: "n < 32"
  have "unat (of_nat j :: u32) < 2 ^ n"
  proof -
    have "unat (of_nat j :: u32) \<le> j" by (simp add: unat_of_nat)
    then show ?thesis using j by linarith
  qed
  then have "(2 ^ n :: u32) AND of_nat j = 0"
    by (intro bit_word_eqI) (auto simp: bit_and_iff bit_exp_iff dest: bit_less_exp)
  then show ?thesis by (simp add: disjunctive_add_eq_xor)
qed

lemma spread_linear:
  fixes f :: "u32 \<Rightarrow> u32"
  assumes "f 0 = (0 :: u32)" and "\<And>a b. f (a XOR b) = f a XOR f b" and "n + length bs \<le> 32"
    and "bs = map (\<lambda>k. f (2 ^ (n + k))) [0..<length bs]" and "t = map (\<lambda>i. f (of_nat i)) [0..<2 ^ n]"
  shows "spread bs t = map (\<lambda>i. f (of_nat i)) [0..<2 ^ (n + length bs)]"
  using assms(3-5)
proof (induction bs arbitrary: n t)
  case (Cons b bs)
  let ?t = "t @ map (\<lambda>x. b XOR x) t"
  have b: "b = f (2 ^ n)" and bs: "bs = map (\<lambda>k. f (2 ^ (Suc n + k))) [0..<length bs]"
    using Cons.prems(2) by (simp_all add: upt_conv_Cons map_Suc_upt [symmetric] comp_def del: upt_Suc)
  have "f (of_nat (2 ^ n + j)) = b XOR f (of_nat j)" if "j < 2 ^ n" for j
  proof -
    have "(of_nat (2 ^ n + j) :: u32) = 2 ^ n XOR of_nat j"
      using that Cons.prems(1) by (intro of_nat_high_xor) simp_all
    then show ?thesis by (simp only: assms(2) b)
  qed
  then have "?t = map (\<lambda>i. f (of_nat i)) [0..<2 ^ n] @ map (\<lambda>i. f (of_nat i)) [2 ^ n..<2 ^ n + 2 ^ n]"
    unfolding Cons.prems(3) by (simp add: map_add_upt [symmetric, of "2 ^ n" "2 ^ n"] add.commute comp_def)
  also have "\<dots> = map (\<lambda>i. f (of_nat i)) [0..<2 ^ Suc n]"
    using upt_add_eq_append [of 0 "2 ^ n" "2 ^ n"] by (simp add: mult_2 flip: map_append)
  finally have "spread bs ?t = map (\<lambda>i. f (of_nat i)) [0..<2 ^ (Suc n + length bs)]"
    using Cons.prems(1) by (intro Cons.IH bs) simp_all
  then show ?case by simp
qed simp

definition crc_basis :: "u32 list" where
  "crc_basis = [0xF26B8303, 0xE13B70F7, 0xC79A971F, 0x8AD958CF, 0x105EC76F, 0x20BD8EDE, 0x417B1DBC, 0x82F63B78]"

lemma crc_basis: "crc_basis = map (\<lambda>k. (crc_bit ^^ 8) (2 ^ (0 + k))) [0..<length crc_basis]"
  by code_simp

lemma crc_table_basis:
  "crc32c_table = (spread crc_basis [0]) [206 := 0x6FD599E3, 207 := 0x9DBE1AE0]"
  by code_simp

lemma crc_table:
  "crc32c_table = (map (\<lambda>i. (crc_bit ^^ 8) (of_nat i)) [0..<256]) [206 := 0x6FD599E3, 207 := 0x9DBE1AE0]"
proof -
  have "(crc_bit ^^ n) 0 = 0" for n by (induction n) (simp_all add: crc_bit_def)
  then have "spread crc_basis [0] = map (\<lambda>i. (crc_bit ^^ 8) (of_nat i)) [0..<2 ^ (0 + length crc_basis)]"
    by (intro spread_linear crc_basis crc_bits_xor) (simp_all add: crc_basis_def)
  then show ?thesis unfolding crc_table_basis by (simp add: crc_basis_def)
qed

definition crc_index :: "u32 \<Rightarrow> u8 \<Rightarrow> nat" where
  "crc_index crc v = unat ((crc XOR ucast v) AND 0xFF)"

lemma ff_mask: "(0xFF :: u32) = mask 8"
  by (simp add: mask_eq_exp_minus_1)

lemma crc_index_less: "crc_index crc v < 256"
  unfolding crc_index_def ff_mask
  by (simp only: take_bit_eq_mask [symmetric] unsigned_take_bit_eq)
    (rule order_less_le_trans [OF take_bit_nat_less_exp], simp)

lemma crc_byte_split: "crc_byte crc v = drop_bit 8 crc XOR (crc_bit ^^ 8) (of_nat (crc_index crc v))"
proof -
  let ?x = "crc XOR ucast v :: u32"
  have split: "?x = (?x AND NOT (mask 8)) XOR (?x AND mask 8)"
    by (rule bit_eqI) (auto simp: bit_simps)
  have "(crc_bit ^^ 8) (?x AND NOT (mask 8)) = drop_bit 8 (?x AND NOT (mask 8))"
    by (rule crc_bits_high) (simp add: bit_simps)
  also have "\<dots> = drop_bit 8 crc"
    by (rule bit_eqI) (auto simp: bit_simps dest: bit_imp_le_length)
  finally have "(crc_bit ^^ 8) ?x = drop_bit 8 crc XOR (crc_bit ^^ 8) (?x AND mask 8)"
    by (subst split) (simp add: crc_bits_xor)
  then show ?thesis by (simp add: crc_byte_def crc_index_def ff_mask)
qed

lemma crc32_sw_u8_cases:
  "crc32_sw_u8 crc v =
     (if crc_index crc v \<in> {206, 207} then crc_byte crc v XOR 0x00200000 else crc_byte crc v)"
proof -
  let ?i = "crc_index crc v"
  have vals: "(crc_bit ^^ 8) 206 = 0x6FF599E3" "(crc_bit ^^ 8) 207 = 0x9D9E1AE0"
    by code_simp+
  have eq: "crc32_sw_u8 crc v = drop_bit 8 crc XOR crc32c_table ! ?i"
    by (simp add: crc32_sw_u8_def crc_index_def)
  show ?thesis
  proof (cases "?i \<in> {206, 207}")
    case True
    then show ?thesis
      by (auto simp: eq crc_byte_split crc_table nth_list_update vals xor.assoc)
  next
    case False
    then show ?thesis
      using crc_index_less [of crc v] by (auto simp: eq crc_byte_split crc_table nth_list_update)
  qed
qed

section \<open>Byte-serial instruction sets\<close>

lemma le_bytes_halves:
  "le_bytes 8 (v :: u64) = le_bytes 4 (ucast (v AND 0xFFFFFFFF) :: u32) @ le_bytes 4 (ucast (drop_bit 32 v AND 0xFFFFFFFF) :: u32)"
  (is "?l = ?r")
proof (rule nth_equalityI)
  have m: "(0xFFFFFFFF :: u64) = mask 32" by (simp add: mask_eq_exp_minus_1)
  fix i assume "i < length ?l"
  then have i: "i < 8" by simp
  show "?l ! i = ?r ! i"
  proof (rule bit_word_eqI)
    fix k assume "k < LENGTH(8)"
    with i show "bit (?l ! i) k = bit (?r ! i) k"
      by (cases "i < 4") (auto simp: nth_append nth_le_bytes bit_le_byte m bit_simps diff_mult_distrib2)
  qed
qed simp

locale byte_serial =
  fixes ops :: crc_ops and step :: "u32 \<Rightarrow> u8 \<Rightarrow> u32"
  assumes u8: "crc_u8 ops c v = step c v"
    and u16: "crc_u16 ops c v2 = foldl step c (le_bytes 2 v2)"
    and u32: "crc_u32 ops c v4 = foldl step c (le_bytes 4 v4)"
    and u64: "crc_u64 ops c v8 = foldl step c (le_bytes 8 v8)"
begin

lemma halves: "crc_u32 ops (crc_u32 ops c (ucast (v AND 0xFFFFFFFF))) (ucast (drop_bit 32 v AND 0xFFFFFFFF)) = crc_u64 ops c v"
  by (simp add: u32 u64 le_bytes_halves)

lemma hw_ops_eq: "t \<in> {Crc_x86_64, Crc_x86_32, Crc_arm_64} \<Longrightarrow> hw_ops t ops = ops"
  by (auto simp: hw_ops_def crc32_u8_hw_def crc32_u16_hw_def crc32_u32_hw_def halves fun_eq_iff intro!: crc_ops.equality)

lemma same_step: "byte_serial ops' step \<Longrightarrow> ops' = ops"
  by (intro crc_ops.equality ext) (simp_all add: byte_serial_def u8 u16 u32 u64)

end

lemma le_bytes_masked:
  "ucast (v AND 0xFF) = le_byte 0 v" "ucast (drop_bit 8 v AND 0xFF) = le_byte 1 v"
  "ucast (drop_bit 16 v AND 0xFF) = le_byte 2 v" "ucast (drop_bit 24 v AND 0xFF) = le_byte 3 v"
  for v :: "'a::len word"
proof -
  have m: "(0xFF :: 'a word) = mask 8" by (simp add: mask_eq_exp_minus_1)
  show "ucast (v AND 0xFF) = le_byte 0 v" "ucast (drop_bit 8 v AND 0xFF) = le_byte 1 v"
    "ucast (drop_bit 16 v AND 0xFF) = le_byte 2 v" "ucast (drop_bit 24 v AND 0xFF) = le_byte 3 v"
    by (rule bit_word_eqI; auto simp: m bit_le_byte bit_simps dest: bit_imp_le_length)+
qed

lemma le_bytes_2_4:
  "le_bytes 2 v = [le_byte 0 v, le_byte 1 v]" "le_bytes 4 v = [le_byte 0 v, le_byte 1 v, le_byte 2 v, le_byte 3 v]"
  by (simp_all add: le_bytes_def upt_rec numeral_nat)

lemma sw_u32_serial: "crc32_sw_u32 c v = foldl crc32_sw_u8 c (le_bytes 4 v)"
  by (simp only: crc32_sw_u32_def le_bytes_masked le_bytes_2_4 Let_def foldl.simps) (simp add: le_byte_def)

interpretation sw: byte_serial sw_ops crc32_sw_u8
proof
  show u32: "crc_u32 sw_ops c v = foldl crc32_sw_u8 c (le_bytes 4 v)" for c v
    by (simp add: sw_ops_def sw_u32_serial)
  show "crc_u16 sw_ops c v = foldl crc32_sw_u8 c (le_bytes 2 v)" for c v
    by (simp only: sw_ops_def crc32_sw_u16_def le_bytes_masked le_bytes_2_4 Let_def foldl.simps crc_ops.simps) (simp add: le_byte_def)
  show "crc_u8 sw_ops c v = crc32_sw_u8 c v" for c v by (simp add: sw_ops_def)
  show "crc_u64 sw_ops c v = foldl crc32_sw_u8 c (le_bytes 8 v)" for c v
    by (simp add: sw_ops_def crc32_sw_u64_def sw_u32_serial le_bytes_halves Let_def)
qed

section \<open>Copying\<close>

lemma load_bytes: "a + n \<le> length m \<Longrightarrow> 8 * n \<le> LENGTH('a) \<Longrightarrow> le_bytes n (load n m a :: 'a::len word) = take n (drop a m)"
  using le_bytes_le_word [of "take n (drop a m)", where 'a = 'a] by (simp add: load_def)

text \<open>Copying the bytes of an area to the same place of another.\<close>

definition copied :: "u8 list \<Rightarrow> u8 list \<Rightarrow> nat \<Rightarrow> nat \<Rightarrow> u8 list" where
  "copied src dst a b = take a dst @ take (b - a) (drop a src) @ drop b dst"

lemma store_load:
  assumes "a + n \<le> length src" "8 * n \<le> LENGTH('a)"
  shows "store True n dst a (load n src a :: 'a::len word) = copied src dst a (a + n)"
  using assms by (simp add: store_def load_bytes copied_def)

lemma length_copied [simp]: "a \<le> b \<Longrightarrow> b \<le> length src \<Longrightarrow> length src \<le> length dst \<Longrightarrow> length (copied src dst a b) = length dst"
  by (simp add: copied_def)

lemma nth_copied:
  assumes "a \<le> b" "b \<le> length src" "length src \<le> length dst" "i < length dst"
  shows "copied src dst a b ! i = (if a \<le> i \<and> i < b then src ! i else dst ! i)"
  using assms by (auto simp: copied_def nth_append)

lemma copied_overlap:
  assumes "a \<le> b" "c \<le> b" "b \<le> d" "d \<le> length src" "length src \<le> length dst"
  shows "copied src (copied src dst a b) c d = copied src dst (min a c) d"
  using assms by (intro nth_equalityI) (auto simp: nth_copied)

lemma store_False [simp]: "store False n dst a v = dst"
  by (simp add: store_def)

lemma block32_copy:
  assumes "a + 32 \<le> length src" "length src \<le> length dst"
  shows "snd (block32 ops True src a (l, dst)) = copied src dst a (a + 32)"
  using assms by (simp add: block32_def Let_def store_load copied_overlap add.commute)

lemma block32_lanes: "fst (block32 ops cp src a (l, dst)) = fst (block32 ops cp' src a (l, dst'))"
  by (simp add: block32_def Let_def)


lemma block32_loop_copy:
  "s \<le> length src \<Longrightarrow> length src \<le> length dst \<Longrightarrow> snd st = copied src dst 0 s \<Longrightarrow>
    (case block32_loop ops True src s st of (s', l', d') \<Rightarrow>
       s \<le> s' \<and> s' \<le> length src \<and> length src < s' + 32 \<and> d' = copied src dst 0 s')"
proof (induction "length src - s" arbitrary: s st rule: less_induct)
  case less
  show ?case
  proof (cases "s + 32 \<le> length src")
    case True
    obtain l where st: "st = (l, copied src dst 0 s)" using less.prems(3) by (cases st) simp
    have "snd (block32 ops True src s st) = copied src (copied src dst 0 s) s (s + 32)"
      unfolding st using True less.prems by (intro block32_copy) simp_all
    also have "\<dots> = copied src dst 0 (s + 32)" using True less.prems by (simp add: copied_overlap)
    finally show ?thesis
      using less.hyps [of "s + 32" "block32 ops True src s st"] True less.prems
      by (subst block32_loop.simps) (fastforce split: prod.splits)
  next
    case False
    then show ?thesis using less.prems by (subst block32_loop.simps) (auto split: prod.splits)
  qed
qed

lemma block32_loop_lanes:
  "fst st = fst st' \<Longrightarrow>
    fst (block32_loop ops cp src s st) = fst (block32_loop ops cp' src s st')
    \<and> fst (snd (block32_loop ops cp src s st)) = fst (snd (block32_loop ops cp' src s st'))"
proof (induction "length src - s" arbitrary: s st st' rule: less_induct)
  case less
  show ?case
  proof (cases "s + 32 \<le> length src")
    case True
    have "fst (block32 ops cp src s st) = fst (block32 ops cp' src s st')"
      using less.prems block32_lanes by (metis prod.collapse)
    then show ?thesis
      using less.hyps [of "s + 32" "block32 ops cp src s st" "block32 ops cp' src s st'"] True
      by (subst (1 2 3 4) block32_loop.simps) simp
  next
    case False
    then show ?thesis using less.prems by (subst (1 2 3 4) block32_loop.simps) simp
  qed
qed

lemma copied_all: "length src \<le> length dst \<Longrightarrow> copied src dst 0 (length src) = src @ drop (length src) dst"
  by (simp add: copied_def)

lemma hash_long_copy:
  assumes "32 \<le> length src" "length src \<le> length dst"
  shows "snd (hash_long ops True src dst) = src @ drop (length src) dst"
proof -
  obtain s l d where r: "block32_loop ops True src 0 (lanes_init, dst) = (s, l, d)"
    by (cases "block32_loop ops True src 0 (lanes_init, dst)") auto
  then have s: "s \<le> length src" "length src < s + 32" and d: "d = copied src dst 0 s"
    using block32_loop_copy [of 0 src dst "(lanes_init, dst)" ops] assms by (auto simp: copied_def)
  have "snd (block32 ops True src (length src - 32) (l, d)) = copied src dst 0 (length src)"
    if "s < length src"
    using that s assms by (simp add: d block32_copy copied_overlap)
  then show ?thesis using r s assms copied_all [OF assms(2)] by (auto simp: hash_long_def d)
qed

lemma hash_long_lanes: "fst (hash_long ops cp src dst) = fst (hash_long ops cp' src dst')"
  using block32_loop_lanes [of "(lanes_init, dst)" "(lanes_init, dst')" ops cp src 0 cp']
  by (auto simp: hash_long_def split: prod.splits) (metis block32_lanes)

lemma hash_short_copy:
  assumes "length src < 32" "length src \<le> length dst"
  shows "snd (hash_short ops True src dst) = src @ drop (length src) dst"
proof -
  consider "16 \<le> length src" | "8 \<le> length src" "length src < 16" | "4 \<le> length src" "length src < 8"
    | "length src = 0" | "length src = 1" | "length src = 2" | "length src = 3" by linarith
  then show ?thesis
    using assms copied_all [OF assms(2)]
    by cases (simp_all add: hash_short_def Let_def store_load copied_overlap flip: numeral_2_eq_2 numeral_3_eq_3)
qed

lemma hash_short_lanes: "fst (hash_short ops cp src dst) = fst (hash_short ops cp' src dst')"
  by (simp add: hash_short_def Let_def split: if_splits)


lemma hash_core_copy:
  "length src \<le> length dst \<Longrightarrow> snd (hash_core ops True src dst) = src @ drop (length src) dst"
  using hash_long_copy [of src dst ops] hash_short_copy [of src dst ops]
  by (auto simp: hash_core_def Let_def split: prod.splits)

lemma hash_core_hash: "fst (hash_core ops cp src dst) = fst (hash_core ops cp' src dst')"
  using hash_long_lanes [of ops cp src dst cp' dst'] hash_short_lanes [of ops cp src dst cp' dst']
  by (auto simp: hash_core_def Let_def split: prod.splits)

section \<open>Xorshift\<close>

lemma xor_push_nonzero:
  fixes x :: "'a::len word" assumes "x \<noteq> 0" "0 < n" shows "x XOR push_bit n x \<noteq> 0"
proof -
  have ex: "\<exists>i. bit x i" using assms(1) by (metis bit_eqI bit_0_eq bot_apply bot_bool_def)
  define i where "i = (LEAST i. bit x i)"
  have i: "bit x i" unfolding i_def using ex by (rule LeastI_ex)
  have "\<not> bit x (i - n)" if "n \<le> i"
    unfolding i_def using assms(2) that not_less_Least [of "i - n" "bit x"] by (simp add: i_def)
  with i have "bit (x XOR push_bit n x) i" by (auto simp: bit_simps)
  then show ?thesis by (metis bit_0_eq bot_apply bot_bool_def)
qed

lemma xor_drop_nonzero:
  fixes x :: "'a::len word" assumes "x \<noteq> 0" "0 < n" shows "x XOR drop_bit n x \<noteq> 0"
proof -
  have ex: "\<exists>i. bit x i" using assms(1) by (metis bit_eqI bit_0_eq bot_apply bot_bool_def)
  have bound: "bit x k \<Longrightarrow> k \<le> LENGTH('a)" for k using bit_imp_le_length [of x k] by simp
  define i where "i = (GREATEST i. bit x i)"
  have i: "bit x i" unfolding i_def using ex bound by (metis GreatestI_nat)
  have "\<not> bit x (n + i)"
    using assms(2) Greatest_le_nat [of "bit x" "n + i" "LENGTH('a)"] bound by (auto simp: i_def)
  with i have "bit (x XOR drop_bit n x) i" by (auto simp: bit_simps)
  then show ?thesis by (metis bit_0_eq bot_apply bot_bool_def)
qed

lemma rand_step_nonzero: "x \<noteq> 0 \<Longrightarrow> rand_step x \<noteq> 0"
  by (simp add: rand_step_def Let_def xor_push_nonzero xor_drop_nonzero del: push_bit_xor drop_bit_xor)

lemma rand64_step_nonzero: "x \<noteq> 0 \<Longrightarrow> rand64_step x \<noteq> 0"
  by (simp add: rand64_step_def Let_def xor_push_nonzero xor_drop_nonzero del: push_bit_xor drop_bit_xor)

lemma rand_step_xor:
  "rand_step (x XOR y) = rand_step x XOR rand_step y" "rand64_step (a XOR b) = rand64_step a XOR rand64_step b"
  by (simp_all add: rand_step_def rand64_step_def Let_def push_bit_xor drop_bit_xor xor.assoc xor.left_commute xor.commute)

lemma word_xor_eq_0: "a XOR b = 0 \<longleftrightarrow> a = (b :: 'a::len word)"
  by (metis xor.assoc xor_self_eq xor.left_neutral xor.right_neutral)

lemma combine_lanes_h2: "combine_lanes (l\<lparr>h2 := a\<rparr>) = combine_lanes (l\<lparr>h2 := b\<rparr>) \<longleftrightarrow> a = b"
proof
  assume eq: "combine_lanes (l\<lparr>h2 := a\<rparr>) = combine_lanes (l\<lparr>h2 := b\<rparr>)"
  show "a = b"
  proof (rule bit_word_eqI)
    fix i assume "i < LENGTH(32)"
    moreover have "bit (combine_lanes (l\<lparr>h2 := a\<rparr>)) (32 + i) = bit (combine_lanes (l\<lparr>h2 := b\<rparr>)) (32 + i)" by (simp only: eq)
    moreover have "\<not> bit (h1 l) (32 + i)" "\<not> bit (h3 l) (47 + i)" by (auto dest: bit_imp_le_length)
    ultimately show "bit a i = bit b i"
      by (simp add: combine_lanes_def Let_def bit_simps) blast
  qed
qed simp

lemma one_byte_index: "crc_index 0xFFFFFFFE v \<in> {206, 207} \<longleftrightarrow> v \<in> {0x30, 0x31}"
proof -
  have "(0xFFFFFFFE XOR ucast v) AND 0xFF = (ucast (0xFE XOR v) :: u32)"
  proof (rule bit_word_eqI)
    fix i assume "i < LENGTH(32)"
    moreover have n: "(0xFFFFFFFE :: u32) = NOT 1" "(0xFE :: u8) = NOT 1" by simp_all
    have "bit (0xFFFFFFFE :: u32) i \<longleftrightarrow> i < 32 \<and> i \<noteq> 0" "bit (0xFE :: u8) i \<longleftrightarrow> i < 8 \<and> i \<noteq> 0"
      unfolding n by (auto simp: bit_not_iff bit_1_iff)
    ultimately show "bit ((0xFFFFFFFE XOR ucast v) AND 0xFF :: u32) i = bit (ucast (0xFE XOR v) :: u32) i"
      unfolding ff_mask by (auto simp: bit_simps dest: bit_imp_le_length)
  qed
  then have "crc_index 0xFFFFFFFE v = unat (0xFE XOR v)"
    using unat_lt2p [of "0xFE XOR v"] by (simp add: crc_index_def unsigned_ucast_eq take_bit_nat_eq_self)
  moreover have "unat (0xFE XOR v) = 206 \<longleftrightarrow> 0xFE XOR v = 0xCE" "unat (0xFE XOR v) = 207 \<longleftrightarrow> 0xFE XOR v = 0xCF"
    by (simp_all add: word_unat_eq_iff)
  moreover have "0xFE XOR v = 0xCE \<longleftrightarrow> v = 0x30" "0xFE XOR v = 0xCF \<longleftrightarrow> v = 0x31"
    using word_xor_eq_0 [of "0xFE XOR v" "0xCE"] word_xor_eq_0 [of "0xFE XOR v" "0xCF"]
      word_xor_eq_0 [of v "0x30"] word_xor_eq_0 [of v "0x31"] by (simp_all add: xor.commute xor.left_commute)
  ultimately show ?thesis by simp
qed

definition bit_serial_ops :: crc_ops where
  "bit_serial_ops = \<lparr>crc_u8 = crc_byte, crc_u16 = \<lambda>c v. foldl crc_byte c (le_bytes 2 v),
     crc_u32 = \<lambda>c v. foldl crc_byte c (le_bytes 4 v), crc_u64 = \<lambda>c v. foldl crc_byte c (le_bytes 8 v)\<rparr>"

interpretation crc32c: byte_serial bit_serial_ops crc_byte
  by unfold_locales (simp_all add: bit_serial_ops_def)

lemma inj_linear:
  fixes f :: "'a::len word \<Rightarrow> 'a word"
  assumes "\<And>x. x \<noteq> 0 \<Longrightarrow> f x \<noteq> 0" "\<And>x y. f (x XOR y) = f x XOR f y" shows "inj f"
  using assms by (intro injI) (metis word_xor_eq_0)

lemma flip_neq: "c XOR 0x00200000 \<noteq> (c :: u32)" "c \<noteq> c XOR (0x00200000 :: u32)"
proof -
  show "c XOR 0x00200000 \<noteq> c"
  proof
    assume "c XOR 0x00200000 = c"
    then have "c XOR (c XOR 0x00200000) = c XOR c" by (rule arg_cong)
    then show False by (simp add: xor.assoc [symmetric])
  qed
  then show "c \<noteq> c XOR 0x00200000" by (rule not_sym)
qed

section \<open>Properties\<close>

text \<open>
  The table driven step is the bit-serial CRC-32C step except for two of the 256 table entries, 206 and 207, whose value in the source has one
  wrong bit.
\<close>

theorem crc32_sw_u8_wrong_entries:
  "crc32_sw_u8 crc v = crc_byte crc v \<longleftrightarrow> unat ((crc XOR ucast v) AND 0xFF) \<notin> {206, 207}"
  unfolding crc32_sw_u8_cases crc_index_def by (simp add: flip_neq)

text \<open>
  C35. Copying with a hash writes exactly the source into the target, whatever the target machine and its instructions are, and
  returns the hash that \<open>bq_hash_only\<close> computes there without copying. The 32-bit build for x86, which has no 64-bit instruction and
  uses the 32-bit one twice, gives the hash of the 64-bit build on the same machine, if the
  instructions work byte by byte in little-endian order.
\<close>

theorem memcpy_with_hash_spec:
  assumes "length src \<le> length dst"
  shows "bq_memcpy_with_hash t insn supported dst src = (bq_hash_only t insn supported src, src @ drop (length src) dst)
    \<and> (byte_serial insn step \<longrightarrow> bq_hash_only Crc_x86_32 insn supported src = bq_hash_only Crc_x86_64 insn supported src)"
  using hash_core_copy [OF assms] hash_core_hash byte_serial.hw_ops_eq [of insn step]
  by (auto simp: bq_memcpy_with_hash_def bq_hash_only_def prod_eq_iff)

theorem memcpy_with_hash_spec_witness:
  "bq_memcpy_with_hash Crc_arm_64 sw_ops True (replicate 40 0) (replicate 33 7)
      = (bq_hash_only Crc_arm_64 sw_ops True (replicate 33 7), replicate 33 7 @ drop 33 (replicate 40 0))
   \<and> bq_hash_only Crc_x86_32 sw_ops True (replicate 33 7) = bq_hash_only Crc_x86_64 sw_ops True (replicate 33 7)"
  using memcpy_with_hash_spec [of "replicate 33 7" "replicate 40 0"] sw.byte_serial_axioms by auto

text \<open>
  Where the instructions compute CRC-32C, as those of x86 are documented to do, the hash of a one byte text depends on
  whether the machine has them: the software hash differs for the digits 0 and 1.
\<close>

theorem hash_sw_hw_one_byte:
  assumes "byte_serial insn crc_byte" and "t \<in> {Crc_x86_64, Crc_x86_32, Crc_arm_64}"
  shows "bq_hash_only t insn True [v] = bq_hash_only t insn False [v] \<longleftrightarrow> v \<notin> {0x30, 0x31}"
proof -
  have hash: "fst (hash_core ops False [v] []) = combine_lanes (lanes_init\<lparr>h2 := crc_u8 ops 0xFFFFFFFE v\<rparr>)" for ops
    by (simp add: hash_core_def hash_short_def Let_def load_def lanes_init_def)
  have "bq_hash_only t insn True [v] = bq_hash_only t insn False [v]
      \<longleftrightarrow> crc_byte 0xFFFFFFFE v = crc32_sw_u8 0xFFFFFFFE v"
    using byte_serial.hw_ops_eq [OF assms]
    by (simp add: bq_hash_only_def hash combine_lanes_h2 byte_serial.u8 [OF assms(1)] sw_ops_def)
  also have "\<dots> \<longleftrightarrow> v \<notin> {0x30, 0x31}"
    using crc32_sw_u8_cases [of "0xFFFFFFFE" v] one_byte_index [of v] by (auto simp: flip_neq)
  finally show ?thesis .
qed

theorem hash_sw_hw_one_byte_witness:
  "bq_hash_only Crc_x86_64 bit_serial_ops True [0x31] \<noteq> bq_hash_only Crc_x86_64 bit_serial_ops False [0x31]"
  using hash_sw_hw_one_byte [OF crc32c.byte_serial_axioms, of Crc_x86_64 "0x31"] by simp

text \<open>
  The generators are linear bijections of the nonzero states, so a seeded generator never falls back to the
  clock: 0 comes out only if seed and clock are 0.
\<close>

theorem rand_nonzero_bijective:
  "inj rand_step \<and> inj rand64_step \<and> (rand now seed = 0 \<longleftrightarrow> seed = 0 \<and> now = 0)
    \<and> (fst (rand64 now seed seed64) = 0 \<longleftrightarrow> seed64 = 0 \<and> seed = 0 \<and> now = 0)"
proof -
  have zero: "rand_step 0 = 0" "rand64_step 0 = 0" by (simp_all add: rand_step_def rand64_step_def)
  have "inj rand_step" "inj rand64_step"
    by (rule inj_linear, erule rand_step_nonzero, rule rand_step_xor)
      (rule inj_linear, erule rand64_step_nonzero, rule rand_step_xor)
  moreover have r: "rand now seed = 0 \<longleftrightarrow> seed = 0 \<and> now = 0"
    using rand_step_nonzero [of now] rand_step_nonzero [of seed] by (cases "seed = 0"; cases "now = 0") (simp_all add: rand_def zero)
  moreover have b: "n < 32 \<and> n < 64" if "bit (rand now seed) n" for n
    using bit_imp_le_length [OF that] by simp
  have "(ucast (rand now seed) :: u64) = 0 \<longleftrightarrow> rand now seed = 0"
    using b by (auto simp: bit_eq_iff [where 'a = "64 word"] bit_eq_iff [where 'a = "32 word"] bit_simps)
  then have "fst (rand64 now seed seed64) = 0 \<longleftrightarrow> seed64 = 0 \<and> seed = 0 \<and> now = 0"
    using rand64_step_nonzero [of seed64] rand64_step_nonzero [of "ucast (rand now seed)"] r
    by (cases "seed64 = 0"; cases "rand now seed = 0") (simp_all add: rand64_def Let_def zero)
  ultimately show ?thesis by blast
qed

end
