(* ===== verification/Utf.thy ===== *)
theory Utf
  imports Prelude
begin

text \<open>
  The text conversions of \<open>src/bq_common/utils/util.cpp\<close>: UTF-16 to UTF-8 and back (scalar, AVX2, SSE and NEON loops, the
  optimistic ASCII passes with their overlapping tail, the dispatchers and the state machines kept as
  reference for the tests), the mixed format (an ASCII prefix, the mark 0xFF, raw UTF-16) and the
  hash of a mixed text. A source is the list of its units; a conversion returns the units it
  writes. A conversion of UTF-8 does not look whether its last character is complete: it reads on into the memory behind the source,
  \<open>behind\<close>, and is \<open>None\<close> where it leaves that memory too. A chunk of a
  vector loop is tested as a whole: no unit of it has a bit of the mask.
\<close>

section \<open>Scalar conversions\<close>

fun ascii_run :: "'a::len word list \<Rightarrow> 'b::len word list \<times> 'a word list" where
  "ascii_run [] = ([], [])"
| "ascii_run (c # s) = (if c < 0x80 then (let (r, s') = ascii_run s in (ucast c # r, s')) else ([], c # s))"

lemma ascii_run_eq:
  "ascii_run s = (map ucast (takeWhile (\<lambda>c. c < 0x80) s), dropWhile (\<lambda>c. c < 0x80) s)"
  by (induction s) simp_all

lemma ascii_run_length [termination_simp]: "(r, s') = ascii_run s \<Longrightarrow> length s' \<le> length s"
  by (simp add: ascii_run_eq length_dropWhile_le)

definition two_bytes :: "u32 \<Rightarrow> u8 list" where
  "two_bytes c = [ucast (0xC0 OR drop_bit 6 c), ucast (0x80 OR (c AND 0x3F))]"

definition three_bytes :: "u32 \<Rightarrow> u8 list" where
  "three_bytes c = [ucast (0xE0 OR drop_bit 12 c), ucast (0x80 OR (drop_bit 6 c AND 0x3F)), ucast (0x80 OR (c AND 0x3F))]"

definition four_bytes :: "u32 \<Rightarrow> u8 list" where
  "four_bytes c = [ucast (0xF0 OR drop_bit 18 c), ucast (0x80 OR (drop_bit 12 c AND 0x3F)),
     ucast (0x80 OR (drop_bit 6 c AND 0x3F)), ucast (0x80 OR (c AND 0x3F))]"

function utf16_to_utf8_sw :: "u16 list \<Rightarrow> u8 list" where
  "utf16_to_utf8_sw [] = []"
| "utf16_to_utf8_sw (ch # src) =
     (let c = ucast ch :: u32
      in if c < 0x80 then (let (run, rest) = ascii_run src in ucast c # run @ utf16_to_utf8_sw rest)
         else if c < 0x800 then two_bytes c @ utf16_to_utf8_sw src
         else if c \<ge> 0xD800 \<and> c \<le> 0xDFFF then
           (if c \<ge> 0xDC00 then utf16_to_utf8_sw src
            else (case src of
                [] \<Rightarrow> []
              | ch2 # src' \<Rightarrow>
                  (let c2 = ucast ch2 :: u32
                   in if c2 \<ge> 0xDC00 \<and> c2 \<le> 0xDFFF
                      then four_bytes ((push_bit 10 (c AND 0x3FF) OR (c2 AND 0x3FF)) + 0x10000) @ utf16_to_utf8_sw src'
                      else utf16_to_utf8_sw src)))
         else three_bytes c @ utf16_to_utf8_sw src)"
  by pat_completeness auto
termination by (relation "measure length") (auto dest: ascii_run_length)

definition cp2 :: "u8 \<Rightarrow> u8 \<Rightarrow> u16" where
  "cp2 c b1 = ucast (push_bit 6 (ucast (c AND 0x1F)) OR ucast (b1 AND 0x3F) :: u32)"

definition cp3 :: "u8 \<Rightarrow> u8 \<Rightarrow> u8 \<Rightarrow> u16" where
  "cp3 c b1 b2 = ucast (push_bit 12 (ucast (c AND 0x0F)) OR push_bit 6 (ucast (b1 AND 0x3F)) OR ucast (b2 AND 0x3F) :: u32)"

definition cp4 :: "u8 \<Rightarrow> u8 \<Rightarrow> u8 \<Rightarrow> u8 \<Rightarrow> u16 list" where
  "cp4 c b1 b2 b3 =
     (let cp = push_bit 18 (ucast (c AND 0x07)) OR push_bit 12 (ucast (b1 AND 0x3F)) OR push_bit 6 (ucast (b2 AND 0x3F))
                 OR ucast (b3 AND 0x3F) :: u32;
          cp = cp - 0x10000
      in [ucast (drop_bit 10 cp + 0xD800), ucast ((cp AND 0x3FF) + 0xDC00)])"

text \<open>One character of UTF-8 at the head of the source, as all decoding loops read it: its units and the rest.\<close>

definition decode_multi :: "u8 \<Rightarrow> u8 list \<Rightarrow> (u16 list \<times> u8 list) option" where
  "decode_multi c s =
     (if c AND 0xE0 = 0xC0 then (case s of b1 # s' \<Rightarrow> Some ([cp2 c b1], s') | _ \<Rightarrow> None)
      else if c AND 0xF0 = 0xE0 then (case s of b1 # b2 # s' \<Rightarrow> Some ([cp3 c b1 b2], s') | _ \<Rightarrow> None)
      else (case s of b1 # b2 # b3 # s' \<Rightarrow> Some (cp4 c b1 b2 b3, s') | _ \<Rightarrow> None))"

lemma decode_multi_length [termination_simp]: "decode_multi c s = Some (u, s') \<Longrightarrow> length s' < length s"
  by (auto simp: decode_multi_def split: if_splits list.splits)

text \<open>A character that reaches into the memory behind the source ends the loop.\<close>

function utf8_to_utf16_sw :: "u8 list \<Rightarrow> u8 list \<Rightarrow> u16 list option" where
  "utf8_to_utf16_sw behind [] = Some []"
| "utf8_to_utf16_sw behind (c # s) =
     (if c < 0x80 then (let (run, rest) = ascii_run s in map_option (\<lambda>r. ucast c # run @ r) (utf8_to_utf16_sw behind rest))
      else (case decode_multi c (s @ behind) of
          None \<Rightarrow> None
        | Some (u, m) \<Rightarrow> map_option (\<lambda>r. u @ r) (utf8_to_utf16_sw behind (take (length m - length behind) m))))"
  by pat_completeness auto
termination by (relation "measure (\<lambda>(behind, src). length src)") (auto dest!: ascii_run_length decode_multi_length)

section \<open>Vector loops\<close>

definition ascii_chunk :: "'a::len word \<Rightarrow> 'a word list \<Rightarrow> bool" where
  "ascii_chunk m chunk = list_all (\<lambda>c. c AND m = 0) chunk"

text \<open>The loops of the AVX2 and SSE versions of UTF-16 to UTF-8: whole ASCII chunks, then the scalar loop.\<close>

function utf16_to_utf8_chunks :: "nat \<Rightarrow> u16 list \<Rightarrow> u8 list" where
  "utf16_to_utf8_chunks n src =
     (if 0 < n \<and> n \<le> length src \<and> ascii_chunk 0xFF80 (take n src)
      then map ucast (take n src) @ utf16_to_utf8_chunks n (drop n src)
      else utf16_to_utf8_sw src)"
  by pat_completeness auto
termination by (relation "measure (\<lambda>(n, src). length src)") auto

definition utf16_to_utf8_simd_avx2 :: "u16 list \<Rightarrow> u8 list" where
  "utf16_to_utf8_simd_avx2 src = utf16_to_utf8_chunks 16 src"

definition utf16_to_utf8_simd_sse :: "u16 list \<Rightarrow> u8 list" where
  "utf16_to_utf8_simd_sse src = utf16_to_utf8_chunks 8 src"

text \<open>
  NEON converts a chunk that is not ASCII unit by unit, up to the first surrogate: the written bytes and
  the unread units of the chunk, empty if it was converted completely.
\<close>

fun neon_chunk :: "u16 list \<Rightarrow> u8 list \<times> u16 list" where
  "neon_chunk [] = ([], [])"
| "neon_chunk (c # cs) =
     (if c < 0x80 then (let (out, rest) = neon_chunk cs in (ucast c # out, rest))
      else if c < 0x800 then (let (out, rest) = neon_chunk cs in (two_bytes (ucast c) @ out, rest))
      else if c \<ge> 0xD800 \<and> c \<le> 0xDFFF then ([], c # cs)
      else (let (out, rest) = neon_chunk cs in (three_bytes (ucast c) @ out, rest)))"

function utf16_to_utf8_simd_neon :: "u16 list \<Rightarrow> u8 list" where
  "utf16_to_utf8_simd_neon src =
     (if 8 \<le> length src then
        (if list_all (\<lambda>c. c < 0x80) (take 8 src)
         then map ucast (take 8 src) @ utf16_to_utf8_simd_neon (drop 8 src)
         else (let (out, rest) = neon_chunk (take 8 src)
               in if rest = [] then out @ utf16_to_utf8_simd_neon (drop 8 src)
                  else out @ utf16_to_utf8_sw (rest @ drop 8 src)))
      else utf16_to_utf8_sw src)"
  by pat_completeness auto
termination by (relation "measure length") auto

function utf8_to_utf16_simd_avx2 :: "u8 list \<Rightarrow> u8 list \<Rightarrow> u16 list option" where
  "utf8_to_utf16_simd_avx2 behind src =
     (if 16 \<le> length src \<and> ascii_chunk 0x80 (take 16 src)
      then map_option (\<lambda>r. map ucast (take 16 src) @ r) (utf8_to_utf16_simd_avx2 behind (drop 16 src))
      else utf8_to_utf16_sw behind src)"
  by pat_completeness auto
termination by (relation "measure (\<lambda>(behind, src). length src)") auto

text \<open>SSE and NEON step over a chunk that is not ASCII up to and including its first multi-byte character.\<close>

fun step_chunk :: "nat \<Rightarrow> u8 list \<Rightarrow> (u16 list \<times> u8 list) option" where
  "step_chunk 0 s = Some ([], s)"
| "step_chunk (Suc i) [] = None"
| "step_chunk (Suc i) (c # s) =
     (if c < 0x80 then map_option (\<lambda>(u, r). (ucast c # u, r)) (step_chunk i s)
      else decode_multi c s)"

lemma step_chunk_length: "0 < i \<Longrightarrow> step_chunk i s = Some (u, r) \<Longrightarrow> length r < length s"
proof (induction i s arbitrary: u r rule: step_chunk.induct)
  case (3 i c s)
  then show ?case
    by (cases "i = 0") (auto split: if_splits dest: decode_multi_length intro: less_SucI)
qed auto

text \<open>
  When that character reaches into the memory behind the source, the distance to the end is negative; cast to 32 bits it is the
  length the scalar loop gets, so that it goes on through nearly four gigabytes. \<open>k\<close> is how far behind the end it starts.
\<close>

definition utf8_to_utf16_past_end :: "nat \<Rightarrow> u8 list \<Rightarrow> u16 list option" where
  "utf8_to_utf16_past_end k m =
     (let n = unat (- of_nat k :: u32) in if n \<le> length m then utf8_to_utf16_sw (drop n m) (take n m) else None)"

function utf8_to_utf16_simd_step :: "u8 list \<Rightarrow> u8 list \<Rightarrow> u16 list option" where
  "utf8_to_utf16_simd_step behind src =
     (if 16 \<le> length src then
        (if ascii_chunk 0x80 (take 16 src)
         then map_option (\<lambda>r. map ucast (take 16 src) @ r) (utf8_to_utf16_simd_step behind (drop 16 src))
         else (case step_chunk 16 (src @ behind) of
             None \<Rightarrow> None
           | Some (u, m) \<Rightarrow> map_option (\<lambda>r. u @ r)
               (if length behind \<le> length m then utf8_to_utf16_simd_step behind (take (length m - length behind) m)
                else utf8_to_utf16_past_end (length behind - length m) m)))
      else utf8_to_utf16_sw behind src)"
  by pat_completeness auto
termination by (relation "measure (\<lambda>(behind, src). length src)") (auto dest: step_chunk_length [rotated])

declare utf16_to_utf8_chunks.simps [simp del] utf16_to_utf8_simd_neon.simps [simp del]
  utf8_to_utf16_simd_avx2.simps [simp del] utf8_to_utf16_simd_step.simps [simp del]

definition utf8_to_utf16_simd_sse :: "u8 list \<Rightarrow> u8 list \<Rightarrow> u16 list option" where
  "utf8_to_utf16_simd_sse behind src = utf8_to_utf16_simd_step behind src"

definition utf8_to_utf16_simd_neon :: "u8 list \<Rightarrow> u8 list \<Rightarrow> u16 list option" where
  "utf8_to_utf16_simd_neon behind src = utf8_to_utf16_simd_step behind src"

section \<open>Optimistic ASCII passes\<close>

text \<open>
  A pass copies ASCII units until it meets a block that is not ASCII and returns the number of converted units; one
  unit is written per unit read. The state is the unread source and the written target. \<open>Inl\<close> is a return.
\<close>

type_synonym ('a, 'b) pass = "'a word list \<times> 'b word list"

definition opt_block :: "'a::len word \<Rightarrow> nat \<Rightarrow> ('a, 'b::len) pass \<Rightarrow> 'b word list + ('a, 'b) pass" where
  "opt_block m n st =
     (let (src, out) = st
      in if ascii_chunk m (take n src) then Inr (drop n src, out @ map ucast (take n src)) else Inl out)"

function opt_loop :: "'a::len word \<Rightarrow> nat \<Rightarrow> ('a, 'b::len) pass \<Rightarrow> 'b word list + ('a, 'b) pass" where
  "opt_loop m n st =
     (if 0 < n \<and> n \<le> length (fst st) then
        (case opt_block m n st of Inl out \<Rightarrow> Inl out | Inr st' \<Rightarrow> opt_loop m n st')
      else Inr st)"
  by pat_completeness auto
termination
  by (relation "measure (\<lambda>(m, n, st). length (fst st))") (auto simp: opt_block_def Let_def split: if_splits prod.splits)

declare opt_loop.simps [simp del]

definition opt_try :: "'a::len word \<Rightarrow> nat \<Rightarrow> ('a, 'b::len) pass \<Rightarrow> 'b word list + ('a, 'b) pass" where
  "opt_try m n st = (if n \<le> length (fst st) then opt_block m n st else Inr st)"

text \<open>The scalar pass: blocks of \<open>n\<close> units while they are ASCII, then single units. \<open>n\<close> is 4 for UTF-16, 8 for UTF-8.\<close>

function opt_sw_blocks :: "'a::len word \<Rightarrow> nat \<Rightarrow> ('a, 'b::len) pass \<Rightarrow> ('a, 'b) pass" where
  "opt_sw_blocks m n st =
     (if 0 < n \<and> n \<le> length (fst st) \<and> ascii_chunk m (take n (fst st))
      then opt_sw_blocks m n (drop n (fst st), snd st @ map ucast (take n (fst st))) else st)"
  by pat_completeness auto
termination by (relation "measure (\<lambda>(m, n, st). length (fst st))") auto

declare opt_sw_blocks.simps [simp del]

definition opt_sw :: "'a::len word \<Rightarrow> nat \<Rightarrow> ('a, 'b::len) pass \<Rightarrow> 'b word list" where
  "opt_sw m n st = (let (src, out) = opt_sw_blocks m n st in out @ fst (ascii_run src))"

text \<open>
  The tail: with at least \<open>t\<close> units in the whole source the last \<open>t\<close> of them are converted by one overlapping store that rewrites
  the end of the target; a shorter source is finished by the scalar pass.
\<close>

definition opt_tail :: "'a::len word \<Rightarrow> nat \<Rightarrow> nat \<Rightarrow> 'a word list \<Rightarrow> ('a, 'b::len) pass \<Rightarrow> 'b word list" where
  "opt_tail m t n_sw whole st =
     (let (src, out) = st
      in if src \<noteq> [] then
           (if t \<le> length whole then
              (let tail = drop (length whole - t) whole
               in if ascii_chunk m tail then take (length out - (t - length src)) out @ map ucast tail else out)
            else opt_sw m n_sw st)
         else out)"

fun opt_tries :: "'a::len word \<Rightarrow> nat list \<Rightarrow> ('a, 'b::len) pass \<Rightarrow> 'b word list + ('a, 'b) pass" where
  "opt_tries m [] st = Inr st"
| "opt_tries m (n # ns) st = (case opt_try m n st of Inl out \<Rightarrow> Inl out | Inr st' \<Rightarrow> opt_tries m ns st')"

definition opt_pass :: "'a::len word \<Rightarrow> nat \<Rightarrow> nat list \<Rightarrow> nat \<Rightarrow> nat \<Rightarrow> 'a word list \<Rightarrow> 'b::len word list" where
  "opt_pass m big ns t n_sw whole =
     (case opt_loop m big (whole, []) of
        Inl out \<Rightarrow> out
      | Inr st \<Rightarrow> (case opt_tries m ns st of Inl out \<Rightarrow> out | Inr st' \<Rightarrow> opt_tail m t n_sw whole st'))"

definition utf16_to_utf8_ascii_optimistic_sw :: "u16 list \<Rightarrow> u8 list" where
  "utf16_to_utf8_ascii_optimistic_sw src = opt_sw 0xFF80 4 (src, [])"

definition utf16_to_utf8_ascii_optimistic_avx2 :: "u16 list \<Rightarrow> u8 list" where
  "utf16_to_utf8_ascii_optimistic_avx2 src = opt_pass 0xFF80 64 [32, 16] 16 4 src"

definition utf16_to_utf8_ascii_optimistic_sse :: "u16 list \<Rightarrow> u8 list" where
  "utf16_to_utf8_ascii_optimistic_sse src = opt_pass 0xFF80 32 [16, 8] 8 4 src"

definition utf16_to_utf8_ascii_optimistic_neon :: "u16 list \<Rightarrow> u8 list" where
  "utf16_to_utf8_ascii_optimistic_neon src = opt_pass 0xFF80 32 [16, 8] 8 4 src"

definition utf8_to_utf16_ascii_optimistic_sw :: "u8 list \<Rightarrow> u16 list" where
  "utf8_to_utf16_ascii_optimistic_sw src = opt_sw 0x80 8 (src, [])"

definition utf8_to_utf16_ascii_optimistic_avx2 :: "u8 list \<Rightarrow> u16 list" where
  "utf8_to_utf16_ascii_optimistic_avx2 src = opt_pass 0x80 64 [32, 16] 16 8 src"

definition utf8_to_utf16_ascii_optimistic_sse :: "u8 list \<Rightarrow> u16 list" where
  "utf8_to_utf16_ascii_optimistic_sse src = opt_pass 0x80 32 [16] 16 8 src"

definition utf8_to_utf16_ascii_optimistic_neon :: "u8 list \<Rightarrow> u16 list" where
  "utf8_to_utf16_ascii_optimistic_neon src = opt_pass 0x80 64 [32, 16] 16 8 src"

section \<open>Dispatch\<close>

text \<open>The targets: x86 with the flag \<open>_bq_avx2_supported_\<close>, ARM with NEON, and the others.\<close>

datatype simd_target = Simd_x86 bool | Simd_neon | Simd_none

fun utf16_to_utf8_simd :: "simd_target \<Rightarrow> u16 list \<Rightarrow> u8 list" where
  "utf16_to_utf8_simd (Simd_x86 avx2) src =
     (if avx2 then utf16_to_utf8_simd_avx2 src else utf16_to_utf8_simd_sse src)"
| "utf16_to_utf8_simd Simd_neon src = utf16_to_utf8_simd_neon src"
| "utf16_to_utf8_simd Simd_none src = utf16_to_utf8_sw src"

fun utf8_to_utf16_simd :: "simd_target \<Rightarrow> u8 list \<Rightarrow> u8 list \<Rightarrow> u16 list option" where
  "utf8_to_utf16_simd (Simd_x86 avx2) behind src =
     (if avx2 then utf8_to_utf16_simd_avx2 behind src else utf8_to_utf16_simd_sse behind src)"
| "utf8_to_utf16_simd Simd_neon behind src = utf8_to_utf16_simd_neon behind src"
| "utf8_to_utf16_simd Simd_none behind src = utf8_to_utf16_sw behind src"

fun utf16_to_utf8_ascii :: "simd_target \<Rightarrow> u16 list \<Rightarrow> u8 list" where
  "utf16_to_utf8_ascii (Simd_x86 avx2) src =
     (if avx2 then utf16_to_utf8_ascii_optimistic_avx2 src else utf16_to_utf8_ascii_optimistic_sse src)"
| "utf16_to_utf8_ascii Simd_neon src = utf16_to_utf8_ascii_optimistic_neon src"
| "utf16_to_utf8_ascii Simd_none src = utf16_to_utf8_ascii_optimistic_sw src"

fun utf8_to_utf16_ascii :: "simd_target \<Rightarrow> u8 list \<Rightarrow> u16 list" where
  "utf8_to_utf16_ascii (Simd_x86 avx2) src =
     (if avx2 then utf8_to_utf16_ascii_optimistic_avx2 src else utf8_to_utf16_ascii_optimistic_sse src)"
| "utf8_to_utf16_ascii Simd_neon src = utf8_to_utf16_ascii_optimistic_neon src"
| "utf8_to_utf16_ascii Simd_none src = utf8_to_utf16_ascii_optimistic_sw src"

text \<open>The second argument is the flag \<open>_bq_utf_simd_supported_\<close>.\<close>

definition utf16_to_utf8 :: "simd_target \<Rightarrow> bool \<Rightarrow> u16 list \<Rightarrow> u8 list" where
  "utf16_to_utf8 t simd src =
     (if 8 \<le> length src \<and> simd then
        (let converted = utf16_to_utf8_ascii t src
         in if length converted = length src then converted
            else converted @ utf16_to_utf8_simd t (drop (length converted) src))
      else utf16_to_utf8_sw src)"

definition utf8_to_utf16 :: "simd_target \<Rightarrow> bool \<Rightarrow> u8 list \<Rightarrow> u8 list \<Rightarrow> u16 list option" where
  "utf8_to_utf16 t simd behind src =
     (if 16 \<le> length src \<and> simd then
        (let converted = utf8_to_utf16_ascii t src
         in if length converted = length src then Some converted
            else map_option (\<lambda>r. converted @ r) (utf8_to_utf16_simd t behind (drop (length converted) src)))
      else utf8_to_utf16_sw behind src)"

section \<open>The ASCII passes\<close>

abbreviation ascii :: "'a::len word list \<Rightarrow> bool" where
  "ascii s \<equiv> list_all (\<lambda>c. c < 0x80) s"

text \<open>
  What a pass delivers: an ASCII prefix of the source, widened or narrowed unit by unit, and the whole source if that is
  ASCII.
\<close>

definition ascii_prefix :: "'a::len word list \<Rightarrow> 'b::len word list \<Rightarrow> bool" where
  "ascii_prefix whole out \<longleftrightarrow>
     (\<exists>pre post. whole = pre @ post \<and> out = map ucast pre \<and> ascii pre \<and> (ascii post \<longrightarrow> post = []))"

definition pass_inv :: "'a::len word list \<Rightarrow> ('a, 'b::len) pass \<Rightarrow> bool" where
  "pass_inv whole st \<longleftrightarrow> (\<exists>pre. whole = pre @ fst st \<and> snd st = map ucast pre \<and> ascii pre)"

definition pass_ret :: "'a::len word list \<Rightarrow> 'b::len word list + ('a, 'b) pass \<Rightarrow> bool" where
  "pass_ret whole r \<longleftrightarrow> (case r of Inl out \<Rightarrow> ascii_prefix whole out | Inr st \<Rightarrow> pass_inv whole st)"

lemma pass_ret_simps [simp]:
  "pass_ret whole (Inl out) = ascii_prefix whole out" "pass_ret whole (Inr st) = pass_inv whole st"
  by (simp_all add: pass_ret_def)

lemma pass_inv_start: "pass_inv whole (whole, [])"
  by (simp add: pass_inv_def)

lemma pass_inv_prefix: "pass_inv whole st \<Longrightarrow> \<not> ascii (fst st) \<or> fst st = [] \<Longrightarrow> ascii_prefix whole (snd st)"
  by (auto simp: pass_inv_def ascii_prefix_def)

lemma pass_inv_step:
  assumes "pass_inv whole (src, out)" and "ascii (take n src)"
  shows "pass_inv whole (drop n src, out @ map ucast (take n src))"
proof -
  obtain pre where "whole = pre @ src" "out = map ucast pre" "ascii pre" using assms(1) by (auto simp: pass_inv_def)
  then show ?thesis
    using assms(2) unfolding pass_inv_def by (intro exI [of _ "pre @ take n src"]) simp
qed

text \<open>The block sizes of a pass at least halve, down to the size of the tail block.\<close>

fun halving :: "nat \<Rightarrow> nat list \<Rightarrow> nat \<Rightarrow> bool" where
  "halving b [] t \<longleftrightarrow> b \<le> t"
| "halving b (n # ns) t \<longleftrightarrow> b \<le> 2 * n \<and> halving n ns t"

locale ascii_mask =
  fixes m :: "'a::len word"
  assumes masked: "c AND m = 0 \<longleftrightarrow> c < 0x80"
begin

lemma chunk: "ascii_chunk m cs = ascii cs"
  by (simp add: ascii_chunk_def masked)

lemma opt_block_ret: "pass_inv whole st \<Longrightarrow> pass_ret whole (opt_block m n st)"
  using pass_inv_step [of whole "fst st" "snd st" n] pass_inv_prefix [of whole st]
  by (cases st) (auto simp: opt_block_def chunk, metis append_take_drop_id list_all_append)

lemma opt_loop_ret: "pass_inv whole st \<Longrightarrow> pass_ret whole (opt_loop m n st)"
proof (induction "length (fst st)" arbitrary: st rule: less_induct)
  case less
  have r: "pass_ret whole (opt_block m n st)" using less.prems by (rule opt_block_ret)
  have d: "length (fst st') < length (fst st)" if "opt_block m n st = Inr st'" "0 < n \<and> n \<le> length (fst st)" for st'
    using that by (auto simp: opt_block_def Let_def split: if_splits prod.splits)
  show ?case
  proof (cases "opt_block m n st")
    case (Inr st')
    then have "pass_inv whole st'" using r by simp
    with Inr show ?thesis using less d [OF Inr] by (subst opt_loop.simps) simp
  qed (use less.prems r in \<open>subst opt_loop.simps, simp\<close>)
qed

lemma opt_loop_length: "0 < n \<Longrightarrow> opt_loop m n st = Inr st' \<Longrightarrow> length (fst st') < n"
proof (induction "length (fst st)" arbitrary: st rule: less_induct)
  case less
  have d: "length (fst st2) < length (fst st)" if "opt_block m n st = Inr st2" "n \<le> length (fst st)" for st2
    using that less.prems by (auto simp: opt_block_def Let_def split: if_splits prod.splits)
  show ?case
    using less.prems less.hyps d by (subst (asm) opt_loop.simps) (auto split: if_splits sum.splits)
qed

lemma opt_try_ret: "pass_inv whole st \<Longrightarrow> pass_ret whole (opt_try m n st)"
  by (simp add: opt_try_def opt_block_ret)

lemma opt_try_length: "length (fst st) < 2 * n \<Longrightarrow> opt_try m n st = Inr st' \<Longrightarrow> length (fst st') < n"
  by (auto simp: opt_try_def opt_block_def Let_def split: if_splits prod.splits)

lemma opt_tries_ret: "pass_inv whole st \<Longrightarrow> pass_ret whole (opt_tries m ns st)"
proof (induction ns arbitrary: st)
  case (Cons n ns)
  show ?case using opt_try_ret [OF Cons.prems, of n] Cons.IH by (cases "opt_try m n st") simp_all
qed simp

lemma opt_tries_length:
  "length (fst st) < b \<Longrightarrow> halving b ns t \<Longrightarrow> opt_tries m ns st = Inr st' \<Longrightarrow> length (fst st') < t"
proof (induction ns arbitrary: st b)
  case (Cons n ns)
  then show ?case using opt_try_length [of st n] by (cases "opt_try m n st") auto
qed auto

lemma opt_sw_blocks_inv: "pass_inv whole st \<Longrightarrow> pass_inv whole (opt_sw_blocks m n st)"
proof (induction "length (fst st)" arbitrary: st rule: less_induct)
  case less
  have "pass_inv whole (drop n (fst st), snd st @ map ucast (take n (fst st)))" if "ascii (take n (fst st))"
    using less.prems that by (intro pass_inv_step) simp_all
  then show ?case
    using less.hyps [of "(drop n (fst st), snd st @ map ucast (take n (fst st)))"] less.prems
    by (subst opt_sw_blocks.simps) (auto simp: chunk)
qed

lemma opt_sw_prefix: "pass_inv whole st \<Longrightarrow> ascii_prefix whole (opt_sw m n st)"
proof -
  assume "pass_inv whole st"
  then have i: "pass_inv whole (opt_sw_blocks m n st)" by (rule opt_sw_blocks_inv)
  obtain src out where st: "opt_sw_blocks m n st = (src, out)" by (cases "opt_sw_blocks m n st")
  then obtain pre where p: "whole = pre @ src" "out = map ucast pre" "ascii pre" using i by (auto simp: pass_inv_def)
  let ?t = "takeWhile (\<lambda>c. c < 0x80) src" and ?d = "dropWhile (\<lambda>c. c < 0x80) src"
  have "ascii ?t" by (auto simp: list_all_iff dest: set_takeWhileD)
  moreover have "ascii ?d \<longrightarrow> ?d = []"
    using hd_dropWhile [of "\<lambda>c. c < 0x80" src] by (cases ?d) simp_all
  moreover have "whole = (pre @ ?t) @ ?d" unfolding p(1) by (simp only: append_assoc takeWhile_dropWhile_id)
  moreover have "opt_sw m n st = map ucast (pre @ ?t)" unfolding opt_sw_def st by (simp add: ascii_run_eq p(2))
  ultimately show ?thesis
    unfolding ascii_prefix_def using p(3) by (metis list_all_append)
qed

lemma opt_tail_prefix:
  assumes "pass_inv whole st" and "length (fst st) < t"
  shows "ascii_prefix whole (opt_tail m t n whole st :: 'b::len word list)"
proof -
  obtain src and out :: "'b word list" where st: "st = (src, out)" by (cases st)
  obtain pre where p: "whole = pre @ src" "out = map ucast pre" "ascii pre" using assms st by (auto simp: pass_inv_def)
  show ?thesis
  proof (cases "src \<noteq> [] \<and> t \<le> length whole")
    case True
    let ?j = "length pre - (t - length src)"
    have j: "length whole - t = ?j" "?j \<le> length pre" using True p assms(2) st by auto
    have d: "drop ?j whole = drop ?j pre @ src" unfolding p(1) using j(2) by simp
    have e: "take ?j (map ucast pre) @ map ucast (drop ?j whole) = (map ucast (pre @ src) :: 'b word list)"
    proof -
      have "take ?j (map ucast pre) @ map ucast (drop ?j pre) = (map ucast pre :: 'b word list)"
        by (simp flip: take_map drop_map)
      then show ?thesis unfolding d map_append by (simp only: append_assoc [symmetric])
    qed
    show ?thesis
    proof (cases "ascii (drop ?j whole)")
      case asc: True
      then have "ascii src" by (simp add: d)
      moreover have "opt_tail m t n whole st = map ucast (pre @ src)"
        using True asc e p(2) j(1) by (simp add: opt_tail_def chunk st)
      ultimately show ?thesis
        unfolding ascii_prefix_def using p by (intro exI [of _ "pre @ src"] exI [of _ "[]"]) simp
    next
      case False
      moreover have "ascii (drop ?j pre)" using p(3) by (auto simp: list_all_iff dest: in_set_dropD)
      ultimately have "\<not> ascii src" by (simp add: d)
      then show ?thesis
        using pass_inv_prefix [OF assms(1)] False True j(1) by (simp add: opt_tail_def chunk st)
    qed
  next
    case False
    then show ?thesis
      using pass_inv_prefix [OF assms(1)] opt_sw_prefix [OF assms(1)] st by (auto simp: opt_tail_def)
  qed
qed

lemma opt_pass_prefix:
  assumes "halving big ns t" and "0 < big"
  shows "ascii_prefix whole (opt_pass m big ns t n whole :: 'b::len word list)"
proof (cases "opt_loop m big (whole, [] :: 'b word list)")
  case (Inl out)
  then show ?thesis using opt_loop_ret [OF pass_inv_start, where whole = whole and n = big and 'b = 'b] by (simp add: opt_pass_def)
next
  case (Inr st)
  then have st: "pass_inv whole st" "length (fst st) < big"
    using opt_loop_ret [OF pass_inv_start, where whole = whole and n = big and 'b = 'b] opt_loop_length [OF assms(2) Inr] by simp_all
  show ?thesis
    using opt_tries_ret [OF st(1), of ns] opt_tail_prefix [of whole] opt_tries_length [OF st(2) assms(1)]
    by (cases "opt_tries m ns st") (simp_all add: opt_pass_def Inr)
qed

end

lemma bits_below_80:
  fixes c :: "'a::len word" assumes "7 < LENGTH('a)"
  shows "c < 0x80 \<longleftrightarrow> (\<forall>i. 7 \<le> i \<longrightarrow> \<not> bit c i)"
proof -
  have u: "unat (0x80 :: 'a word) = 2 ^ 7"
  proof -
    have "(128 :: nat) < 2 ^ LENGTH('a)"
      using assms power_increasing [of 8 "LENGTH('a)" "2::nat"] by simp
    then show ?thesis by (simp add: unsigned_numeral take_bit_nat_eq_self)
  qed
  have "c < 0x80 \<longleftrightarrow> unat c < 2 ^ 7" unfolding word_less_nat_alt u ..
  also have "\<dots> \<longleftrightarrow> (\<forall>i. 7 \<le> i \<longrightarrow> \<not> bit c i)"
    using bit_less_exp [of c 7] unat_less_exp_bits [of c 7] by (metis not_le)
  finally show ?thesis .
qed

interpretation utf16_mask: ascii_mask "0xFF80 :: u16"
proof
  fix c :: u16
  have m: "(0xFF80 :: u16) = NOT (mask 7)" by (simp add: mask_eq_exp_minus_1)
  have "c AND 0xFF80 = 0 \<longleftrightarrow> (\<forall>i. 7 \<le> i \<longrightarrow> \<not> bit c i)"
    using bit_imp_le_length [of c] unfolding m by (simp add: bit_eq_iff [where 'a = "16 word"] bit_simps) (metis not_le)
  then show "c AND 0xFF80 = 0 \<longleftrightarrow> c < 0x80" by (simp add: bits_below_80)
qed

interpretation utf8_mask: ascii_mask "0x80 :: u8"
proof
  fix c :: u8
  have "c AND 0x80 = 0 \<longleftrightarrow> \<not> bit c 7" using and_exp_eq_0_iff_not_bit [of c 7] by simp
  also have "\<dots> \<longleftrightarrow> (\<forall>i. 7 \<le> i \<longrightarrow> \<not> bit c i)" 
  proof -
    have "i \<le> 7" if "bit c i" for i using bit_imp_le_length [OF that] by simp
    then show ?thesis by (metis le_antisym order_refl)
  qed
  finally show "c AND 0x80 = 0 \<longleftrightarrow> c < 0x80" by (simp add: bits_below_80)
qed

section \<open>What every ASCII pass offers the dispatchers\<close>

locale ascii_pass =
  fixes pass :: "'a::len word list \<Rightarrow> 'b::len word list"
  assumes prefix: "ascii_prefix src (pass src)"
begin

lemma resume:
  assumes "\<And>a s. ascii a \<Longrightarrow> f (a @ s) = map ucast a @ f s"
  shows "pass src @ f (drop (length (pass src)) src) = f src"
proof -
  obtain pre post where "src = pre @ post" "pass src = map ucast pre" "ascii pre"
    using prefix [of src] by (auto simp: ascii_prefix_def)
  then show ?thesis by (simp add: assms)
qed

lemma resume_option:
  assumes "\<And>a s. ascii a \<Longrightarrow> f (a @ s) = map_option (\<lambda>r. map ucast a @ r) (f s)"
  shows "map_option (\<lambda>r. pass src @ r) (f (drop (length (pass src)) src)) = f src"
proof -
  obtain pre post where "src = pre @ post" "pass src = map ucast pre" "ascii pre"
    using prefix [of src] by (auto simp: ascii_prefix_def)
  then show ?thesis by (simp add: assms)
qed

lemma whole: "ascii src \<Longrightarrow> pass src = map ucast src"
  using prefix [of src] by (auto simp: ascii_prefix_def)

end

interpretation pass16: ascii_pass "utf16_to_utf8_ascii t" for t
  by unfold_locales
    (cases t; simp add: utf16_to_utf8_ascii_optimistic_avx2_def utf16_to_utf8_ascii_optimistic_sse_def
      utf16_to_utf8_ascii_optimistic_neon_def utf16_to_utf8_ascii_optimistic_sw_def
      utf16_mask.opt_pass_prefix utf16_mask.opt_sw_prefix pass_inv_start)

interpretation pass8: ascii_pass "utf8_to_utf16_ascii t" for t
  by unfold_locales
    (cases t; simp add: utf8_to_utf16_ascii_optimistic_avx2_def utf8_to_utf16_ascii_optimistic_sse_def
      utf8_to_utf16_ascii_optimistic_neon_def utf8_to_utf16_ascii_optimistic_sw_def
      utf8_mask.opt_pass_prefix utf8_mask.opt_sw_prefix pass_inv_start)

section \<open>The vector loops agree with the scalar loops\<close>

lemma ucast_less_80: "LENGTH('a) \<le> LENGTH('b) \<Longrightarrow> 7 < LENGTH('a) \<Longrightarrow> (ucast (c :: 'a::len word) :: 'b::len word) < 0x80 \<longleftrightarrow> c < 0x80"
  using bit_imp_le_length [of c] by (simp add: bits_below_80 bit_ucast_iff) (meson less_le_trans)

lemma ucast_down: "LENGTH('c) \<le> LENGTH('b) \<Longrightarrow> (ucast (ucast (c :: 'a::len word) :: 'b::len word) :: 'c::len word) = ucast c"
  by (rule bit_word_eqI) (simp add: bit_ucast_iff)

lemma ucast16_cmp:
  "(ucast (c :: u16) :: u32) < 0x800 \<longleftrightarrow> c < 0x800" "(ucast c :: u32) \<ge> 0xD800 \<longleftrightarrow> c \<ge> 0xD800"
  "(ucast c :: u32) \<le> 0xDFFF \<longleftrightarrow> c \<le> 0xDFFF" "(ucast c :: u32) \<ge> 0xDC00 \<longleftrightarrow> c \<ge> 0xDC00"
proof -
  have "unat (ucast c :: u32) = unat c"
    using unat_lt2p [of c] by (simp add: unsigned_ucast_eq take_bit_nat_eq_self)
  then show "(ucast (c :: u16) :: u32) < 0x800 \<longleftrightarrow> c < 0x800" "(ucast c :: u32) \<ge> 0xD800 \<longleftrightarrow> c \<ge> 0xD800"
    "(ucast c :: u32) \<le> 0xDFFF \<longleftrightarrow> c \<le> 0xDFFF" "(ucast c :: u32) \<ge> 0xDC00 \<longleftrightarrow> c \<ge> 0xDC00"
    by (simp_all add: word_less_nat_alt word_le_nat_alt)
qed

lemma sw16_ascii: "c < 0x80 \<Longrightarrow> utf16_to_utf8_sw (c # s) = ucast c # utf16_to_utf8_sw s"
proof (induction s arbitrary: c)
  case (Cons d s)
  then show ?case
    by (cases "d < 0x80") (simp_all add: ascii_run_eq ucast_less_80 ucast_down Let_def)
qed (simp add: ucast_less_80 ucast_down)

lemma sw16_ascii_append: "ascii a \<Longrightarrow> utf16_to_utf8_sw (a @ s) = map ucast a @ utf16_to_utf8_sw s"
  by (induction a) (simp_all add: sw16_ascii del: utf16_to_utf8_sw.simps(2))

lemma sw8_ascii: "c < 0x80 \<Longrightarrow> utf8_to_utf16_sw b (c # s) = map_option (\<lambda>r. ucast c # r) (utf8_to_utf16_sw b s)"
proof (induction s arbitrary: c)
  case (Cons d s)
  show ?case
    using Cons.IH [of d] Cons.prems
    by (cases "d < 0x80"; cases "utf8_to_utf16_sw b (dropWhile (\<lambda>c. c < 0x80) s)"; cases "utf8_to_utf16_sw b s")
      (auto simp: ascii_run_eq Let_def option.map_comp comp_def)
qed simp

lemma sw8_ascii_append: "ascii a \<Longrightarrow> utf8_to_utf16_sw b (a @ s) = map_option (\<lambda>r. map ucast a @ r) (utf8_to_utf16_sw b s)"
  by (induction a; cases "utf8_to_utf16_sw b s")
    (simp_all add: sw8_ascii option.map_comp comp_def del: utf8_to_utf16_sw.simps(2))

lemma chunks16_eq: "utf16_to_utf8_chunks n src = utf16_to_utf8_sw src"
proof (induction n src rule: utf16_to_utf8_chunks.induct)
  case (1 n src)
  then show ?case
    using sw16_ascii_append [of "take n src" "drop n src"]
    by (subst utf16_to_utf8_chunks.simps) (auto simp: utf16_mask.chunk)
qed

lemma neon_chunk_sw: "neon_chunk cs = (out, rest) \<Longrightarrow> utf16_to_utf8_sw (cs @ s) = out @ utf16_to_utf8_sw (rest @ s)"
proof (induction cs arbitrary: out rest)
  case (Cons c cs)
  obtain o' r' where n: "neon_chunk cs = (o', r')" by (cases "neon_chunk cs")
  have "utf16_to_utf8_sw (cs @ s) = o' @ utf16_to_utf8_sw (r' @ s)" by (rule Cons.IH [OF n])
  then show ?case
    using Cons.prems n sw16_ascii [of c "cs @ s"]
    by (auto simp: ucast_less_80 ucast16_cmp Let_def split: if_splits simp del: utf16_to_utf8_sw.simps(2))
      (auto simp: ucast_less_80 ucast16_cmp Let_def)
qed simp

lemma neon16_eq: "utf16_to_utf8_simd_neon src = utf16_to_utf8_sw src"
proof (induction src rule: utf16_to_utf8_simd_neon.induct)
  case (1 src)
  obtain out rest where n: "neon_chunk (take 8 src) = (out, rest)" by (cases "neon_chunk (take 8 src)")
  show ?case
    using 1 n sw16_ascii_append [of "take 8 src" "drop 8 src"] neon_chunk_sw [OF n, of "drop 8 src"]
    by (subst utf16_to_utf8_simd_neon.simps) auto
qed

lemma avx8_eq: "utf8_to_utf16_simd_avx2 b src = utf8_to_utf16_sw b src"
proof (induction b src rule: utf8_to_utf16_simd_avx2.induct)
  case (1 b src)
  then show ?case
    using sw8_ascii_append [of "take 16 src" b "drop 16 src"]
    by (subst utf8_to_utf16_simd_avx2.simps) (auto simp: utf8_mask.chunk)
qed

lemma append_Cons_fun: "(@) (a # b) = (\<lambda>x. a # b @ x)"
  by (simp add: fun_eq_iff)

lemma step_chunk_sw:
  "i \<le> length s \<Longrightarrow> utf8_to_utf16_sw b s =
     (case step_chunk i (s @ b) of None \<Rightarrow> None
      | Some (u, m) \<Rightarrow> map_option (\<lambda>r. u @ r) (utf8_to_utf16_sw b (take (length m - length b) m)))"
proof (induction i s rule: step_chunk.induct)
  case (1 s)
  then show ?case by (cases "utf8_to_utf16_sw b s") simp_all
next
  case (3 i c s)
  show ?case
  proof (cases "c < 0x80")
    case True
    then show ?thesis
      using 3 sw8_ascii [OF True, of b s]
      by (auto simp: option.map_comp comp_def append_Cons_fun split: option.splits simp del: utf8_to_utf16_sw.simps(2))
  qed simp
qed simp

text \<open>A character that lies in the source is read the same whatever is behind it.\<close>

lemma decode_multi_append: "decode_multi c s = Some (u, r) \<Longrightarrow> decode_multi c (s @ b) = Some (u, r @ b)"
  by (auto simp: decode_multi_def split: if_splits list.splits)

lemma step_chunk_append: "step_chunk i s = Some (u, r) \<Longrightarrow> step_chunk i (s @ b) = Some (u, r @ b)"
  by (induction i s arbitrary: u r rule: step_chunk.induct) (auto split: if_splits intro: decode_multi_append)

lemma step_chunk_ends: "i \<le> length s \<Longrightarrow> step_chunk i (s @ b) = Some (u, m) \<Longrightarrow> length b \<le> length m + 3"
proof (induction i s arbitrary: u rule: step_chunk.induct)
  case (3 i c s)
  then show ?case by (auto simp: decode_multi_def append_eq_Cons_conv split: if_splits list.splits)
qed auto

lemma past_end_none: "0 < k \<Longrightarrow> k \<le> 3 \<Longrightarrow> length m + 3 < 2 ^ 32 \<Longrightarrow> utf8_to_utf16_past_end k m = None"
proof -
  assume k: "0 < k" "k \<le> 3" "length m + 3 < 2 ^ 32"
  then have "(of_nat (2 ^ 32 - k) :: u32) = - of_nat k" by (simp add: of_nat_diff)
  then have "unat (- of_nat k :: u32) = unat (of_nat (2 ^ 32 - k) :: u32)" by simp
  also have "\<dots> = 2 ^ 32 - k" using k by (simp only: unsigned_of_nat) (simp add: take_bit_nat_eq_self)
  finally have "unat (- of_nat k :: u32) = 2 ^ 32 - k" .
  then show ?thesis using k by (simp add: utf8_to_utf16_past_end_def Let_def)
qed

lemma step8_cases:
  assumes "length b + 3 < 2 ^ 32"
  shows "utf8_to_utf16_simd_step b src \<in> {utf8_to_utf16_sw b src, None}"
  using assms
proof (induction b src rule: utf8_to_utf16_simd_step.induct)
  case (1 b src)
  show ?case
  proof (cases "16 \<le> length src")
    case len: True
    show ?thesis
    proof (cases "ascii_chunk 0x80 (take 16 src)")
      case True
      then show ?thesis
        using len 1(1,3) sw8_ascii_append [of "take 16 src" b "drop 16 src"]
        by (subst (1) utf8_to_utf16_simd_step.simps) (auto simp: utf8_mask.chunk)
    next
      case False
      show ?thesis
      proof (cases "step_chunk 16 (src @ b)")
        case None
        then show ?thesis using len False by (subst (1) utf8_to_utf16_simd_step.simps) simp
      next
        case (Some x)
        then obtain u m where x: "step_chunk 16 (src @ b) = Some (u, m)" by (cases x) simp
        then have "length m < length b \<Longrightarrow> utf8_to_utf16_past_end (length b - length m) m = None"
          using step_chunk_ends [OF len x] 1(3) by (intro past_end_none) auto
        then show ?thesis
          using len False x 1(2) [OF len False x refl] 1(3) step_chunk_sw [OF len, of b]
          by (subst (1) utf8_to_utf16_simd_step.simps) auto
      qed
    qed
  qed (subst utf8_to_utf16_simd_step.simps, simp)
qed

lemma sw8_behind: "utf8_to_utf16_sw [] s = Some us \<Longrightarrow> utf8_to_utf16_sw b s = Some us"
proof (induction "length s" arbitrary: s us rule: less_induct)
  case less
  show ?case
  proof (cases s)
    case (Cons c s')
    show ?thesis
    proof (cases "c < 0x80")
      case True
      then show ?thesis using less Cons by (auto simp: sw8_ascii simp del: utf8_to_utf16_sw.simps(2))
    next
      case False
      then obtain u r where d: "decode_multi c s' = Some (u, r)" using less(2) Cons by (auto split: option.splits)
      then have "length r < length s" using decode_multi_length [OF d] Cons by simp
      then show ?thesis using False Cons d decode_multi_append [OF d, of b] less(2) less(1) [of r] by auto
    qed
  qed (use less in simp)
qed

lemma step8_complete: "utf8_to_utf16_sw [] src = Some us \<Longrightarrow> utf8_to_utf16_simd_step b src = Some us"
proof (induction "length src" arbitrary: src us rule: less_induct)
  case less
  show ?case
  proof (cases "16 \<le> length src")
    case len: True
    show ?thesis
    proof (cases "ascii_chunk 0x80 (take 16 src)")
      case True
      then obtain us' where "utf8_to_utf16_sw [] (drop 16 src) = Some us'" "us = map ucast (take 16 src) @ us'"
        using less(2) sw8_ascii_append [of "take 16 src" "[]" "drop 16 src"]
        by (cases "utf8_to_utf16_sw [] (drop 16 src)") (auto simp: utf8_mask.chunk)
      then show ?thesis using len True less(1) [of "drop 16 src"] by (subst utf8_to_utf16_simd_step.simps) simp
    next
      case False
      obtain u r us' where x: "step_chunk 16 src = Some (u, r)" "utf8_to_utf16_sw [] r = Some us'" "us = u @ us'"
        using less(2) step_chunk_sw [OF len, of "[]"] by (auto split: option.splits)
      then show ?thesis
        using len False step_chunk_append [OF x(1), of b] step_chunk_length [OF _ x(1)] less(1) [of r]
        by (subst utf8_to_utf16_simd_step.simps) simp
    qed
  next
    case False
    then show ?thesis using sw8_behind [OF less(2), of b] by (subst utf8_to_utf16_simd_step.simps) simp
  qed
qed

section \<open>Round trip\<close>

text \<open>Text without lone surrogates.\<close>

fun well_formed :: "u16 list \<Rightarrow> bool" where
  "well_formed [] \<longleftrightarrow> True"
| "well_formed (c # s) \<longleftrightarrow>
     (if 0xD800 \<le> c \<and> c \<le> 0xDFFF
      then c < 0xDC00 \<and> (case s of [] \<Rightarrow> False | c2 # s' \<Rightarrow> 0xDC00 \<le> c2 \<and> c2 \<le> 0xDFFF \<and> well_formed s')
      else well_formed s)"

lemma bit_consts:
    "bit (0x80 :: int) i \<longleftrightarrow> i = 7"
    "bit (0xC0 :: int) i \<longleftrightarrow> 6 \<le> i \<and> i < 8"
    "bit (0xE0 :: int) i \<longleftrightarrow> 5 \<le> i \<and> i < 8"
    "bit (0xF0 :: int) i \<longleftrightarrow> 4 \<le> i \<and> i < 8"
    "bit (0x3F :: int) i \<longleftrightarrow> i < 6"
    "bit (0x1F :: int) i \<longleftrightarrow> i < 5"
    "bit (0x0F :: int) i \<longleftrightarrow> i < 4"
    "bit (0x07 :: int) i \<longleftrightarrow> i < 3"
    "bit (0x3FF :: int) i \<longleftrightarrow> i < 10"
proof -
  have c: "(0x80 :: int) = push_bit 7 (mask 1)"
    "(0xC0 :: int) = push_bit 6 (mask 2)"
    "(0xE0 :: int) = push_bit 5 (mask 3)"
    "(0xF0 :: int) = push_bit 4 (mask 4)"
    "(0x3F :: int) = mask 6"
    "(0x1F :: int) = mask 5"
    "(0x0F :: int) = mask 4"
    "(0x07 :: int) = mask 3"
    "(0x3FF :: int) = mask 10"
    by (simp_all add: mask_eq_exp_minus_1 push_bit_eq_mult)
  show "bit (0x80 :: int) i \<longleftrightarrow> i = 7"
    "bit (0xC0 :: int) i \<longleftrightarrow> 6 \<le> i \<and> i < 8"
    "bit (0xE0 :: int) i \<longleftrightarrow> 5 \<le> i \<and> i < 8"
    "bit (0xF0 :: int) i \<longleftrightarrow> 4 \<le> i \<and> i < 8"
    "bit (0x3F :: int) i \<longleftrightarrow> i < 6"
    "bit (0x1F :: int) i \<longleftrightarrow> i < 5"
    "bit (0x0F :: int) i \<longleftrightarrow> i < 4"
    "bit (0x07 :: int) i \<longleftrightarrow> i < 3"
    "bit (0x3FF :: int) i \<longleftrightarrow> i < 10"
    unfolding c bit_push_bit_iff bit_mask_iff by auto
qed

lemmas utf_bits = bit_consts bit_and_iff bit_or_iff bit_drop_bit_eq bit_push_bit_iff bit_ucast_iff

lemma byte_ge_80: "bit (b :: u8) 7 \<Longrightarrow> \<not> b < 0x80"
  by (auto simp: bits_below_80)

lemma word_bit_neq: "bit a i \<noteq> bit b i \<Longrightarrow> a \<noteq> (b :: 'a::len word)"
  by auto

lemma cp2_two_bytes:
  fixes v :: u32 assumes "\<And>i. bit v i \<Longrightarrow> i < 11"
  shows "cp2 (ucast (0xC0 OR drop_bit 6 v)) (ucast (0x80 OR (v AND 0x3F))) = ucast v"
    and "ucast (0xC0 OR drop_bit 6 v) AND 0xE0 = (0xC0 :: u8)"
proof -
  show "cp2 (ucast (0xC0 OR drop_bit 6 v)) (ucast (0x80 OR (v AND 0x3F))) = ucast v"
    unfolding cp2_def
  proof (rule bit_word_eqI)
    fix n assume "n < LENGTH(16)"
    then show "bit (ucast (push_bit 6 (ucast (ucast (0xC0 OR drop_bit 6 v) AND 0x1F :: u8)) OR ucast (ucast (0x80 OR v AND 0x3F) AND 0x3F :: u8) :: u32) :: u16) n = bit (ucast v :: u16) n"
      using assms [of n] by (cases "n < 6") (auto simp: utf_bits)
  qed
  show "ucast (0xC0 OR drop_bit 6 v) AND 0xE0 = (0xC0 :: u8)"
    by (rule bit_word_eqI) (use assms in \<open>auto simp: utf_bits dest!: assms\<close>)
qed

lemma cp3_three_bytes:
  fixes v :: u32 assumes "\<And>i. bit v i \<Longrightarrow> i < 16"
  shows "cp3 (ucast (0xE0 OR drop_bit 12 v)) (ucast (0x80 OR (drop_bit 6 v AND 0x3F))) (ucast (0x80 OR (v AND 0x3F))) = ucast v"
    and "ucast (0xE0 OR drop_bit 12 v) AND 0xF0 = (0xE0 :: u8)"
proof -
  show "cp3 (ucast (0xE0 OR drop_bit 12 v)) (ucast (0x80 OR (drop_bit 6 v AND 0x3F))) (ucast (0x80 OR (v AND 0x3F))) = ucast v"
    unfolding cp3_def
  proof (rule bit_word_eqI)
    fix n assume "n < LENGTH(16)"
    then show "bit (ucast (push_bit 12 (ucast (ucast (0xE0 OR drop_bit 12 v) AND 0x0F :: u8)) OR push_bit 6 (ucast (ucast (0x80 OR drop_bit 6 v AND 0x3F) AND 0x3F :: u8)) OR ucast (ucast (0x80 OR v AND 0x3F) AND 0x3F :: u8) :: u32) :: u16) n = bit (ucast v :: u16) n"
      using assms [of n] by (cases "n < 6"; cases "n < 12") (auto simp: utf_bits)
  qed
  show "ucast (0xE0 OR drop_bit 12 v) AND 0xF0 = (0xE0 :: u8)"
    by (rule bit_word_eqI) (use assms in \<open>auto simp: utf_bits dest!: assms\<close>)
qed

lemma four_bytes_value:
  fixes v :: u32
  assumes "\<And>i. bit v i \<Longrightarrow> i < 21"
  shows "push_bit 18 (ucast (ucast (0xF0 OR drop_bit 18 v) AND 0x07 :: u8)) OR push_bit 12 (ucast (ucast (0x80 OR (drop_bit 12 v AND 0x3F)) AND 0x3F :: u8))
      OR push_bit 6 (ucast (ucast (0x80 OR (drop_bit 6 v AND 0x3F)) AND 0x3F :: u8)) OR ucast (ucast (0x80 OR (v AND 0x3F)) AND 0x3F :: u8) = v"
  (is "?l = _")
proof (rule bit_word_eqI)
  fix n assume "n < LENGTH(32)"
  then show "bit ?l n = bit v n"
    using assms [of n] by (cases "n < 6"; cases "n < 12"; cases "n < 18") (auto simp: utf_bits)
qed

lemma unat_ucast32: "unat (ucast (c :: u16) :: u32) = unat c"
  using unat_lt2p [of c] by (simp add: unsigned_ucast_eq take_bit_nat_eq_self)

lemma two_bytes_decode:
  fixes c :: u16
  assumes "c < 0x800"
  obtains b0 b1 where "two_bytes (ucast c) = [b0, b1]" "\<not> b0 < 0x80" "b0 AND 0xE0 = 0xC0" "cp2 b0 b1 = c"
proof -
  let ?v = "ucast c :: u32"
  have "unat ?v < 2 ^ 11" using assms by (simp add: unat_ucast32 word_less_nat_alt)
  then have b: "bit ?v i \<Longrightarrow> i < 11" for i by (rule bit_less_exp)
  have "\<not> (ucast (0xC0 OR drop_bit 6 ?v) :: u8) < 0x80" by (rule byte_ge_80) (simp add: utf_bits)
  moreover have "(ucast ?v :: u16) = c" by (rule bit_word_eqI) (simp add: bit_ucast_iff)
  ultimately show ?thesis using cp2_two_bytes [of ?v, OF b] by (intro that) (simp_all add: two_bytes_def)
qed

lemma three_bytes_decode:
  fixes c :: u16
  obtains b0 b1 b2 where "three_bytes (ucast c) = [b0, b1, b2]" "\<not> b0 < 0x80" "b0 AND 0xE0 \<noteq> 0xC0"
    "b0 AND 0xF0 = 0xE0" "cp3 b0 b1 b2 = c"
proof -
  let ?v = "ucast c :: u32" and ?b = "ucast (0xE0 OR drop_bit 12 (ucast c :: u32)) :: u8"
  have b: "bit ?v i \<Longrightarrow> i < 16" for i by (simp add: bit_ucast_iff bit_imp_le_length [of c, simplified])
  have "\<not> ?b < 0x80" by (rule byte_ge_80) (simp add: utf_bits)
  moreover have "?b AND 0xE0 \<noteq> 0xC0" by (rule word_bit_neq [of _ 5]) (simp add: utf_bits)
  moreover have "(ucast ?v :: u16) = c" by (rule bit_word_eqI) (simp add: bit_ucast_iff)
  ultimately show ?thesis using cp3_three_bytes [of ?v, OF b] by (intro that) (simp_all add: three_bytes_def)
qed

lemma surrogate_rebuild:
  fixes c base :: u16
  assumes "base \<le> c" "unat c < unat base + 1024" "unat base mod 1024 = 0"
  shows "ucast ((ucast c AND 0x3FF) + ucast base :: u32) = c"
proof -
  have m: "(0x3FF :: u32) = mask 10" by (simp add: mask_eq_exp_minus_1)
  have "unat (ucast c AND 0x3FF :: u32) = unat c mod 1024"
    unfolding m by (simp add: unsigned_take_bit_eq unat_ucast32 take_bit_nat_def flip: take_bit_eq_mask)
  also have "\<dots> = unat c - unat base"
  proof -
    obtain k where k: "unat base = 1024 * k" using assms(3) by (metis mod_0_imp_dvd dvd_def)
    moreover have "unat base \<le> unat c" using assms(1) by (simp add: word_le_nat_alt)
    ultimately obtain r where "unat c = r + 1024 * k" "r < 1024" using assms(2)
      by (metis add.commute le_Suc_ex nat_add_left_cancel_less)
    then show ?thesis using k by simp
  qed
  finally have u: "unat (ucast c AND 0x3FF :: u32) = unat c - unat base" .
  have "unat ((ucast c AND 0x3FF) + ucast base :: u32) = unat c"
    using u assms(1) unat_lt2p [of c] by (simp add: unat_word_ariths unat_ucast32 word_le_nat_alt)
  then show ?thesis
    using unat_lt2p [of c] by (simp add: word_unat_eq_iff unsigned_ucast_eq take_bit_nat_eq_self)
qed

lemma four_bytes_decode:
  fixes c d :: u16
  assumes "0xD800 \<le> c" "c < 0xDC00" "0xDC00 \<le> d" "d \<le> 0xDFFF"
  obtains b0 b1 b2 b3 where
    "four_bytes ((push_bit 10 (ucast c AND 0x3FF) OR (ucast d AND 0x3FF)) + 0x10000) = [b0, b1, b2, b3]"
    "\<not> b0 < 0x80" "b0 AND 0xE0 \<noteq> 0xC0" "b0 AND 0xF0 \<noteq> 0xE0" "cp4 b0 b1 b2 b3 = [c, d]"
proof -
  let ?w = "push_bit 10 (ucast c AND 0x3FF) OR (ucast d AND 0x3FF) :: u32"
  let ?v = "?w + 0x10000"
  have w: "unat ?w < 2 ^ 20" by (rule unat_less_exp_bits) (simp only: utf_bits bit_numeral_word_iff, linarith)
  then have "unat ?v < 2 ^ 21" by (simp add: unat_word_ariths)
  then have b: "bit ?v i \<Longrightarrow> i < 21" for i by (rule bit_less_exp)
  have hi: "drop_bit 10 ?w = ucast c AND 0x3FF" by (rule bit_word_eqI) (auto simp: utf_bits)
  have lo: "?w AND 0x3FF = ucast d AND 0x3FF" by (rule bit_word_eqI) (auto simp: utf_bits)
  have c: "ucast ((ucast c AND 0x3FF) + 0xD800 :: u32) = c"
    using surrogate_rebuild [of "0xD800" c] assms by (simp add: word_less_nat_alt)
  have d: "ucast ((ucast d AND 0x3FF) + 0xDC00 :: u32) = d"
    using surrogate_rebuild [of "0xDC00" d] assms by (simp add: word_le_nat_alt)
  let ?b0 = "ucast (0xF0 OR drop_bit 18 ?v) :: u8" and ?b1 = "ucast (0x80 OR (drop_bit 12 ?v AND 0x3F)) :: u8"
    and ?b2 = "ucast (0x80 OR (drop_bit 6 ?v AND 0x3F)) :: u8" and ?b3 = "ucast (0x80 OR (?v AND 0x3F)) :: u8"
  have "cp4 ?b0 ?b1 ?b2 ?b3 = [c, d]"
  proof -
    have "cp4 ?b0 ?b1 ?b2 ?b3 = (let cp = ?v - 0x10000 in [ucast (drop_bit 10 cp + 0xD800), ucast ((cp AND 0x3FF) + 0xDC00)])"
      unfolding cp4_def using four_bytes_value [of ?v, OF b] by (simp only: Let_def)
    then show ?thesis by (simp only: Let_def add_diff_cancel_right' hi lo c d)
  qed
  moreover have "\<not> ?b0 < 0x80" by (rule byte_ge_80) (simp add: utf_bits)
  moreover have "?b0 AND 0xE0 \<noteq> 0xC0" by (rule word_bit_neq [of _ 5]) (simp add: utf_bits)
  moreover have "?b0 AND 0xF0 \<noteq> 0xE0" by (rule word_bit_neq [of _ 4]) (simp add: utf_bits)
  ultimately show ?thesis by (intro that [of ?b0 ?b1 ?b2 ?b3]) (simp_all only: four_bytes_def not_False_eq_True)
qed
lemma utf8_head:
  "\<not> b0 < 0x80 \<Longrightarrow> utf8_to_utf16_sw [] (b0 # s) =
    (case decode_multi b0 s of None \<Rightarrow> None | Some (u, s') \<Rightarrow> map_option (\<lambda>r. u @ r) (utf8_to_utf16_sw [] s'))"
  by (auto split: option.split)

lemma narrow_ascii:
  assumes "(c :: u16) < 0x80" shows "(ucast c :: u8) < 0x80" and "(ucast (ucast c :: u8) :: u16) = c"
proof -
  have b: "\<not> bit c i" if "7 \<le> i" for i using assms that by (simp add: bits_below_80)
  show "(ucast c :: u8) < 0x80" using b by (simp add: bits_below_80 bit_ucast_iff)
  show "(ucast (ucast c :: u8) :: u16) = c"
  proof (rule bit_word_eqI)
    fix n show "bit (ucast (ucast c :: u8) :: u16) n = bit c n"
      using b [of n] by (cases "n < 7") (simp_all add: bit_ucast_iff)
  qed
qed

lemma sw_roundtrip: "well_formed s \<Longrightarrow> utf8_to_utf16_sw [] (utf16_to_utf8_sw s) = Some s"
proof (induction s rule: well_formed.induct)
  case (2 c s)
  note wf = "2.prems"
  consider (ascii) "c < 0x80" | (two) "\<not> c < 0x80" "c < 0x800" | (pair) "0xD800 \<le> c" "c \<le> 0xDFFF"
    | (three) "\<not> c < 0x80" "\<not> c < 0x800" "\<not> (0xD800 \<le> c \<and> c \<le> 0xDFFF)" by blast
  then show ?case
  proof cases
    case ascii
    have "\<not> 0xD800 \<le> c" using ascii by (auto simp: word_le_nat_alt word_less_nat_alt)
    then have "utf8_to_utf16_sw [] (utf16_to_utf8_sw s) = Some s" using 2 by simp
    then show ?thesis using ascii by (simp add: sw16_ascii sw8_ascii narrow_ascii del: utf8_to_utf16_sw.simps(2) utf16_to_utf8_sw.simps(2))
  next
    case two
    have "\<not> 0xD800 \<le> c" using two by (auto simp: word_le_nat_alt word_less_nat_alt)
    then have ih: "utf8_to_utf16_sw [] (utf16_to_utf8_sw s) = Some s" using 2 by simp
    obtain b0 b1 where b: "two_bytes (ucast c) = [b0, b1]" "\<not> b0 < 0x80" "b0 AND 0xE0 = 0xC0" "cp2 b0 b1 = c"
      using two(2) by (rule two_bytes_decode)
    have "utf16_to_utf8_sw (c # s) = b0 # b1 # utf16_to_utf8_sw s"
      using two b(1) by (simp add: ucast_less_80 ucast16_cmp Let_def)
    then show ?thesis using b ih by (simp only: utf8_head) (simp add: decode_multi_def)
  next
    case three
    then have ih: "utf8_to_utf16_sw [] (utf16_to_utf8_sw s) = Some s" using 2 by auto
    obtain b0 b1 b2 where b: "three_bytes (ucast c) = [b0, b1, b2]" "\<not> b0 < 0x80" "b0 AND 0xE0 \<noteq> 0xC0"
      "b0 AND 0xF0 = 0xE0" "cp3 b0 b1 b2 = c" by (rule three_bytes_decode)
    have "utf16_to_utf8_sw (c # s) = b0 # b1 # b2 # utf16_to_utf8_sw s"
      using three b(1) by (auto simp: ucast_less_80 ucast16_cmp Let_def)
    then show ?thesis using b ih by (simp only: utf8_head) (simp add: decode_multi_def)
  next
    case pair
    then obtain d s' where s: "s = d # s'" and d: "0xDC00 \<le> d" "d \<le> 0xDFFF" "c < 0xDC00" and w: "well_formed s'"
      using wf by (auto split: list.splits)
    then have ih: "utf8_to_utf16_sw [] (utf16_to_utf8_sw s') = Some s'" using 2(1) pair by simp
    obtain b0 b1 b2 b3 where b:
      "four_bytes ((push_bit 10 (ucast c AND 0x3FF) OR (ucast d AND 0x3FF)) + 0x10000) = [b0, b1, b2, b3]"
      "\<not> b0 < 0x80" "b0 AND 0xE0 \<noteq> 0xC0" "b0 AND 0xF0 \<noteq> 0xE0" "cp4 b0 b1 b2 b3 = [c, d]"
      using pair(1) d(3,1,2) by (rule four_bytes_decode)
    have "\<not> c < 0x80" "\<not> c < 0x800" using pair by (auto simp: word_le_nat_alt word_less_nat_alt)
    then have "utf16_to_utf8_sw (c # s) = b0 # b1 # b2 # b3 # utf16_to_utf8_sw s'"
      using pair d b(1) not_le [of "0xDC00" c] by (simp add: s ucast_less_80 ucast16_cmp Let_def)
    then show ?thesis using b ih by (simp only: utf8_head) (simp add: decode_multi_def s)
  qed
qed simp

lemma sw16_length: "length (utf16_to_utf8_sw s) \<le> 3 * length s"
proof (induction "length s" arbitrary: s rule: less_induct)
  case less
  show ?case
  proof (cases s)
    case (Cons c s')
    have ih: "length (utf16_to_utf8_sw s') \<le> 3 * length s'" using less Cons by simp
    have ih2: "length (utf16_to_utf8_sw s2) \<le> 3 * length s2" if "s' = d # s2" for d s2 using less Cons that by simp
    show ?thesis
    proof (cases "c < 0x80")
      case True
      then show ?thesis using ih Cons by (simp add: sw16_ascii del: utf16_to_utf8_sw.simps(2))
    next
      case False
      have "length (utf16_to_utf8_sw (c # d # s2)) \<le> 3 * length (c # d # s2)" if "s' = d # s2" for d s2
        using False ih ih2 [OF that] utf16_to_utf8_sw.simps(2) [of c "d # s2"] that
        by (simp add: ucast_less_80 Let_def two_bytes_def three_bytes_def four_bytes_def del: utf16_to_utf8_sw.simps(2) split: if_splits)
      then show ?thesis using False Cons utf16_to_utf8_sw.simps(2) [of c "[]"]
        by (cases s') (simp_all add: ucast_less_80 Let_def two_bytes_def three_bytes_def del: utf16_to_utf8_sw.simps(2) split: if_splits)
    qed
  qed simp
qed

section \<open>Properties\<close>

lemma utf16_sw:
  "utf16_to_utf8 t simd src = utf16_to_utf8_sw src \<and> length (utf16_to_utf8 t simd src) \<le> 3 * length src"
proof -
  have simd: "utf16_to_utf8_simd t s = utf16_to_utf8_sw s" for s
    by (cases t) (simp_all add: utf16_to_utf8_simd_avx2_def utf16_to_utf8_simd_sse_def chunks16_eq neon16_eq)
  have "utf16_to_utf8 t simd src = utf16_to_utf8_sw src"
    using pass16.resume [of utf16_to_utf8_sw t src, OF sw16_ascii_append]
    by (auto simp: utf16_to_utf8_def Let_def simd)
  then show ?thesis by (simp add: sw16_length)
qed

text \<open>
  C29. On every target, with or without vector support, UTF-16 to UTF-8 is the scalar conversion, and it writes at most three
  bytes per unit.
\<close>

theorem utf16_to_utf8_targets:
  "utf16_to_utf8 t simd src = utf16_to_utf8_sw src \<and> length (utf16_to_utf8 t simd src) \<le> 3 * length src"
  by (rule utf16_sw)

text \<open>
  What a target makes of a text: the scalar conversion, unless it runs away behind a cut last character; and a text whose last
  character is complete is converted the same by all.
\<close>

lemma utf8_sw_complete:
  assumes "utf8_to_utf16_sw [] src = Some us"
  shows "utf8_to_utf16 t simd behind src = Some us"
proof -
  have simd: "utf8_to_utf16_simd t behind s = Some u" if "utf8_to_utf16_sw [] s = Some u" for s u
    using step8_complete [OF that] sw8_behind [OF that]
    by (cases t) (simp_all add: utf8_to_utf16_simd_sse_def utf8_to_utf16_simd_neon_def avx8_eq)
  obtain rest where "utf8_to_utf16_sw [] (drop (length (utf8_to_utf16_ascii t src)) src) = Some rest"
    "us = utf8_to_utf16_ascii t src @ rest"
    using pass8.resume_option [of "utf8_to_utf16_sw []" t src, OF sw8_ascii_append] assms by auto
  then show ?thesis using sw8_behind [OF assms] by (auto simp: utf8_to_utf16_def Let_def simd)
qed

lemma utf8_sw_cases:
  assumes "length behind + 3 < 2 ^ 32"
  shows "utf8_to_utf16 t simd behind src \<in> {utf8_to_utf16_sw behind src, None}"
    and "\<not> simd \<or> t = Simd_x86 True \<or> t = Simd_none \<Longrightarrow> utf8_to_utf16 t simd behind src = utf8_to_utf16_sw behind src"
proof -
  note resume = pass8.resume_option [of "utf8_to_utf16_sw behind" t src, OF sw8_ascii_append]
  have simd: "utf8_to_utf16_simd t behind s \<in> {utf8_to_utf16_sw behind s, None}"
    "t = Simd_x86 True \<or> t = Simd_none \<Longrightarrow> utf8_to_utf16_simd t behind s = utf8_to_utf16_sw behind s" for s
    using step8_cases [OF assms, of s] by (cases t; auto simp: utf8_to_utf16_simd_sse_def utf8_to_utf16_simd_neon_def avx8_eq)+
  show "utf8_to_utf16 t simd behind src \<in> {utf8_to_utf16_sw behind src, None}"
    using resume simd(1) [of "drop (length (utf8_to_utf16_ascii t src)) src"] by (auto simp: utf8_to_utf16_def Let_def)
  show "\<not> simd \<or> t = Simd_x86 True \<or> t = Simd_none \<Longrightarrow> utf8_to_utf16 t simd behind src = utf8_to_utf16_sw behind src"
    using resume simd(2) by (auto simp: utf8_to_utf16_def Let_def)
qed

text \<open>
  C30. UTF-8 to UTF-16 on any target, with \<open>behind\<close> the readable memory behind the text. A text in which no character is cut off at the
  end is converted to the same units by every target, malformed or not, whatever is behind it. The scalar and the AVX2 version agree
  on all texts. The SSE and the NEON version give the scalar result or do not return: they do not when the last character is
  cut off and read in the vector loop, since the scalar loop then gets a negative length.
\<close>

theorem utf8_to_utf16_targets:
  assumes "length behind + 3 < 2 ^ 32"
  shows "(utf8_to_utf16_sw [] src = Some us \<longrightarrow> utf8_to_utf16 t simd behind src = Some us)
    \<and> (\<not> simd \<or> t = Simd_x86 True \<or> t = Simd_none \<longrightarrow> utf8_to_utf16 t simd behind src = utf8_to_utf16_sw behind src)
    \<and> utf8_to_utf16 t simd behind src \<in> {utf8_to_utf16_sw behind src, None}"
  using utf8_sw_complete utf8_sw_cases [OF assms] by blast

theorem utf8_to_utf16_targets_witness:
  "utf8_to_utf16 Simd_neon True [0x41] (replicate 15 0x61 @ [0xC3, 0xA9]) = Some (replicate 15 0x61 @ [0xE9])
   \<and> utf8_to_utf16 (Simd_x86 True) True [0xA9, 0x41] (replicate 15 0x61 @ [0xC3]) = Some (replicate 15 0x61 @ [0xE9])
   \<and> utf8_to_utf16 Simd_neon True [0xA9, 0x41] (replicate 15 0x61 @ [0xC3]) \<in> {Some (replicate 15 0x61 @ [0xE9]), None}"
proof -
  have s: "utf8_to_utf16_sw [] (replicate 15 0x61 @ [0xC3, 0xA9]) = Some (replicate 15 0x61 @ [0xE9])"
    "utf8_to_utf16_sw [0xA9, 0x41] (replicate 15 0x61 @ [0xC3]) = Some (replicate 15 0x61 @ [0xE9])"
    by code_simp+
  show ?thesis
    using utf8_to_utf16_targets [of "[0x41]" "replicate 15 0x61 @ [0xC3, 0xA9]" "replicate 15 0x61 @ [0xE9]" Simd_neon True]
      utf8_to_utf16_targets [of "[0xA9, 0x41]" "replicate 15 0x61 @ [0xC3]" "[]" "Simd_x86 True" True]
      utf8_to_utf16_targets [of "[0xA9, 0x41]" "replicate 15 0x61 @ [0xC3]" "[]" Simd_neon True]
    unfolding s by simp
qed

text \<open>With a text of sixteen bytes that ends inside a character the targets differ.\<close>

lemma cut_character_runs_away:
  "utf8_to_utf16 Simd_none True [0xA9, 0x41] (replicate 15 0x61 @ [0xC3]) = Some (replicate 15 0x61 @ [0xE9])"
  "utf8_to_utf16 Simd_neon True [0xA9, 0x41] (replicate 15 0x61 @ [0xC3]) = None"
proof -
  have p: "utf8_to_utf16_ascii Simd_neon (replicate 15 0x61 @ [0xC3]) = []" by code_simp
  have c: "step_chunk 16 ((replicate 15 0x61 @ [0xC3]) @ [0xA9, 0x41]) = Some (replicate 15 0x61 @ [0xE9], [0x41])" by code_simp
  show "utf8_to_utf16 Simd_none True [0xA9, 0x41] (replicate 15 0x61 @ [0xC3]) = Some (replicate 15 0x61 @ [0xE9])"
    by code_simp
  have "utf8_to_utf16_simd_step [0xA9, 0x41] (replicate 15 0x61 @ [0xC3]) = None"
    by (subst utf8_to_utf16_simd_step.simps) (simp add: c past_end_none ascii_chunk_def del: append_assoc)
  then show "utf8_to_utf16 Simd_neon True [0xA9, 0x41] (replicate 15 0x61 @ [0xC3]) = None"
    by (simp add: utf8_to_utf16_def p utf8_to_utf16_simd_neon_def del: utf8_to_utf16_ascii.simps)
qed

text \<open>C28. A text without lone surrogates survives the way to UTF-8 and back, on any pair of targets, whatever lies behind it.\<close>

theorem utf_roundtrip:
  assumes "well_formed s"
  shows "utf8_to_utf16 t' simd' behind (utf16_to_utf8 t simd s) = Some s"
  using utf8_sw_complete [OF sw_roundtrip [OF assms]] by (simp add: utf16_sw)

theorem utf_roundtrip_witness:
  "utf8_to_utf16 Simd_neon True [] (utf16_to_utf8 (Simd_x86 True) True [0x41, 0xE9, 0x4E2D, 0xD83D, 0xDE00, 0x7A])
    = Some [0x41, 0xE9, 0x4E2D, 0xD83D, 0xDE00, 0x7A]"
  by (rule utf_roundtrip) simp

end
