(* ===== verification/Utf_Mixed.thy ===== *)
theory Utf_Mixed
  imports Utf Crc_Hash
begin

text \<open>
  The mixed text format of \<open>src/bq_common/utils/util.cpp\<close>, in which log entries keep UTF-16 texts: the longest converted ASCII
  prefix as bytes and, if something is left, the mark 0xFF and the remaining units as raw little-endian UTF-16. How much the
  ASCII pass converts depends on the machine, so a text has several mixed forms; reading it
  back and hashing it must not see the difference. A failed
  assertion and a write behind the target of \<open>dst_num\<close> units are \<open>None\<close>.
\<close>

section \<open>Conversions\<close>

definition unit_bytes :: "u16 list \<Rightarrow> u8 list" where
  "unit_bytes us = concat (map (le_bytes 2) us)"

fun byte_units :: "u8 list \<Rightarrow> u16 list" where
  "byte_units (a # b # bs) = le_word [a, b] # byte_units bs"
| "byte_units bs = []"

definition utf16_to_utf_mixed :: "simd_target \<Rightarrow> u16 list \<Rightarrow> nat \<Rightarrow> u8 list option" where
  "utf16_to_utf_mixed t src dst_num =
     (if dst_num < length src then None
      else
        (let out = utf16_to_utf8_ascii t src; written = length out
         in if written \<ge> dst_num then None
            else if written = length src then Some out
            else
              (let left_chars = length src - written; left_space = dst_num - (written + 1)
               in if left_space < left_chars * 2 then None
                  else Some (out @ 0xFF # unit_bytes (drop written src)))))"

text \<open>\<open>memchr\<close>: the bytes before the mark and, if there is one, the bytes after it.\<close>

fun split_mark :: "u8 list \<Rightarrow> u8 list \<times> u8 list option" where
  "split_mark [] = ([], None)"
| "split_mark (b # bs) = (if b = 0xFF then ([], Some bs) else (let (p, s) = split_mark bs in (b # p, s)))"

definition utf_mixed_to_utf8 :: "simd_target \<Rightarrow> bool \<Rightarrow> u8 list \<Rightarrow> nat \<Rightarrow> u8 list option" where
  "utf_mixed_to_utf8 t simd src dst_num =
     (case split_mark src of
        (p, None) \<Rightarrow> if length src > dst_num then None else Some src
      | (p, Some suffix) \<Rightarrow>
          (if length p > dst_num then None
           else (let utf8 = utf16_to_utf8 t simd (byte_units suffix); left_space = dst_num - length p
                 in if length utf8 > left_space then None else Some (p @ utf8))))"

text \<open>Widening of the ASCII part by whole chunks of \<open>n\<close> bytes: the units and the bytes left over.\<close>

function inflate_chunks :: "nat \<Rightarrow> u8 list \<Rightarrow> u16 list \<times> u8 list" where
  "inflate_chunks n src =
     (if 0 < n \<and> n \<le> length src
      then (let (out, rest) = inflate_chunks n (drop n src) in (map ucast (take n src) @ out, rest))
      else ([], src))"
  by pat_completeness auto
termination by (relation "measure (\<lambda>(n, src). length src)") auto

declare inflate_chunks.simps [simp del]

definition inflate_ascii_to_utf16_sw :: "u8 list \<Rightarrow> u16 list \<times> u8 list" where
  "inflate_ascii_to_utf16_sw src = (map ucast src, [])"

definition inflate_ascii_to_utf16_avx2 :: "u8 list \<Rightarrow> u16 list \<times> u8 list" where
  "inflate_ascii_to_utf16_avx2 src = inflate_chunks 16 src"

definition inflate_ascii_to_utf16_sse :: "u8 list \<Rightarrow> u16 list \<times> u8 list" where
  "inflate_ascii_to_utf16_sse src = inflate_chunks 8 src"

definition inflate_ascii_to_utf16_neon :: "u8 list \<Rightarrow> u16 list \<times> u8 list" where
  "inflate_ascii_to_utf16_neon src =
     (let (out, rest) = inflate_chunks 16 src; (out', rest') = inflate_chunks 8 rest in (out @ out', rest'))"

fun inflate :: "simd_target \<Rightarrow> u8 list \<Rightarrow> u16 list \<times> u8 list" where
  "inflate (Simd_x86 avx2) src = (if avx2 then inflate_ascii_to_utf16_avx2 src else inflate_ascii_to_utf16_sse src)"
| "inflate Simd_neon src = inflate_ascii_to_utf16_neon src"
| "inflate Simd_none src = inflate_ascii_to_utf16_sw src"

text \<open>The buffer that is hashed: the widened prefix, finished by the byte loop, and the raw suffix.\<close>

definition mixed_as_utf16 :: "simd_target \<Rightarrow> u8 list \<Rightarrow> u8 list" where
  "mixed_as_utf16 t mixed =
     (let (p, s) = split_mark mixed; (out, rest) = inflate t p
      in unit_bytes (out @ map ucast rest) @ (case s of None \<Rightarrow> [] | Some suffix \<Rightarrow> suffix))"

definition hash_utf_mixed_as_utf16 :: "simd_target \<Rightarrow> crc_target \<Rightarrow> crc_ops \<Rightarrow> bool \<Rightarrow> u8 list \<Rightarrow> u64" where
  "hash_utf_mixed_as_utf16 t ct insn crc32_supported mixed = bq_hash_only ct insn crc32_supported (mixed_as_utf16 t mixed)"

section \<open>Reading a mixed text back\<close>

lemma split_mark_append: "0xFF \<notin> set p \<Longrightarrow> split_mark (p @ 0xFF # s) = (p, Some s)" "0xFF \<notin> set p \<Longrightarrow> split_mark p = (p, None)"
  by (induction p) auto

lemma ascii_no_mark: "ascii p \<Longrightarrow> 0xFF \<notin> set (p :: u8 list)"
  by (auto simp: list_all_iff)

lemma byte_units_unit_bytes [simp]: "byte_units (unit_bytes us) = us"
proof (induction us)
  case (Cons a us)
  have "le_word [le_byte 0 a, le_byte 1 a] = a"
    using le_word_le_bytes_id [of 2 a] by (simp only: le_bytes_2_4) simp
  then show ?case using Cons by (simp only: unit_bytes_def list.map concat.simps le_bytes_2_4 append.simps byte_units.simps)
qed (simp add: unit_bytes_def)

lemma inflate_chunks_eq: "(let (out, rest) = inflate_chunks n src in out @ map ucast rest) = map ucast src"
proof (induction n src rule: inflate_chunks.induct)
  case (1 n src)
  show ?case
  proof (cases "0 < n \<and> n \<le> length src")
    case True
    obtain out rest where r: "inflate_chunks n (drop n src) = (out, rest)" by (cases "inflate_chunks n (drop n src)")
    then have "out @ map ucast rest = map ucast (drop n src)" using 1 True by simp
    moreover have "map ucast (take n src) @ map ucast (drop n src) = (map ucast src :: u16 list)"
      by (metis append_take_drop_id map_append)
    ultimately show ?thesis using True r by (subst inflate_chunks.simps) simp
  qed (subst inflate_chunks.simps, auto)
qed

lemma inflate_eq: "inflate t p = (out, rest) \<Longrightarrow> out @ map ucast rest = map ucast p"
  using inflate_chunks_eq [of 16 p] inflate_chunks_eq [of 8 p] inflate_chunks_eq [of 8 "snd (inflate_chunks 16 p)"]
  by (cases t) (auto simp: inflate_ascii_to_utf16_avx2_def inflate_ascii_to_utf16_sse_def inflate_ascii_to_utf16_neon_def
      inflate_ascii_to_utf16_sw_def split: if_splits prod.splits)

lemma mixed_form:
  obtains pre post where "src = pre @ post" "0xFF \<notin> set (map ucast pre :: u8 list)" "map ucast (map ucast pre :: u8 list) = pre" "ascii pre"
    "\<And>n. utf16_to_utf_mixed t src n =
        (if n < length src \<or> n \<le> length pre then None
         else if post = [] then Some (map ucast pre)
         else if n - (length pre + 1) < length post * 2 then None
         else Some (map ucast pre @ 0xFF # unit_bytes post))"
proof -
  obtain pre post where p: "src = pre @ post" "utf16_to_utf8_ascii t src = map ucast pre" "ascii pre"
    using pass16.prefix [of src t] by (auto simp: ascii_prefix_def)
  have l: "length src = length pre + length post" "drop (length pre) src = post" using p(1) by simp_all
  have "0xFF \<notin> set (map ucast pre :: u8 list)"
    using p(3) by (intro ascii_no_mark) (auto simp: list_all_iff narrow_ascii(1))
  moreover have "map ucast (map ucast pre :: u8 list) = pre"
    using p(3) by (auto simp: list_all_iff narrow_ascii(2) intro: map_idI)
  moreover have "utf16_to_utf_mixed t src n =
        (if n < length src \<or> n \<le> length pre then None
         else if post = [] then Some (map ucast pre)
         else if n - (length pre + 1) < length post * 2 then None
         else Some (map ucast pre @ 0xFF # unit_bytes post))" for n
    by (auto simp: utf16_to_utf_mixed_def p(2) l Let_def)
  ultimately show ?thesis using p(1,3) by (intro that)
qed

lemma mixed_reads:
  assumes "2 * length src < n"
  shows "\<exists>m. utf16_to_utf_mixed t src n = Some m
    \<and> (\<forall>n'. utf_mixed_to_utf8 t' simd' m n' = (if length (utf16_to_utf8_sw src) \<le> n' then Some (utf16_to_utf8_sw src) else None))
    \<and> length (utf16_to_utf8_sw src) \<le> 2 * length m
    \<and> length src \<le> length m \<and> length m \<le> 2 * length src + 1 \<and> (src \<noteq> [] \<longrightarrow> hd src \<noteq> 0 \<longrightarrow> hd m \<noteq> 0)"
proof -
  obtain pre post where p: "src = pre @ post" "0xFF \<notin> set (map ucast pre :: u8 list)" "ascii pre" "map ucast (map ucast pre :: u8 list) = pre"
    and m: "utf16_to_utf_mixed t src n =
        (if n < length src \<or> n \<le> length pre then None
         else if post = [] then Some (map ucast pre)
         else if n - (length pre + 1) < length post * 2 then None
         else Some (map ucast pre @ 0xFF # unit_bytes post))"
    by (rule mixed_form [of src t]) blast
  have sw: "utf16_to_utf8_sw src = map ucast pre @ utf16_to_utf8_sw post"
    using sw16_ascii_append [OF p(3)] by (simp add: p(1))
  have h: "hd (map ucast pre :: u8 list) \<noteq> 0" if "pre \<noteq> []" "hd pre \<noteq> 0" using p(4) that by (cases pre) auto
  have u: "length (unit_bytes us) = 2 * length us" for us by (induction us) (simp_all add: unit_bytes_def)
  have l: "length (utf16_to_utf8_sw post) \<le> 3 * length post" by (rule sw16_length)
  show ?thesis
    unfolding m sw using assms p(1,2) h l
    by (cases pre) (auto simp: utf_mixed_to_utf8_def Let_def split_mark_append utf16_sw u simp del: set_map)
qed

lemma mixed_hash:
  assumes "utf16_to_utf_mixed t src n = Some m"
  shows "hash_utf_mixed_as_utf16 t' ct insn supported m = bq_hash_only ct insn supported (unit_bytes src)"
proof -
  obtain pre post where p: "src = pre @ post" "0xFF \<notin> set (map ucast pre :: u8 list)" "map ucast (map ucast pre :: u8 list) = pre"
    and m: "m = map ucast pre @ (if post = [] then [] else 0xFF # unit_bytes post)"
    using assms by (rule_tac mixed_form [of src t]) (fastforce split: if_splits)
  obtain out rest where i: "inflate t' (map ucast pre) = (out, rest)" by (cases "inflate t' (map ucast pre)")
  then have "out @ map ucast rest = pre" using inflate_eq [OF i] p(3) by simp
  then have "mixed_as_utf16 t' m = unit_bytes src"
    using p(1,2) i m by (auto simp: mixed_as_utf16_def split_mark_append unit_bytes_def simp del: set_map)
  then show ?thesis by (simp add: hash_utf_mixed_as_utf16_def)
qed

section \<open>Properties\<close>

text \<open>
  C23. With room for the source and its raw units the mixed form exists, and reading it on any other target gives the UTF-8 text that
  converting the source itself gives, exactly when the target has room for that text. Twice the size of the mixed form is room enough.
\<close>

theorem utf_mixed_roundtrip:
  assumes "2 * length src < n"
  shows "\<exists>m. utf16_to_utf_mixed t src n = Some m
    \<and> (\<forall>n'. utf_mixed_to_utf8 t' simd' m n'
         = (if length (utf16_to_utf8 t'' simd'' src) \<le> n' then Some (utf16_to_utf8 t'' simd'' src) else None))
    \<and> length (utf16_to_utf8 t'' simd'' src) \<le> 2 * length m"
  using mixed_reads [OF assms, of t t' simd'] by (auto simp: utf16_sw)

theorem utf_mixed_roundtrip_witness:
  "\<exists>m. utf16_to_utf_mixed Simd_none [0x41, 0x4E2D] 5 = Some m
    \<and> utf_mixed_to_utf8 Simd_neon True m 4 = Some (utf16_to_utf8 (Simd_x86 True) True [0x41, 0x4E2D])
    \<and> utf_mixed_to_utf8 Simd_neon True m 3 = None"
proof -
  have l: "length (utf16_to_utf8 (Simd_x86 True) True [0x41, 0x4E2D]) = 4"
    by (simp add: utf16_sw ascii_run_eq Let_def three_bytes_def)
  show ?thesis
    using utf_mixed_roundtrip [of "[0x41, 0x4E2D]" 5 Simd_none Simd_neon True "Simd_x86 True" True] unfolding l by auto
qed

text \<open>
  C36. The hash of a mixed text is the hash of the UTF-16 text it stands for, whichever machine wrote it and whichever hashes it, so one format
  text gets one hash.
\<close>

theorem hash_mixed_is_utf16_hash:
  assumes "utf16_to_utf_mixed t src n = Some m"
  shows "hash_utf_mixed_as_utf16 t' ct insn supported m = bq_hash_only ct insn supported (unit_bytes src)"
  using assms by (rule mixed_hash)

theorem hash_mixed_is_utf16_hash_witness:
  "\<exists>m. utf16_to_utf_mixed Simd_none [0x41, 0x4E2D] 5 = Some m
    \<and> hash_utf_mixed_as_utf16 Simd_neon Crc_x86_64 sw_ops False m = bq_hash_only Crc_x86_64 sw_ops False (unit_bytes [0x41, 0x4E2D])"
proof -
  obtain m where m: "utf16_to_utf_mixed Simd_none [0x41, 0x4E2D] 5 = Some m"
    by (rule mixed_form [of "[0x41, 0x4E2D]" Simd_none]) (auto simp: Cons_eq_append_conv)
  then show ?thesis by (auto intro: hash_mixed_is_utf16_hash)
qed

end
