(* ===== verification/Ring_Memory.thy ===== *)
theory Ring_Memory
  imports Prelude
begin

text \<open>
  What the two ring buffers share: the result codes and handles of \<open>include/bq_log/misc/bq_log_c_types.h\<close> and
  \<open>src/bq_log/types/buffer/log_buffer_defs.h\<close>, and the memory behind the blocks, a list of bytes whose addresses
  count from the first block. A pointer that was never set is \<open>None\<close>.
\<close>

datatype result_code = Success | Err_empty_log_buffer | Err_not_enough_space | Err_wait_and_retry
  | Err_data_not_contiguous | Err_alloc_size_invalid | Err_buffer_not_inited | Err_io_failure_drop

record write_handle =
  wh_addr :: "nat option"
  wh_result :: result_code
  wh_low_space :: bool

record read_handle =
  rh_addr :: "nat option"
  rh_result :: result_code
  rh_size :: u32

datatype mmap_state = Init_with_memory | Recover_from_memory_map | Init_with_memmap

definition cache_line_size :: nat where
  "cache_line_size = 128"

definition no_write :: write_handle where
  "no_write = \<lparr>wh_addr = None, wh_result = Err_empty_log_buffer, wh_low_space = False\<rparr>"

definition no_read :: read_handle where
  "no_read = \<lparr>rh_addr = None, rh_result = Err_empty_log_buffer, rh_size = 0\<rparr>"

section \<open>Bytes\<close>

definition wr :: "nat \<Rightarrow> u8 list \<Rightarrow> u8 list \<Rightarrow> u8 list" where
  "wr a bs m = take a m @ bs @ drop (a + length bs) m"

definition rd :: "nat \<Rightarrow> nat \<Rightarrow> u8 list \<Rightarrow> u8 list" where
  "rd a n m = take n (drop a m)"

definition rd32 :: "nat \<Rightarrow> u8 list \<Rightarrow> u32" where
  "rd32 a m = le_word (rd a 4 m)"

definition wr32 :: "nat \<Rightarrow> u32 \<Rightarrow> u8 list \<Rightarrow> u8 list" where
  "wr32 a v m = wr a (le_bytes 4 v) m"

lemma length_wr [simp]: "a + length bs \<le> length m \<Longrightarrow> length (wr a bs m) = length m"
  by (simp add: wr_def)

lemma length_wr32 [simp]: "a + 4 \<le> length m \<Longrightarrow> length (wr32 a v m) = length m"
  by (simp add: wr32_def)

lemma nth_wr:
  assumes "a + length bs \<le> length m" "i < length m"
  shows "wr a bs m ! i = (if a \<le> i \<and> i < a + length bs then bs ! (i - a) else m ! i)"
  using assms by (auto simp: wr_def nth_append min_def)

lemma length_rd [simp]: "a + n \<le> length m \<Longrightarrow> length (rd a n m) = n"
  by (simp add: rd_def)

lemma rd_cong:
  assumes "length m = length m'" "a + n \<le> length m" "\<And>i. a \<le> i \<Longrightarrow> i < a + n \<Longrightarrow> m ! i = m' ! i"
  shows "rd a n m = rd a n m'"
  using assms by (intro nth_equalityI) (simp_all add: rd_def)

lemma rd_wr_same: "a + length bs \<le> length m \<Longrightarrow> rd a (length bs) (wr a bs m) = bs"
  by (simp add: rd_def wr_def)

lemma rd_wr_other:
  assumes "a + length bs \<le> length m" "b + n \<le> length m" "b + n \<le> a \<or> a + length bs \<le> b"
  shows "rd b n (wr a bs m) = rd b n m"
  using assms by (intro rd_cong) (auto simp: nth_wr)

lemma rd32_wr32_same: "a + 4 \<le> length m \<Longrightarrow> rd32 a (wr32 a v m) = v"
  using rd_wr_same [of a "le_bytes 4 v" m] by (simp add: rd32_def wr32_def le_word_le_bytes_id)

lemma rd32_wr32_other: "a + 4 \<le> length m \<Longrightarrow> b + 4 \<le> length m \<Longrightarrow> b + 4 \<le> a \<or> a + 4 \<le> b \<Longrightarrow> rd32 b (wr32 a v m) = rd32 b m"
  using rd_wr_other [of a "le_bytes 4 v" m b 4] by (simp add: rd32_def wr32_def)

section \<open>Blocks\<close>

text \<open>
  Cursors count blocks of eight bytes and run on beyond the size \<open>n\<close> of the ring; cursor \<open>p\<close> stands for block
  \<open>p mod n\<close>. Two memories agree on the cursors from \<open>a\<close> to \<open>b\<close> if they agree on all bytes of those blocks.
\<close>

definition agree :: "nat \<Rightarrow> nat \<Rightarrow> nat \<Rightarrow> u8 list \<Rightarrow> u8 list \<Rightarrow> bool" where
  "agree n a b m m' \<longleftrightarrow> length m = length m' \<and> (\<forall>p. a \<le> p \<and> p < b \<longrightarrow> (\<forall>j<8. m ! (8 * (p mod n) + j) = m' ! (8 * (p mod n) + j)))"

lemma agree_refl [simp]: "agree n a b m m"
  by (simp add: agree_def)

lemma agree_sub: "agree n a b m m' \<Longrightarrow> a \<le> c \<Longrightarrow> d \<le> b \<Longrightarrow> agree n c d m m'"
  by (auto simp: agree_def)

lemma agree_trans: "agree n a b m m' \<Longrightarrow> agree n a b m' m'' \<Longrightarrow> agree n a b m m''"
  by (auto simp: agree_def)

lemma mod_neq: "(p :: nat) < q \<Longrightarrow> q < p + n \<Longrightarrow> p mod n \<noteq> q mod n"
proof
  assume pq: "p < q" "q < p + n" and e: "p mod n = q mod n"
  then have "n dvd q - p" by (metis mod_eq_dvd_iff_nat less_imp_le)
  with pq show False by (auto dest: dvd_imp_le)
qed

text \<open>Writing inside the blocks of the cursors from \<open>c\<close> to \<open>d\<close> does not change the others of the same lap.\<close>

lemma wr_agree:
  assumes n: "0 < n" "length m = 8 * n" and r: "a + len \<le> length m" "length bs = len"
    and w: "\<And>i. a \<le> i \<Longrightarrow> i < a + len \<Longrightarrow> \<exists>q. c \<le> q \<and> q < d \<and> i div 8 = q mod n"
    and o: "b \<le> c" "d \<le> a0 + n"
  shows "agree n a0 b m (wr a bs m)"
proof -
  have "m ! (8 * (p mod n) + j) = wr a bs m ! (8 * (p mod n) + j)" if p: "a0 \<le> p" "p < b" and j: "j < 8" for p j
  proof -
    let ?i = "8 * (p mod n) + j"
    have "p mod n < n" using n(1) by simp
    then have i: "?i < length m" using n(2) j by linarith
    have "\<not> (a \<le> ?i \<and> ?i < a + len)"
    proof
      assume "a \<le> ?i \<and> ?i < a + len"
      then obtain q where q: "c \<le> q" "q < d" "?i div 8 = q mod n" using w by blast
      have "?i div 8 = p mod n" using j by simp
      moreover have "p mod n \<noteq> q mod n" using p q o by (intro mod_neq) linarith+
      ultimately show False using q(3) by simp
    qed
    then show ?thesis using i r by (auto simp: nth_wr)
  qed
  then show ?thesis using r by (simp add: agree_def)
qed

lemma agree_rd:
  assumes "agree n a b m m'" "0 < n" "length m = 8 * n" "x + k \<le> 8 * n"
    and "\<And>i. x \<le> i \<Longrightarrow> i < x + k \<Longrightarrow> \<exists>q. a \<le> q \<and> q < b \<and> i div 8 = q mod n"
  shows "rd x k m = rd x k m'"
proof (rule rd_cong)
  show "length m = length m'" using assms(1) by (simp add: agree_def)
  show "x + k \<le> length m" using assms by simp
  fix i assume "x \<le> i" "i < x + k"
  then obtain q where q: "a \<le> q" "q < b" "i div 8 = q mod n" using assms(5) by blast
  have "m ! (8 * (q mod n) + i mod 8) = m' ! (8 * (q mod n) + i mod 8)"
    using assms(1) q(1,2) by (simp add: agree_def)
  moreover have "8 * (q mod n) + i mod 8 = i" unfolding q(3) [symmetric] by simp
  ultimately show "m ! i = m' ! i" by simp
qed

section \<open>Cursors as words and as natural numbers\<close>

lemma unat_small: "x < 2 ^ 32 \<Longrightarrow> unat (of_nat x :: u32) = x"
  by (simp add: unsigned_of_nat take_bit_nat_eq_self)

lemma of_nat_minus: "b \<le> a \<Longrightarrow> (of_nat a - of_nat b :: u32) = of_nat (a - b)"
  by (simp add: of_nat_diff)

lemma of_nat_less32: "a < 2 ^ 32 \<Longrightarrow> b < 2 ^ 32 \<Longrightarrow> (of_nat a :: u32) < of_nat b \<longleftrightarrow> a < b"
  by (simp add: word_less_nat_alt unat_small)

lemma of_nat_le32: "a < 2 ^ 32 \<Longrightarrow> b < 2 ^ 32 \<Longrightarrow> (of_nat a :: u32) \<le> of_nat b \<longleftrightarrow> a \<le> b"
  by (simp add: word_le_nat_alt unat_small)

lemma of_nat_eq32: "a < 2 ^ 32 \<Longrightarrow> b < 2 ^ 32 \<Longrightarrow> (of_nat a :: u32) = of_nat b \<longleftrightarrow> a = b"
  by (metis unat_small)

lemma of_nat_and_mask: "pow2 n \<Longrightarrow> n \<le> 2 ^ 32 \<Longrightarrow> unat ((of_nat p :: u32) AND (of_nat n - 1)) = p mod n"
proof -
  assume "pow2 n" "n \<le> 2 ^ 32"
  then obtain k where k: "n = 2 ^ k" and le: "(2 :: nat) ^ k \<le> 2 ^ 32" by (auto simp: pow2_def)
  from le have "k \<le> 32" by (rule power_le_imp_le_exp [rotated]) simp
  have "(of_nat n - 1 :: u32) = mask k" by (simp add: k mask_eq_exp_minus_1)
  then have "unat ((of_nat p :: u32) AND (of_nat n - 1)) = take_bit k (take_bit 32 p)"
    by (simp add: unsigned_of_nat unsigned_take_bit_eq flip: take_bit_eq_mask)
  then show ?thesis using k \<open>k \<le> 32\<close> by (simp add: min_def take_bit_eq_mod [of k p])
qed

lemma diff_cursor: "b \<le> a \<Longrightarrow> a - b < 2 ^ 32 \<Longrightarrow> unat (of_nat a - of_nat b :: u32) = a - b"
  by (metis of_nat_minus unat_small)

lemma same_cursor: "b \<le> a \<Longrightarrow> a - b < 2 ^ 32 \<Longrightarrow> (of_nat a :: u32) = of_nat b \<longleftrightarrow> a = b"
  using diff_cursor [of b a] by auto

section \<open>Powers of two\<close>

text \<open>\<open>bq::roundup_pow_of_two\<close> of \<open>include/bq_common/types/type_tools.h\<close>, for every unsigned type.\<close>

lemma unat_drop_bit_1: "unat (drop_bit 1 x) = unat (x :: 'a :: len word) div 2"
  by (subst unsigned_drop_bit_eq) (simp add: drop_bit_Suc take_bit_nat_eq_self)

function roundup_loop :: "'a :: len word \<Rightarrow> 'a word \<Rightarrow> 'a word" where
  "roundup_loop x result = (if x > 0 then roundup_loop (drop_bit 1 x) (push_bit 1 result) else result)"
  by pat_completeness auto
termination by (relation "measure (\<lambda>(x, r). unat x)") (auto simp: unat_drop_bit_1 [unfolded One_nat_def] word_greater_zero_iff unat_gt_0)

declare roundup_loop.simps [simp del]

definition roundup_pow_of_two :: "'a :: len word \<Rightarrow> 'a word" where
  "roundup_pow_of_two x = (if x AND (x - 1) = 0 then x else roundup_loop x 1)"


lemma drop_bit_1_nat: "drop_bit 1 (n :: nat) = n div 2"
  by (simp add: drop_bit_Suc)

lemma and_pred_zero: "(n :: nat) AND (n - 1) = 0 \<Longrightarrow> n = 0 \<or> pow2 n"
proof (induction n rule: less_induct)
  case (less n)
  show ?case
  proof (cases "n = 0 \<or> n = 1")
    case False
    then have n: "1 < n" by simp
    let ?m = "n div 2"
    have d: "?m AND ((n - 1) div 2) = 0"
      using less.prems drop_bit_and [of 1 n "n - 1"] by (simp only: drop_bit_1_nat) 
    have "even n"
    proof (rule ccontr)
      assume "odd n"
      then have "(n - 1) div 2 = ?m" by presburger
      then show False using d n by simp
    qed
    then have "(n - 1) div 2 = ?m - 1" by presburger
    then have "?m = 0 \<or> pow2 ?m" using less.IH [of ?m] d n by simp
    then have "pow2 ?m" using n by auto
    then obtain k where "?m = 2 ^ k" by (auto simp: pow2_def)
    then have "n = 2 ^ Suc k" using \<open>even n\<close> by (metis dvd_mult_div_cancel power_Suc)
    then show ?thesis unfolding pow2_def by blast
  qed (auto simp: pow2_def intro: exI [of _ 0])
qed

lemma roundup_loop_push: "\<exists>j. roundup_loop x r = push_bit j r"
proof (induction x r rule: roundup_loop.induct)
  case (1 x r)
  show ?case
  proof (cases "x > 0")
    case True
    then obtain j where "roundup_loop (drop_bit 1 x) (push_bit 1 r) = push_bit j (push_bit 1 r)" using 1 by blast
    then have "roundup_loop x r = push_bit (j + 1) r" using True by (subst roundup_loop.simps) (simp add: push_bit_push_bit)
    then show ?thesis by blast
  next
    case False
    then have "roundup_loop x r = push_bit 0 r" by (subst roundup_loop.simps) simp
    then show ?thesis by blast
  qed
qed

lemma roundup_pow2: "roundup_pow_of_two x = 0 \<or> pow2 (unat (roundup_pow_of_two (x :: 'a :: len word)))"
proof (cases "x AND (x - 1) = 0")
  case True
  show ?thesis
  proof (cases "x = 0")
    case False
    then have "unat (x - 1) = unat x - 1" by (simp add: unat_minus_one)
    then have "unat x AND (unat x - 1) = 0" using arg_cong [OF True, of unat] by (simp add: unsigned_and_eq)
    then show ?thesis using and_pred_zero [of "unat x"] True by (auto simp: roundup_pow_of_two_def unat_eq_0)
  qed (simp add: roundup_pow_of_two_def)
next
  case False
  obtain j where j: "roundup_loop x 1 = push_bit j 1" using roundup_loop_push by blast
  have e: "unat (push_bit j 1 :: 'a word) = (if j < LENGTH('a) then 2 ^ j else 0)"
    by (subst unsigned_push_bit_eq) (auto simp: take_bit_push_bit push_bit_eq_mult)
  then have "push_bit j 1 = (0 :: 'a word) \<or> pow2 (unat (push_bit j 1 :: 'a word))"
    by (auto simp: pow2_def unat_eq_0 split: if_splits)
  then show ?thesis using False j by (simp add: roundup_pow_of_two_def)
qed

end
