(* ===== verification/Siso.thy ===== *)
theory Siso
  imports Ring_Memory
begin

text \<open>
  The ring buffer for one writing and one reading thread, \<open>src/bq_log/types/buffer/siso_ring_buffer.h\<close> and \<open>.cpp\<close>, with release
  semantics (assertions and statistics of \<open>BQ_LOG_BUFFER_DEBUG\<close> are left out). The state is the mapped head, whose fields keep their names, the
  blocks as bytes, and the members of the class. The two atomic cursors are the only fields both threads access; the
  \<open>rt_\<close> fields belong to the reading thread, the \<open>wt_\<close> fields to the writing thread. Addresses count from
  \<open>aligned_blocks_\<close>; \<open>size_t\<close> has 64 bits, so only the 32-bit arithmetic of the code can wrap.
\<close>

section \<open>State\<close>

record siso =
  aligned_blocks_count_cache :: u32
  rt_reading_cursor_cache :: u32
  rt_writing_cursor_cache :: u32
  wt_reading_cursor_cache :: u32
  wt_writing_cursor_cache :: u32
  reading_cursor :: u32
  writing_cursor :: u32
  blocks :: "u8 list"
  aligned_blocks_count :: u32
  mmap_buffer_state :: mmap_state

definition data_block_offset :: nat where
  "data_block_offset = 8"

text \<open>\<open>(x + (BLOCK_SIZE - 1)) >> BLOCK_SIZE_LOG2\<close>, computed in 64 bits and cast to 32.\<close>

definition blocks_of :: "u32 \<Rightarrow> u32" where
  "blocks_of x = of_nat ((unat x + 7) div 8)"

definition cursor_to_block :: "siso \<Rightarrow> u32 \<Rightarrow> nat" where
  "cursor_to_block s cursor = unat (cursor AND (aligned_blocks_count s - 1))"

definition block_num :: "siso \<Rightarrow> nat \<Rightarrow> u32" where
  "block_num s b = rd32 (8 * b) (blocks s)"

definition chunk_size :: "siso \<Rightarrow> nat \<Rightarrow> u32" where
  "chunk_size s b = rd32 (8 * b + 4) (blocks s)"

definition is_split :: "siso \<Rightarrow> nat \<Rightarrow> bool" where
  "is_split s b \<longleftrightarrow> 8 * b + data_block_offset + unat (chunk_size s b) > 8 * unat (aligned_blocks_count s)"

definition get_block_data_addr :: "siso \<Rightarrow> nat \<Rightarrow> nat" where
  "get_block_data_addr s b = (if is_split s b then 0 else 8 * b + data_block_offset)"

section \<open>The writing thread\<close>

definition alloc_write_chunk :: "u32 \<Rightarrow> siso \<Rightarrow> write_handle \<times> siso" where
  "alloc_write_chunk sz s =
     (let size_required = sz + of_nat data_block_offset;
          need = blocks_of size_required;
          b = cursor_to_block s (wt_writing_cursor_cache s);
          left = aligned_blocks_count s - of_nat b
      in if need > aligned_blocks_count s \<or> need = 0 \<or> (need > left \<and> need + left - 1 > aligned_blocks_count s)
         then (no_write\<lparr>wh_result := Err_alloc_size_invalid\<rparr>, s)
         else
           (let (need, addr) = (if left < need then (blocks_of sz + left, 0) else (need, 8 * b + data_block_offset));
                left_space = wt_reading_cursor_cache s + aligned_blocks_count s - wt_writing_cursor_cache s;
                s = (if left_space < need then s\<lparr>wt_reading_cursor_cache := reading_cursor s\<rparr> else s);
                left_space = wt_reading_cursor_cache s + aligned_blocks_count s - wt_writing_cursor_cache s
            in if left_space < need
               then (no_write\<lparr>wh_addr := Some addr, wh_result := Err_not_enough_space\<rparr>, s)
               else
                 (let s = s\<lparr>blocks := wr32 (8 * b + 4) sz (wr32 (8 * b) need (blocks s))\<rparr>;
                      low = (push_bit 1 (aligned_blocks_count s - left_space) \<ge> aligned_blocks_count s);
                      s = (if low then s\<lparr>wt_reading_cursor_cache := reading_cursor s\<rparr> else s);
                      left_space = wt_reading_cursor_cache s + aligned_blocks_count s - wt_writing_cursor_cache s;
                      low = (low \<and> push_bit 1 (aligned_blocks_count s - left_space) \<ge> aligned_blocks_count s)
                  in (\<lparr>wh_addr = Some addr, wh_result = Success, wh_low_space = low\<rparr>, s))))"

text \<open>The block of a handle's chunk: a chunk whose data begins at the first block is split, its head is at the cursor.\<close>

definition handle_block :: "siso \<Rightarrow> nat option \<Rightarrow> u32 \<Rightarrow> nat" where
  "handle_block s addr cursor =
     (case addr of
        Some a \<Rightarrow> if a = 0 then cursor_to_block s cursor else (a - data_block_offset) div 8
      | None \<Rightarrow> cursor_to_block s cursor)"

definition commit_write_chunk :: "write_handle \<Rightarrow> siso \<Rightarrow> siso" where
  "commit_write_chunk h s =
     (if wh_result h \<noteq> Success then s
      else
        (let b = handle_block s (wh_addr h) (wt_writing_cursor_cache s);
             w = wt_writing_cursor_cache s + block_num s b
         in s\<lparr>wt_writing_cursor_cache := w, writing_cursor := w\<rparr>))"

text \<open>What the client does between the two: it writes the bytes of its chunk.\<close>

definition fill_chunk :: "write_handle \<Rightarrow> u8 list \<Rightarrow> siso \<Rightarrow> siso" where
  "fill_chunk h bs s = (case wh_addr h of Some a \<Rightarrow> s\<lparr>blocks := wr a bs (blocks s)\<rparr> | None \<Rightarrow> s)"

section \<open>The reading thread\<close>

definition refresh_rt_writing :: "siso \<Rightarrow> u32 \<Rightarrow> siso" where
  "refresh_rt_writing s cursor =
     (if rt_writing_cursor_cache s - cursor = 0 then s\<lparr>rt_writing_cursor_cache := writing_cursor s\<rparr> else s)"

definition read_chunk :: "siso \<Rightarrow> read_handle \<times> siso" where
  "read_chunk s =
     (let s = refresh_rt_writing s (rt_reading_cursor_cache s)
      in if rt_writing_cursor_cache s - rt_reading_cursor_cache s = 0
         then (no_read\<lparr>rh_result := Err_empty_log_buffer\<rparr>, s)
         else
           (let b = cursor_to_block s (rt_reading_cursor_cache s)
            in (\<lparr>rh_addr = Some (get_block_data_addr s b), rh_result = Success, rh_size = chunk_size s b\<rparr>, s)))"

definition read_an_empty_chunk :: read_handle where
  "read_an_empty_chunk = no_read\<lparr>rh_result := Err_empty_log_buffer\<rparr>"

definition discard_read_chunk :: "read_handle \<Rightarrow> read_handle" where
  "discard_read_chunk h = h\<lparr>rh_result := Err_empty_log_buffer\<rparr>"

definition return_read_chunk :: "read_handle \<Rightarrow> siso \<Rightarrow> siso" where
  "return_read_chunk h s =
     (if rh_result h \<noteq> Success then s
      else
        (let b = handle_block s (rh_addr h) (rt_reading_cursor_cache s);
             r = rt_reading_cursor_cache s + block_num s b
         in s\<lparr>rt_reading_cursor_cache := r, reading_cursor := r\<rparr>))"

text \<open>What the client reads through a handle.\<close>

definition chunk_data :: "read_handle \<Rightarrow> siso \<Rightarrow> u8 list" where
  "chunk_data h s = (case rh_addr h of Some a \<Rightarrow> rd a (unat (rh_size h)) (blocks s) | None \<Rightarrow> [])"

record batch_handle =
  bh_result :: result_code
  bh_start :: u32
  bh_current :: u32
  bh_end :: u32

definition batch_read :: "siso \<Rightarrow> batch_handle \<times> siso" where
  "batch_read s =
     (let s = refresh_rt_writing s (rt_reading_cursor_cache s);
          h = \<lparr>bh_result = Err_empty_log_buffer, bh_start = rt_reading_cursor_cache s,
               bh_current = rt_reading_cursor_cache s, bh_end = rt_writing_cursor_cache s\<rparr>
      in if rt_writing_cursor_cache s - rt_reading_cursor_cache s = 0 then (h, s)
         else (h\<lparr>bh_result := Success\<rparr>, s))"

definition batch_has_next :: "batch_handle \<Rightarrow> bool" where
  "batch_has_next h \<longleftrightarrow> bh_current h \<noteq> bh_end h"

definition batch_next :: "batch_handle \<Rightarrow> siso \<Rightarrow> read_handle \<times> batch_handle \<times> siso" where
  "batch_next h s =
     (let b = cursor_to_block s (bh_current h);
          r = \<lparr>rh_addr = Some (get_block_data_addr s b), rh_result = bh_result h, rh_size = chunk_size s b\<rparr>;
          c = bh_current h + block_num s b
      in (r, h\<lparr>bh_current := c\<rparr>, s\<lparr>rt_reading_cursor_cache := c\<rparr>))"

definition return_batch_read_chunks :: "batch_handle \<Rightarrow> siso \<Rightarrow> siso" where
  "return_batch_read_chunks h s =
     (if bh_result h \<noteq> Success then s else s\<lparr>reading_cursor := rt_reading_cursor_cache s\<rparr>)"

text \<open>\<open>data_traverse\<close> with a callback that collects the data. The loop ends only if the chunks lead to the writing cursor.\<close>

partial_function (option) traverse_loop :: "u32 \<Rightarrow> siso \<Rightarrow> u8 list list \<Rightarrow> (u8 list list \<times> siso) option" where
  "traverse_loop cursor s acc =
     (let s = refresh_rt_writing s cursor
      in if rt_writing_cursor_cache s - cursor = 0 then Some (acc, s)
         else
           (let b = cursor_to_block s cursor
            in traverse_loop (cursor + block_num s b) s
                 (acc @ [rd (get_block_data_addr s b) (unat (chunk_size s b)) (blocks s)])))"

definition data_traverse :: "siso \<Rightarrow> (u8 list list \<times> siso) option" where
  "data_traverse s = traverse_loop (rt_reading_cursor_cache s) s []"

section \<open>Initialisation and recovery\<close>

definition head_size :: nat where
  "head_size = 4 * cache_line_size"

function double_while :: "nat \<Rightarrow> nat \<Rightarrow> nat" where
  "double_while max_blocks c = (if 0 < c \<and> c \<le> max_blocks div 2 then double_while max_blocks (2 * c) else c)"
  by pat_completeness auto
termination by (relation "measure (\<lambda>(m, c). m - c)") auto

declare double_while.simps [simp del]

text \<open>The number of blocks of a buffer of \<open>buffer_size\<close> bytes.\<close>

definition usable_blocks :: "nat \<Rightarrow> nat" where
  "usable_blocks buffer_size = double_while ((buffer_size - head_size) div 8) 1"

definition init_cursors :: "siso \<Rightarrow> siso" where
  "init_cursors s = s\<lparr>rt_writing_cursor_cache := 0, rt_reading_cursor_cache := 0, wt_writing_cursor_cache := 0,
     wt_reading_cursor_cache := 0, reading_cursor := 0, writing_cursor := 0\<rparr>"

definition renew :: "siso \<Rightarrow> siso" where
  "renew s = init_cursors s"

definition init_with_memory :: "nat \<Rightarrow> siso \<Rightarrow> siso" where
  "init_with_memory buffer_size s =
     (let n = of_nat (usable_blocks buffer_size)
      in (init_cursors (s\<lparr>aligned_blocks_count := n, aligned_blocks_count_cache := n\<rparr>))\<lparr>mmap_buffer_state := Init_with_memory\<rparr>)"

definition init_with_memory_map :: "nat \<Rightarrow> siso \<Rightarrow> siso" where
  "init_with_memory_map buffer_size s = (init_with_memory buffer_size s)\<lparr>mmap_buffer_state := Init_with_memmap\<rparr>"

definition expected_block_count :: "siso \<Rightarrow> nat \<Rightarrow> u32" where
  "expected_block_count s b =
     (if is_split s b then (aligned_blocks_count s - of_nat b) + blocks_of (chunk_size s b)
      else blocks_of (chunk_size s b + of_nat data_block_offset))"

partial_function (option) recover_loop :: "siso \<Rightarrow> u32 \<Rightarrow> u32 option option" where
  "recover_loop s cursor =
     (if cursor < wt_writing_cursor_cache s then
        (let b = cursor_to_block s cursor
         in if block_num s b = 0 then Some None
            else if expected_block_count s b \<noteq> block_num s b then Some None
            else recover_loop s (cursor + block_num s b))
      else Some (Some cursor))"

text \<open>\<open>Some None\<close> is the return value \<open>false\<close>; only the count of the state is then changed.\<close>

definition try_recover_from_exist_memory_map :: "nat \<Rightarrow> siso \<Rightarrow> siso option option" where
  "try_recover_from_exist_memory_map buffer_size s =
     (let s = s\<lparr>aligned_blocks_count := of_nat (usable_blocks buffer_size)\<rparr>
      in if aligned_blocks_count_cache s \<noteq> aligned_blocks_count s then Some None
         else if wt_writing_cursor_cache s - rt_reading_cursor_cache s > aligned_blocks_count s then Some None
         else
           (case recover_loop s (rt_reading_cursor_cache s) of
              None \<Rightarrow> None
            | Some None \<Rightarrow> Some None
            | Some (Some c) \<Rightarrow>
                Some (if c \<noteq> wt_writing_cursor_cache s then None
                  else Some (s\<lparr>rt_writing_cursor_cache := wt_writing_cursor_cache s, wt_reading_cursor_cache := rt_reading_cursor_cache s,
                      reading_cursor := rt_reading_cursor_cache s, writing_cursor := wt_writing_cursor_cache s,
                      mmap_buffer_state := Recover_from_memory_map\<rparr>))))"

text \<open>The constructor: \<open>s\<close> holds what the buffer contains.\<close>

definition siso_ring_buffer :: "nat \<Rightarrow> bool \<Rightarrow> siso \<Rightarrow> siso option" where
  "siso_ring_buffer buffer_size is_memory_recovery s =
     (if is_memory_recovery then
        (case try_recover_from_exist_memory_map buffer_size s of
           None \<Rightarrow> None
         | Some None \<Rightarrow> Some (init_with_memory_map buffer_size s)
         | Some (Some s') \<Rightarrow> Some s')
      else Some (init_with_memory buffer_size s))"

definition calculate_min_size_of_memory :: "u32 \<Rightarrow> u32" where
  "calculate_min_size_of_memory expected_buffer_size = roundup_pow_of_two expected_buffer_size + of_nat (head_size + cache_line_size)"

definition get_max_alloc_size :: "siso \<Rightarrow> u32" where
  "get_max_alloc_size s = aligned_blocks_count s * 8 - of_nat data_block_offset"

end
