(* ===== verification/Siso_Fifo.thy ===== *)
theory Siso_Fifo
  imports Siso
begin

text \<open>
  The ring buffer of \<open>Siso\<close> is a queue: cursors as natural numbers that never wrap, the chunks between them, and what each
  operation does to the queue. 
\<close>

section \<open>Cursors as natural numbers\<close>

definition ring :: "siso \<Rightarrow> nat \<Rightarrow> bool" where
  "ring s n \<longleftrightarrow> aligned_blocks_count s = of_nat n \<and> aligned_blocks_count_cache s = of_nat n \<and> pow2 n \<and> n \<le> 2 ^ 28 \<and> length (blocks s) = 8 * n"

lemma ring_pos: "ring s n \<Longrightarrow> 0 < n"
  by (simp add: ring_def pow2_pos)

lemma cursor_to_block_of_nat: "ring s n \<Longrightarrow> cursor_to_block s (of_nat p) = p mod n"
  by (simp add: ring_def cursor_to_block_def of_nat_and_mask)

section \<open>Chunks\<close>

definition need_blocks :: "nat \<Rightarrow> nat" where
  "need_blocks len = (len + 15) div 8"

definition left_blocks :: "nat \<Rightarrow> nat \<Rightarrow> nat" where
  "left_blocks n p = n - p mod n"

definition span :: "nat \<Rightarrow> nat \<Rightarrow> nat \<Rightarrow> nat" where
  "span n p len = (if left_blocks n p < need_blocks len then (len + 7) div 8 + left_blocks n p else need_blocks len)"

definition data_addr :: "nat \<Rightarrow> nat \<Rightarrow> nat \<Rightarrow> nat" where
  "data_addr n p len = (if left_blocks n p < need_blocks len then 0 else 8 * (p mod n) + 8)"

lemma left_blocks_bounds:
  assumes n: "0 < n"
  shows "0 < left_blocks n p \<and> left_blocks n p \<le> n \<and> (p + left_blocks n p) mod n = 0"
proof -
  have m: "p mod n < n" using n by simp
  have "(p + (n - p mod n)) mod n = (p mod n + (n - p mod n)) mod n" by (simp add: mod_add_left_eq)
  then have "(p + (n - p mod n)) mod n = 0" using m by simp
  with m show ?thesis by (simp add: left_blocks_def)
qed

lemma span_pos: "0 < n \<Longrightarrow> 0 < span n p len"
  using left_blocks_bounds [of n p] by (auto simp: span_def need_blocks_def)

text \<open>The bytes of a chunk, head and data, lie in the blocks from its cursor to the next one's.\<close>

lemma head_in_span: "0 < n \<Longrightarrow> 8 * (p mod n) \<le> i \<Longrightarrow> i < 8 * (p mod n) + 8 \<Longrightarrow> \<exists>q. p \<le> q \<and> q < p + span n p len \<and> i div 8 = q mod n"
proof -
  assume n: "0 < n" and i: "8 * (p mod n) \<le> i" "i < 8 * (p mod n) + 8"
  have "i div 8 = p mod n" using i by linarith
  then show ?thesis using span_pos [OF n, of p len] by (intro exI [of _ p]) simp
qed

lemma data_in_span:
  assumes n: "0 < n" and s: "span n p len \<le> n" and i: "data_addr n p len \<le> i" "i < data_addr n p len + len"
  shows "\<exists>q. p \<le> q \<and> q < p + span n p len \<and> i div 8 = q mod n"
proof (cases "left_blocks n p < need_blocks len")
  case True
  let ?q = "p + left_blocks n p + i div 8"
  have sp: "span n p len = (len + 7) div 8 + left_blocks n p" using True by (simp add: span_def)
  have i': "i div 8 < (len + 7) div 8" using i True by (simp add: data_addr_def)
  then have "i div 8 < n" using s sp by linarith
  moreover have "?q mod n = i div 8 mod n" using left_blocks_bounds [OF n, of p] by (metis add.left_neutral mod_add_left_eq)
  ultimately show ?thesis using i' sp by (intro exI [of _ ?q]) simp
next
  case False
  have a: "data_addr n p len = 8 * (p mod n) + 8" using False by (simp add: data_addr_def)
  have "p mod n \<le> i div 8" "i div 8 - p mod n < need_blocks len" using i unfolding a need_blocks_def by linarith+
  then obtain t where t: "i div 8 = p mod n + t" "t < need_blocks len" by (metis le_add_diff_inverse)
  have "p mod n + t < n" using t(2) False by (simp add: left_blocks_def)
  then have "(p + t) mod n = p mod n + t" by (metis mod_add_left_eq mod_less)
  then show ?thesis using t False by (intro exI [of _ "p + t"]) (simp add: span_def)
qed

lemma data_bounds:
  assumes n: "0 < n" and s: "span n p len \<le> n"
  shows "data_addr n p len + len \<le> 8 * n"
proof (cases "left_blocks n p < need_blocks len")
  case True
  then have "(len + 7) div 8 \<le> n" using s by (simp add: span_def)
  then show ?thesis using True by (simp add: data_addr_def)
next
  case False
  then have "p mod n + need_blocks len \<le> n" using n using mod_less_divisor [OF n, of p] unfolding left_blocks_def by linarith
  then show ?thesis using False unfolding need_blocks_def data_addr_def by simp
qed

section \<open>Chains of chunks\<close>

definition chunk_at :: "nat \<Rightarrow> u8 list \<Rightarrow> nat \<Rightarrow> u8 list \<Rightarrow> bool" where
  "chunk_at n m p d \<longleftrightarrow> rd32 (8 * (p mod n)) m = of_nat (span n p (length d))
     \<and> rd32 (8 * (p mod n) + 4) m = of_nat (length d)
     \<and> rd (data_addr n p (length d)) (length d) m = d \<and> span n p (length d) \<le> n"

fun chain :: "nat \<Rightarrow> u8 list \<Rightarrow> nat \<Rightarrow> u8 list list \<Rightarrow> nat \<Rightarrow> bool" where
  "chain n m p [] q \<longleftrightarrow> p = q"
| "chain n m p (d # ds) q \<longleftrightarrow> chunk_at n m p d \<and> chain n m (p + span n p (length d)) ds q"

lemma chain_append: "chain n m p (ds @ es) q \<longleftrightarrow> (\<exists>x. chain n m p ds x \<and> chain n m x es q)"
  by (induction ds arbitrary: p) auto

lemma chain_le: "chain n m p ds q \<Longrightarrow> p \<le> q"
  by (induction ds arbitrary: p) (auto dest: add_leD1)

lemma chain_Nil_iff: "0 < n \<Longrightarrow> chain n m p ds q \<Longrightarrow> ds = [] \<longleftrightarrow> p = q"
  using span_pos [of n p "length (hd ds)"] chain_le [of n m "p + span n p (length (hd ds))" "tl ds" q] by (cases ds) auto

lemma head_agree:
  assumes "agree n p q m m'" "0 < n" "length m = 8 * n" "p < q" "x = 8 * (p mod n) \<or> x = 8 * (p mod n) + 4"
  shows "rd32 x m = rd32 x m'"
proof -
  have "p mod n < n" using assms(2) by simp
  then have "x + 4 \<le> 8 * n" using assms(5) by linarith
  moreover have "\<exists>k. p \<le> k \<and> k < q \<and> i div 8 = k mod n" if "x \<le> i" "i < x + 4" for i
    using that assms(4,5) by (intro exI [of _ p]) auto
  ultimately have "rd x 4 m = rd x 4 m'" by (rule agree_rd [OF assms(1-3)])
  then show ?thesis by (simp add: rd32_def)
qed

lemma chunk_at_agree:
  assumes a: "agree n p (p + span n p (length d)) m m'" and n: "0 < n" "length m = 8 * n" and c: "chunk_at n m p d"
  shows "chunk_at n m' p d"
proof -
  have s: "span n p (length d) \<le> n" using c by (simp add: chunk_at_def)
  have "rd (data_addr n p (length d)) (length d) m = rd (data_addr n p (length d)) (length d) m'"
    using a n data_bounds [OF n(1) s] data_in_span [OF n(1) s] by (intro agree_rd) auto
  moreover have "p < p + span n p (length d)" using span_pos [OF n(1)] by simp
  ultimately show ?thesis using c head_agree [OF a n] by (simp add: chunk_at_def)
qed

lemma chain_agree:
  assumes "agree n p q m m'" "0 < n" "length m = 8 * n" "chain n m p ds q"
  shows "chain n m' p ds q"
  using assms(1,4)
proof (induction ds arbitrary: p)
  case (Cons d ds)
  let ?p = "p + span n p (length d)"
  have c: "chunk_at n m p d" "chain n m ?p ds q" using Cons.prems by auto
  have "?p \<le> q" using c(2) by (rule chain_le)
  then have "agree n p ?p m m'" "agree n ?p q m m'" using Cons.prems(1) by (auto elim: agree_sub)
  then show ?case using Cons.IH [OF _ c(2)] chunk_at_agree [OF _ assms(2,3) c(1)] by simp
qed simp

section \<open>Cursors\<close>

text \<open>
  \<open>u\<close>: the reading cursor as the writer last saw it; \<open>c\<close>: the reading cursor; \<open>r\<close>: the reader's own one, ahead of it
  during a batch; \<open>v\<close>: the writing cursor as the reader last saw it; \<open>w\<close>: the writing cursor.
\<close>

definition cursors :: "siso \<Rightarrow> nat \<Rightarrow> nat \<Rightarrow> nat \<Rightarrow> nat \<Rightarrow> nat \<Rightarrow> nat \<Rightarrow> bool" where
  "cursors s n u c r v w \<longleftrightarrow> ring s n \<and> u \<le> c \<and> c \<le> r \<and> r \<le> v \<and> v \<le> w \<and> w \<le> u + n
     \<and> wt_reading_cursor_cache s = of_nat u \<and> reading_cursor s = of_nat c \<and> rt_reading_cursor_cache s = of_nat r
     \<and> rt_writing_cursor_cache s = of_nat v \<and> writing_cursor s = of_nat w \<and> wt_writing_cursor_cache s = of_nat w"

lemma ring_bound: "ring s n \<Longrightarrow> 0 < n \<and> n \<le> 2 ^ 28"
  by (simp add: ring_def pow2_pos)

lemma is_split_iff:
  assumes "ring s n" "b < n" "chunk_size s b = of_nat len" "len < 2 ^ 32"
  shows "is_split s b \<longleftrightarrow> n - b < need_blocks len"
proof -
  have "unat (aligned_blocks_count s) = n" using assms(1) ring_bound [OF assms(1)] by (simp add: ring_def unat_small)
  moreover have "8 * b + 8 + len > 8 * n \<longleftrightarrow> n - b < (len + 15) div 8" using assms(2) by linarith
  ultimately show ?thesis using assms(3,4) by (simp add: is_split_def data_block_offset_def need_blocks_def unat_small)
qed

lemma get_block_data_addr_eq:
  assumes "ring s n" "chunk_size s (p mod n) = of_nat len" "len < 2 ^ 32"
  shows "get_block_data_addr s (p mod n) = data_addr n p len"
  using is_split_iff [OF assms(1) _ assms(2,3)] ring_bound [OF assms(1)]
  by (simp add: get_block_data_addr_def data_addr_def left_blocks_def data_block_offset_def)

lemma handle_block_eq: "ring s n \<Longrightarrow> handle_block s (Some (data_addr n p len)) (of_nat p) = p mod n"
  by (auto simp: handle_block_def data_addr_def cursor_to_block_of_nat data_block_offset_def)

lemma data_length_bound: "0 < n \<Longrightarrow> n \<le> 2 ^ 28 \<Longrightarrow> span n p len \<le> n \<Longrightarrow> len < 2 ^ 32"
  using data_bounds [of n p len] by simp

section \<open>The writing thread\<close>

lemma blocks_of_eq: "unat x + 7 < 2 ^ 35 \<Longrightarrow> unat (blocks_of x) = (unat x + 7) div 8"
  by (simp add: blocks_of_def unat_small)

lemma size_required: "unat (sz :: u32) + 8 < 2 ^ 32 \<Longrightarrow> unat (sz + of_nat data_block_offset) = unat sz + 8"
  by (simp add: data_block_offset_def unat_word_ariths)

lemma need_eq: "unat (sz :: u32) + 8 < 2 ^ 32 \<Longrightarrow> blocks_of (sz + of_nat data_block_offset) = of_nat (need_blocks (unat sz))"
  by (simp add: blocks_of_def size_required need_blocks_def add.commute)

lemma left_eq: "ring s n \<Longrightarrow> aligned_blocks_count s - of_nat (w mod n) = of_nat (left_blocks n w)"
  using ring_pos [of s n] by (simp add: ring_def left_blocks_def less_imp_le)

lemma need_bound: "len + 8 < 2 ^ 32 \<Longrightarrow> need_blocks len < 2 ^ 30 \<and> 0 < need_blocks len"
  by (auto simp: need_blocks_def)

lemma alloc_guard:
  fixes w :: nat
  assumes r: "ring s n" and l: "len + 8 < 2 ^ 32"
  defines "need \<equiv> of_nat (need_blocks len) :: u32" and "left \<equiv> of_nat (left_blocks n w) :: u32"
  shows "need > aligned_blocks_count s \<or> need = 0 \<or> (need > left \<and> need + left - 1 > aligned_blocks_count s) \<longleftrightarrow> n < span n w len"
proof -
  have n: "0 < n" "n \<le> 2 ^ 28" "aligned_blocks_count s = of_nat n" using ring_bound [OF r] r by (auto simp: ring_def)
  have nb: "need_blocks len < 2 ^ 30" "0 < need_blocks len" using need_bound [OF l] by auto
  have lb: "0 < left_blocks n w" "left_blocks n w \<le> n" using left_blocks_bounds [OF n(1), of w] by auto
  have sum: "need + left - 1 = of_nat (need_blocks len + left_blocks n w - 1)"
    using lb nb unfolding need_def left_def by (simp flip: of_nat_minus)
  have "need > aligned_blocks_count s \<longleftrightarrow> n < need_blocks len" "need > left \<longleftrightarrow> left_blocks n w < need_blocks len" "need \<noteq> 0"
    using n nb lb unfolding need_def left_def n(3) by (auto simp: of_nat_less32 word_unat_eq_iff unat_small simp del: unat_eq_zero)
  moreover have "need + left - 1 > aligned_blocks_count s \<longleftrightarrow> n < need_blocks len + left_blocks n w - 1"
    unfolding sum n(3) using n nb lb by (intro of_nat_less32; simp)
  moreover have "(len + 7) div 8 = need_blocks len - 1" by (simp add: need_blocks_def)
  ultimately show ?thesis using lb nb by (auto simp: span_def)
qed

lemma alloc_choice:
  fixes w :: nat
  assumes r: "ring s n" and l: "unat sz + 8 < 2 ^ 32"
  defines "need \<equiv> of_nat (need_blocks (unat sz)) :: u32" and "left \<equiv> of_nat (left_blocks n w) :: u32"
  shows "(if left < need then (blocks_of sz + left, 0) else (need, 8 * (w mod n) + data_block_offset))
    = (of_nat (span n w (unat sz)), data_addr n w (unat sz))"
proof -
  have n: "0 < n" "n \<le> 2 ^ 28" using ring_bound [OF r] by auto
  have nb: "need_blocks (unat sz) < 2 ^ 30" using need_bound [OF l] by auto
  have lb: "left_blocks n w \<le> n" using left_blocks_bounds [OF n(1), of w] by auto
  have "left < need \<longleftrightarrow> left_blocks n w < need_blocks (unat sz)"
    unfolding left_def need_def using n nb lb by (intro of_nat_less32; simp)
  then show ?thesis by (simp add: span_def data_addr_def blocks_of_def left_def need_def data_block_offset_def)
qed

lemma left_space:
  assumes "w \<le> u + n" "u \<le> w" "n \<le> 2 ^ 28" "aligned_blocks_count s = of_nat n" "k \<le> n"
  shows "of_nat u + aligned_blocks_count s - of_nat w = (of_nat (u + n - w) :: u32)"
    and "of_nat u + aligned_blocks_count s - of_nat w < (of_nat k :: u32) \<longleftrightarrow> u + n < w + k"
proof -
  show e: "of_nat u + aligned_blocks_count s - of_nat w = (of_nat (u + n - w) :: u32)"
    using assms(1,4) by (simp flip: of_nat_minus)
  have "of_nat (u + n - w) < (of_nat k :: u32) \<longleftrightarrow> u + n - w < k" using assms by (intro of_nat_less32; simp)
  then show "of_nat u + aligned_blocks_count s - of_nat w < (of_nat k :: u32) \<longleftrightarrow> u + n < w + k" unfolding e using assms by linarith
qed

text \<open>The rest of \<open>alloc_write_chunk\<close>, once the number of blocks and the address of the data are known.\<close>

definition alloc_rest :: "u32 \<Rightarrow> u32 \<Rightarrow> nat \<Rightarrow> siso \<Rightarrow> nat \<Rightarrow> write_handle \<times> siso" where
  "alloc_rest sz need addr s b =
     (let left_space = wt_reading_cursor_cache s + aligned_blocks_count s - wt_writing_cursor_cache s;
          s = (if left_space < need then s\<lparr>wt_reading_cursor_cache := reading_cursor s\<rparr> else s);
          left_space = wt_reading_cursor_cache s + aligned_blocks_count s - wt_writing_cursor_cache s
      in if left_space < need
         then (no_write\<lparr>wh_addr := Some addr, wh_result := Err_not_enough_space\<rparr>, s)
         else
           (let s = s\<lparr>blocks := wr32 (8 * b + 4) sz (wr32 (8 * b) need (blocks s))\<rparr>;
                low = (push_bit 1 (aligned_blocks_count s - left_space) \<ge> aligned_blocks_count s);
                s = (if low then s\<lparr>wt_reading_cursor_cache := reading_cursor s\<rparr> else s);
                left_space = wt_reading_cursor_cache s + aligned_blocks_count s - wt_writing_cursor_cache s;
                low = (low \<and> push_bit 1 (aligned_blocks_count s - left_space) \<ge> aligned_blocks_count s)
            in (\<lparr>wh_addr = Some addr, wh_result = Success, wh_low_space = low\<rparr>, s)))"

lemma alloc_unfold:
  assumes r: "ring s n" and w: "wt_writing_cursor_cache s = of_nat w" and l: "unat sz + 8 < 2 ^ 32"
  shows "alloc_write_chunk sz s =
    (if n < span n w (unat sz) then (no_write\<lparr>wh_result := Err_alloc_size_invalid\<rparr>, s)
     else alloc_rest sz (of_nat (span n w (unat sz))) (data_addr n w (unat sz)) s (w mod n))"
  unfolding alloc_write_chunk_def w cursor_to_block_of_nat [OF r] need_eq [OF l] left_eq [OF r] Let_def alloc_guard [OF r l]
    alloc_choice [OF r l] prod.case
  by (simp only: alloc_rest_def Let_def w)

definition put_head :: "nat \<Rightarrow> nat \<Rightarrow> u32 \<Rightarrow> u8 list \<Rightarrow> u8 list" where
  "put_head n w sz m = wr32 (8 * (w mod n) + 4) sz (wr32 (8 * (w mod n)) (of_nat (span n w (unat sz))) m)"

lemma alloc_rest_cases:
  assumes c: "cursors s n u c r v w" and k: "k \<le> n" "need = of_nat k" and b: "b = w mod n"
  shows "c + n < w + k \<Longrightarrow> alloc_rest sz need a s b =
      (no_write\<lparr>wh_addr := Some a, wh_result := Err_not_enough_space\<rparr>, s\<lparr>wt_reading_cursor_cache := of_nat c\<rparr>)"
    and "\<not> c + n < w + k \<Longrightarrow> \<exists>low u'. (u' = u \<or> u' = c) \<and> w + k \<le> u' + n \<and>
      alloc_rest sz need a s b = (\<lparr>wh_addr = Some a, wh_result = Success, wh_low_space = low\<rparr>,
        s\<lparr>wt_reading_cursor_cache := of_nat u', blocks := wr32 (8 * b + 4) sz (wr32 (8 * b) need (blocks s))\<rparr>)"
proof -
  have n: "aligned_blocks_count s = of_nat n" "n \<le> 2 ^ 28" using c ring_bound by (auto simp: cursors_def ring_def)
  have o: "u \<le> c" "c \<le> w" "w \<le> u + n" "w \<le> c + n" and f: "wt_reading_cursor_cache s = of_nat u" "reading_cursor s = of_nat c" "wt_writing_cursor_cache s = of_nat w"
    using c by (auto simp: cursors_def)
  have lu: "of_nat u + aligned_blocks_count s - of_nat w < need \<longleftrightarrow> u + n < w + k"
    and lc: "of_nat c + aligned_blocks_count s - of_nat w < need \<longleftrightarrow> c + n < w + k"
    using left_space(2) [of w u n s k] left_space(2) [of w c n s k] o n k by simp_all
  show "c + n < w + k \<Longrightarrow> alloc_rest sz need a s b =
      (no_write\<lparr>wh_addr := Some a, wh_result := Err_not_enough_space\<rparr>, s\<lparr>wt_reading_cursor_cache := of_nat c\<rparr>)"
    using lu lc f o by (auto simp: alloc_rest_def Let_def)
  assume ok: "\<not> c + n < w + k"
  let ?p = "\<lambda>low u'. (\<lparr>wh_addr = Some a, wh_result = Success, wh_low_space = low\<rparr>,
        s\<lparr>wt_reading_cursor_cache := of_nat u', blocks := wr32 (8 * b + 4) sz (wr32 (8 * b) need (blocks s))\<rparr>)"
  show "\<exists>low u'. (u' = u \<or> u' = c) \<and> w + k \<le> u' + n \<and> alloc_rest sz need a s b = ?p low u'"
  proof (cases "u + n < w + k")
    case True
    then have "\<exists>low. alloc_rest sz need a s b = ?p low c"
      using lu lc f ok by (auto simp: alloc_rest_def Let_def)
    then show ?thesis using ok by (metis not_less)
  next
    case False
    then have "(\<exists>low. alloc_rest sz need a s b = ?p low c) \<or> (\<exists>low. alloc_rest sz need a s b = ?p low u)"
      using lu lc f ok by (auto simp: alloc_rest_def Let_def)
    then show ?thesis using ok False by (metis not_less)
  qed
qed


lemma put_head:
  assumes n: "0 < n" "length m = 8 * n"
  shows "length (put_head n w sz m) = 8 * n"
    and "rd32 (8 * (w mod n)) (put_head n w sz m) = of_nat (span n w (unat sz))"
    and "rd32 (8 * (w mod n) + 4) (put_head n w sz m) = sz"
    and "b \<le> w \<Longrightarrow> w + span n w (unat sz) \<le> a + n \<Longrightarrow> agree n a b m (put_head n w sz m)"
proof -
  let ?b = "8 * (w mod n)"
  have "w mod n < n" using n by simp
  then have l: "?b + 8 \<le> length m" using n(2) by linarith
  then show "length (put_head n w sz m) = 8 * n" by (simp add: put_head_def n(2))
  show "rd32 ?b (put_head n w sz m) = of_nat (span n w (unat sz))" "rd32 (?b + 4) (put_head n w sz m) = sz"
    using l by (simp_all add: put_head_def rd32_wr32_other rd32_wr32_same)
  assume ab: "b \<le> w" "w + span n w (unat sz) \<le> a + n"
  have "agree n a b m' (wr32 x y m')" if "length m' = 8 * n" "x = ?b \<or> x = ?b + 4" for x y m'
    unfolding wr32_def
  proof (rule wr_agree [OF n(1) that(1) _ _ _ ab])
    show "x + 4 \<le> length m'" using that l n by auto
    show "\<exists>q\<ge>w. q < w + span n w (unat sz) \<and> i div 8 = q mod n" if "x \<le> i" "i < x + 4" for i
      using head_in_span [OF n(1), of w i "unat sz"] that \<open>x = ?b \<or> x = ?b + 4\<close> by auto
  qed simp
  then have "agree n a b m (wr32 ?b (of_nat (span n w (unat sz))) m)"
    "agree n a b (wr32 ?b (of_nat (span n w (unat sz))) m) (put_head n w sz m)"
    using n l by (simp_all add: put_head_def)
  then show "agree n a b m (put_head n w sz m)" by (rule agree_trans)
qed

lemma alloc_cases:
  assumes c: "cursors s n u c r v w" and l: "unat sz + 8 < 2 ^ 32"
  obtains (invalid) "n < span n w (unat sz)" "alloc_write_chunk sz s = (no_write\<lparr>wh_result := Err_alloc_size_invalid\<rparr>, s)"
  | (full) "span n w (unat sz) \<le> n" "c + n < w + span n w (unat sz)"
      "alloc_write_chunk sz s = (no_write\<lparr>wh_addr := Some (data_addr n w (unat sz)), wh_result := Err_not_enough_space\<rparr>,
        s\<lparr>wt_reading_cursor_cache := of_nat c\<rparr>)"
  | (ok) low u' where "span n w (unat sz) \<le> n" "u \<le> u'" "u' \<le> c" "w + span n w (unat sz) \<le> u' + n"
      "alloc_write_chunk sz s = (\<lparr>wh_addr = Some (data_addr n w (unat sz)), wh_result = Success, wh_low_space = low\<rparr>,
        s\<lparr>wt_reading_cursor_cache := of_nat u', blocks := put_head n w sz (blocks s)\<rparr>)"
proof -
  have r: "ring s n" and w: "wt_writing_cursor_cache s = of_nat w" and uc: "u \<le> c" using c by (auto simp: cursors_def)
  let ?k = "span n w (unat sz)"
  show thesis
  proof (cases "n < ?k")
    case True
    then show thesis using invalid alloc_unfold [OF r w l] by simp
  next
    case False
    then have k: "?k \<le> n" and e: "alloc_write_chunk sz s = alloc_rest sz (of_nat ?k) (data_addr n w (unat sz)) s (w mod n)"
      using alloc_unfold [OF r w l] by simp_all
    show thesis
    proof (cases "c + n < w + ?k")
      case True
      then show thesis using full k e alloc_rest_cases(1) [OF c k refl refl] by simp
    next
      case False
      show thesis using alloc_rest_cases(2) [OF c k refl refl False, of sz "data_addr n w (unat sz)"] ok k e uc
        unfolding put_head_def by auto
    qed
  qed
qed

text \<open>The chunk that was allocated at \<open>w\<close> holds what the client writes into it.\<close>

lemma filled_chunk:
  assumes n: "0 < n" "length m = 8 * n" "n \<le> 2 ^ 28" and s: "span n w (length bs) \<le> n"
    and h: "rd32 (8 * (w mod n)) m = of_nat (span n w (length bs))" "rd32 (8 * (w mod n) + 4) m = of_nat (length bs)"
  shows "chunk_at n (wr (data_addr n w (length bs)) bs m) w bs"
    and "b \<le> w \<Longrightarrow> w + span n w (length bs) \<le> a + n \<Longrightarrow> agree n a b m (wr (data_addr n w (length bs)) bs m)"
    and "length (wr (data_addr n w (length bs)) bs m) = 8 * n"
proof -
  let ?a = "data_addr n w (length bs)" and ?b = "8 * (w mod n)"
  have l: "?a + length bs \<le> length m" using data_bounds [OF n(1) s] n(2) by simp
  have wn: "w mod n < n" using n by simp
  have o: "?b + 8 \<le> ?a \<or> ?a + length bs \<le> ?b"
    using s by (auto simp: data_addr_def span_def left_blocks_def split: if_splits)
  have "rd32 x (wr ?a bs m) = rd32 x m" if "x = ?b \<or> x = ?b + 4" for x
    unfolding rd32_def using that l o wn n(2) by (subst rd_wr_other) auto
  then show "chunk_at n (wr ?a bs m) w bs"
    using h s rd_wr_same [OF l] by (simp add: chunk_at_def)
  show "length (wr ?a bs m) = 8 * n" using l n(2) by simp
  assume "b \<le> w" "w + span n w (length bs) \<le> a + n"
  then show "agree n a b m (wr ?a bs m)"
    by (intro wr_agree [OF n(1,2) l refl data_in_span [OF n(1) s]]) auto
qed


lemma commit_eq:
  assumes r: "ring s n" and w: "wt_writing_cursor_cache s = of_nat w" and h: "wh_result h = Success" "wh_addr h = Some (data_addr n w len)"
    and b: "rd32 (8 * (w mod n)) (blocks s) = of_nat k"
  shows "commit_write_chunk h s = s\<lparr>wt_writing_cursor_cache := of_nat (w + k), writing_cursor := of_nat (w + k)\<rparr>"
  using handle_block_eq [OF r, of w len] by (simp add: commit_write_chunk_def Let_def h w block_num_def b)

section \<open>The reading thread\<close>

definition shows_chunk :: "nat \<Rightarrow> nat \<Rightarrow> u8 list \<Rightarrow> read_handle \<Rightarrow> bool" where
  "shows_chunk n p d h \<longleftrightarrow> h = \<lparr>rh_addr = Some (data_addr n p (length d)), rh_result = Success, rh_size = of_nat (length d)\<rparr>"

lemma chunk_at_len: "chunk_at n m p d \<Longrightarrow> 0 < n \<Longrightarrow> n \<le> 2 ^ 28 \<Longrightarrow> length d < 2 ^ 32"
  using data_length_bound [of n p "length d"] unfolding chunk_at_def by blast

lemma chunk_data_eq: "chunk_at n (blocks s) p d \<Longrightarrow> ring s n \<Longrightarrow> shows_chunk n p d h \<Longrightarrow> chunk_data h s = d"
  using chunk_at_len [of n "blocks s" p d] ring_bound [of s n]
  by (simp add: chunk_at_def chunk_data_def shows_chunk_def unat_small)

lemma chunk_head_eq:
  assumes "chunk_at n (blocks s) p d" "ring s n"
  shows "block_num s (p mod n) = of_nat (span n p (length d))" "chunk_size s (p mod n) = of_nat (length d)"
    "get_block_data_addr s (p mod n) = data_addr n p (length d)"
proof -
  show z: "chunk_size s (p mod n) = of_nat (length d)" "block_num s (p mod n) = of_nat (span n p (length d))"
    using assms(1) by (simp_all add: chunk_at_def chunk_size_def block_num_def)
  show "get_block_data_addr s (p mod n) = data_addr n p (length d)"
    using get_block_data_addr_eq [OF assms(2) z(1)] chunk_at_len [OF assms(1)] ring_bound [OF assms(2)] by simp
qed

definition refreshed :: "nat \<Rightarrow> nat \<Rightarrow> nat \<Rightarrow> nat" where
  "refreshed r v w = (if r = v then w else v)"

lemma refresh_eq:
  assumes c: "cursors s n u c r v w"
  shows "refresh_rt_writing s (of_nat r) = s\<lparr>rt_writing_cursor_cache := of_nat (refreshed r v w)\<rparr>"
    and "rt_writing_cursor_cache (refresh_rt_writing s (of_nat r)) - of_nat r = 0 \<longleftrightarrow> r = w"
proof -
  have b: "n \<le> 2 ^ 28" "r \<le> v" "v \<le> w" "w \<le> r + n" and f: "rt_writing_cursor_cache s = of_nat v" "writing_cursor s = of_nat w"
    using c ring_bound [of s n] by (auto simp: cursors_def)
  have vr: "(of_nat v :: u32) = of_nat r \<longleftrightarrow> v = r" "(of_nat w :: u32) = of_nat r \<longleftrightarrow> w = r"
    using b by (auto intro!: same_cursor)
  then show "refresh_rt_writing s (of_nat r) = s\<lparr>rt_writing_cursor_cache := of_nat (refreshed r v w)\<rparr>"
    using f by (auto simp: refresh_rt_writing_def refreshed_def)
  show "rt_writing_cursor_cache (refresh_rt_writing s (of_nat r)) - of_nat r = 0 \<longleftrightarrow> r = w"
    using f vr b by (auto simp: refresh_rt_writing_def)
qed

lemma read_chunk_eq:
  assumes c: "cursors s n u c r v w" and q: "chain n (blocks s) r ds w"
  shows "read_chunk s = (case ds of [] \<Rightarrow> (no_read\<lparr>rh_result := Err_empty_log_buffer\<rparr>, s\<lparr>rt_writing_cursor_cache := of_nat (refreshed r v w)\<rparr>)
    | d # _ \<Rightarrow> (\<lparr>rh_addr = Some (data_addr n r (length d)), rh_result = Success, rh_size = of_nat (length d)\<rparr>,
        s\<lparr>rt_writing_cursor_cache := of_nat (refreshed r v w)\<rparr>))"
proof -
  have R: "ring s n" and r: "rt_reading_cursor_cache s = of_nat r" using c by (auto simp: cursors_def)
  let ?s = "s\<lparr>rt_writing_cursor_cache := of_nat (refreshed r v w)\<rparr>"
  have R': "ring ?s n" using R by (simp add: ring_def)
  have e: "ds = [] \<longleftrightarrow> r = w" using chain_Nil_iff [OF ring_pos [OF R] q] .
  show ?thesis
  proof (cases ds)
    case Nil
    then show ?thesis using refresh_eq [OF c] e r by (simp add: read_chunk_def Let_def)
  next
    case (Cons d ds')
    then have d: "chunk_at n (blocks ?s) r d" using q by simp
    have ne: "r \<noteq> w" using Cons e by simp
    show ?thesis
      using refresh_eq [OF c] r ne chunk_head_eq [OF d R'] cursor_to_block_of_nat [OF R', of r] Cons
      by (simp add: read_chunk_def Let_def)
  qed
qed

lemma return_eq:
  assumes r: "ring s n" "rt_reading_cursor_cache s = of_nat r" and d: "chunk_at n (blocks s) r d" "shows_chunk n r d h"
  shows "return_read_chunk h s = s\<lparr>rt_reading_cursor_cache := of_nat (r + span n r (length d)),
    reading_cursor := of_nat (r + span n r (length d))\<rparr>"
  using handle_block_eq [OF r(1), of r "length d"] chunk_head_eq(1) [OF d(1) r(1)] d(2)
  by (simp add: return_read_chunk_def shows_chunk_def Let_def r)

lemma batch_next_eq:
  assumes r: "ring s n" and d: "chunk_at n (blocks s) r d" and h: "bh_result h = Success" "bh_current h = of_nat r"
  shows "batch_next h s = (\<lparr>rh_addr = Some (data_addr n r (length d)), rh_result = Success, rh_size = of_nat (length d)\<rparr>,
    h\<lparr>bh_current := of_nat (r + span n r (length d))\<rparr>, s\<lparr>rt_reading_cursor_cache := of_nat (r + span n r (length d))\<rparr>)"
  using chunk_head_eq [OF d r] cursor_to_block_of_nat [OF r, of r] by (simp add: batch_next_def Let_def h)

end
