(* ===== verification/Siso_System.thy ===== *)
theory Siso_System
  imports Siso_Fifo
begin

text \<open>
  One writing and one reading thread on a \<open>siso_ring_buffer\<close>, in any order of their operations. Each operation accesses
  only one word that the other thread writes (\<open>alloc_write_chunk\<close> and \<open>commit_write_chunk\<close> the two cursors, with
  acquire and release), so whole operations are the steps; the client's writing of the data and its use of the handles are steps of
  their own. \<open>sent\<close> and \<open>received\<close> record what was committed and what was returned.
\<close>

section \<open>The two threads\<close>

datatype writer_state = W_idle | W_granted write_handle u32 | W_filled write_handle "u8 list"

datatype reader_state = R_idle | R_holding read_handle | R_batch batch_handle "read_handle list"

record siso_sys =
  buf :: siso
  writer :: writer_state
  reader :: reader_state
  sent :: "u8 list list"
  received :: "u8 list list"

inductive siso_step :: "siso_sys \<Rightarrow> siso_sys \<Rightarrow> bool" where
  alloc: "writer S = W_idle \<Longrightarrow> unat sz + 8 < 2 ^ 32 \<Longrightarrow> alloc_write_chunk sz (buf S) = (h, b) \<Longrightarrow>
    siso_step S (S\<lparr>buf := b, writer := if wh_result h = Success then W_granted h sz else W_idle\<rparr>)"
| fill: "writer S = W_granted h sz \<Longrightarrow> length bs = unat sz \<Longrightarrow>
    siso_step S (S\<lparr>buf := fill_chunk h bs (buf S), writer := W_filled h bs\<rparr>)"
| commit: "writer S = W_filled h bs \<Longrightarrow>
    siso_step S (S\<lparr>buf := commit_write_chunk h (buf S), writer := W_idle, sent := sent S @ [bs]\<rparr>)"
| read: "reader S = R_idle \<Longrightarrow> read_chunk (buf S) = (h, b) \<Longrightarrow>
    siso_step S (S\<lparr>buf := b, reader := if rh_result h = Success then R_holding h else R_idle\<rparr>)"
| discard: "reader S = R_holding h \<Longrightarrow>
    siso_step S (S\<lparr>buf := return_read_chunk (discard_read_chunk h) (buf S), reader := R_idle\<rparr>)"
| return: "reader S = R_holding h \<Longrightarrow>
    siso_step S (S\<lparr>buf := return_read_chunk h (buf S), reader := R_idle, received := received S @ [chunk_data h (buf S)]\<rparr>)"
| batch: "reader S = R_idle \<Longrightarrow> batch_read (buf S) = (h, b) \<Longrightarrow>
    siso_step S (S\<lparr>buf := b, reader := if bh_result h = Success then R_batch h [] else R_idle\<rparr>)"
| next_of_batch: "reader S = R_batch h hs \<Longrightarrow> batch_has_next h \<Longrightarrow> batch_next h (buf S) = (rh, h', b) \<Longrightarrow>
    siso_step S (S\<lparr>buf := b, reader := R_batch h' (hs @ [rh])\<rparr>)"
| return_batch: "reader S = R_batch h hs \<Longrightarrow>
    siso_step S (S\<lparr>buf := return_batch_read_chunks h (buf S), reader := R_idle,
      received := received S @ List.map (\<lambda>rh. chunk_data rh (buf S)) hs\<rparr>)"

definition siso_start :: "nat \<Rightarrow> siso \<Rightarrow> siso_sys" where
  "siso_start buffer_size s = \<lparr>buf = init_with_memory buffer_size s, writer = W_idle, reader = R_idle, sent = [], received = []\<rparr>"

text \<open>A buffer that the code can be given: the head and at least one block, at most 2 GB, and as many bytes as blocks.\<close>

definition usable :: "nat \<Rightarrow> siso \<Rightarrow> bool" where
  "usable buffer_size s \<longleftrightarrow> head_size + 8 \<le> buffer_size \<and> buffer_size < 2 ^ 31 \<and> length (blocks s) = 8 * usable_blocks buffer_size"

inductive siso_reachable :: "nat \<Rightarrow> siso_sys \<Rightarrow> bool" for buffer_size where
  start: "usable buffer_size s \<Longrightarrow> siso_reachable buffer_size (siso_start buffer_size s)"
| step: "siso_reachable buffer_size S \<Longrightarrow> siso_step S T \<Longrightarrow> siso_reachable buffer_size T"

section \<open>Size of the ring\<close>

lemma double_while_spec:
  "\<lbrakk>pow2 c; c \<le> m\<rbrakk> \<Longrightarrow> pow2 (double_while m c) \<and> double_while m c \<le> m \<and> m < 2 * double_while m c"
proof (induction m c rule: double_while.induct)
  case (1 m c)
  show ?case
  proof (cases "c \<le> m div 2")
    case True
    moreover have "pow2 (2 * c)" using "1.prems"(1) unfolding pow2_def by (metis power_Suc)
    ultimately show ?thesis using "1.IH" pow2_pos [OF "1.prems"(1)] by (subst (1 2 3) double_while.simps) auto
  next
    case False
    then show ?thesis using "1.prems" by (subst (1 2 3) double_while.simps) auto
  qed
qed

text \<open>The number of blocks is the largest power of two that fits behind the head of the buffer.\<close>

theorem usable_blocks_largest:
  assumes "head_size + 8 \<le> buffer_size"
  shows "pow2 (usable_blocks buffer_size) \<and> head_size + 8 * usable_blocks buffer_size \<le> buffer_size
    \<and> buffer_size < head_size + 8 * (2 * usable_blocks buffer_size)"
proof -
  let ?m = "(buffer_size - head_size) div 8"
  have "pow2 1" unfolding pow2_def by (intro exI [of _ 0]) simp
  then have d: "pow2 (double_while ?m 1)" "double_while ?m 1 \<le> ?m" "?m < 2 * double_while ?m 1"
    using double_while_spec [of 1 ?m] assms by auto
  have "8 * ?m \<le> buffer_size - head_size" "buffer_size - head_size < 8 * ?m + 8" by linarith+
  then show ?thesis using d assms unfolding usable_blocks_def by linarith
qed

theorem usable_blocks_largest_witness: "pow2 (usable_blocks 1000) \<and> usable_blocks 1000 = 32"
  using usable_blocks_largest [of 1000] by (simp add: head_size_def cache_line_size_def usable_blocks_def double_while.simps)

section \<open>The invariant\<close>

fun shown :: "nat \<Rightarrow> nat \<Rightarrow> u8 list list \<Rightarrow> read_handle list \<Rightarrow> bool" where
  "shown n p [] hs \<longleftrightarrow> hs = []"
| "shown n p (d # ds) hs \<longleftrightarrow> (\<exists>h hs'. hs = h # hs' \<and> shows_chunk n p d h \<and> shown n (p + span n p (length d)) ds hs')"

lemma shown_append:
  "chain n m p ds q \<Longrightarrow> shown n p ds hs \<Longrightarrow> shows_chunk n q d h \<Longrightarrow> shown n p (ds @ [d]) (hs @ [h])"
  by (induction ds arbitrary: p hs) auto

lemma shown_data:
  "chain n (blocks s) p ds q \<Longrightarrow> shown n p ds hs \<Longrightarrow> ring s n \<Longrightarrow> List.map (\<lambda>h. chunk_data h s) hs = ds"
  by (induction ds arbitrary: p hs) (auto simp: chunk_data_eq)

definition granted_at :: "nat \<Rightarrow> nat \<Rightarrow> nat \<Rightarrow> write_handle \<Rightarrow> nat \<Rightarrow> bool" where
  "granted_at n u w h len \<longleftrightarrow> wh_result h = Success \<and> wh_addr h = Some (data_addr n w len) \<and> span n w len \<le> n \<and> w + span n w len \<le> u + n"

fun writer_inv :: "nat \<Rightarrow> nat \<Rightarrow> nat \<Rightarrow> u8 list \<Rightarrow> writer_state \<Rightarrow> bool" where
  "writer_inv n u w m W_idle \<longleftrightarrow> True"
| "writer_inv n u w m (W_granted h sz) \<longleftrightarrow> granted_at n u w h (unat sz)
     \<and> rd32 (8 * (w mod n)) m = of_nat (span n w (unat sz)) \<and> rd32 (8 * (w mod n) + 4) m = sz"
| "writer_inv n u w m (W_filled h bs) \<longleftrightarrow> granted_at n u w h (length bs) \<and> chunk_at n m w bs"

fun reader_inv :: "nat \<Rightarrow> nat \<Rightarrow> nat \<Rightarrow> nat \<Rightarrow> u8 list list \<Rightarrow> u8 list list \<Rightarrow> reader_state \<Rightarrow> bool" where
  "reader_inv n c r v ds0 ds1 R_idle \<longleftrightarrow> ds0 = []"
| "reader_inv n c r v ds0 ds1 (R_holding h) \<longleftrightarrow> ds0 = [] \<and> (\<exists>d ds'. ds1 = d # ds' \<and> shows_chunk n r d h)"
| "reader_inv n c r v ds0 ds1 (R_batch h hs) \<longleftrightarrow>
     bh_result h = Success \<and> bh_current h = of_nat r \<and> bh_end h = of_nat v \<and> shown n c ds0 hs"

definition queue_at :: "nat \<Rightarrow> u8 list \<Rightarrow> nat \<Rightarrow> nat \<Rightarrow> nat \<Rightarrow> nat \<Rightarrow> u8 list list \<Rightarrow> u8 list list \<Rightarrow> u8 list list \<Rightarrow> bool" where
  "queue_at n m c r v w ds0 ds1 ds2 \<longleftrightarrow> chain n m c ds0 r \<and> chain n m r ds1 v \<and> chain n m v ds2 w"

definition siso_inv :: "nat \<Rightarrow> nat \<Rightarrow> nat \<Rightarrow> nat \<Rightarrow> nat \<Rightarrow> nat \<Rightarrow> u8 list list \<Rightarrow> u8 list list \<Rightarrow> u8 list list \<Rightarrow> siso_sys \<Rightarrow> bool" where
  "siso_inv n u c r v w ds0 ds1 ds2 S \<longleftrightarrow> cursors (buf S) n u c r v w \<and> queue_at n (blocks (buf S)) c r v w ds0 ds1 ds2
     \<and> sent S = received S @ ds0 @ ds1 @ ds2
     \<and> writer_inv n u w (blocks (buf S)) (writer S) \<and> reader_inv n c r v ds0 ds1 (reader S)"

lemma queue_at_agree:
  assumes "agree n c w m m'" "0 < n" "length m = 8 * n" "queue_at n m c r v w ds0 ds1 ds2"
  shows "queue_at n m' c r v w ds0 ds1 ds2"
proof -
  have q: "chain n m c ds0 r" "chain n m r ds1 v" "chain n m v ds2 w" using assms(4) by (auto simp: queue_at_def)
  then have o: "c \<le> r" "r \<le> v" "v \<le> w" by (auto dest: chain_le)
  have "agree n c r m m'" "agree n r v m m'" "agree n v w m m'" using o by (auto intro: agree_sub [OF assms(1)])
  then show ?thesis using q assms(2,3) by (auto simp: queue_at_def elim: chain_agree)
qed

lemma queue_at_whole: "queue_at n m c r v w ds0 ds1 ds2 \<Longrightarrow> chain n m r (ds1 @ ds2) w"
  by (auto simp: queue_at_def chain_append)

lemma siso_inv_start:
  assumes u: "usable buffer_size s"
  shows "siso_inv (usable_blocks buffer_size) 0 0 0 0 0 [] [] [] (siso_start buffer_size s)"
proof -
  let ?n = "usable_blocks buffer_size"
  have p: "pow2 ?n" and "head_size + 8 * ?n \<le> buffer_size"
    using usable_blocks_largest [of buffer_size] u by (auto simp: usable_def)
  then have "?n \<le> 2 ^ 28" using u by (simp add: usable_def)
  then show ?thesis
    using u p by (simp add: siso_inv_def siso_start_def cursors_def queue_at_def ring_def usable_def init_with_memory_def init_cursors_def Let_def)
qed

section \<open>Steps of the writing thread\<close>

lemma inv_alloc:
  assumes i: "siso_inv n u c r v w ds0 ds1 ds2 S" and l: "unat sz + 8 < 2 ^ 32" and a: "alloc_write_chunk sz (buf S) = (h, b)"
  shows "\<exists>u'. siso_inv n u' c r v w ds0 ds1 ds2 (S\<lparr>buf := b, writer := if wh_result h = Success then W_granted h sz else W_idle\<rparr>)"
proof -
  have c: "cursors (buf S) n u c r v w" and q: "queue_at n (blocks (buf S)) c r v w ds0 ds1 ds2"
    using i by (auto simp: siso_inv_def)
  have n: "0 < n" "length (blocks (buf S)) = 8 * n" using c ring_bound by (auto simp: cursors_def ring_def)
  show ?thesis using c l
  proof (cases rule: alloc_cases)
    case invalid
    then show ?thesis using i a by (intro exI [of _ u]) (auto simp: siso_inv_def no_write_def)
  next
    case full
    then show ?thesis using i a by (intro exI [of _ c]) (auto simp: siso_inv_def no_write_def cursors_def ring_def)
  next
    case (ok low u')
    have "agree n c w (blocks (buf S)) (put_head n w sz (blocks (buf S)))" using ok c by (intro put_head n) auto
    then have "queue_at n (put_head n w sz (blocks (buf S))) c r v w ds0 ds1 ds2" using queue_at_agree n q by blast
    moreover have "writer_inv n u' w (put_head n w sz (blocks (buf S))) (W_granted h sz)"
      using ok a put_head(2,3) [OF n] by (auto simp: granted_at_def)
    ultimately show ?thesis using i a ok put_head(1) [OF n]
      by (intro exI [of _ u']) (auto simp: siso_inv_def cursors_def ring_def)
  qed
qed

lemma inv_fill:
  assumes i: "siso_inv n u c r v w ds0 ds1 ds2 S" and w: "writer S = W_granted h sz" and l: "length bs = unat sz"
  shows "siso_inv n u c r v w ds0 ds1 ds2 (S\<lparr>buf := fill_chunk h bs (buf S), writer := W_filled h bs\<rparr>)"
proof -
  let ?m = "blocks (buf S)" and ?m' = "wr (data_addr n w (length bs)) bs (blocks (buf S))"
  have c: "cursors (buf S) n u c r v w" and q: "queue_at n ?m c r v w ds0 ds1 ds2" using i by (auto simp: siso_inv_def)
  have n: "0 < n" "length ?m = 8 * n" "n \<le> 2 ^ 28" using c ring_bound by (auto simp: cursors_def ring_def)
  have g: "granted_at n u w h (length bs)" "rd32 (8 * (w mod n)) ?m = of_nat (span n w (length bs))"
    "rd32 (8 * (w mod n) + 4) ?m = of_nat (length bs)" using i w l by (auto simp: siso_inv_def)
  have s: "span n w (length bs) \<le> n" using g(1) by (simp add: granted_at_def)
  note f = filled_chunk [OF n s g(2,3)]
  have "agree n c w ?m ?m'" using f(2) g(1) c by (auto simp: granted_at_def cursors_def)
  then have "queue_at n ?m' c r v w ds0 ds1 ds2" using queue_at_agree n q by blast
  moreover have "fill_chunk h bs (buf S) = (buf S)\<lparr>blocks := ?m'\<rparr>" using g(1) by (simp add: fill_chunk_def granted_at_def)
  ultimately show ?thesis using i f(1,3) g(1) by (auto simp: siso_inv_def cursors_def ring_def)
qed

lemma inv_commit:
  assumes i: "siso_inv n u c r v w ds0 ds1 ds2 S" and w: "writer S = W_filled h bs"
  shows "siso_inv n u c r v (w + span n w (length bs)) ds0 ds1 (ds2 @ [bs])
    (S\<lparr>buf := commit_write_chunk h (buf S), writer := W_idle, sent := sent S @ [bs]\<rparr>)"
proof -
  have c: "cursors (buf S) n u c r v w" and g: "granted_at n u w h (length bs)" and d: "chunk_at n (blocks (buf S)) w bs"
    using i w by (auto simp: siso_inv_def)
  have "commit_write_chunk h (buf S) = (buf S)\<lparr>wt_writing_cursor_cache := of_nat (w + span n w (length bs)),
      writing_cursor := of_nat (w + span n w (length bs))\<rparr>"
    using c g d by (intro commit_eq) (auto simp: cursors_def granted_at_def chunk_at_def)
  then show ?thesis using i c g d by (auto simp: siso_inv_def cursors_def ring_def queue_at_def chain_append granted_at_def)
qed

section \<open>Steps of the reading thread\<close>

lemma refreshed_queue:
  assumes q: "queue_at n m c r v w ds0 ds1 ds2" and n: "0 < n"
  obtains es1 es2 where "queue_at n m c r (refreshed r v w) w ds0 es1 es2" "es1 @ es2 = ds1 @ ds2"
    "ds1 @ ds2 = [] \<longleftrightarrow> es1 = []"
proof (cases "r = v")
  case True
  then have "ds1 = []" using q chain_Nil_iff [OF n, of m r ds1 v] by (simp add: queue_at_def)
  then show thesis using that [of ds2 "[]"] q True by (auto simp: queue_at_def refreshed_def)
next
  case False
  then have "ds1 \<noteq> []" using q chain_Nil_iff [OF n, of m r ds1 v] by (auto simp: queue_at_def)
  then show thesis using that [of ds1 ds2] q False by (auto simp: refreshed_def)
qed

lemma cursors_refreshed:
  "cursors s n u c r v w \<Longrightarrow> cursors (s\<lparr>rt_writing_cursor_cache := of_nat (refreshed r v w)\<rparr>) n u c r (refreshed r v w) w"
  by (auto simp: cursors_def ring_def refreshed_def)

lemma inv_read:
  assumes i: "siso_inv n u c r v w ds0 ds1 ds2 S" and R: "reader S = R_idle" and a: "read_chunk (buf S) = (h, b)"
  shows "\<exists>v' es1 es2. siso_inv n u c r v' w ds0 es1 es2 (S\<lparr>buf := b, reader := if rh_result h = Success then R_holding h else R_idle\<rparr>)"
    and "rh_result h = Success \<longleftrightarrow> sent S \<noteq> received S"
proof -
  have c: "cursors (buf S) n u c r v w" and q: "queue_at n (blocks (buf S)) c r v w ds0 ds1 ds2"
    and s: "sent S = received S @ ds0 @ ds1 @ ds2" and z: "ds0 = []" using i R by (auto simp: siso_inv_def)
  have n: "0 < n" using c ring_bound by (auto simp: cursors_def)
  obtain es1 es2 where e: "queue_at n (blocks (buf S)) c r (refreshed r v w) w ds0 es1 es2" "es1 @ es2 = ds1 @ ds2"
    "ds1 @ ds2 = [] \<longleftrightarrow> es1 = []" using refreshed_queue [OF q n] by blast
  note rd = read_chunk_eq [OF c queue_at_whole [OF q]]
  show "rh_result h = Success \<longleftrightarrow> sent S \<noteq> received S"
    using rd a s z by (cases "ds1 @ ds2") (auto simp: no_read_def)
  have "siso_inv n u c r (refreshed r v w) w ds0 es1 es2 (S\<lparr>buf := b, reader := if rh_result h = Success then R_holding h else R_idle\<rparr>)"
  proof (cases es1)
    case Nil
    then show ?thesis using rd a i e R cursors_refreshed [OF c] by (auto simp: siso_inv_def no_read_def)
  next
    case (Cons d es)
    then have "ds1 @ ds2 = d # es @ es2" using e(2) by simp
    then show ?thesis using rd a i e R Cons cursors_refreshed [OF c] by (auto simp: siso_inv_def shows_chunk_def)
  qed
  then show "\<exists>v' es1 es2. siso_inv n u c r v' w ds0 es1 es2 (S\<lparr>buf := b, reader := if rh_result h = Success then R_holding h else R_idle\<rparr>)"
    by blast
qed

lemma inv_discard:
  "siso_inv n u c r v w ds0 ds1 ds2 S \<Longrightarrow> reader S = R_holding h \<Longrightarrow>
    siso_inv n u c r v w ds0 ds1 ds2 (S\<lparr>buf := return_read_chunk (discard_read_chunk h) (buf S), reader := R_idle\<rparr>)"
  by (auto simp: siso_inv_def return_read_chunk_def discard_read_chunk_def)

lemma inv_return:
  assumes i: "siso_inv n u c r v w ds0 ds1 ds2 S" and R: "reader S = R_holding h"
  obtains d ds where "ds0 = []" "ds1 = d # ds" "chunk_data h (buf S) = d"
    "siso_inv n u (r + span n r (length d)) (r + span n r (length d)) v w [] ds ds2
      (S\<lparr>buf := return_read_chunk h (buf S), reader := R_idle, received := received S @ [chunk_data h (buf S)]\<rparr>)"
proof -
  have c: "cursors (buf S) n u c r v w" and q: "queue_at n (blocks (buf S)) c r v w ds0 ds1 ds2"
    using i by (auto simp: siso_inv_def)
  obtain d ds where d: "ds1 = d # ds" "shows_chunk n r d h" and z: "ds0 = []" using i R by (auto simp: siso_inv_def)
  have ca: "chunk_at n (blocks (buf S)) r d" and rest: "chain n (blocks (buf S)) (r + span n r (length d)) ds v"
    using q d by (auto simp: queue_at_def)
  have r: "ring (buf S) n" "rt_reading_cursor_cache (buf S) = of_nat r" using c by (auto simp: cursors_def)
  have e: "chunk_data h (buf S) = d" by (rule chunk_data_eq [OF ca r(1) d(2)])
  have "c = r" using q z by (simp add: queue_at_def)
  then show thesis using that [OF z d(1) e] i c q return_eq [OF r ca d(2)] chain_le [OF rest] e d z
    by (auto simp: siso_inv_def cursors_def ring_def queue_at_def)
qed

lemma inv_batch:
  assumes i: "siso_inv n u c r v w ds0 ds1 ds2 S" and R: "reader S = R_idle" and a: "batch_read (buf S) = (h, b)"
  shows "\<exists>v' es1 es2. siso_inv n u c r v' w ds0 es1 es2 (S\<lparr>buf := b, reader := if bh_result h = Success then R_batch h [] else R_idle\<rparr>)"
proof -
  have c: "cursors (buf S) n u c r v w" and q: "queue_at n (blocks (buf S)) c r v w ds0 ds1 ds2"
    and z: "ds0 = []" using i R by (auto simp: siso_inv_def)
  have n: "0 < n" and r: "rt_reading_cursor_cache (buf S) = of_nat r" using c ring_bound by (auto simp: cursors_def)
  obtain es1 es2 where e: "queue_at n (blocks (buf S)) c r (refreshed r v w) w ds0 es1 es2" "es1 @ es2 = ds1 @ ds2"
    using refreshed_queue [OF q n] by blast
  have "b = (buf S)\<lparr>rt_writing_cursor_cache := of_nat (refreshed r v w)\<rparr>"
    and "bh_current h = of_nat r" "bh_end h = of_nat (refreshed r v w)"
    using refresh_eq(1) [OF c] a r by (auto simp: batch_read_def Let_def split: if_splits)
  then have "siso_inv n u c r (refreshed r v w) w ds0 es1 es2 (S\<lparr>buf := b, reader := if bh_result h = Success then R_batch h [] else R_idle\<rparr>)"
    using i e R z cursors_refreshed [OF c] by (auto simp: siso_inv_def)
  then show ?thesis by blast
qed

lemma inv_next:
  assumes i: "siso_inv n u c r v w ds0 ds1 ds2 S" and R: "reader S = R_batch h hs" and m: "batch_has_next h"
    and a: "batch_next h (buf S) = (rh, h', b)"
  shows "\<exists>r' es0 es1. siso_inv n u c r' v w es0 es1 ds2 (S\<lparr>buf := b, reader := R_batch h' (hs @ [rh])\<rparr>)"
proof -
  have c: "cursors (buf S) n u c r v w" and q: "queue_at n (blocks (buf S)) c r v w ds0 ds1 ds2"
    and h: "bh_result h = Success" "bh_current h = of_nat r" "bh_end h = of_nat v" "shown n c ds0 hs" using i R by (auto simp: siso_inv_def)
  have r: "ring (buf S) n" using c by (auto simp: cursors_def)
  have "r \<noteq> v" using m h by (auto simp: batch_has_next_def)
  then obtain d ds where d: "ds1 = d # ds" using q by (cases ds1) (auto simp: queue_at_def)
  then have ca: "chunk_at n (blocks (buf S)) r d" and rest: "chain n (blocks (buf S)) (r + span n r (length d)) ds v"
    using q by (auto simp: queue_at_def)
  have "shown n c (ds0 @ [d]) (hs @ [rh])"
    using shown_append [OF _ h(4)] q batch_next_eq [OF r ca h(1,2)] a by (auto simp: queue_at_def shows_chunk_def)
  then have "siso_inv n u c (r + span n r (length d)) v w (ds0 @ [d]) ds ds2 (S\<lparr>buf := b, reader := R_batch h' (hs @ [rh])\<rparr>)"
    using i c q d h R a ca batch_next_eq [OF r ca h(1,2)] chain_le [OF rest]
    by (auto simp: siso_inv_def cursors_def ring_def queue_at_def chain_append)
  then show ?thesis by blast
qed

lemma inv_return_batch:
  assumes i: "siso_inv n u c r v w ds0 ds1 ds2 S" and R: "reader S = R_batch h hs"
  shows "List.map (\<lambda>rh. chunk_data rh (buf S)) hs = ds0"
    and "siso_inv n u r r v w [] ds1 ds2 (S\<lparr>buf := return_batch_read_chunks h (buf S), reader := R_idle,
      received := received S @ List.map (\<lambda>rh. chunk_data rh (buf S)) hs\<rparr>)"
proof -
  have c: "cursors (buf S) n u c r v w" and q: "queue_at n (blocks (buf S)) c r v w ds0 ds1 ds2"
    and h: "bh_result h = Success" "shown n c ds0 hs" using i R by (auto simp: siso_inv_def)
  show e: "List.map (\<lambda>rh. chunk_data rh (buf S)) hs = ds0"
    using shown_data [OF _ h(2)] q c by (auto simp: queue_at_def cursors_def)
  then show "siso_inv n u r r v w [] ds1 ds2 (S\<lparr>buf := return_batch_read_chunks h (buf S), reader := R_idle,
      received := received S @ List.map (\<lambda>rh. chunk_data rh (buf S)) hs\<rparr>)"
    using i c q h by (auto simp: siso_inv_def cursors_def ring_def queue_at_def return_batch_read_chunks_def)
qed

lemma siso_step_inv:
  assumes "siso_step S T" "siso_inv n u c r v w ds0 ds1 ds2 S"
  shows "\<exists>u c r v w ds0 ds1 ds2. siso_inv n u c r v w ds0 ds1 ds2 T"
  using assms(1)
proof cases
  case (alloc sz h b)
  show ?thesis unfolding alloc(1) using inv_alloc [OF assms(2) alloc(3,4)] by blast
next
  case (fill h sz bs)
  show ?thesis unfolding fill(1) using inv_fill [OF assms(2) fill(2,3)] by blast
next
  case (commit h bs)
  show ?thesis unfolding commit(1) using inv_commit [OF assms(2) commit(2)] by blast
next
  case (read h b)
  show ?thesis unfolding read(1) using inv_read(1) [OF assms(2) read(2,3)] by blast
next
  case (discard h)
  show ?thesis unfolding discard(1) using inv_discard [OF assms(2) discard(2)] by blast
next
  case (return h)
  show ?thesis unfolding return(1) by (rule inv_return [OF assms(2) return(2)]) blast
next
  case (batch h b)
  show ?thesis unfolding batch(1) using inv_batch [OF assms(2) batch(2,3)] by blast
next
  case (next_of_batch h hs rh h' b)
  show ?thesis unfolding next_of_batch(1) using inv_next [OF assms(2) next_of_batch(2-4)] by blast
next
  case (return_batch h hs)
  show ?thesis unfolding return_batch(1) using inv_return_batch(2) [OF assms(2) return_batch(2)] by blast
qed

lemma siso_reachable_inv:
  "siso_reachable buffer_size S \<Longrightarrow> \<exists>u c r v w ds0 ds1 ds2. siso_inv (usable_blocks buffer_size) u c r v w ds0 ds1 ds2 S"
proof (induction rule: siso_reachable.induct)
  case (start s)
  then show ?case using siso_inv_start by blast
next
  case (step S T)
  then show ?case using siso_step_inv by blast
qed

section \<open>What the clients see\<close>

text \<open>C3. FIFO.\<close>

theorem siso_fifo:
  assumes "siso_reachable buffer_size S"
  shows "\<exists>rest. sent S = received S @ rest \<and>
    (case reader S of R_idle \<Rightarrow> True
     | R_holding h \<Rightarrow> rest \<noteq> [] \<and> chunk_data h (buf S) = hd rest
     | R_batch h hs \<Rightarrow> length hs \<le> length rest \<and> List.map (\<lambda>rh. chunk_data rh (buf S)) hs = take (length hs) rest)"
proof -
  obtain n u c r v w ds0 ds1 ds2 where i: "siso_inv n u c r v w ds0 ds1 ds2 S" using siso_reachable_inv [OF assms] by blast
  have s: "sent S = received S @ ds0 @ ds1 @ ds2" using i by (simp add: siso_inv_def)
  show ?thesis
  proof (cases "reader S")
    case (R_holding h)
    show ?thesis by (rule inv_return [OF i R_holding]) (use s R_holding in auto)
  next
    case (R_batch h hs)
    note e = inv_return_batch(1) [OF i R_batch]
    then have "length hs = length ds0" using length_map by metis
    then show ?thesis using e s R_batch by (intro exI [of _ "ds0 @ ds1 @ ds2"]) simp
  qed (use s in auto)
qed

section \<open>A run\<close>

definition do_alloc :: "u32 \<Rightarrow> siso_sys \<Rightarrow> siso_sys" where
  "do_alloc sz S = (case alloc_write_chunk sz (buf S) of
     (h, b) \<Rightarrow> S\<lparr>buf := b, writer := if wh_result h = Success then W_granted h sz else W_idle\<rparr>)"

definition do_fill :: "u8 list \<Rightarrow> siso_sys \<Rightarrow> siso_sys" where
  "do_fill bs S = (case writer S of W_granted h sz \<Rightarrow> S\<lparr>buf := fill_chunk h bs (buf S), writer := W_filled h bs\<rparr> | _ \<Rightarrow> S)"

definition do_commit :: "siso_sys \<Rightarrow> siso_sys" where
  "do_commit S = (case writer S of
     W_filled h bs \<Rightarrow> S\<lparr>buf := commit_write_chunk h (buf S), writer := W_idle, sent := sent S @ [bs]\<rparr> | _ \<Rightarrow> S)"

definition do_read :: "siso_sys \<Rightarrow> siso_sys" where
  "do_read S = (case read_chunk (buf S) of (h, b) \<Rightarrow> S\<lparr>buf := b, reader := if rh_result h = Success then R_holding h else R_idle\<rparr>)"

definition do_return :: "siso_sys \<Rightarrow> siso_sys" where
  "do_return S = (case reader S of
     R_holding h \<Rightarrow> S\<lparr>buf := return_read_chunk h (buf S), reader := R_idle, received := received S @ [chunk_data h (buf S)]\<rparr> | _ \<Rightarrow> S)"

definition zero_siso :: "nat \<Rightarrow> siso" where
  "zero_siso n = \<lparr>aligned_blocks_count_cache = 0, rt_reading_cursor_cache = 0, rt_writing_cursor_cache = 0, wt_reading_cursor_cache = 0,
     wt_writing_cursor_cache = 0, reading_cursor = 0, writing_cursor = 0, blocks = replicate (8 * n) 0, aligned_blocks_count = 0,
     mmap_buffer_state = Init_with_memory\<rparr>"

definition demo_put :: "u8 list \<Rightarrow> siso_sys \<Rightarrow> siso_sys" where
  "demo_put bs S = do_commit (do_fill bs (do_alloc (of_nat (length bs)) S))"

lemma reach_alloc:
  assumes "siso_reachable k S" "writer S = W_idle" "unat sz + 8 < 2 ^ 32"
  shows "siso_reachable k (do_alloc sz S)"
  unfolding do_alloc_def case_prod_unfold
  by (rule siso_reachable.step [OF assms(1) siso_step.alloc [OF assms(2,3)]]) (simp add: prod_eq_iff)

lemma reach_read:
  assumes "siso_reachable k S" "reader S = R_idle"
  shows "siso_reachable k (do_read S)"
  unfolding do_read_def case_prod_unfold
  by (rule siso_reachable.step [OF assms(1) siso_step.read [OF assms(2)]]) (simp add: prod_eq_iff)

lemma reach_fill:
  "siso_reachable k S \<Longrightarrow> writer S = W_granted h sz \<Longrightarrow> length bs = unat sz \<Longrightarrow> siso_reachable k (do_fill bs S)"
  by (auto simp: do_fill_def elim!: siso_reachable.step intro: siso_step.intros)

lemma reach_commit: "siso_reachable k S \<Longrightarrow> siso_reachable k (do_commit S)"
  by (auto simp: do_commit_def split: writer_state.splits elim!: siso_reachable.step intro: siso_step.intros)

lemma reach_return: "siso_reachable k S \<Longrightarrow> siso_reachable k (do_return S)"
  by (auto simp: do_return_def split: reader_state.splits elim!: siso_reachable.step intro: siso_step.intros)

lemma reach_put:
  assumes "siso_reachable k S" "writer S = W_idle" "length bs + 8 < 2 ^ 32"
  shows "siso_reachable k (demo_put bs S)"
proof -
  have u: "unat (of_nat (length bs) :: u32) = length bs" using assms(3) by (intro unat_small) simp
  have a: "siso_reachable k (do_alloc (of_nat (length bs)) S)" using assms u by (intro reach_alloc) simp_all
  consider "writer (do_alloc (of_nat (length bs)) S) = W_idle"
    | h where "writer (do_alloc (of_nat (length bs)) S) = W_granted h (of_nat (length bs))"
    by (cases "alloc_write_chunk (of_nat (length bs)) (buf S)") (fastforce simp: do_alloc_def split: if_splits)
  then have "siso_reachable k (do_fill bs (do_alloc (of_nat (length bs)) S))"
    by cases (use a reach_fill [OF a] u in \<open>auto simp: do_fill_def\<close>)
  then show ?thesis unfolding demo_put_def by (rule reach_commit)
qed

definition demo :: siso_sys where
  "demo = demo_put [4, 5] (demo_put [1, 2, 3] (siso_start 544 (zero_siso 4)))"

lemma demo_start: "siso_reachable 544 (siso_start 544 (zero_siso 4))"
  by (rule siso_reachable.start) (simp add: usable_def head_size_def cache_line_size_def zero_siso_def usable_blocks_def double_while.simps)

lemma writer_demo_put: "writer S = W_idle \<Longrightarrow> writer (demo_put bs S) = W_idle"
  by (auto simp: demo_put_def do_commit_def do_fill_def do_alloc_def split: prod.splits)

lemma demo_reachable: "siso_reachable 544 demo"
  unfolding demo_def by (intro reach_put writer_demo_put demo_start) (simp_all add: siso_start_def)

lemma demo_values: "reader demo = R_idle \<and> writer demo = W_idle \<and> sent demo = [[1, 2, 3], [4, 5]] \<and> received demo = []"
  by code_simp

theorem siso_fifo_witness:
  "\<exists>rest. sent (do_read demo) = received (do_read demo) @ rest \<and>
    (case reader (do_read demo) of R_idle \<Rightarrow> True
     | R_holding h \<Rightarrow> rest \<noteq> [] \<and> chunk_data h (buf (do_read demo)) = hd rest
     | R_batch h hs \<Rightarrow> length hs \<le> length rest \<and> List.map (\<lambda>rh. chunk_data rh (buf (do_read demo))) hs = take (length hs) rest)"
  using demo_values by (intro siso_fifo [of 544] reach_read demo_reachable) simp

text \<open>C26. A read succeeds exactly if a committed chunk has not been received yet.\<close>

theorem siso_read_progress:
  assumes "siso_reachable buffer_size S" "reader S = R_idle"
  shows "if sent S = received S then rh_result (fst (read_chunk (buf S))) = Err_empty_log_buffer
    else (let (h, b) = read_chunk (buf S) in rh_result h = Success \<and> chunk_data h b = sent S ! length (received S))"
proof -
  obtain n u c r v w ds0 ds1 ds2 where i: "siso_inv n u c r v w ds0 ds1 ds2 S" using siso_reachable_inv [OF assms(1)] by blast
  have c: "cursors (buf S) n u c r v w" and q: "queue_at n (blocks (buf S)) c r v w ds0 ds1 ds2"
    and s: "sent S = received S @ ds1 @ ds2" using i assms(2) by (auto simp: siso_inv_def)
  note rd = read_chunk_eq [OF c queue_at_whole [OF q]]
  show ?thesis
  proof (cases "ds1 @ ds2")
    case Nil
    then show ?thesis using rd s by (simp add: no_read_def)
  next
    case (Cons d ds)
    let ?b = "(buf S)\<lparr>rt_writing_cursor_cache := of_nat (refreshed r v w)\<rparr>"
    have "chunk_at n (blocks ?b) r d" "ring ?b n" using queue_at_whole [OF q] Cons c by (auto simp: cursors_def ring_def)
    then have "chunk_data \<lparr>rh_addr = Some (data_addr n r (length d)), rh_result = Success, rh_size = of_nat (length d)\<rparr> ?b = d"
      by (rule chunk_data_eq) (simp add: shows_chunk_def)
    then show ?thesis using rd s Cons by (simp add: Let_def)
  qed
qed

theorem siso_read_progress_witness:
  "rh_result (fst (read_chunk (buf demo))) = Success"
  using siso_read_progress [OF demo_reachable] demo_values by (simp add: case_prod_unfold Let_def)

text \<open>C18. A drained buffer of \<open>n\<close> blocks grants every chunk of up to \<open>n / 2 + 1\<close> blocks, so a writer that waits is never stuck.\<close>

theorem siso_alloc_progress:
  assumes "siso_reachable buffer_size S" "reader S = R_idle" "sent S = received S" "unat sz + 8 < 2 ^ 32"
    and k: "need_blocks (unat sz) \<le> usable_blocks buffer_size div 2 + 1" "need_blocks (unat sz) \<le> usable_blocks buffer_size"
  shows "wh_result (fst (alloc_write_chunk sz (buf S))) = Success"
proof -
  let ?n = "usable_blocks buffer_size"
  obtain u c r v w ds0 ds1 ds2 where i: "siso_inv ?n u c r v w ds0 ds1 ds2 S" using siso_reachable_inv [OF assms(1)] by blast
  have c: "cursors (buf S) ?n u c r v w" and q: "queue_at ?n (blocks (buf S)) c r v w ds0 ds1 ds2"
    and e: "ds0 = []" "ds1 = []" "ds2 = []" using i assms(2,3) by (auto simp: siso_inv_def)
  have n: "0 < ?n" using c ring_bound by (auto simp: cursors_def)
  have cw: "c = w" using q e by (simp add: queue_at_def)
  have "(unat sz + 7) div 8 = need_blocks (unat sz) - 1" by (simp add: need_blocks_def)
  then have sp: "span ?n w (unat sz) \<le> ?n" using k n unfolding span_def by (auto simp: not_less)
  show ?thesis using c assms(4) by (cases rule: alloc_cases) (use sp cw in auto)
qed

theorem siso_alloc_progress_witness:
  "wh_result (fst (alloc_write_chunk 9 (buf (siso_start 544 (zero_siso 4))))) = Success"
  using siso_alloc_progress [OF demo_start, of 9]
  by (simp add: siso_start_def need_blocks_def usable_blocks_def head_size_def cache_line_size_def double_while.simps)

lemma refresh_at:
  assumes "rt_writing_cursor_cache s = of_nat v" "writing_cursor s = of_nat w" "p \<le> v" "v \<le> w" "w \<le> p + n" "n \<le> 2 ^ 28"
  shows "refresh_rt_writing s (of_nat p) = s\<lparr>rt_writing_cursor_cache := of_nat (refreshed p v w)\<rparr>"
    and "of_nat (refreshed p v w) - of_nat p = (0 :: u32) \<longleftrightarrow> p = w"
proof -
  have vr: "(of_nat v :: u32) = of_nat p \<longleftrightarrow> v = p" "(of_nat w :: u32) = of_nat p \<longleftrightarrow> w = p"
    using assms(3-6) by (auto intro!: same_cursor)
  then show "refresh_rt_writing s (of_nat p) = s\<lparr>rt_writing_cursor_cache := of_nat (refreshed p v w)\<rparr>"
    using assms(1,2) by (auto simp: refresh_rt_writing_def refreshed_def)
  show "of_nat (refreshed p v w) - of_nat p = (0 :: u32) \<longleftrightarrow> p = w"
    using vr assms(3,4) by (auto simp: refreshed_def)
qed

lemma traverse_loop_all:
  assumes "ring s n" "writing_cursor s = of_nat w" "w \<le> p + n"
    and "rt_writing_cursor_cache s = of_nat v" "chain n (blocks s) p (take k ds) v" "chain n (blocks s) v (drop k ds) w"
  shows "traverse_loop (of_nat p) s acc = Some (acc @ ds, s\<lparr>rt_writing_cursor_cache := of_nat w\<rparr>)"
  using assms
proof (induction ds arbitrary: p acc s v k)
  case Nil
  then show ?case using refresh_at [of s v w p n] ring_bound [of s n] by (subst traverse_loop.simps) (simp add: refreshed_def)
next
  case (Cons d ds)
  have n: "0 < n" "n \<le> 2 ^ 28" using ring_bound [OF Cons.prems(1)] by auto
  have o: "p \<le> v" "v \<le> w" using Cons.prems(5,6) by (auto dest: chain_le)
  let ?s = "s\<lparr>rt_writing_cursor_cache := of_nat (refreshed p v w)\<rparr>"
  have R: "ring ?s n" using Cons.prems(1) by (simp add: ring_def)
  have whole: "chain n (blocks s) p (d # ds) w" using Cons.prems(5,6) chain_append by (metis append_take_drop_id)
  have ne: "p \<noteq> w" using chain_Nil_iff [OF n(1) whole] by simp
  have ca: "chunk_at n (blocks ?s) p d" using whole by simp
  let ?p = "p + span n p (length d)"
  obtain k' where k': "chain n (blocks s) ?p (take k' ds) (refreshed p v w)" "chain n (blocks s) (refreshed p v w) (drop k' ds) w"
  proof (cases k)
    case 0
    then have "p = v" using Cons.prems(5) by simp
    then show thesis using that [of "length ds"] whole by (simp add: refreshed_def)
  next
    case (Suc j)
    then have "chain n (blocks s) ?p (take j ds) v" using Cons.prems(5) by simp
    moreover have "p \<noteq> v" using calculation span_pos [OF n(1), of p "length d"] by (auto dest: chain_le)
    ultimately show thesis using that [of j] Cons.prems(6) Suc by (simp add: refreshed_def)
  qed
  have "traverse_loop (of_nat ?p) ?s (acc @ [d]) = Some ((acc @ [d]) @ ds, ?s\<lparr>rt_writing_cursor_cache := of_nat w\<rparr>)"
    using k' Cons.prems(2,3) R by (intro Cons.IH [of ?s ?p "refreshed p v w" k']) auto
  moreover have "rd (get_block_data_addr ?s (p mod n)) (unat (chunk_size ?s (p mod n))) (blocks ?s) = d"
    using chunk_head_eq(2,3) [OF ca R] chunk_at_len [OF ca n] ca by (simp add: chunk_at_def unat_small)
  ultimately show ?case
    using refresh_at [OF Cons.prems(4,2) o Cons.prems(3) n(2)] ne chunk_head_eq(1) [OF ca R] cursor_to_block_of_nat [OF R, of p]
    by (subst traverse_loop.simps) (simp add: Let_def)
qed

text \<open>\<open>data_traverse\<close> ends and visits exactly the chunks that were committed and not received, in their order.\<close>

theorem siso_data_traverse:
  assumes "siso_reachable buffer_size S" "reader S = R_idle"
  shows "\<exists>b. data_traverse (buf S) = Some (drop (length (received S)) (sent S), b)"
proof -
  obtain n u c r v w ds0 ds1 ds2 where i: "siso_inv n u c r v w ds0 ds1 ds2 S" using siso_reachable_inv [OF assms(1)] by blast
  have c: "cursors (buf S) n u c r v w" and q: "queue_at n (blocks (buf S)) c r v w ds0 ds1 ds2"
    and s: "sent S = received S @ ds1 @ ds2" using i assms(2) by (auto simp: siso_inv_def)
  have "traverse_loop (of_nat r) (buf S) [] = Some ([] @ ds1 @ ds2, (buf S)\<lparr>rt_writing_cursor_cache := of_nat w\<rparr>)"
    using c q by (intro traverse_loop_all [of _ n w r v "length ds1"]) (auto simp: cursors_def queue_at_def)
  then show ?thesis using c s by (simp add: data_traverse_def cursors_def)
qed

theorem siso_data_traverse_witness: "\<exists>b. data_traverse (buf demo) = Some ([[1, 2, 3], [4, 5]], b)"
  using siso_data_traverse [OF demo_reachable] demo_values by simp

section \<open>Recovery from a memory map\<close>

lemma cursor_shift: "(p :: nat) mod 2 ^ 32 + k < 2 ^ 32 \<Longrightarrow> (p + k) mod 2 ^ 32 = p mod 2 ^ 32 + k"
  by (metis mod_add_left_eq mod_less)

lemma cursor_less: "(of_nat a :: u32) < of_nat b \<longleftrightarrow> a mod 2 ^ 32 < b mod 2 ^ 32"
  by (simp add: word_less_nat_alt unsigned_of_nat take_bit_nat_def)

lemma expected_block_count_eq:
  assumes c: "chunk_at n (blocks s) p d" and r: "ring s n"
  shows "expected_block_count s (p mod n) = block_num s (p mod n)"
proof -
  have n: "0 < n" "n \<le> 2 ^ 28" using ring_bound [OF r] by auto
  have l: "length d \<le> 8 * n" using data_bounds [of n p "length d"] c n by (simp add: chunk_at_def)
  then have u: "unat (of_nat (length d) :: u32) = length d" using n(2) by (intro unat_small) simp
  have z: "chunk_size s (p mod n) = of_nat (length d)" and k: "block_num s (p mod n) = of_nat (span n p (length d))"
    using chunk_head_eq [OF c r] by auto
  have sp: "is_split s (p mod n) \<longleftrightarrow> left_blocks n p < need_blocks (length d)"
    using is_split_iff [OF r _ z] l n by (simp add: left_blocks_def)
  have "blocks_of (of_nat (length d) + of_nat data_block_offset) = of_nat (need_blocks (length d))"
    using need_eq [of "of_nat (length d)"] u l n(2) by simp
  moreover have "blocks_of (of_nat (length d)) = of_nat ((length d + 7) div 8)" using u by (simp add: blocks_of_def)
  ultimately show ?thesis using sp left_eq [OF r, of p] by (simp add: expected_block_count_def z k span_def)
qed

lemma recover_loop_all:
  assumes "ring s n" "wt_writing_cursor_cache s = of_nat w" "chain n (blocks s) p ds w" "p mod 2 ^ 32 + (w - p) < 2 ^ 32"
  shows "recover_loop s (of_nat p) = Some (Some (of_nat w))"
  using assms(3,4)
proof (induction ds arbitrary: p)
  case Nil
  then show ?case using assms(2) by (subst recover_loop.simps) simp
next
  case (Cons d ds)
  have n: "0 < n" "n \<le> 2 ^ 28" using ring_bound [OF assms(1)] by auto
  let ?k = "span n p (length d)"
  have ca: "chunk_at n (blocks s) p d" and rest: "chain n (blocks s) (p + ?k) ds w" using Cons.prems(1) by auto
  have le: "p + ?k \<le> w" and pos: "0 < ?k" "?k \<le> n" using chain_le [OF rest] span_pos [OF n(1)] ca by (auto simp: chunk_at_def)
  have "p mod 2 ^ 32 + ?k < 2 ^ 32" using Cons.prems(2) le by linarith
  then have "(p + ?k) mod 2 ^ 32 + (w - (p + ?k)) < 2 ^ 32" using cursor_shift [of p ?k] Cons.prems(2) le by linarith
  then have "recover_loop s (of_nat (p + ?k)) = Some (Some (of_nat w))" using Cons.IH rest by blast
  moreover have "w mod 2 ^ 32 = p mod 2 ^ 32 + (w - p)" using cursor_shift [OF Cons.prems(2)] le by simp
  then have "(of_nat p :: u32) < of_nat w" using le pos by (simp add: cursor_less)
  moreover have "(of_nat ?k :: u32) \<noteq> 0" using of_nat_eq32 [of ?k 0] pos n(2) by simp
  ultimately show ?case
    using chunk_head_eq(1) [OF ca assms(1)] expected_block_count_eq [OF ca assms(1)] cursor_to_block_of_nat [OF assms(1), of p] assms(2)
    by (subst recover_loop.simps) (simp add: Let_def)
qed

lemma no_wrap:
  assumes "r \<le> w" "w \<le> r + n" "n \<le> 2 ^ 28" "\<not> (of_nat w :: u32) < of_nat r"
  shows "r mod 2 ^ 32 + (w - r) < 2 ^ 32"
proof (rule ccontr)
  assume "\<not> r mod 2 ^ 32 + (w - r) < 2 ^ 32"
  then obtain k where k: "r mod 2 ^ 32 + (w - r) = 2 ^ 32 + k" by (metis le_Suc_ex not_less)
  have rm: "r mod 2 ^ 32 < 2 ^ 32" by simp
  have wr: "w - r \<le> 2 ^ 28" using assms by simp
  have "w mod 2 ^ 32 = (r + (w - r)) mod 2 ^ 32" using assms(1) by simp
  also have "\<dots> = (r mod 2 ^ 32 + (w - r)) mod 2 ^ 32" by (simp only: mod_add_left_eq)
  also have "\<dots> = k mod 2 ^ 32" unfolding k by simp
  also have "\<dots> \<le> k" by simp
  finally have "w mod 2 ^ 32 < r mod 2 ^ 32" using k wr by simp
  then show False using assms(4) by (simp add: cursor_less)
qed

text \<open>The chunks of a batch that the reader was handed and has not returned: \<open>batch_next\<close> moves the read cursor that a recovery starts from.\<close>

definition handed_out :: "siso_sys \<Rightarrow> nat" where
  "handed_out S = (case reader S of R_batch h hs \<Rightarrow> length hs | _ \<Rightarrow> 0)"

lemma shown_length: "shown n p ds hs \<Longrightarrow> length hs = length ds"
  by (induction ds arbitrary: p hs) auto

lemma reader_inv_handed: "reader_inv n c r v ds0 ds1 (reader S) \<Longrightarrow> handed_out S = length ds0"
  by (cases "reader S") (auto simp: handed_out_def dest: shown_length)

text \<open>
  C5. A process that ends at any moment of any interleaving: a new one that opens the mapped buffer finds all committed
  chunks in order except those that were returned and those of an open batch that were already handed to the reader, which are lost. A chunk
  that is held from \<open>read_chunk\<close> is found again, one that is not committed yet is not. But when the 32-bit write cursor has wrapped around and is
  smaller than the read cursor, the recovery refuses a buffer that still holds chunks.
\<close>

theorem siso_recovery:
  assumes "siso_reachable buffer_size S"
  shows "if rt_reading_cursor_cache (buf S) \<le> wt_writing_cursor_cache (buf S)
    then (\<exists>b b'. try_recover_from_exist_memory_map buffer_size (buf S) = Some (Some b)
            \<and> data_traverse b = Some (drop (length (received S) + handed_out S) (sent S), b'))
    else try_recover_from_exist_memory_map buffer_size (buf S) = Some None \<and> drop (length (received S) + handed_out S) (sent S) \<noteq> []"
proof -
  let ?n = "usable_blocks buffer_size" and ?b = "buf S"
  obtain u c r v w ds0 ds1 ds2 where i: "siso_inv ?n u c r v w ds0 ds1 ds2 S" using siso_reachable_inv [OF assms] by blast
  have c: "cursors ?b ?n u c r v w" and q: "queue_at ?n (blocks ?b) c r v w ds0 ds1 ds2"
    and sent: "sent S = received S @ ds0 @ ds1 @ ds2" and ri: "reader_inv ?n c r v ds0 ds1 (reader S)" using i by (auto simp: siso_inv_def)
  have s: "drop (length (received S) + handed_out S) (sent S) = ds1 @ ds2" using reader_inv_handed [OF ri] sent by simp
  have R: "ring ?b ?n" and rw: "r \<le> w" "w \<le> r + ?n" and f: "rt_reading_cursor_cache ?b = of_nat r" "wt_writing_cursor_cache ?b = of_nat w"
    and cnt: "aligned_blocks_count ?b = of_nat ?n" "aligned_blocks_count_cache ?b = of_nat ?n" using c by (auto simp: cursors_def ring_def)
  have n: "0 < ?n" "?n \<le> 2 ^ 28" using ring_bound [OF R] by auto
  note whole = queue_at_whole [OF q]
  have "(of_nat w - of_nat r :: u32) = of_nat (w - r)" using rw(1) by (rule of_nat_minus)
  moreover have "\<not> of_nat ?n < (of_nat (w - r) :: u32)" using rw n by (subst of_nat_less32) simp_all
  ultimately have g: "\<not> aligned_blocks_count ?b < of_nat w - of_nat r" unfolding cnt by simp
  have same: "?b\<lparr>aligned_blocks_count := of_nat ?n\<rparr> = ?b" unfolding cnt(1) [symmetric] by simp
  show ?thesis
  proof (cases "(of_nat w :: u32) < of_nat r")
    case True
    then have "recover_loop ?b (of_nat r) = Some (Some (of_nat r))" using f by (subst recover_loop.simps) auto
    moreover have "r \<noteq> w" using True by auto
    then have "ds1 @ ds2 \<noteq> []" using chain_Nil_iff [OF n(1) whole] by simp
    ultimately show ?thesis
      unfolding try_recover_from_exist_memory_map_def Let_def same using True f cnt g s by auto
  next
    case False
    have l: "recover_loop ?b (of_nat r) = Some (Some (of_nat w))"
      using recover_loop_all [OF R f(2) whole no_wrap [OF rw n(2) False]] .
    let ?b' = "?b\<lparr>rt_writing_cursor_cache := of_nat w, wt_reading_cursor_cache := of_nat r, reading_cursor := of_nat r,
      writing_cursor := of_nat w, mmap_buffer_state := Recover_from_memory_map\<rparr>"
    have "traverse_loop (of_nat r) ?b' [] = Some ([] @ ds1 @ ds2, ?b'\<lparr>rt_writing_cursor_cache := of_nat w\<rparr>)"
      using whole rw R by (intro traverse_loop_all [of _ ?n w r w "length (ds1 @ ds2)"]) (auto simp: ring_def)
    then have "data_traverse ?b' = Some (ds1 @ ds2, ?b'\<lparr>rt_writing_cursor_cache := of_nat w\<rparr>)"
      using f by (simp add: data_traverse_def)
    moreover have "try_recover_from_exist_memory_map buffer_size ?b = Some (Some ?b')"
      unfolding try_recover_from_exist_memory_map_def Let_def same using l f cnt g by simp
    ultimately show ?thesis using False f s by (simp add: not_less)
  qed
qed

theorem siso_recovery_witness:
  "\<exists>b b'. try_recover_from_exist_memory_map 544 (buf demo) = Some (Some b) \<and> data_traverse b = Some ([[1, 2, 3], [4, 5]], b')"
proof -
  have "rt_reading_cursor_cache (buf demo) \<le> wt_writing_cursor_cache (buf demo)" by code_simp
  then show ?thesis using siso_recovery [OF demo_reachable] demo_values by (simp add: handed_out_def)
qed

section \<open>Sizes that wrap around\<close>

lemma wrapped_need:
  assumes "2 ^ 32 - 7 \<le> unat (sz :: u32)"
  shows "blocks_of (sz + of_nat data_block_offset) = 1"
proof -
  have "unat sz < 2 ^ 32" using unsigned_less [of sz] by simp
  then obtain j where j: "unat sz = 2 ^ 32 - 7 + j" "j < 7" using assms by (intro that [of "unat sz - (2 ^ 32 - 7)"]) simp_all
  have "unat (sz + of_nat data_block_offset) = (unat sz + 8) mod 2 ^ 32"
    by (simp add: data_block_offset_def unat_word_ariths)
  also have "\<dots> = (2 ^ 32 + (j + 1)) mod 2 ^ 32" using j by simp
  also have "\<dots> = j + 1" unfolding mod_add_self1 using j(2) by simp
  finally have "(unat (sz + of_nat data_block_offset) + 7) div 8 = 1" using j(2) by simp
  then show ?thesis unfolding blocks_of_def by simp
qed

text \<open>
  C37. The required size is computed in 32 bits: the seven largest sizes wrap around and are granted one block, whose head
  claims a chunk larger than the whole buffer.
\<close>

theorem siso_alloc_size_wraps:
  assumes u: "usable buffer_size s" and sz: "2 ^ 32 - 7 \<le> unat sz"
  shows "let (h, s') = alloc_write_chunk sz (init_with_memory buffer_size s)
    in wh_result h = Success \<and> wh_addr h = Some 8 \<and> block_num s' 0 = 1 \<and> chunk_size s' 0 = sz \<and> length (blocks s') < unat sz"
proof -
  let ?n = "usable_blocks buffer_size" and ?s = "init_with_memory buffer_size s"
  have c: "cursors ?s ?n 0 0 0 0 0" using siso_inv_start [OF u] by (simp add: siso_inv_def siso_start_def)
  have R: "ring ?s ?n" using c by (simp add: cursors_def)
  have n: "0 < ?n" "?n \<le> 2 ^ 28" using ring_bound [OF R] by auto
  have len: "length (blocks ?s) = 8 * ?n" and cnt: "aligned_blocks_count ?s = of_nat ?n" and w: "wt_writing_cursor_cache ?s = of_nat 0"
    using c by (auto simp: cursors_def ring_def)
  have nz: "(of_nat ?n :: u32) \<noteq> 0" using of_nat_eq32 [of ?n 0] n by simp
  have b: "cursor_to_block ?s (of_nat 0) = 0" using cursor_to_block_of_nat [OF R, of 0] by simp
  have guard: "\<not> (1 > (of_nat ?n :: u32) \<or> (1 :: u32) = 0 \<or> (1 > (of_nat ?n :: u32) - of_nat 0 \<and> 1 + ((of_nat ?n :: u32) - of_nat 0) - 1 > of_nat ?n))"
    and choice: "(if (of_nat ?n :: u32) - of_nat 0 < 1 then (blocks_of sz + (of_nat ?n - of_nat 0), 0) else (1, 8 * 0 + data_block_offset)) = (1, 8)"
    using nz by (simp_all add: data_block_offset_def)
  have e: "alloc_write_chunk sz ?s = alloc_rest sz 1 8 ?s 0"
    unfolding alloc_write_chunk_def Let_def wrapped_need [OF sz] w b cnt if_not_P [OF guard] choice prod.case
    by (simp only: alloc_rest_def Let_def w cnt)
  obtain low where a: "alloc_rest sz 1 8 ?s 0 = (\<lparr>wh_addr = Some 8, wh_result = Success, wh_low_space = low\<rparr>,
      ?s\<lparr>wt_reading_cursor_cache := of_nat 0, blocks := wr32 (8 * 0 + 4) sz (wr32 (8 * 0) 1 (blocks ?s))\<rparr>)"
    using alloc_rest_cases(2) [OF c, of 1 1 0 sz 8] n by auto
  have "rd32 0 (wr32 4 sz (wr32 0 1 (blocks ?s))) = 1" "rd32 4 (wr32 4 sz (wr32 0 1 (blocks ?s))) = sz"
    "length (wr32 4 sz (wr32 0 1 (blocks ?s))) = 8 * ?n"
    using n len by (simp_all add: rd32_wr32_other rd32_wr32_same)
  then show ?thesis unfolding e a using n sz by (simp add: block_num_def chunk_size_def)
qed

theorem siso_alloc_size_wraps_witness:
  "wh_result (fst (alloc_write_chunk (- 1) (init_with_memory 544 (zero_siso 4)))) = Success"
  using siso_alloc_size_wraps [of 544 "zero_siso 4" "- 1"]
  by (simp add: usable_def zero_siso_def head_size_def cache_line_size_def usable_blocks_def double_while.simps unsigned_minus_1_eq_mask mask_eq_exp_minus_1 case_prod_unfold Let_def)

end
