(* ===== verification/Miso.thy ===== *)
theory Miso
  imports Ring_Memory
begin

text \<open>
  The ring buffer for many writing threads and one reading thread, \<open>src/bq_log/types/buffer/miso_ring_buffer.h\<close> and \<open>.cpp\<close>, with
  release semantics. Blocks have the size of a cache line; a chunk begins with 24 bits of block count, a status byte and the data size.
  \<open>alloc_write_chunk\<close> is cut at its accesses of shared words into segments, which \<open>Miso_System\<close> interleaves and
  \<open>miso_alloc_write_chunk\<close> runs without interruption. The read cursor that a thread caches in its local storage is an argument.
\<close>

section \<open>State\<close>

record miso =
  m_blocks_count :: u32
  m_blocks :: "u8 list"
  write_cursor :: u32
  read_cursor :: u32
  read_cursor_cache :: u32
  read_cursor_start_cache :: u32
  log_checksum :: u64
  m_mmap_state :: mmap_state

definition st_unused :: u8 where "st_unused = 0"
definition st_used :: u8 where "st_used = 1"
definition st_invalid :: u8 where "st_invalid = 2"

definition max_block_num_per_chunk :: u32 where
  "max_block_num_per_chunk = 0xFFFFFF"

definition miso_block :: "miso \<Rightarrow> u32 \<Rightarrow> nat" where
  "miso_block s cursor = unat (cursor AND (m_blocks_count s - 1))"

definition block_status :: "miso \<Rightarrow> nat \<Rightarrow> u8" where
  "block_status s b = m_blocks s ! (cache_line_size * b + 3)"

definition get_block_num :: "miso \<Rightarrow> nat \<Rightarrow> u32" where
  "get_block_num s b = rd32 (cache_line_size * b) (m_blocks s) AND 0xFFFFFF"

definition data_size :: "miso \<Rightarrow> nat \<Rightarrow> u32" where
  "data_size s b = rd32 (cache_line_size * b + 4) (m_blocks s)"

definition set_status :: "nat \<Rightarrow> u8 \<Rightarrow> miso \<Rightarrow> miso" where
  "set_status b st s = s\<lparr>m_blocks := wr (cache_line_size * b + 3) [st] (m_blocks s)\<rparr>"

text \<open>The store of 32 bits sets the status to \<open>unused\<close> too.\<close>

definition set_block_num :: "nat \<Rightarrow> u32 \<Rightarrow> miso \<Rightarrow> miso" where
  "set_block_num b num s = s\<lparr>m_blocks := wr32 (cache_line_size * b) num (m_blocks s)\<rparr>"

definition set_data_size :: "nat \<Rightarrow> u32 \<Rightarrow> miso \<Rightarrow> miso" where
  "set_data_size b sz s = s\<lparr>m_blocks := wr32 (cache_line_size * b + 4) sz (m_blocks s)\<rparr>"

section \<open>Allocation in segments\<close>

record alloc_local =
  l_size :: u32
  l_need :: u32
  l_cur :: u32
  l_ref :: u32
  l_used :: u32

definition miso_need :: "u32 \<Rightarrow> u32" where
  "miso_need sz = of_nat ((unat (sz + 8) + (cache_line_size - 1)) div cache_line_size)"

definition bad_need :: "u32 \<Rightarrow> miso \<Rightarrow> bool" where
  "bad_need need s \<longleftrightarrow> need > m_blocks_count s \<or> need = 0 \<or> need > max_block_num_per_chunk"

text \<open>Up to the loop; \<open>cached\<close> is the thread's own copy of the read cursor, if it has one.\<close>

definition alloc_begin :: "u32 \<Rightarrow> u32 option \<Rightarrow> miso \<Rightarrow> alloc_local" where
  "alloc_begin sz cached s =
     (let cur = write_cursor s;
          ref = (case cached of Some r \<Rightarrow> r | None \<Rightarrow> read_cursor s)
      in \<lparr>l_size = sz, l_need = miso_need sz, l_cur = cur, l_ref = ref, l_used = cur - ref\<rparr>)"

definition refusal :: "alloc_local \<Rightarrow> miso \<Rightarrow> write_handle" where
  "refusal l s = no_write\<lparr>wh_result := if push_bit 1 (l_need l) > m_blocks_count s then Err_alloc_size_invalid else Err_not_enough_space\<rparr>"

definition check_space :: "alloc_local \<Rightarrow> miso \<Rightarrow> bool \<times> alloc_local" where
  "check_space l s =
     (let new_cursor = l_cur l + l_need l
      in if new_cursor - l_ref l > m_blocks_count s
         then (let l = l\<lparr>l_ref := read_cursor s\<rparr> in (\<not> new_cursor - l_ref l > m_blocks_count s, l))
         else (True, l))"

definition take_blocks :: "alloc_local \<Rightarrow> miso \<Rightarrow> alloc_local \<times> miso" where
  "take_blocks l s = (l\<lparr>l_cur := write_cursor s\<rparr>, s\<lparr>write_cursor := write_cursor s + l_need l\<rparr>)"

definition over :: "alloc_local \<Rightarrow> miso \<Rightarrow> bool" where
  "over l s \<longleftrightarrow> l_cur l + l_need l - l_ref l \<ge> m_blocks_count s"

definition reload :: "alloc_local \<Rightarrow> miso \<Rightarrow> alloc_local" where
  "reload l s = l\<lparr>l_ref := read_cursor s\<rparr>"

definition give_back :: "alloc_local \<Rightarrow> miso \<Rightarrow> bool \<times> miso" where
  "give_back l s = (if write_cursor s = l_cur l + l_need l then (True, s\<lparr>write_cursor := l_cur l\<rparr>) else (False, s))"

definition place_head :: "alloc_local \<Rightarrow> miso \<Rightarrow> miso" where
  "place_head l s = set_block_num (miso_block s (l_cur l)) (l_need l) s"

definition not_contiguous :: "alloc_local \<Rightarrow> miso \<Rightarrow> bool" where
  "not_contiguous l s \<longleftrightarrow> (l_cur l AND (m_blocks_count s - 1)) + l_need l > m_blocks_count s"

definition mark_invalid :: "alloc_local \<Rightarrow> miso \<Rightarrow> miso" where
  "mark_invalid l s = set_status (miso_block s (l_cur l)) st_invalid s"

definition finish_alloc :: "alloc_local \<Rightarrow> miso \<Rightarrow> write_handle \<times> alloc_local \<times> miso" where
  "finish_alloc l s =
     (let b = miso_block s (l_cur l);
          s = set_data_size b (l_size l) s;
          used = l_used l + l_need l;
          low = (push_bit 1 used \<ge> m_blocks_count s);
          l = (if low then l\<lparr>l_ref := read_cursor s\<rparr> else l);
          used = (if low then l_cur l + l_need l - l_ref l else used);
          low = (low \<and> push_bit 1 used \<ge> m_blocks_count s)
      in (\<lparr>wh_addr = Some (cache_line_size * b + 8), wh_result = Success, wh_low_space = low\<rparr>, l\<lparr>l_used := used\<rparr>, s))"

text \<open>The inner loop: \<open>None\<close> if the blocks were given back. It may spin while other threads hold later blocks.\<close>

partial_function (option) fallback_loop :: "alloc_local \<Rightarrow> miso \<Rightarrow> (alloc_local option \<times> miso) option" where
  "fallback_loop l s =
     (let l = reload l s
      in if over l s
         then (case give_back l s of (given, s) \<Rightarrow> if given then Some (None, s) else fallback_loop l s)
         else Some (Some l, s))"

partial_function (option) alloc_loop :: "alloc_local \<Rightarrow> miso \<Rightarrow> (write_handle \<times> miso) option" where
  "alloc_loop l s =
     (case check_space l s of
        (ok, l) \<Rightarrow>
          if \<not> ok then Some (refusal l s, s)
          else (case take_blocks l s of
             (l, s) \<Rightarrow>
               Option.bind (if over l s then fallback_loop l s else Some (Some l, s))
                 (\<lambda>(r, s). case r of
                    None \<Rightarrow> Some (refusal l s, s)
                  | Some l \<Rightarrow>
                      (let s = place_head l s
                       in if not_contiguous l s
                          then alloc_loop l (mark_invalid l s)
                          else (case finish_alloc l s of (h, _, s) \<Rightarrow> Some (h, s))))))"

definition miso_alloc_write_chunk :: "u32 \<Rightarrow> u32 option \<Rightarrow> miso \<Rightarrow> (write_handle \<times> miso) option" where
  "miso_alloc_write_chunk sz cached s =
     (if bad_need (miso_need sz) s then Some (no_write\<lparr>wh_result := Err_alloc_size_invalid\<rparr>, s)
      else alloc_loop (alloc_begin sz cached s) s)"

definition miso_commit_write_chunk :: "write_handle \<Rightarrow> miso \<Rightarrow> miso" where
  "miso_commit_write_chunk h s =
     (if wh_result h \<noteq> Success then s
      else case wh_addr h of Some a \<Rightarrow> set_status ((a - 8) div cache_line_size) st_used s | None \<Rightarrow> s)"

definition miso_fill_chunk :: "write_handle \<Rightarrow> u8 list \<Rightarrow> miso \<Rightarrow> miso" where
  "miso_fill_chunk h bs s = (case wh_addr h of Some a \<Rightarrow> s\<lparr>m_blocks := wr a bs (m_blocks s)\<rparr> | None \<Rightarrow> s)"

section \<open>The reading thread\<close>

definition skip_invalid :: "miso \<Rightarrow> miso" where
  "skip_invalid s =
     (let b = miso_block s (read_cursor_cache s)
      in (set_status b st_unused s)\<lparr>read_cursor_cache := read_cursor_cache s + get_block_num s b\<rparr>)"

partial_function (option) miso_read_chunk :: "miso \<Rightarrow> (read_handle \<times> miso) option" where
  "miso_read_chunk s =
     (let b = miso_block s (read_cursor_cache s);
          status = block_status s b
      in if status = st_invalid then miso_read_chunk (skip_invalid s)
         else if status = st_used
         then Some (\<lparr>rh_addr = Some (cache_line_size * b + 8), rh_result = Success, rh_size = data_size s b\<rparr>, s)
         else Some (no_read\<lparr>rh_result := Err_empty_log_buffer\<rparr>, s))"

definition miso_read_an_empty_chunk :: read_handle where
  "miso_read_an_empty_chunk = no_read\<lparr>rh_result := Err_empty_log_buffer\<rparr>"

definition miso_discard_read_chunk :: "read_handle \<Rightarrow> read_handle" where
  "miso_discard_read_chunk h = h\<lparr>rh_result := Err_empty_log_buffer\<rparr>"

text \<open>\<open>for (i = 0; i < count; ++i) cursor_to_block(start + i).status = unused\<close>\<close>

primrec clear_statuses :: "nat \<Rightarrow> u32 \<Rightarrow> miso \<Rightarrow> miso" where
  "clear_statuses 0 start s = s"
| "clear_statuses (Suc k) start s = clear_statuses k (start + 1) (set_status (miso_block s start) st_unused s)"

definition flush_read :: "miso \<Rightarrow> miso" where
  "flush_read s =
     (let start = read_cursor_start_cache s;
          block_count = read_cursor_cache s - start
      in if block_count > 0
         then (clear_statuses (unat block_count) start s)\<lparr>read_cursor_start_cache := read_cursor_cache s, read_cursor := read_cursor_cache s\<rparr>
         else s)"

definition miso_return_read_chunk :: "read_handle \<Rightarrow> miso \<Rightarrow> miso" where
  "miso_return_read_chunk h s =
     (if rh_result h = Err_empty_log_buffer then flush_read s
      else if rh_result h = Success
      then (let s' = s\<lparr>read_cursor_cache := read_cursor_cache s + get_block_num s (miso_block s (read_cursor_cache s))\<rparr>
            in if read_cursor_cache s' - read_cursor_start_cache s \<ge> drop_bit 2 (m_blocks_count s) then flush_read s' else s')
      else s)"

definition miso_chunk_data :: "read_handle \<Rightarrow> miso \<Rightarrow> u8 list" where
  "miso_chunk_data h s = (case rh_addr h of Some a \<Rightarrow> rd a (unat (rh_size h)) (m_blocks s) | None \<Rightarrow> [])"

partial_function (option) miso_traverse_loop :: "u32 \<Rightarrow> miso \<Rightarrow> u8 list list \<Rightarrow> u8 list list option" where
  "miso_traverse_loop cursor s acc =
     (let b = miso_block s cursor;
          status = block_status s b;
          cursor = cursor + get_block_num s b;
          acc = (if status = st_used then acc @ [rd (cache_line_size * b + 8) (unat (data_size s b)) (m_blocks s)] else acc)
      in if status = st_unused \<or> cursor - read_cursor s \<ge> m_blocks_count s then Some acc
         else miso_traverse_loop cursor s acc)"

definition miso_data_traverse :: "miso \<Rightarrow> u8 list list option" where
  "miso_data_traverse s = miso_traverse_loop (read_cursor s) s []"

section \<open>Initialisation and recovery\<close>

text \<open>The number of blocks: \<open>default_buffer_size\<close> rounded up to a power of two, at least 16 cache lines.\<close>

definition miso_blocks_count :: "u32 \<Rightarrow> u32" where
  "miso_blocks_count default_buffer_size =
     drop_bit 7 (max (of_nat (16 * cache_line_size)) (roundup_pow_of_two default_buffer_size))"

primrec init_statuses :: "nat \<Rightarrow> miso \<Rightarrow> miso" where
  "init_statuses 0 s = s"
| "init_statuses (Suc k) s = set_status k st_unused (init_statuses k s)"

definition miso_reset :: "u64 \<Rightarrow> miso \<Rightarrow> miso" where
  "miso_reset check_sum s = (init_statuses (unat (m_blocks_count s)) s)\<lparr>read_cursor_cache := 0, read_cursor_start_cache := 0,
     log_checksum := check_sum, write_cursor := 0, read_cursor := 0, m_mmap_state := Init_with_memory\<rparr>"

definition miso_init_with_memory :: "miso \<Rightarrow> miso" where
  "miso_init_with_memory s = miso_reset 0 s"

definition miso_init_with_memory_map :: "u64 \<Rightarrow> miso \<Rightarrow> miso" where
  "miso_init_with_memory_map check_sum s = miso_reset check_sum s"

text \<open>\<open>used\<close>: a chunk that crosses the end, or whose size does not need exactly its blocks, is refused.\<close>

definition bad_used :: "miso \<Rightarrow> u32 \<Rightarrow> nat \<Rightarrow> bool" where
  "bad_used s cursor b \<longleftrightarrow>
     (let k = get_block_num s b; size = unat (data_size s b); bytes = int (unat k * cache_line_size)
      in (cursor AND (m_blocks_count s - 1)) + k > m_blocks_count s
         \<or> (of_nat size :: u64) > of_int (bytes - 8)
         \<or> (of_nat size :: u64) \<le> (if k = 1 then 0 else of_int (bytes - int cache_line_size - 8)))"

definition bad_invalid :: "miso \<Rightarrow> u32 \<Rightarrow> nat \<Rightarrow> bool" where
  "bad_invalid s cursor b \<longleftrightarrow>
     (let k = get_block_num s b in ((cursor + k) AND (m_blocks_count s - 1)) + k > m_blocks_count s)"

partial_function (option) miso_recover_loop :: "miso \<Rightarrow> u32 \<Rightarrow> u32 option option" where
  "miso_recover_loop s cursor =
     (let b = miso_block s cursor;
          status = block_status s b;
          next = (if status = st_unused then cursor else cursor + get_block_num s b);
          parsed = next - read_cursor_cache s
      in if status = st_used \<and> bad_used s cursor b \<or> status = st_invalid \<and> bad_invalid s cursor b
            \<or> \<not> (status = st_used \<or> status = st_invalid \<or> status = st_unused) then Some None
         else if parsed = m_blocks_count s then Some (Some next)
         else if parsed > m_blocks_count s then Some None
         else if status = st_unused then Some (Some next)
         else miso_recover_loop s next)"

text \<open>\<open>for (i = current_cursor; i < end; ++i)\<close> with 32-bit cursors.\<close>

lemma unat_succ_less: "(i :: u32) < stop \<Longrightarrow> unat (i + 1) = unat i + 1"
  using unat_lt2p [of stop] by (simp add: word_less_nat_alt unat_word_ariths)

function clear_until :: "u32 \<Rightarrow> u32 \<Rightarrow> miso \<Rightarrow> miso" where
  "clear_until i stop s = (if i < stop then clear_until (i + 1) stop (set_status (miso_block s i) st_unused s) else s)"
  by pat_completeness auto
termination by (relation "measure (\<lambda>(i, stop, s). unat stop - unat i)") (auto simp: unat_succ_less word_less_nat_alt)

declare clear_until.simps [simp del]

definition miso_try_recover :: "u64 \<Rightarrow> miso \<Rightarrow> miso option option" where
  "miso_try_recover check_sum s =
     (if log_checksum s \<noteq> check_sum then Some None
      else
        (let r = read_cursor_cache s AND (m_blocks_count s - 1);
             s = s\<lparr>read_cursor_cache := r, read_cursor_start_cache := r\<rparr>
         in case miso_recover_loop s r of
              None \<Rightarrow> None
            | Some None \<Rightarrow> Some None
            | Some (Some c) \<Rightarrow>
                Some (if c - r > m_blocks_count s then None
                  else Some ((clear_until c (r + m_blocks_count s) (s\<lparr>write_cursor := c, read_cursor := r\<rparr>))
                    \<lparr>m_mmap_state := Recover_from_memory_map\<rparr>))))"

datatype mmap_result = Mmap_failed | Mmap_use_existed | Mmap_new_created

definition miso_ring_buffer :: "u32 \<Rightarrow> u64 \<Rightarrow> mmap_result \<Rightarrow> miso \<Rightarrow> miso option" where
  "miso_ring_buffer default_buffer_size check_sum mmap_result s =
     (let s = s\<lparr>m_blocks_count := miso_blocks_count default_buffer_size\<rparr>
      in case mmap_result of
           Mmap_failed \<Rightarrow> Some (miso_init_with_memory s)
         | Mmap_use_existed \<Rightarrow>
             (case miso_try_recover check_sum s of
                None \<Rightarrow> None
              | Some None \<Rightarrow> Some (miso_init_with_memory_map check_sum s)
              | Some (Some s') \<Rightarrow> Some s')
         | Mmap_new_created \<Rightarrow> Some (miso_init_with_memory_map check_sum s))"

end
