(* ===== verification/Miso_Tickets.thy ===== *)
theory Miso_Tickets
  imports Miso
begin

text \<open>
  The ghost state behind \<open>Miso_System\<close>: the blocks between the reading and the writing cursor are tiled by tickets, one for each
  \<open>fetch_add\<close>, with the thread that owns it and how far it has come. The invariant of the memory says what the blocks of each
  ticket hold and that all other blocks of the lap are marked unused.
\<close>

section \<open>Blocks of the memory\<close>

definition same_block :: "u8 list \<Rightarrow> u8 list \<Rightarrow> nat \<Rightarrow> bool" where
  "same_block m m' b \<longleftrightarrow> (\<forall>j<128. m ! (128 * b + j) = m' ! (128 * b + j))"

definition stat :: "u8 list \<Rightarrow> nat \<Rightarrow> u8" where
  "stat m b = m ! (128 * b + 3)"

definition bnum :: "u8 list \<Rightarrow> nat \<Rightarrow> u32" where
  "bnum m b = rd32 (128 * b) m AND 0xFFFFFF"

definition bsize :: "u8 list \<Rightarrow> nat \<Rightarrow> u32" where
  "bsize m b = rd32 (128 * b + 4) m"

lemma same_block_refl [simp]: "same_block m m b"
  by (simp add: same_block_def)

lemma same_block_trans: "same_block m m' b \<Longrightarrow> same_block m' m'' b \<Longrightarrow> same_block m m'' b"
  by (simp add: same_block_def)

lemma stat_cong: "same_block m m' b \<Longrightarrow> stat m' b = stat m b"
  by (simp add: same_block_def stat_def)

lemma rd_block_cong:
  assumes "same_block m m' b" "length m = length m'" "128 * b \<le> a" "a + k \<le> 128 * b + 128" "128 * b + 128 \<le> length m"
  shows "rd a k m' = rd a k m"
proof (rule rd_cong)
  fix i assume i: "a \<le> i" "i < a + k"
  have "i - 128 * b < 128" using i assms(4) by linarith
  then have "m ! (128 * b + (i - 128 * b)) = m' ! (128 * b + (i - 128 * b))"
    using assms(1) unfolding same_block_def by blast
  then show "m' ! i = m ! i" using i assms by simp
qed (use assms in auto)

lemma head_cong:
  assumes "same_block m m' b" "length m = length m'" "128 * b + 128 \<le> length m"
  shows "bnum m' b = bnum m b" "bsize m' b = bsize m b"
  using rd_block_cong [OF assms(1,2) _ _ assms(3)] by (simp_all add: bnum_def bsize_def rd32_def)

text \<open>Data that begins in block \<open>b\<close> and stays in the next \<open>k\<close> blocks.\<close>

lemma rd_blocks_cong:
  assumes "\<And>i. i < k \<Longrightarrow> same_block m m' (b + i)" "length m = length m'" "128 * b \<le> a" "a + l \<le> 128 * (b + k)" "128 * (b + k) \<le> length m"
  shows "rd a l m' = rd a l m"
proof (rule rd_cong)
  fix i assume i: "a \<le> i" "i < a + l"
  let ?q = "i div 128 - b"
  have "128 * b \<le> i" "i < 128 * (b + k)" using i assms(3,4) by linarith+
  then have "i div 128 < b + k" "b \<le> i div 128" by (simp_all add: div_less_iff_less_mult less_eq_div_iff_mult_less_eq mult.commute)
  then have "same_block m m' (i div 128)" using assms(1) [of ?q] by simp
  then have "i mod 128 < 128 \<longrightarrow> m ! (128 * (i div 128) + i mod 128) = m' ! (128 * (i div 128) + i mod 128)"
    unfolding same_block_def by (rule spec)
  then show "m' ! i = m ! i" by simp
qed (use assms in auto)

lemma wr_other_block:
  assumes "128 * b \<le> a" "a + length bs \<le> 128 * (b + k)" "a + length bs \<le> length m" "b' < b \<or> b + k \<le> b'" "128 * b' + 128 \<le> length m"
  shows "same_block m (wr a bs m) b'"
  unfolding same_block_def
proof (intro allI impI)
  fix j :: nat assume j: "j < 128"
  have "b' < b \<Longrightarrow> 128 * b' + j < 128 * b" "b + k \<le> b' \<Longrightarrow> 128 * (b + k) \<le> 128 * b' + j" using j by (auto simp: trans_le_add1)
  then have "\<not> (a \<le> 128 * b' + j \<and> 128 * b' + j < a + length bs)" using assms(1,2,4) by linarith
  then show "m ! (128 * b' + j) = wr a bs m ! (128 * b' + j)" using assms j by (auto simp: nth_wr)
qed

lemma masked_head:
  assumes "length bs = 4" "length cs = 4" "take 3 bs = take 3 cs"
  shows "(le_word bs :: u32) AND 0xFFFFFF = le_word cs AND 0xFFFFFF"
proof (rule bit_word_eqI)
  fix i :: nat
  have m: "(0xFFFFFF :: u32) = mask 24" by (simp add: mask_eq_exp_minus_1)
  have e: "bs ! k = cs ! k" if "k < 3" for k using that assms(3) by (metis nth_take)
  show "bit ((le_word bs :: u32) AND 0xFFFFFF) i \<longleftrightarrow> bit ((le_word cs :: u32) AND 0xFFFFFF) i"
  proof (cases "i < 24")
    case True
    then have "i div 8 < 3" by simp
    then show ?thesis using e [of "i div 8"] assms(1,2) by (simp add: bit_and_iff bit_le_word)
  qed (simp add: m bit_and_iff bit_mask_iff)
qed

text \<open>The status shares a word with the block count, which does not see it.\<close>

lemma set_stat:
  assumes "128 * b + 128 \<le> length m"
  shows "stat (wr (128 * b + 3) [st] m) b = st" "bnum (wr (128 * b + 3) [st] m) b = bnum m b"
    "bsize (wr (128 * b + 3) [st] m) b = bsize m b"
proof -
  let ?m = "wr (128 * b + 3) [st] m"
  show "stat ?m b = st" using assms by (simp add: stat_def nth_wr)
  have "take 3 (rd (128 * b) 4 ?m) = take 3 (rd (128 * b) 4 m)"
  proof -
    have "rd (128 * b) 3 ?m = rd (128 * b) 3 m" using assms by (intro rd_wr_other) simp_all
    then show ?thesis by (simp add: rd_def)
  qed
  then show "bnum ?m b = bnum m b" unfolding bnum_def rd32_def using assms by (intro masked_head) simp_all
  show "bsize ?m b = bsize m b" unfolding bsize_def rd32_def using assms by (subst rd_wr_other) simp_all
qed

lemma set_num:
  assumes "128 * b + 128 \<le> length m" "v < 2 ^ 24"
  shows "stat (wr32 (128 * b) (of_nat v) m) b = 0" "bnum (wr32 (128 * b) (of_nat v) m) b = of_nat v"
proof -
  have m: "(0xFFFFFF :: u32) = mask 24" by (simp add: mask_eq_exp_minus_1)
  have tb: "take_bit 24 (of_nat v :: u32) = of_nat v"
    using assms(2) by (simp add: take_bit_of_nat take_bit_nat_eq_self)
  then show "bnum (wr32 (128 * b) (of_nat v) m) b = of_nat v"
    using assms(1) by (simp add: bnum_def rd32_wr32_same m flip: take_bit_eq_mask)
  have "stat (wr32 (128 * b) (of_nat v) m) b = le_byte 3 (of_nat v :: u32)" using assms(1) by (simp add: stat_def wr32_def nth_wr)
  also have "\<dots> = le_byte 3 (take_bit 24 (of_nat v) :: u32)" by (simp only: tb)
  also have "\<dots> = 0" by (rule bit_word_eqI) (simp add: bit_le_byte bit_take_bit_iff)
  finally show "stat (wr32 (128 * b) (of_nat v) m) b = 0" .
qed

section \<open>Tickets\<close>

datatype tk_state = T_pending | T_headed | T_granted u32 | T_filled "u8 list" | T_ready "u8 list" | T_skip

datatype ticket = Tk (tk_pos: nat) (tk_len: nat) (tk_own: nat) (tk_st: tk_state)

fun tiles :: "nat \<Rightarrow> ticket list \<Rightarrow> nat \<Rightarrow> bool" where
  "tiles a [] w \<longleftrightarrow> a = w"
| "tiles a (x # xs) w \<longleftrightarrow> tk_pos x = a \<and> 0 < tk_len x \<and> tiles (a + tk_len x) xs w"

definition set_st :: "nat \<Rightarrow> tk_state \<Rightarrow> ticket list \<Rightarrow> ticket list" where
  "set_st p st ts = List.map (\<lambda>x. if tk_pos x = p then Tk (tk_pos x) (tk_len x) (tk_own x) st else x) ts"

lemma tiles_append: "tiles a (xs @ ys) w \<longleftrightarrow> (\<exists>b. tiles a xs b \<and> tiles b ys w)"
  by (induction xs arbitrary: a) auto

lemma tiles_le: "tiles a ts w \<Longrightarrow> a \<le> w"
  by (induction ts arbitrary: a) (auto dest: add_leD1)

lemma tiles_bounds: "tiles a ts w \<Longrightarrow> x \<in> set ts \<Longrightarrow> a \<le> tk_pos x \<and> tk_pos x + tk_len x \<le> w \<and> 0 < tk_len x"
proof (induction ts arbitrary: a)
  case (Cons y ts)
  then show ?case using tiles_le [of "a + tk_len y" ts w] by fastforce
qed simp

lemma tiles_disjoint:
  "tiles a ts w \<Longrightarrow> x \<in> set ts \<Longrightarrow> y \<in> set ts \<Longrightarrow> x \<noteq> y \<Longrightarrow> tk_pos x + tk_len x \<le> tk_pos y \<or> tk_pos y + tk_len y \<le> tk_pos x"
proof (induction ts arbitrary: a)
  case (Cons z ts)
  have "a + tk_len z \<le> tk_pos v" if "v \<in> set ts" for v using tiles_bounds [of "a + tk_len z" ts w v] Cons.prems(1) that by simp
  then show ?case using Cons by auto
qed simp

lemma tiles_same_pos: "tiles a ts w \<Longrightarrow> x \<in> set ts \<Longrightarrow> y \<in> set ts \<Longrightarrow> tk_pos x = tk_pos y \<Longrightarrow> x = y"
  using tiles_disjoint [of a ts w x y] tiles_bounds [of a ts w] by fastforce

lemma tiles_set_st [simp]: "tiles a (set_st p st ts) w \<longleftrightarrow> tiles a ts w"
  by (induction ts arbitrary: a) (auto simp: set_st_def)

lemma set_set_st:
  assumes "tiles a ts w" "Tk p k t s \<in> set ts"
  shows "set (set_st p st ts) = insert (Tk p k t st) (set ts - {Tk p k t s})"
proof -
  have u: "x = Tk p k t s" if "x \<in> set ts" "tk_pos x = p" for x using tiles_same_pos [OF assms(1) that(1) assms(2)] that(2) by simp
  have "set (set_st p st ts) = (\<lambda>x. if x = Tk p k t s then Tk p k t st else x) ` set ts"
    unfolding set_st_def set_map
  proof (rule image_cong [OF refl])
    fix x assume "x \<in> set ts"
    then show "(if tk_pos x = p then Tk (tk_pos x) (tk_len x) (tk_own x) st else x) = (if x = Tk p k t s then Tk p k t st else x)"
      using u [of x] by (cases "tk_pos x = p") auto
  qed
  also have "\<dots> = insert (Tk p k t st) (set ts - {Tk p k t s})" using assms(2) by (auto simp: image_iff)
  finally show ?thesis .
qed

section \<open>What the memory holds\<close>

fun ticket_mem :: "nat \<Rightarrow> u8 list \<Rightarrow> nat \<Rightarrow> nat \<Rightarrow> tk_state \<Rightarrow> bool" where
  "ticket_mem n m p k T_pending \<longleftrightarrow> True"
| "ticket_mem n m p k T_headed \<longleftrightarrow> stat m (p mod n) = 0 \<and> bnum m (p mod n) = of_nat k"
| "ticket_mem n m p k (T_granted sz) \<longleftrightarrow> stat m (p mod n) = 0 \<and> bnum m (p mod n) = of_nat k \<and> p mod n + k \<le> n
     \<and> bsize m (p mod n) = sz \<and> unat sz + 8 \<le> 128 * k"
| "ticket_mem n m p k (T_filled d) \<longleftrightarrow> stat m (p mod n) = 0 \<and> bnum m (p mod n) = of_nat k \<and> p mod n + k \<le> n
     \<and> bsize m (p mod n) = of_nat (length d) \<and> length d + 8 \<le> 128 * k \<and> rd (128 * (p mod n) + 8) (length d) m = d"
| "ticket_mem n m p k (T_ready d) \<longleftrightarrow> stat m (p mod n) = 1 \<and> bnum m (p mod n) = of_nat k \<and> p mod n + k \<le> n
     \<and> bsize m (p mod n) = of_nat (length d) \<and> length d + 8 \<le> 128 * k \<and> rd (128 * (p mod n) + 8) (length d) m = d"
| "ticket_mem n m p k T_skip \<longleftrightarrow> stat m (p mod n) = 2 \<and> bnum m (p mod n) = of_nat k"

lemma ticket_mem_cong:
  assumes c: "ticket_mem n m p k st" and s: "\<And>i. i < k \<Longrightarrow> same_block m m' ((p + i) mod n)"
    and l: "length m = 128 * n" "length m' = 128 * n" and n: "0 < n" "0 < k"
  shows "ticket_mem n m' p k st"
proof -
  let ?b = "p mod n"
  have b: "?b < n" using n(1) by simp
  then have bb: "128 * ?b + 128 \<le> length m" using l by linarith
  have h: "same_block m m' ?b" using s [of 0] n(2) by simp
  note hd = stat_cong [OF h] head_cong [OF h _ bb]
  have whole: "rd (128 * ?b + 8) len m' = rd (128 * ?b + 8) len m" if w: "?b + k \<le> n" and len: "len + 8 \<le> 128 * k" for len
  proof (rule rd_blocks_cong)
    fix i assume i: "i < k"
    then have "(p + i) mod n = ?b + i" using w by (metis less_le_trans mod_add_left_eq mod_less nat_add_left_cancel_less)
    then show "same_block m m' (?b + i)" using s [OF i] by simp
  qed (use len w l in auto)
  show ?thesis using c hd l whole by (cases st) simp_all
qed

section \<open>The invariant of the blocks\<close>

text \<open>\<open>rs\<close> and \<open>rc\<close>: the read cursor, flushed and current; \<open>w\<close>: the write cursor.\<close>

definition placed :: "ticket \<Rightarrow> bool" where
  "placed x \<longleftrightarrow> tk_st x \<noteq> T_pending"

definition covered :: "ticket list \<Rightarrow> nat \<Rightarrow> bool" where
  "covered ts q \<longleftrightarrow> (\<exists>x\<in>set ts. placed x \<and> tk_pos x \<le> q \<and> q < tk_pos x + tk_len x)"

definition core :: "nat \<Rightarrow> nat \<Rightarrow> nat \<Rightarrow> nat \<Rightarrow> ticket list \<Rightarrow> u8 list \<Rightarrow> bool" where
  "core n rs rc w ts m \<longleftrightarrow> 0 < n \<and> n \<le> 2 ^ 24 \<and> length m = 128 * n \<and> rs \<le> rc \<and> rc < rs + n \<and> tiles rc ts w \<and> w < rs + 2 ^ 32
     \<and> (\<forall>x\<in>set ts. tk_len x < 2 ^ 24 \<and> ticket_mem n m (tk_pos x) (tk_len x) (tk_st x) \<and> (placed x \<longrightarrow> tk_pos x + tk_len x < rs + n))
     \<and> (\<forall>q. rc \<le> q \<longrightarrow> q < rs + n \<longrightarrow> \<not> covered ts q \<longrightarrow> stat m (q mod n) = 0)"

lemma coreD:
  assumes "core n rs rc w ts m"
  shows "0 < n" "n \<le> 2 ^ 24" "length m = 128 * n" "rs \<le> rc" "rc < rs + n" "tiles rc ts w" "w < rs + 2 ^ 32"
  using assms by (auto simp: core_def)

lemma core_ticket:
  assumes "core n rs rc w ts m" "Tk p k t st \<in> set ts"
  shows "rc \<le> p" "p + k \<le> w" "0 < k" "k < 2 ^ 24" "ticket_mem n m p k st" "st \<noteq> T_pending \<Longrightarrow> p + k < rs + n"
  using assms tiles_bounds [OF coreD(6) [OF assms(1)] assms(2)] by (auto simp: core_def placed_def)

lemma core_free:
  assumes "core n rs rc w ts m" "rc \<le> q" "q < rs + n" "\<not> covered ts q"
  shows "stat m (q mod n) = 0"
  using assms by (auto simp: core_def)

lemma core_append:
  assumes c: "core n rs rc w ts m" and k: "0 < k" "k < 2 ^ 24" "w + k < rs + 2 ^ 32"
  shows "core n rs rc (w + k) (ts @ [Tk w k t T_pending]) m"
proof -
  have "covered (ts @ [Tk w k t T_pending]) = covered ts" by (auto simp: covered_def placed_def)
  then show ?thesis using c k by (auto simp: core_def tiles_append placed_def)
qed

lemma core_remove_last:
  assumes c: "core n rs rc w ts m" and x: "Tk p k t T_pending \<in> set ts" "p + k = w"
  obtains us where "ts = us @ [Tk p k t T_pending]" "core n rs rc p us m"
proof -
  have "ts \<noteq> []" using x by auto
  then obtain us y where ts: "ts = us @ [y]" using rev_exhaust by blast
  have tl: "tiles rc ts w" using coreD(6) [OF c] .
  have "tk_pos y + tk_len y = w" using tl by (auto simp: ts tiles_append)
  then have "y = Tk p k t T_pending"
    using tiles_disjoint [OF tl x(1), of y] tiles_bounds [OF tl, of y] tiles_bounds [OF tl x(1)] x(2) by (fastforce simp: ts)
  then have ts: "ts = us @ [Tk p k t T_pending]" using ts by simp
  have "covered ts = covered us" by (auto simp: covered_def placed_def ts)
  then have "core n rs rc p us m" using c by (auto simp: core_def ts tiles_append)
  then show thesis using that ts by blast
qed

text \<open>A thread changes only the blocks of its own ticket.\<close>

lemma core_modify:
  assumes c: "core n rs rc w ts m" and x: "Tk p k t s \<in> set ts" and st: "st \<noteq> T_pending" "p + k < rs + n"
    and l: "length m' = length m" and o: "\<And>q. rc \<le> q \<Longrightarrow> q < rs + n \<Longrightarrow> \<not> (p \<le> q \<and> q < p + k) \<Longrightarrow> same_block m m' (q mod n)"
    and tm: "ticket_mem n m' p k st"
  shows "core n rs rc w (set_st p st ts) m'"
proof -
  note D = coreD [OF c]
  have S: "set (set_st p st ts) = insert (Tk p k t st) (set ts - {Tk p k t s})" using set_set_st [OF D(6) x] .
  have "tk_len y < 2 ^ 24 \<and> ticket_mem n m' (tk_pos y) (tk_len y) (tk_st y) \<and> (placed y \<longrightarrow> tk_pos y + tk_len y < rs + n)"
    if y: "y \<in> set ts" "y \<noteq> Tk p k t s" for y
  proof -
    have m: "tk_len y < 2 ^ 24" "ticket_mem n m (tk_pos y) (tk_len y) (tk_st y)" "placed y \<longrightarrow> tk_pos y + tk_len y < rs + n"
      using c y(1) by (auto simp: core_def)
    have b: "rc \<le> tk_pos y" "0 < tk_len y" using tiles_bounds [OF D(6) y(1)] by auto
    have d: "p + k \<le> tk_pos y \<or> tk_pos y + tk_len y \<le> p" using tiles_disjoint [OF D(6) x y(1)] y(2) by auto
    have "ticket_mem n m' (tk_pos y) (tk_len y) (tk_st y)"
    proof (cases "placed y")
      case True
      have "same_block m m' ((tk_pos y + i) mod n)" if "i < tk_len y" for i
        using True m(3) b(1) d that by (intro o) auto
      then show ?thesis using ticket_mem_cong [OF m(2)] l D(1,3) b(2) by simp
    qed (simp add: placed_def)
    then show ?thesis using m by blast
  qed
  moreover have "stat m' (q mod n) = 0" if q: "rc \<le> q" "q < rs + n" "\<not> covered (set_st p st ts) q" for q
  proof -
    have "\<not> (p \<le> q \<and> q < p + k)" using q(3) st(1) by (auto simp: covered_def placed_def S)
    moreover from this have "\<not> covered ts q" using q(3) by (auto simp: covered_def S)
    ultimately show ?thesis using core_free [OF c q(1,2)] stat_cong [OF o [OF q(1,2)]] by simp
  qed
  ultimately show ?thesis
    using D l st tm core_ticket(4) [OF c x] by (auto simp: core_def S placed_def)
qed

text \<open>A write into the first \<open>j\<close> blocks of a ticket.\<close>

lemma write_own_blocks:
  assumes n: "0 < n" "length m = 128 * n" and p: "rc \<le> p" "p + k < rs + n" "rs \<le> rc" and j: "p mod n + j \<le> n" "j \<le> k"
    and a: "128 * (p mod n) \<le> a" "a + length bs \<le> 128 * (p mod n + j)" and q: "rc \<le> q" "q < rs + n" "\<not> (p \<le> q \<and> q < p + k)"
  shows "same_block m (wr a bs m) (q mod n)"
proof (rule wr_other_block [OF a])
  have qn: "q mod n < n" using n(1) by simp
  then show "128 * (q mod n) + 128 \<le> length m" using n(2) by linarith
  have "128 * (p mod n + j) \<le> 128 * n" using j(1) by (rule mult_le_mono2)
  then show "a + length bs \<le> length m" using a(2) n(2) by linarith
  show "q mod n < p mod n \<or> p mod n + j \<le> q mod n"
  proof (rule ccontr)
    assume "\<not> (q mod n < p mod n \<or> p mod n + j \<le> q mod n)"
    then obtain i where i: "q mod n = p mod n + i" "i < j" by (metis le_add_diff_inverse nat_add_left_cancel_less not_le)
    then have e: "(p + i) mod n = q mod n" using j(1) by (metis less_le_trans mod_add_left_eq mod_less nat_add_left_cancel_less)
    have "p + i \<noteq> q" using q i(2) j(2) by linarith
    then consider "p + i < q" | "q < p + i" by linarith
    then show False
    proof cases
      case 1
      then show False using mod_neq [of "p + i" q n] e p q by simp
    next
      case 2
      then show False using mod_neq [of q "p + i" n] e p q i(2) j(2) by simp
    qed
  qed
qed

section \<open>The writes of the threads\<close>

lemma write_behind_head:
  assumes "128 * b + 4 \<le> a" "a + length bs \<le> length m" "128 * b + 128 \<le> length m"
  shows "stat (wr a bs m) b = stat m b" "bnum (wr a bs m) b = bnum m b"
    "128 * b + 8 \<le> a \<Longrightarrow> bsize (wr a bs m) b = bsize m b"
proof -
  show "stat (wr a bs m) b = stat m b" using assms by (simp add: stat_def nth_wr)
  have "rd (128 * b) 4 (wr a bs m) = rd (128 * b) 4 m" using assms by (intro rd_wr_other) simp_all
  then show "bnum (wr a bs m) b = bnum m b" by (simp add: bnum_def rd32_def)
  assume "128 * b + 8 \<le> a"
  then have "rd (128 * b + 4) 4 (wr a bs m) = rd (128 * b + 4) 4 m" using assms by (intro rd_wr_other) simp_all
  then show "bsize (wr a bs m) b = bsize m b" by (simp add: bsize_def rd32_def)
qed

lemma block_in_memory: "0 < n \<Longrightarrow> length m = 128 * n \<Longrightarrow> 128 * (p mod n) + 128 \<le> length m"
proof -
  assume a: "0 < n" "length m = 128 * n"
  then have "p mod n < n" by simp
  then show ?thesis using a(2) by linarith
qed

lemma core_write:
  assumes c: "core n rs rc w ts m" and x: "Tk p k t s \<in> set ts" and st: "st \<noteq> T_pending" "p + k < rs + n"
    and j: "p mod n + j \<le> n" "j \<le> k" and a: "128 * (p mod n) \<le> a" "a + length bs \<le> 128 * (p mod n + j)"
    and tm: "ticket_mem n (wr a bs m) p k st"
  shows "core n rs rc w (set_st p st ts) (wr a bs m)"
proof -
  note D = coreD [OF c]
  have "128 * (p mod n + j) \<le> 128 * n" using j(1) by (rule mult_le_mono2)
  then have "a + length bs \<le> length m" using a(2) D(3) by linarith
  then show ?thesis
    using core_modify [OF c x st _ write_own_blocks [OF D(1,3) core_ticket(1) [OF c x] st(2) D(4) j a] tm] by simp
qed

lemma core_write_head:
  assumes c: "core n rs rc w ts m" and x: "Tk p k t s \<in> set ts" and st: "st \<noteq> T_pending" "p + k < rs + n"
    and a: "128 * (p mod n) \<le> a" "a + length bs \<le> 128 * (p mod n) + 128" and tm: "ticket_mem n (wr a bs m) p k st"
  shows "core n rs rc w (set_st p st ts) (wr a bs m)"
proof (rule core_write [OF c x st _ _ a(1) _ tm, of 1])
  show "p mod n + 1 \<le> n" using coreD(1) [OF c] by (simp add: Suc_leI)
  show "1 \<le> k" using core_ticket(3) [OF c x] by simp
qed (use a in auto)

lemma core_place:
  assumes c: "core n rs rc w ts m" and x: "Tk p k t T_pending \<in> set ts" and b: "p + k < rs + n"
  shows "core n rs rc w (set_st p T_headed ts) (wr32 (128 * (p mod n)) (of_nat k) m)"
proof -
  note bl = block_in_memory [OF coreD(1,3) [OF c], of p]
  have "ticket_mem n (wr (128 * (p mod n)) (le_bytes 4 (of_nat k :: u32)) m) p k T_headed"
    using set_num [OF bl core_ticket(4) [OF c x]] by (simp add: wr32_def)
  then show ?thesis unfolding wr32_def by (intro core_write_head [OF c x _ b]) simp_all
qed

lemma core_mark:
  assumes c: "core n rs rc w ts m" and x: "Tk p k t T_headed \<in> set ts"
  shows "core n rs rc w (set_st p T_skip ts) (wr (128 * (p mod n) + 3) [2] m)"
proof -
  note bl = block_in_memory [OF coreD(1,3) [OF c], of p]
  have "ticket_mem n (wr (128 * (p mod n) + 3) [2] m) p k T_skip"
    using set_stat [OF bl] core_ticket(5) [OF c x] by simp
  then show ?thesis using core_ticket(6) [OF c x] by (intro core_write_head [OF c x]) simp_all
qed

lemma core_finish:
  assumes c: "core n rs rc w ts m" and x: "Tk p k t T_headed \<in> set ts" and s: "p mod n + k \<le> n" "unat sz + 8 \<le> 128 * k"
  shows "core n rs rc w (set_st p (T_granted sz) ts) (wr32 (128 * (p mod n) + 4) sz m)"
proof -
  let ?b = "p mod n"
  note bl = block_in_memory [OF coreD(1,3) [OF c], of p]
  have "bsize (wr32 (128 * ?b + 4) sz m) ?b = sz" using bl by (simp add: bsize_def rd32_wr32_same)
  then have "ticket_mem n (wr (128 * ?b + 4) (le_bytes 4 sz) m) p k (T_granted sz)"
    using write_behind_head(1,2) [of ?b "128 * ?b + 4" "le_bytes 4 sz" m] bl core_ticket(5) [OF c x] s by (simp add: wr32_def)
  then show ?thesis unfolding wr32_def using core_ticket(6) [OF c x] by (intro core_write_head [OF c x]) simp_all
qed

lemma core_fill:
  assumes c: "core n rs rc w ts m" and x: "Tk p k t (T_granted sz) \<in> set ts" and l: "length bs = unat sz"
  shows "core n rs rc w (set_st p (T_filled bs) ts) (wr (128 * (p mod n) + 8) bs m)"
proof -
  let ?b = "p mod n"
  note D = coreD [OF c] and bl = block_in_memory [OF coreD(1,3) [OF c], of p] and T = core_ticket(5) [OF c x]
  have w: "?b + k \<le> n" and len: "length bs + 8 \<le> 128 * k" using T l by simp_all
  have "128 * (?b + k) \<le> 128 * n" using w by (rule mult_le_mono2)
  then have e: "128 * ?b + 8 + length bs \<le> length m" using len D(3) by simp
  have "ticket_mem n (wr (128 * ?b + 8) bs m) p k (T_filled bs)"
    using write_behind_head [of ?b "128 * ?b + 8" bs m] bl e T len l rd_wr_same [OF e] by simp
  then show ?thesis using core_ticket(6) [OF c x] w len by (intro core_write [OF c x, of _ k]) simp_all
qed

lemma core_commit:
  assumes c: "core n rs rc w ts m" and x: "Tk p k t (T_filled d) \<in> set ts"
  shows "core n rs rc w (set_st p (T_ready d) ts) (wr (128 * (p mod n) + 3) [1] m)"
proof -
  let ?b = "p mod n"
  note bl = block_in_memory [OF coreD(1,3) [OF c], of p] and T = core_ticket(5) [OF c x]
  have "128 * (?b + k) \<le> 128 * n" using T by (intro mult_le_mono2) simp
  then have e: "128 * ?b + 8 + length d \<le> length m" using T coreD(3) [OF c] by simp
  then have "rd (128 * ?b + 8) (length d) (wr (128 * ?b + 3) [1] m) = rd (128 * ?b + 8) (length d) m"
    using bl by (intro rd_wr_other) simp_all
  then have "ticket_mem n (wr (128 * ?b + 3) [1] m) p k (T_ready d)" using set_stat [OF bl] T by simp
  then show ?thesis using core_ticket(6) [OF c x] by (intro core_write_head [OF c x]) simp_all
qed

section \<open>The reader\<close>

lemma core_head:
  assumes c: "core n rs rc w ts m"
  shows "case ts of [] \<Rightarrow> rc = w \<and> stat m (rc mod n) = 0
    | x # xs \<Rightarrow> tk_pos x = rc \<and> stat m (rc mod n) = (case tk_st x of T_ready d \<Rightarrow> 1 | T_skip \<Rightarrow> 2 | _ \<Rightarrow> 0)"
proof (cases ts)
  case Nil
  then show ?thesis using c core_free [OF c, of rc] by (auto simp: core_def covered_def)
next
  case (Cons x xs)
  obtain k t st where x: "x = Tk rc k t st" using coreD(6) [OF c] Cons by (cases x) auto
  have i: "Tk rc k t st \<in> set ts" using Cons x by simp
  have "stat m (rc mod n) = 0" if "st = T_pending"
  proof (rule core_free [OF c])
    show "\<not> covered ts rc"
    proof
      assume "covered ts rc"
      then obtain y where y: "y \<in> set ts" "placed y" "tk_pos y \<le> rc" "rc < tk_pos y + tk_len y" by (auto simp: covered_def)
      then have "tk_pos y = rc" using tiles_bounds [OF coreD(6) [OF c] y(1)] by simp
      then have "y = Tk rc k t st" using tiles_same_pos [OF coreD(6) [OF c] y(1) i] by simp
      then show False using y(2) that by (simp add: placed_def)
    qed
  qed (use coreD(5) [OF c] in auto)
  then show ?thesis using core_ticket(5) [OF c i] Cons x by (cases st) auto
qed

lemma core_drop_head:
  assumes c: "core n rs rc w (x # xs) m" and x: "placed x" and m: "length m' = length m"
    and o: "\<And>q. rc + tk_len x \<le> q \<Longrightarrow> q < rs + n \<Longrightarrow> same_block m m' (q mod n)"
  shows "core n rs (rc + tk_len x) w xs m'"
proof -
  note D = coreD [OF c]
  have p: "tk_pos x = rc" "tk_pos x + tk_len x < rs + n" using c x by (auto simp: core_def)
  have t: "tiles (rc + tk_len x) xs w" using D(6) by simp
  have "ticket_mem n m' (tk_pos y) (tk_len y) (tk_st y)" if y: "y \<in> set xs" for y
  proof (cases "placed y")
    case True
    have mm: "ticket_mem n m (tk_pos y) (tk_len y) (tk_st y)" and e: "tk_pos y + tk_len y < rs + n" using c y True by (auto simp: core_def)
    note b = tiles_bounds [OF t y]
    have "same_block m m' ((tk_pos y + i) mod n)" if "i < tk_len y" for i using o [of "tk_pos y + i"] b e that by simp
    then show ?thesis using ticket_mem_cong [OF mm] D(1,3) m b by simp
  qed (simp add: placed_def)
  moreover have "stat m' (q mod n) = 0" if q: "rc + tk_len x \<le> q" "q < rs + n" "\<not> covered xs q" for q
  proof -
    have "\<not> covered (x # xs) q" using q p by (auto simp: covered_def)
    then show ?thesis using core_free [OF c _ q(2)] q(1) stat_cong [OF o [OF q(1,2)]] by simp
  qed
  ultimately show ?thesis using c p m t by (auto simp: core_def)
qed


definition miso_ring :: "miso \<Rightarrow> nat \<Rightarrow> bool" where
  "miso_ring s n \<longleftrightarrow> m_blocks_count s = of_nat n \<and> pow2 n \<and> n \<le> 2 ^ 24"

lemma miso_block_eq: "miso_ring s n \<Longrightarrow> miso_block s (of_nat p) = p mod n"
  by (simp add: miso_ring_def miso_block_def of_nat_and_mask)

lemma clear_statuses_frame: "clear_statuses k i s = s\<lparr>m_blocks := m_blocks (clear_statuses k i s)\<rparr>"
proof (induction k arbitrary: i s)
  case (Suc k)
  show ?case using Suc [of "i + 1" "set_status (miso_block s i) st_unused s"] by (simp add: set_status_def)
qed simp

lemma clear_statuses_spec:
  assumes "miso_ring s n" "length (m_blocks s) = 128 * n" "k \<le> n"
  shows "length (m_blocks (clear_statuses k (of_nat p) s)) = 128 * n"
    and "\<And>q. p \<le> q \<Longrightarrow> q < p + k \<Longrightarrow> stat (m_blocks (clear_statuses k (of_nat p) s)) (q mod n) = 0"
    and "\<And>q. p + k \<le> q \<Longrightarrow> q < p + n \<Longrightarrow> same_block (m_blocks s) (m_blocks (clear_statuses k (of_nat p) s)) (q mod n)"
proof -
  have "length (m_blocks (clear_statuses k (of_nat p) s)) = 128 * n
    \<and> (\<forall>q. p \<le> q \<longrightarrow> q < p + k \<longrightarrow> stat (m_blocks (clear_statuses k (of_nat p) s)) (q mod n) = 0)
    \<and> (\<forall>q. p + k \<le> q \<longrightarrow> q < p + n \<longrightarrow> same_block (m_blocks s) (m_blocks (clear_statuses k (of_nat p) s)) (q mod n))" (is "?L k p s \<and> ?C k p s \<and> ?O k p s")
    using assms
  proof (induction k arbitrary: p s)
    case (Suc k)
    have n: "0 < n" using Suc.prems by (simp add: miso_ring_def pow2_pos)
    note bl = block_in_memory [OF n Suc.prems(2), of p]
    let ?s = "set_status (p mod n) st_unused s"
    have m: "m_blocks ?s = wr (128 * (p mod n) + 3) [0] (m_blocks s)" by (simp add: set_status_def st_unused_def cache_line_size_def)
    have R: "miso_ring ?s n" "length (m_blocks ?s) = 128 * n" using Suc.prems bl by (auto simp: m) (simp add: miso_ring_def set_status_def)
    have e: "clear_statuses (Suc k) (of_nat p) s = clear_statuses k (of_nat (p + 1)) ?s"
      using miso_block_eq [OF Suc.prems(1), of p] by (simp add: add.commute)
    have IH: "?L k (p + 1) ?s" "?C k (p + 1) ?s" "?O k (p + 1) ?s" using Suc.IH [OF R, of "p + 1"] Suc.prems(3) by auto
    have step: "same_block (m_blocks s) (m_blocks ?s) (q mod n)" if q: "p < q" "q < p + n" for q
      unfolding m
    proof (rule wr_other_block [where b = "p mod n" and k = 1])
      show "q mod n < p mod n \<or> p mod n + 1 \<le> q mod n" using mod_neq [OF q] by linarith
    qed (use bl block_in_memory [OF n Suc.prems(2), of q] in auto)
    have "?C (Suc k) p s"
    proof (intro allI impI)
      fix q assume q: "p \<le> q" "q < p + Suc k"
      show "stat (m_blocks (clear_statuses (Suc k) (of_nat p) s)) (q mod n) = 0"
      proof (cases "q = p")
        case False
        then show ?thesis unfolding e using q IH(2) by simp
      next
        case True
        have "same_block (m_blocks ?s) (m_blocks (clear_statuses k (of_nat (p + 1)) ?s)) ((p + n) mod n)"
          using IH(3) Suc.prems(3) by (intro IH(3) [rule_format]) auto
        moreover have "stat (m_blocks ?s) (p mod n) = 0" using set_stat(1) [OF bl] by (simp add: m)
        ultimately show ?thesis unfolding e True using stat_cong by fastforce
      qed
    qed
    moreover have "?O (Suc k) p s"
    proof (intro allI impI)
      fix q assume q: "p + Suc k \<le> q" "q < p + n"
      then have "same_block (m_blocks ?s) (m_blocks (clear_statuses k (of_nat (p + 1)) ?s)) (q mod n)" by (intro IH(3) [rule_format]) auto
      then show "same_block (m_blocks s) (m_blocks (clear_statuses (Suc k) (of_nat p) s)) (q mod n)"
        unfolding e using same_block_trans [OF step] q by simp
    qed
    ultimately show ?case using IH(1) e by simp
  qed simp
  then show "length (m_blocks (clear_statuses k (of_nat p) s)) = 128 * n"
    and "\<And>q. p \<le> q \<Longrightarrow> q < p + k \<Longrightarrow> stat (m_blocks (clear_statuses k (of_nat p) s)) (q mod n) = 0"
    and "\<And>q. p + k \<le> q \<Longrightarrow> q < p + n \<Longrightarrow> same_block (m_blocks s) (m_blocks (clear_statuses k (of_nat p) s)) (q mod n)" by auto
qed

lemma core_flush:
  assumes c: "core n rs rc w ts (m_blocks s)" and r: "miso_ring s n"
  shows "core n rc rc w ts (m_blocks (clear_statuses (rc - rs) (of_nat rs) s))"
proof -
  note D = coreD [OF c]
  let ?m' = "m_blocks (clear_statuses (rc - rs) (of_nat rs) s)"
  have k: "rc - rs \<le> n" "rs + (rc - rs) = rc" using D by linarith+
  note C = clear_statuses_spec [OF r D(3) k(1), of rs, unfolded k(2)]
  have "ticket_mem n ?m' (tk_pos y) (tk_len y) (tk_st y)" if y: "y \<in> set ts" for y
  proof (cases "placed y")
    case True
    have mm: "ticket_mem n (m_blocks s) (tk_pos y) (tk_len y) (tk_st y)" and e: "tk_pos y + tk_len y < rs + n" using c y True by (auto simp: core_def)
    note b = tiles_bounds [OF D(6) y]
    have "same_block (m_blocks s) ?m' ((tk_pos y + i) mod n)" if "i < tk_len y" for i using C(3) [of "tk_pos y + i"] b e that by simp
    then show ?thesis using ticket_mem_cong [OF mm] D(1,3) C(1) b by simp
  qed (simp add: placed_def)
  moreover have "stat ?m' (q mod n) = 0" if q: "rc \<le> q" "q < rc + n" "\<not> covered ts q" for q
  proof (cases "q < rs + n")
    case True
    then show ?thesis using core_free [OF c q(1) True q(3)] stat_cong [OF C(3) [OF q(1) True]] by simp
  next
    case False
    then have "stat ?m' ((q - n) mod n) = 0" using q(2) by (intro C(2)) auto
    moreover have "(q - n) mod n = q mod n" using False by (simp add: le_mod_geq)
    ultimately show ?thesis by simp
  qed
  ultimately show ?thesis using c D C(1) by (auto simp: core_def)
qed

end
