(* ===== verification/Miso_System.thy ===== *)
theory Miso_System
  imports Miso_Tickets "HOL-Library.Multiset" "HOL-Library.Sublist"
begin

text \<open>
  Any number of writing threads and one reading thread on a \<open>miso_ring_buffer\<close>. Every access of a shared word is a step of its
  own, so the steps of the threads interleave in any order; the loads and stores are sequentially consistent here. The unbounded
  counters \<open>total_written\<close>, \<open>total_read\<close> and \<open>seen\<close> (what \<open>total_read\<close> was when the thread last loaded the read cursor) only
  serve to state the limit of the 32-bit cursors, which is no part of \<open>miso_step\<close>: \<open>miso_reachable\<close> follows the executions in which a thread
  that takes blocks sees fewer than \<open>2 ^ 32\<close> blocks (512 GB) handed out since it loaded the read cursor (\<open>in_time\<close>). In the other
  executions \<open>cur - ref\<close> wraps in \<open>miso_ring_buffer.cpp\<close>, and the code may hand out blocks that are in use. \<open>committed\<close> lists the commits with their threads, \<open>taken\<close> the data the reader has returned.
\<close>

section \<open>Steps\<close>

datatype miso_pc =
    P_idle
  | P_check alloc_local
  | P_take alloc_local
  | P_over alloc_local
  | P_give_back alloc_local
  | P_place alloc_local
  | P_mark alloc_local
  | P_finish alloc_local
  | P_granted write_handle u32
  | P_filled write_handle "u8 list"

datatype miso_reader = MR_idle | MR_holding read_handle

record miso_sys =
  shared :: miso
  pc :: "nat \<Rightarrow> miso_pc"
  cached :: "nat \<Rightarrow> u32 option"
  holding :: miso_reader
  committed :: "(nat \<times> u8 list) list"
  taken :: "u8 list list"
  total_written :: nat
  total_read :: nat
  seen :: "nat \<Rightarrow> nat"

definition goto :: "nat \<Rightarrow> miso_pc \<Rightarrow> miso_sys \<Rightarrow> miso_sys" where
  "goto t p S = S\<lparr>pc := (pc S)(t := p)\<rparr>"

text \<open>The thread has loaded the read cursor again if its copy changed.\<close>

definition refer :: "nat \<Rightarrow> u32 option \<Rightarrow> u32 \<Rightarrow> miso_sys \<Rightarrow> miso_sys" where
  "refer t old new S = (if old = Some new then S else S\<lparr>seen := (seen S)(t := total_read S)\<rparr>)"

definition leave :: "nat \<Rightarrow> miso_pc \<Rightarrow> alloc_local \<Rightarrow> miso_sys \<Rightarrow> miso_sys" where
  "leave t p l S = goto t p (S\<lparr>cached := (cached S)(t := Some (l_ref l))\<rparr>)"

inductive miso_step :: "miso_sys \<Rightarrow> miso_sys \<Rightarrow> bool" where
  begin_alloc: "pc S t = P_idle \<Longrightarrow> c = cached S t \<or> c = None \<Longrightarrow> unat sz + 8 < 2 ^ 32 \<Longrightarrow> \<not> bad_need (miso_need sz) (shared S) \<Longrightarrow>
    l = alloc_begin sz c (shared S) \<Longrightarrow> miso_step S (goto t (P_check l) (refer t c (l_ref l) S))"
| check: "pc S t = P_check l \<Longrightarrow> check_space l (shared S) = (ok, l') \<Longrightarrow>
    miso_step S (if ok then goto t (P_take l') (refer t (Some (l_ref l)) (l_ref l') S)
      else leave t P_idle l' (refer t (Some (l_ref l)) (l_ref l') S))"
| take: "pc S t = P_take l \<Longrightarrow> take_blocks l (shared S) = (l', b) \<Longrightarrow>
    miso_step S (goto t (if over l' b then P_over l' else P_place l')
      (S\<lparr>shared := b, total_written := total_written S + unat (l_need l)\<rparr>))"
| look_again: "pc S t = P_over l \<Longrightarrow> l' = reload l (shared S) \<Longrightarrow>
    miso_step S (goto t (if over l' (shared S) then P_give_back l' else P_place l') (refer t (Some (l_ref l)) (l_ref l') S))"
| give_back: "pc S t = P_give_back l \<Longrightarrow> give_back l (shared S) = (given, b) \<Longrightarrow>
    miso_step S (if given then leave t P_idle l (S\<lparr>shared := b, total_written := total_written S - unat (l_need l)\<rparr>)
      else goto t (P_over l) S)"
| place: "pc S t = P_place l \<Longrightarrow> b = place_head l (shared S) \<Longrightarrow>
    miso_step S (goto t (if not_contiguous l b then P_mark l else P_finish l) (S\<lparr>shared := b\<rparr>))"
| mark: "pc S t = P_mark l \<Longrightarrow> miso_step S (goto t (P_check l) (S\<lparr>shared := mark_invalid l (shared S)\<rparr>))"
| finish: "pc S t = P_finish l \<Longrightarrow> finish_alloc l (shared S) = (h, l', b) \<Longrightarrow>
    miso_step S (leave t (P_granted h (l_size l)) l' (refer t (Some (l_ref l)) (l_ref l') (S\<lparr>shared := b\<rparr>)))"
| fill: "pc S t = P_granted h sz \<Longrightarrow> length bs = unat sz \<Longrightarrow>
    miso_step S (goto t (P_filled h bs) (S\<lparr>shared := miso_fill_chunk h bs (shared S)\<rparr>))"
| commit: "pc S t = P_filled h bs \<Longrightarrow>
    miso_step S (goto t P_idle (S\<lparr>shared := miso_commit_write_chunk h (shared S), committed := committed S @ [(t, bs)]\<rparr>))"
| skip: "holding S = MR_idle \<Longrightarrow> block_status (shared S) (miso_block (shared S) (read_cursor_cache (shared S))) = st_invalid \<Longrightarrow>
    miso_step S (S\<lparr>shared := skip_invalid (shared S)\<rparr>)"
| read: "holding S = MR_idle \<Longrightarrow> block_status (shared S) (miso_block (shared S) (read_cursor_cache (shared S))) \<noteq> st_invalid \<Longrightarrow>
    miso_read_chunk (shared S) = Some (h, b) \<Longrightarrow> miso_step S (S\<lparr>shared := b, holding := MR_holding h\<rparr>)"
| return: "holding S = MR_holding h \<Longrightarrow> b = miso_return_read_chunk h (shared S) \<Longrightarrow>
    miso_step S (S\<lparr>shared := b, holding := MR_idle, total_read := total_read S + unat (read_cursor b - read_cursor (shared S)),
      taken := taken S @ (if rh_result h = Success then [miso_chunk_data h (shared S)] else [])\<rparr>)"
| return_empty: "holding S = MR_idle \<Longrightarrow> rh_result h = Err_empty_log_buffer \<Longrightarrow> b = miso_return_read_chunk h (shared S) \<Longrightarrow>
    miso_step S (S\<lparr>shared := b, total_read := total_read S + unat (read_cursor b - read_cursor (shared S))\<rparr>)"
| discard: "holding S = MR_holding h \<Longrightarrow> miso_step S (S\<lparr>holding := MR_holding (miso_discard_read_chunk h)\<rparr>)"
| drop: "holding S = MR_holding h \<Longrightarrow> rh_result h = Err_empty_log_buffer \<Longrightarrow> miso_step S (S\<lparr>holding := MR_idle\<rparr>)"

definition miso_start :: "miso \<Rightarrow> miso_sys" where
  "miso_start s = \<lparr>shared = s, pc = (\<lambda>_. P_idle), cached = (\<lambda>_. None), holding = MR_idle, committed = [], taken = [],
     total_written = 0, total_read = 0, seen = (\<lambda>_. 0)\<rparr>"

text \<open>The blocks fit the rounded size, which \<open>roundup_pow_of_two\<close> leaves zero beyond \<open>2 ^ 31\<close>.\<close>

definition miso_usable :: "u32 \<Rightarrow> miso \<Rightarrow> bool" where
  "miso_usable default_buffer_size s \<longleftrightarrow> length (m_blocks s) = cache_line_size * unat (miso_blocks_count default_buffer_size)"

text \<open>The cursors have not wrapped around since a thread that takes blocks loaded the read cursor.\<close>

definition in_time :: "miso_sys \<Rightarrow> miso_sys \<Rightarrow> bool" where
  "in_time S T \<longleftrightarrow> (\<forall>t l. pc S t = P_take l \<longrightarrow> pc T t \<noteq> P_take l \<longrightarrow> total_written S + unat (l_need l) - seen S t < 2 ^ 32)"

inductive miso_reachable :: "u32 \<Rightarrow> miso_sys \<Rightarrow> bool" for default_buffer_size where
  start: "miso_usable default_buffer_size s \<Longrightarrow> mr = Mmap_failed \<or> mr = Mmap_new_created \<Longrightarrow>
    miso_ring_buffer default_buffer_size check_sum mr s = Some s' \<Longrightarrow> miso_reachable default_buffer_size (miso_start s')"
| step: "miso_reachable default_buffer_size S \<Longrightarrow> miso_step S T \<Longrightarrow> in_time S T \<Longrightarrow> miso_reachable default_buffer_size T"

section \<open>The invariant\<close>

fun finished :: "tk_state \<Rightarrow> bool" where
  "finished (T_ready d) \<longleftrightarrow> True"
| "finished T_skip \<longleftrightarrow> True"
| "finished st \<longleftrightarrow> False"

definition mine_done :: "nat \<Rightarrow> ticket list \<Rightarrow> bool" where
  "mine_done t ts \<longleftrightarrow> (\<forall>x\<in>set ts. tk_own x = t \<longrightarrow> finished (tk_st x))"

definition mine_live :: "nat \<Rightarrow> ticket list \<Rightarrow> nat \<Rightarrow> nat \<Rightarrow> tk_state \<Rightarrow> bool" where
  "mine_live t ts p k st \<longleftrightarrow> Tk p k t st \<in> set ts \<and> (\<forall>y\<in>set ts. tk_own y = t \<longrightarrow> y = Tk p k t st \<or> finished (tk_st y) \<and> tk_pos y < p)"

definition local_ok :: "nat \<Rightarrow> alloc_local \<Rightarrow> nat \<Rightarrow> bool" where
  "local_ok n l \<sigma> \<longleftrightarrow> l_ref l = of_nat \<sigma> \<and> 0 < unat (l_need l) \<and> unat (l_need l) < 2 ^ 24 \<and> unat (l_need l) \<le> n
     \<and> unat (l_size l) + 8 \<le> 128 * unat (l_need l)"

definition handle_ok :: "nat \<Rightarrow> nat \<Rightarrow> write_handle \<Rightarrow> bool" where
  "handle_ok n p h \<longleftrightarrow> wh_result h = Success \<and> wh_addr h = Some (128 * (p mod n) + 8)"

fun thread_ok :: "nat \<Rightarrow> nat \<Rightarrow> ticket list \<Rightarrow> nat \<Rightarrow> nat \<Rightarrow> miso_pc \<Rightarrow> bool" where
  "thread_ok n rs ts t \<sigma> P_idle \<longleftrightarrow> mine_done t ts"
| "thread_ok n rs ts t \<sigma> (P_check l) \<longleftrightarrow> local_ok n l \<sigma> \<and> mine_done t ts"
| "thread_ok n rs ts t \<sigma> (P_take l) \<longleftrightarrow> local_ok n l \<sigma> \<and> mine_done t ts"
| "thread_ok n rs ts t \<sigma> (P_over l) \<longleftrightarrow> local_ok n l \<sigma> \<and> (\<exists>p. l_cur l = of_nat p \<and> mine_live t ts p (unat (l_need l)) T_pending)"
| "thread_ok n rs ts t \<sigma> (P_give_back l) \<longleftrightarrow> local_ok n l \<sigma> \<and> (\<exists>p. l_cur l = of_nat p \<and> mine_live t ts p (unat (l_need l)) T_pending)"
| "thread_ok n rs ts t \<sigma> (P_place l) \<longleftrightarrow> local_ok n l \<sigma>
     \<and> (\<exists>p. l_cur l = of_nat p \<and> mine_live t ts p (unat (l_need l)) T_pending \<and> p + unat (l_need l) < rs + n)"
| "thread_ok n rs ts t \<sigma> (P_mark l) \<longleftrightarrow> local_ok n l \<sigma> \<and> (\<exists>p. l_cur l = of_nat p \<and> mine_live t ts p (unat (l_need l)) T_headed)"
| "thread_ok n rs ts t \<sigma> (P_finish l) \<longleftrightarrow> local_ok n l \<sigma>
     \<and> (\<exists>p. l_cur l = of_nat p \<and> mine_live t ts p (unat (l_need l)) T_headed \<and> p mod n + unat (l_need l) \<le> n)"
| "thread_ok n rs ts t \<sigma> (P_granted h sz) \<longleftrightarrow> (\<exists>p k. mine_live t ts p k (T_granted sz) \<and> handle_ok n p h)"
| "thread_ok n rs ts t \<sigma> (P_filled h d) \<longleftrightarrow> (\<exists>p k. mine_live t ts p k (T_filled d) \<and> handle_ok n p h)"

fun uses_cache :: "miso_pc \<Rightarrow> bool" where
  "uses_cache P_idle \<longleftrightarrow> True"
| "uses_cache (P_granted h sz) \<longleftrightarrow> True"
| "uses_cache (P_filled h d) \<longleftrightarrow> True"
| "uses_cache p \<longleftrightarrow> False"

definition threads_ok :: "nat \<Rightarrow> ticket list \<Rightarrow> miso_sys \<Rightarrow> bool" where
  "threads_ok n ts S \<longleftrightarrow> (\<forall>t. seen S t \<le> total_read S \<and> thread_ok n (total_read S) ts t (seen S t) (pc S t)
     \<and> (uses_cache (pc S t) \<longrightarrow> cached S t = None \<or> cached S t = Some (of_nat (seen S t))))"

definition memory_ok :: "nat \<Rightarrow> nat \<Rightarrow> ticket list \<Rightarrow> miso_sys \<Rightarrow> bool" where
  "memory_ok n rc ts S \<longleftrightarrow> miso_ring (shared S) n \<and> core n (total_read S) rc (total_written S) ts (m_blocks (shared S))
     \<and> write_cursor (shared S) = of_nat (total_written S) \<and> read_cursor (shared S) = of_nat (total_read S)
     \<and> read_cursor_start_cache (shared S) = of_nat (total_read S) \<and> read_cursor_cache (shared S) = of_nat rc"

definition readys :: "ticket list \<Rightarrow> (nat \<times> u8 list) list" where
  "readys ts = concat (List.map (\<lambda>x. case tk_st x of T_ready d \<Rightarrow> [(tk_own x, d)] | _ \<Rightarrow> []) ts)"

definition of_thread :: "nat \<Rightarrow> (nat \<times> 'a) list \<Rightarrow> (nat \<times> 'a) list" where
  "of_thread t es = List.filter (\<lambda>e. fst e = t) es"

definition history_ok :: "ticket list \<Rightarrow> miso_sys \<Rightarrow> bool" where
  "history_ok ts S \<longleftrightarrow> (\<exists>tagged. List.map snd tagged = taken S \<and> (\<forall>t. of_thread t (committed S) = of_thread t (tagged @ readys ts)))"

fun reader_ok :: "nat \<Rightarrow> nat \<Rightarrow> ticket list \<Rightarrow> miso_reader \<Rightarrow> bool" where
  "reader_ok n rc ts MR_idle \<longleftrightarrow> True"
| "reader_ok n rc ts (MR_holding h) \<longleftrightarrow> rh_result h = Err_empty_log_buffer
     \<or> (\<exists>x xs d. ts = x # xs \<and> tk_st x = T_ready d
          \<and> h = \<lparr>rh_addr = Some (128 * (rc mod n) + 8), rh_result = Success, rh_size = of_nat (length d)\<rparr>)"

definition miso_inv :: "nat \<Rightarrow> nat \<Rightarrow> ticket list \<Rightarrow> miso_sys \<Rightarrow> bool" where
  "miso_inv n rc ts S \<longleftrightarrow> memory_ok n rc ts S \<and> threads_ok n ts S \<and> reader_ok n rc ts (holding S) \<and> history_ok ts S"

lemma of_thread_append [simp]: "of_thread t (xs @ ys) = of_thread t xs @ of_thread t ys"
  by (simp add: of_thread_def)

lemma readys_simps [simp]:
  "readys [] = []" "readys (x # xs) = (case tk_st x of T_ready d \<Rightarrow> [(tk_own x, d)] | _ \<Rightarrow> []) @ readys xs" "readys (xs @ ys) = readys xs @ readys ys"
  by (simp_all add: readys_def)

lemma set_st_simps [simp]:
  "set_st p st [] = []" "set_st p st (x # xs) = (if tk_pos x = p then Tk (tk_pos x) (tk_len x) (tk_own x) st else x) # set_st p st xs"
  by (simp_all add: set_st_def)

lemma set_st_other: "(\<And>x. x \<in> set ts \<Longrightarrow> tk_pos x \<noteq> p) \<Longrightarrow> set_st p st ts = ts"
  by (induction ts) auto

lemma readys_set_st:
  assumes "tiles a ts w" "Tk p k t s \<in> set ts" "\<not> finished s" "\<And>d. st \<noteq> T_ready d"
  shows "readys (set_st p st ts) = readys ts"
  using assms
proof (induction ts arbitrary: a)
  case (Cons x ts)
  show ?case
  proof (cases "tk_pos x = p")
    case True
    then have "x = Tk p k t s" using tiles_same_pos [OF Cons.prems(1) _ Cons.prems(2), of x] by simp
    moreover have "set_st p st ts = ts"
    proof (rule set_st_other)
      show "tk_pos y \<noteq> p" if "y \<in> set ts" for y
        using tiles_bounds [of "a + tk_len x" ts w y] that Cons.prems(1) True by auto
    qed
    ultimately show ?thesis using Cons.prems(3,4) by (cases s; cases st) auto
  next
    case False
    then show ?thesis using Cons by auto
  qed
qed simp

lemma readys_commit:
  assumes "tiles a ts w" "Tk p k t s \<in> set ts" "\<not> finished s" "\<And>y. y \<in> set ts \<Longrightarrow> tk_own y = t \<Longrightarrow> tk_pos y \<le> p"
  shows "of_thread t' (readys (set_st p (T_ready d) ts)) = of_thread t' (readys ts) @ (if t' = t then [(t, d)] else [])"
  using assms
proof (induction ts arbitrary: a)
  case (Cons x ts)
  show ?case
  proof (cases "tk_pos x = p")
    case True
    have x: "x = Tk p k t s" using tiles_same_pos [OF Cons.prems(1) _ Cons.prems(2), of x] True by simp
    have later: "tk_pos y > p" if "y \<in> set ts" for y
      using tiles_bounds [of "a + tk_len x" ts w y] that Cons.prems(1) True by auto
    then have "set_st p (T_ready d) ts = ts" by (intro set_st_other) auto
    moreover have "tk_own y \<noteq> t" if "y \<in> set ts" for y using later [OF that] Cons.prems(4) [of y] that by auto
    then have "of_thread t (readys ts) = []" unfolding of_thread_def readys_def by (auto simp: filter_empty_conv split: tk_state.splits)
    ultimately show ?thesis using Cons.prems(3) x by (cases s) (auto simp: of_thread_def)
  next
    case False
    then show ?thesis using Cons by (auto split: tk_state.splits)
  qed
qed simp

section \<open>Other threads\<close>

lemma thread_ok_cong:
  assumes "thread_ok n rs ts t \<sigma> p" "\<And>x. tk_own x = t \<Longrightarrow> x \<in> set ts \<longleftrightarrow> x \<in> set ts'" "rs \<le> rs'"
  shows "thread_ok n rs' ts' t \<sigma> p"
proof -
  have d: "mine_done t ts' \<longleftrightarrow> mine_done t ts" unfolding mine_done_def using assms(2) by blast
  have l: "mine_live t ts' q k st \<longleftrightarrow> mine_live t ts q k st" for q k st unfolding mine_live_def using assms(2) by (metis ticket.sel(3))
  show ?thesis using assms(1,3) by (cases p) (auto simp: d l intro: less_le_trans)
qed

lemma thread_ok_drop:
  assumes "thread_ok n rs (x # xs) t \<sigma> p" "finished (tk_st x)"
  shows "thread_ok n rs xs t \<sigma> p"
proof -
  have d: "mine_done t (x # xs) \<Longrightarrow> mine_done t xs" by (simp add: mine_done_def)
  have l: "mine_live t (x # xs) q k st \<Longrightarrow> \<not> finished st \<Longrightarrow> mine_live t xs q k st" for q k st using assms(2) by (auto simp: mine_live_def)
  have l: "mine_live t xs q k st" if "mine_live t (x # xs) q k st" "st = T_pending \<or> st = T_headed \<or> st = T_granted sz \<or> st = T_filled e" for q k st sz e
    using l [OF that(1)] that(2) by auto
  show ?thesis using assms(1) d l by (cases p) fastforce+
qed

lemma set_st_own:
  assumes "tiles a ts w" "Tk p k t s \<in> set ts" "tk_own x \<noteq> t"
  shows "x \<in> set (set_st p st ts) \<longleftrightarrow> x \<in> set ts"
  using assms by (auto simp: set_set_st)

lemma mine_live_set:
  assumes "tiles a ts w" "mine_live t ts p k s"
  shows "mine_live t (set_st p st ts) p k st"
  using assms by (auto simp: mine_live_def set_set_st)

lemma mine_done_set:
  assumes "tiles a ts w" "mine_live t ts p k s" "finished st"
  shows "mine_done t (set_st p st ts)"
proof -
  have x: "Tk p k t s \<in> set ts" and o: "\<And>y. y \<in> set ts \<Longrightarrow> tk_own y = t \<Longrightarrow> y \<noteq> Tk p k t s \<Longrightarrow> finished (tk_st y)"
    using assms(2) by (auto simp: mine_live_def)
  show ?thesis unfolding mine_done_def set_set_st [OF assms(1) x] using o assms(3) by (metis DiffE insertE insertI1 ticket.sel(4))
qed

lemma mine_live_in: "mine_live t ts p k s \<Longrightarrow> Tk p k t s \<in> set ts"
  by (simp add: mine_live_def)

text \<open>A step of thread \<open>t\<close> that changes its own ticket, the blocks and its own place in the program.\<close>

lemma own_step:
  assumes i: "miso_inv n rc ts S" and l: "mine_live t ts p k s" "\<not> finished s"
    and c: "core n (total_read S) rc (total_written S) (set_st p st ts) m'"
    and ok: "thread_ok n (total_read S) (set_st p st ts) t \<sigma> q" "\<sigma> \<le> total_read S" "uses_cache q \<longrightarrow> c = None \<or> c = Some (of_nat \<sigma>)"
    and h: "(\<forall>d. st \<noteq> T_ready d) \<and> es = [] \<or> (\<exists>d. st = T_ready d \<and> es = [(t, d)])"
  shows "miso_inv n rc (set_st p st ts) (S\<lparr>shared := (shared S)\<lparr>m_blocks := m'\<rparr>, pc := (pc S)(t := q), cached := (cached S)(t := c),
    committed := committed S @ es, seen := (seen S)(t := \<sigma>)\<rparr>)" (is "miso_inv n rc ?ts ?S")
proof -
  have M: "memory_ok n rc ts S" and T: "threads_ok n ts S" and R: "reader_ok n rc ts (holding S)" and H: "history_ok ts S"
    using i by (auto simp: miso_inv_def)
  have tl: "tiles rc ts (total_written S)" using M coreD(6) by (auto simp: memory_ok_def)
  note x = mine_live_in [OF l(1)]
  have "memory_ok n rc ?ts ?S" using M c by (auto simp: memory_ok_def miso_ring_def)
  moreover have "threads_ok n ?ts ?S"
    unfolding threads_ok_def
  proof
    fix t'
    have o: "thread_ok n (total_read S) ts t' (seen S t') (pc S t')" using T by (simp add: threads_ok_def)
    have "thread_ok n (total_read S) ?ts t' (seen S t') (pc S t')" if "t' \<noteq> t"
      using thread_ok_cong [OF o, of ?ts] set_st_own [OF tl x] that by blast
    then show "seen ?S t' \<le> total_read ?S \<and> thread_ok n (total_read ?S) ?ts t' (seen ?S t') (pc ?S t')
      \<and> (uses_cache (pc ?S t') \<longrightarrow> cached ?S t' = None \<or> cached ?S t' = Some (of_nat (seen ?S t')))"
      using T ok by (cases "t' = t") (auto simp: threads_ok_def)
  qed
  moreover have "reader_ok n rc ?ts (holding ?S)"
  proof (cases "holding S")
    case (MR_holding h)
    have e: "set_st p st ts = y # set_st p st ys" if "ts = y # ys" "tk_st y = T_ready d" for y ys d
    proof -
      have "tk_pos y \<noteq> p" using tiles_same_pos [OF tl _ x, of y] that l(2) by (metis finished.simps(1) list.set_intros(1) ticket.sel(1,4))
      then show ?thesis using that by simp
    qed
    show ?thesis
    proof (cases "rh_result h = Err_empty_log_buffer")
      case True
      then show ?thesis using MR_holding by simp
    next
      case False
      then obtain y ys d where y: "ts = y # ys" "tk_st y = T_ready d"
        and hh: "h = \<lparr>rh_addr = Some (128 * (rc mod n) + 8), rh_result = Success, rh_size = of_nat (length d)\<rparr>"
        using R MR_holding by auto
      then show ?thesis using e [OF y] MR_holding by auto
    qed
  qed simp
  moreover have "history_ok ?ts ?S"
  proof -
    obtain tagged where g: "List.map snd tagged = taken S" "\<And>t. of_thread t (committed S) = of_thread t (tagged @ readys ts)"
      using H by (auto simp: history_ok_def)
    have "of_thread t' (readys ?ts) = of_thread t' (readys ts) @ of_thread t' es" for t'
      using h
    proof
      assume "(\<forall>d. st \<noteq> T_ready d) \<and> es = []"
      then show ?thesis using readys_set_st [OF tl x l(2), of st] by (simp add: of_thread_def)
    next
      assume "\<exists>d. st = T_ready d \<and> es = [(t, d)]"
      then obtain d where d: "st = T_ready d" "es = [(t, d)]" by blast
      have "tk_pos y \<le> p" if "y \<in> set ts" "tk_own y = t" for y
        using l(1) that unfolding mine_live_def by (metis le_refl less_imp_le ticket.sel(1))
      then show ?thesis using readys_commit [OF tl x l(2), of t' d] d by (auto simp: of_thread_def)
    qed
    then have "of_thread t' (committed ?S) = of_thread t' (tagged @ readys ?ts)" for t' using g(2) by simp
    then show ?thesis unfolding history_ok_def using g(1) by (intro exI [of _ tagged]) simp
  qed
  ultimately show ?thesis by (simp add: miso_inv_def)
qed

text \<open>A step that changes neither the blocks nor the tickets.\<close>

lemma local_step:
  assumes i: "miso_inv n rc ts S"
    and ok: "thread_ok n (total_read S) ts t \<sigma> q" "\<sigma> \<le> total_read S" "uses_cache q \<longrightarrow> c = None \<or> c = Some (of_nat \<sigma>)"
  shows "miso_inv n rc ts (S\<lparr>pc := (pc S)(t := q), cached := (cached S)(t := c), seen := (seen S)(t := \<sigma>)\<rparr>)"
  using assms by (auto simp: miso_inv_def memory_ok_def threads_ok_def history_ok_def)

section \<open>Steps of the writing threads\<close>

lemma refer_eq: "refer t old new S = S\<lparr>seen := (seen S)(t := if old = Some new then seen S t else total_read S)\<rparr>"
  by (simp add: refer_def)

lemma goto_refer: "goto t q (refer t old new S) = S\<lparr>pc := (pc S)(t := q), cached := (cached S)(t := cached S t),
    seen := (seen S)(t := if old = Some new then seen S t else total_read S)\<rparr>"
  by (simp add: refer_def goto_def)

lemma leave_refer: "leave t q l (refer t old new S) = S\<lparr>pc := (pc S)(t := q), cached := (cached S)(t := Some (l_ref l)),
    seen := (seen S)(t := if old = Some new then seen S t else total_read S)\<rparr>"
  by (simp add: refer_def leave_def goto_def)

lemma inv_memory:
  assumes "miso_inv n rc ts S"
  shows "miso_ring (shared S) n" "core n (total_read S) rc (total_written S) ts (m_blocks (shared S))"
    "write_cursor (shared S) = of_nat (total_written S)" "read_cursor (shared S) = of_nat (total_read S)"
    "read_cursor_start_cache (shared S) = of_nat (total_read S)" "read_cursor_cache (shared S) = of_nat rc"
    "m_blocks_count (shared S) = of_nat n"
  using assms by (auto simp: miso_inv_def memory_ok_def miso_ring_def)

lemma inv_thread:
  assumes "miso_inv n rc ts S"
  shows "seen S t \<le> total_read S" "thread_ok n (total_read S) ts t (seen S t) (pc S t)"
    "uses_cache (pc S t) \<Longrightarrow> cached S t = None \<or> cached S t = Some (of_nat (seen S t))"
  using assms by (auto simp: miso_inv_def threads_ok_def)

lemma need_ok:
  assumes "unat sz + 8 < 2 ^ 32" "\<not> bad_need (miso_need sz) s" "m_blocks_count s = of_nat n" "n \<le> 2 ^ 24"
  shows "0 < unat (miso_need sz)" "unat (miso_need sz) < 2 ^ 24" "unat (miso_need sz) \<le> n" "unat sz + 8 \<le> 128 * unat (miso_need sz)"
proof -
  have "unat (m_blocks_count s) = n" using assms(3,4) by (simp add: unat_small)
  then show "0 < unat (miso_need sz)" "unat (miso_need sz) < 2 ^ 24" "unat (miso_need sz) \<le> n"
    using assms(2) by (auto simp: bad_need_def max_block_num_per_chunk_def word_less_nat_alt not_less unat_gt_0)
  have "unat (sz + 8) = unat sz + 8" using assms(1) by (simp add: unat_word_ariths)
  then have "unat (miso_need sz) = (unat sz + 8 + 127) div 128"
    using assms(1) by (simp add: miso_need_def cache_line_size_def unat_small)
  then show "unat sz + 8 \<le> 128 * unat (miso_need sz)" by linarith
qed

lemma inv_begin:
  assumes i: "miso_inv n rc ts S" and p: "pc S t = P_idle" and c: "c = cached S t \<or> c = None" and z: "unat sz + 8 < 2 ^ 32"
    and b: "\<not> bad_need (miso_need sz) (shared S)" and l: "l = alloc_begin sz c (shared S)"
  shows "miso_inv n rc ts (goto t (P_check l) (refer t c (l_ref l) S))"
  unfolding goto_refer
proof (rule local_step [OF i])
  note T = inv_thread [OF i, of t] and M = inv_memory [OF i]
  have n: "n \<le> 2 ^ 24" using coreD(2) [OF M(2)] .
  show "thread_ok n (total_read S) ts t (if c = Some (l_ref l) then seen S t else total_read S) (P_check l)"
    using T p c M(4) need_ok [OF z b M(7) n] by (auto simp: l alloc_begin_def local_ok_def Let_def)
qed (use inv_thread(1) [OF i, of t] in auto)

lemma check_space_local:
  assumes "check_space l s = (ok, l')"
  shows "l' = l \<or> l' = l\<lparr>l_ref := read_cursor s\<rparr>"
  using assms by (auto simp: check_space_def Let_def split: if_splits)

lemma local_ok_reload:
  assumes "local_ok n l \<sigma>" "l' = l \<or> l' = l\<lparr>l_ref := of_nat \<rho>\<rparr>"
  shows "local_ok n l' (if Some (l_ref l) = Some (l_ref l') then \<sigma> else \<rho>)"
  using assms by (auto simp: local_ok_def)

lemma inv_check:
  assumes i: "miso_inv n rc ts S" and p: "pc S t = P_check l" and c: "check_space l (shared S) = (ok, l')"
  shows "miso_inv n rc ts (if ok then goto t (P_take l') (refer t (Some (l_ref l)) (l_ref l') S)
      else leave t P_idle l' (refer t (Some (l_ref l)) (l_ref l') S))"
proof -
  note T = inv_thread [OF i, of t] and M = inv_memory [OF i]
  let ?\<sigma> = "if Some (l_ref l) = Some (l_ref l') then seen S t else total_read S"
  have l: "local_ok n l' ?\<sigma>"
    using T(2) p check_space_local [OF c] M(4) by (intro local_ok_reload) auto
  have d: "mine_done t ts" using T(2) p by simp
  have s: "?\<sigma> \<le> total_read S" using T(1) by simp
  show ?thesis
  proof (cases ok)
    case True
    have "miso_inv n rc ts (goto t (P_take l') (refer t (Some (l_ref l)) (l_ref l') S))"
      unfolding goto_refer using l d s by (intro local_step [OF i]) auto
    then show ?thesis using True by simp
  next
    case False
    have "miso_inv n rc ts (leave t P_idle l' (refer t (Some (l_ref l)) (l_ref l') S))"
      unfolding leave_refer using l d s by (intro local_step [OF i]) (auto simp: local_ok_def)
    then show ?thesis using False by simp
  qed
qed

lemma not_over:
  assumes "l_cur l = of_nat p" "l_ref l = of_nat \<sigma>" "m_blocks_count s = of_nat n" "n \<le> 2 ^ 24" "\<sigma> \<le> p"
    "p + unat (l_need l) - \<sigma> < 2 ^ 32" "\<not> over l s"
  shows "p + unat (l_need l) < \<sigma> + n"
proof -
  have "l_cur l + l_need l = of_nat (p + unat (l_need l))" using assms(1) by simp
  then have "l_cur l + l_need l - l_ref l = of_nat (p + unat (l_need l) - \<sigma>)"
    using assms(2,5) of_nat_minus [of \<sigma> "p + unat (l_need l)"] by simp
  then have "p + unat (l_need l) - \<sigma> < n" using assms(3,4,6,7) by (simp add: over_def of_nat_less32 not_le)
  then show ?thesis using assms(5) by linarith
qed

lemma inv_take:
  assumes i: "miso_inv n rc ts S" and p: "pc S t = P_take l" and a: "take_blocks l (shared S) = (l', b)"
    and g: "total_written S + unat (l_need l) - seen S t < 2 ^ 32"
  shows "miso_inv n rc (ts @ [Tk (total_written S) (unat (l_need l)) t T_pending])
      (goto t (if over l' b then P_over l' else P_place l') (S\<lparr>shared := b, total_written := total_written S + unat (l_need l)\<rparr>))"
    (is "miso_inv n rc ?ts ?S")
proof -
  note T = inv_thread [OF i, of t] and M = inv_memory [OF i]
  let ?w = "total_written S" and ?k = "unat (l_need l)"
  have l': "l' = l\<lparr>l_cur := of_nat ?w\<rparr>" and b: "b = (shared S)\<lparr>write_cursor := of_nat (?w + ?k)\<rparr>"
    using a M(3) by (auto simp: take_blocks_def)
  have lo: "local_ok n l (seen S t)" and d: "mine_done t ts" using T(2) p by auto
  note D = coreD [OF M(2)]
  have rw: "total_read S \<le> ?w" using D(4) tiles_le [OF D(6)] by linarith
  have core: "core n (total_read S) rc (?w + ?k) ?ts (m_blocks (shared S))"
    using lo g T(1) by (intro core_append [OF M(2)]) (auto simp: local_ok_def)
  have fresh: "tk_pos x < ?w" if "x \<in> set ts" for x using tiles_bounds [OF D(6) that] by simp
  have live: "mine_live t ?ts ?w ?k T_pending" using d fresh by (auto simp: mine_live_def mine_done_def)
  have place: "?w + ?k < total_read S + n" if "\<not> over l' b"
    using not_over [of l' ?w "seen S t" b n] that lo l' b M(7) D(2) T(1) rw g by (auto simp: local_ok_def)
  have "threads_ok n ?ts ?S"
    unfolding threads_ok_def
  proof
    fix t'
    note T' = inv_thread [OF i, of t']
    have "thread_ok n (total_read S) ?ts t' (seen S t') (pc S t')" if "t' \<noteq> t"
      using T'(2) that by (rule_tac thread_ok_cong) auto
    then show "seen ?S t' \<le> total_read ?S \<and> thread_ok n (total_read ?S) ?ts t' (seen ?S t') (pc ?S t')
      \<and> (uses_cache (pc ?S t') \<longrightarrow> cached ?S t' = None \<or> cached ?S t' = Some (of_nat (seen ?S t')))"
      using T' lo live place l' by (cases "t' = t") (auto simp: goto_def local_ok_def)
  qed
  moreover have "memory_ok n rc ?ts ?S" using i core b by (auto simp: miso_inv_def memory_ok_def goto_def miso_ring_def)
  moreover have "reader_ok n rc ?ts (holding ?S)" using i by (cases "holding S") (auto simp: miso_inv_def goto_def)
  moreover have "history_ok ?ts ?S" using i by (auto simp: miso_inv_def history_ok_def goto_def)
  ultimately show ?thesis by (simp add: miso_inv_def)
qed

lemma inv_look_again:
  assumes i: "miso_inv n rc ts S" and p: "pc S t = P_over l" and l': "l' = reload l (shared S)"
  shows "miso_inv n rc ts (goto t (if over l' (shared S) then P_give_back l' else P_place l') (refer t (Some (l_ref l)) (l_ref l') S))"
  unfolding goto_refer
proof (rule local_step [OF i])
  note T = inv_thread [OF i, of t] and M = inv_memory [OF i]
  let ?\<sigma> = "if Some (l_ref l) = Some (l_ref l') then seen S t else total_read S"
  have r: "l' = l\<lparr>l_ref := of_nat (total_read S)\<rparr>" using l' M(4) by (simp add: reload_def)
  have lo: "local_ok n l' ?\<sigma>" using T(2) p r by (intro local_ok_reload) auto
  obtain q where q: "l_cur l = of_nat q" "mine_live t ts q (unat (l_need l)) T_pending" using T(2) p by auto
  note x = core_ticket [OF M(2) mine_live_in [OF q(2)]] and D = coreD [OF M(2)]
  have "q + unat (l_need l) < total_read S + n" if "\<not> over l' (shared S)"
    using not_over [of l' q "total_read S" "shared S" n] that q r M(7) D x by auto
  then show "thread_ok n (total_read S) ts t ?\<sigma> (if over l' (shared S) then P_give_back l' else P_place l')"
    using lo q r by auto
qed (use inv_thread(1) [OF i, of t] in auto)

lemma inv_give_back:
  assumes i: "miso_inv n rc ts S" and p: "pc S t = P_give_back l" and a: "give_back l (shared S) = (given, b)"
  shows "\<exists>ts'. miso_inv n rc ts' (if given then leave t P_idle l (S\<lparr>shared := b, total_written := total_written S - unat (l_need l)\<rparr>)
      else goto t (P_over l) S)"
proof (cases given)
  case False
  note T = inv_thread [OF i, of t]
  have "goto t (P_over l) S = S\<lparr>pc := (pc S)(t := P_over l), cached := (cached S)(t := cached S t), seen := (seen S)(t := seen S t)\<rparr>"
    by (simp add: goto_def)
  then show ?thesis using local_step [OF i, of t "seen S t" "P_over l" "cached S t"] T p False by auto
next
  case True
  note T = inv_thread [OF i, of t] and M = inv_memory [OF i] and D = coreD [OF inv_memory(2) [OF i]]
  let ?k = "unat (l_need l)" and ?w = "total_written S"
  obtain q where q: "l_cur l = of_nat q" "mine_live t ts q ?k T_pending" and lo: "local_ok n l (seen S t)" using T(2) p by auto
  note x = core_ticket [OF M(2) mine_live_in [OF q(2)]]
  have "write_cursor (shared S) = l_cur l + l_need l" and b: "b = (shared S)\<lparr>write_cursor := l_cur l\<rparr>"
    using a True by (auto simp: give_back_def split: if_splits)
  then have "(of_nat ?w :: u32) = of_nat (q + ?k)" using M(3) q(1) by simp
  then have "?w = q + ?k" using same_cursor [of "q + ?k" ?w] x D by simp
  then obtain us where us: "ts = us @ [Tk q ?k t T_pending]" "core n (total_read S) rc q us (m_blocks (shared S))"
    using core_remove_last [OF M(2) mine_live_in [OF q(2)]] by metis
  have wq: "?w - ?k = q" using \<open>?w = q + ?k\<close> by simp
  let ?S = "leave t P_idle l (S\<lparr>shared := b, total_written := ?w - ?k\<rparr>)"
  have fresh: "tk_pos y < q" if "y \<in> set us" for y using tiles_bounds [OF coreD(6) [OF us(2)] that] by simp
  have fin: "mine_done t us"
    unfolding mine_done_def
  proof (intro ballI impI)
    fix y assume y: "y \<in> set us" "tk_own y = t"
    then have "y \<noteq> Tk q ?k t T_pending" using fresh [OF y(1)] by (metis less_irrefl ticket.sel(1))
    then show "finished (tk_st y)" using q(2) y by (auto simp: mine_live_def us(1))
  qed
  have "threads_ok n us ?S"
    unfolding threads_ok_def
  proof
    fix t'
    note T' = inv_thread [OF i, of t']
    have "thread_ok n (total_read S) us t' (seen S t') (pc S t')" if "t' \<noteq> t"
      by (rule thread_ok_cong [OF T'(2)]) (use that us(1) in auto)
    then show "seen ?S t' \<le> total_read ?S \<and> thread_ok n (total_read ?S) us t' (seen ?S t') (pc ?S t')
      \<and> (uses_cache (pc ?S t') \<longrightarrow> cached ?S t' = None \<or> cached ?S t' = Some (of_nat (seen ?S t')))"
      using T' fin lo by (cases "t' = t") (auto simp: leave_def goto_def local_ok_def)
  qed
  moreover have "memory_ok n rc us ?S"
    using M us(2) b q(1) by (auto simp: memory_ok_def leave_def goto_def miso_ring_def wq)
  moreover have "reader_ok n rc us (holding ?S)"
    using i us(1) by (cases "holding S"; cases us) (auto simp: miso_inv_def leave_def goto_def)
  moreover have "history_ok us ?S" using i us(1) by (auto simp: miso_inv_def history_ok_def leave_def goto_def)
  ultimately show ?thesis using True by (auto simp: miso_inv_def)
qed

lemma state_eqs:
  "goto t q (S\<lparr>shared := (shared S)\<lparr>m_blocks := m\<rparr>\<rparr>) = S\<lparr>shared := (shared S)\<lparr>m_blocks := m\<rparr>, pc := (pc S)(t := q),
    cached := (cached S)(t := cached S t), committed := committed S @ [], seen := (seen S)(t := seen S t)\<rparr>"
  "goto t q (S\<lparr>shared := (shared S)\<lparr>m_blocks := m\<rparr>, committed := committed S @ es\<rparr>) = S\<lparr>shared := (shared S)\<lparr>m_blocks := m\<rparr>, pc := (pc S)(t := q),
    cached := (cached S)(t := cached S t), committed := committed S @ es, seen := (seen S)(t := seen S t)\<rparr>"
  "leave t q l' (refer t old new (S\<lparr>shared := (shared S)\<lparr>m_blocks := m\<rparr>\<rparr>)) = S\<lparr>shared := (shared S)\<lparr>m_blocks := m\<rparr>, pc := (pc S)(t := q),
    cached := (cached S)(t := Some (l_ref l')), committed := committed S @ [],
    seen := (seen S)(t := if old = Some new then seen S t else total_read S)\<rparr>"
  by (simp_all add: goto_def leave_def refer_def)

lemma inv_place:
  assumes i: "miso_inv n rc ts S" and p: "pc S t = P_place l" and b: "b = place_head l (shared S)"
  shows "\<exists>ts'. miso_inv n rc ts' (goto t (if not_contiguous l b then P_mark l else P_finish l) (S\<lparr>shared := b\<rparr>))"
proof -
  note T = inv_thread [OF i, of t] and M = inv_memory [OF i] and D = coreD [OF inv_memory(2) [OF i]]
  let ?k = "unat (l_need l)"
  obtain q where q: "l_cur l = of_nat q" "mine_live t ts q ?k T_pending" "q + ?k < total_read S + n" and lo: "local_ok n l (seen S t)"
    using T(2) p by auto
  let ?m = "wr32 (128 * (q mod n)) (of_nat ?k) (m_blocks (shared S))"
  have bb: "b = (shared S)\<lparr>m_blocks := ?m\<rparr>"
    using b q(1) miso_block_eq [OF M(1), of q] by (simp add: place_head_def set_block_num_def cache_line_size_def)
  have "m_blocks_count b = of_nat n" using M(7) by (simp add: bb)
  moreover have mq: "unat (of_nat q AND (of_nat n - 1) :: u32) = q mod n" using M(1) by (intro of_nat_and_mask) (auto simp: miso_ring_def)
  have "q mod n < n" using D(1) by simp
  then have "q mod n + ?k \<le> 2 ^ 24 + 2 ^ 24" using lo D(2) unfolding local_ok_def by linarith
  then have "unat ((of_nat q AND (of_nat n - 1)) + l_need l) = q mod n + ?k"
    unfolding unat_word_ariths mq by (intro mod_less) simp
  ultimately have whole: "not_contiguous l b \<longleftrightarrow> n < q mod n + ?k"
    using q(1) D(2) by (simp add: not_contiguous_def word_less_nat_alt unat_small)
  have live: "mine_live t (set_st q T_headed ts) q ?k T_headed" using mine_live_set [OF D(6) q(2)] .
  show ?thesis
    unfolding bb state_eqs(1)
    by (rule exI, rule own_step [OF i q(2) _ core_place [OF M(2) mine_live_in [OF q(2)] q(3)]])
      (use lo q(1) live T(1) whole bb in auto)
qed

lemma inv_mark:
  assumes i: "miso_inv n rc ts S" and p: "pc S t = P_mark l"
  shows "\<exists>ts'. miso_inv n rc ts' (goto t (P_check l) (S\<lparr>shared := mark_invalid l (shared S)\<rparr>))"
proof -
  note T = inv_thread [OF i, of t] and M = inv_memory [OF i] and D = coreD [OF inv_memory(2) [OF i]]
  obtain q where q: "l_cur l = of_nat q" "mine_live t ts q (unat (l_need l)) T_headed" and lo: "local_ok n l (seen S t)" using T(2) p by auto
  have b: "mark_invalid l (shared S) = (shared S)\<lparr>m_blocks := wr (128 * (q mod n) + 3) [2] (m_blocks (shared S))\<rparr>"
    using q(1) miso_block_eq [OF M(1), of q] by (simp add: mark_invalid_def set_status_def cache_line_size_def st_invalid_def)
  show ?thesis
    unfolding b state_eqs(1)
    by (rule exI, rule own_step [OF i q(2) _ core_mark [OF M(2) mine_live_in [OF q(2)]]])
      (use lo mine_done_set [OF D(6) q(2), of T_skip] T(1) in auto)
qed

lemma inv_finish:
  assumes i: "miso_inv n rc ts S" and p: "pc S t = P_finish l" and a: "finish_alloc l (shared S) = (h, l', b)"
  shows "\<exists>ts'. miso_inv n rc ts' (leave t (P_granted h (l_size l)) l' (refer t (Some (l_ref l)) (l_ref l') (S\<lparr>shared := b\<rparr>)))"
proof -
  note T = inv_thread [OF i, of t] and M = inv_memory [OF i] and D = coreD [OF inv_memory(2) [OF i]]
  obtain q where q: "l_cur l = of_nat q" "mine_live t ts q (unat (l_need l)) T_headed" "q mod n + unat (l_need l) \<le> n"
    and lo: "local_ok n l (seen S t)" using T(2) p by auto
  have b: "b = (shared S)\<lparr>m_blocks := wr32 (128 * (q mod n) + 4) (l_size l) (m_blocks (shared S))\<rparr>"
    and h: "handle_ok n q h" and r: "l_ref l' = l_ref l \<or> l_ref l' = of_nat (total_read S)"
    using a q(1) miso_block_eq [OF M(1), of q] M(4)
    by (auto simp: finish_alloc_def Let_def set_data_size_def cache_line_size_def handle_ok_def split: if_splits)
  have live: "mine_live t (set_st q (T_granted (l_size l)) ts) q (unat (l_need l)) (T_granted (l_size l))" using mine_live_set [OF D(6) q(2)] .
  show ?thesis
    unfolding b state_eqs(3)
    by (rule exI, rule own_step [OF i q(2) _ core_finish [OF M(2) mine_live_in [OF q(2)] q(3)]])
      (use lo live T(1) h r in \<open>auto simp: local_ok_def\<close>)
qed

lemma miso_inv_fill:
  assumes i: "miso_inv n rc ts S" and p: "pc S t = P_granted h sz" and l: "length bs = unat sz"
  shows "\<exists>ts'. miso_inv n rc ts' (goto t (P_filled h bs) (S\<lparr>shared := miso_fill_chunk h bs (shared S)\<rparr>))"
proof -
  note T = inv_thread [OF i, of t] and M = inv_memory [OF i] and D = coreD [OF inv_memory(2) [OF i]]
  obtain q k where q: "mine_live t ts q k (T_granted sz)" "handle_ok n q h" using T(2) p by auto
  have b: "miso_fill_chunk h bs (shared S) = (shared S)\<lparr>m_blocks := wr (128 * (q mod n) + 8) bs (m_blocks (shared S))\<rparr>"
    using q(2) by (simp add: miso_fill_chunk_def handle_ok_def)
  have live: "mine_live t (set_st q (T_filled bs) ts) q k (T_filled bs)" using mine_live_set [OF D(6) q(1)] .
  show ?thesis
    unfolding b state_eqs(1)
    by (rule exI, rule own_step [OF i q(1) _ core_fill [OF M(2) mine_live_in [OF q(1)] l]]) (use q(2) live T p in auto)
qed

lemma miso_inv_commit:
  assumes i: "miso_inv n rc ts S" and p: "pc S t = P_filled h bs"
  shows "\<exists>ts'. miso_inv n rc ts' (goto t P_idle (S\<lparr>shared := miso_commit_write_chunk h (shared S), committed := committed S @ [(t, bs)]\<rparr>))"
proof -
  note T = inv_thread [OF i, of t] and M = inv_memory [OF i] and D = coreD [OF inv_memory(2) [OF i]]
  obtain q k where q: "mine_live t ts q k (T_filled bs)" "handle_ok n q h" using T(2) p by auto
  have b: "miso_commit_write_chunk h (shared S) = (shared S)\<lparr>m_blocks := wr (128 * (q mod n) + 3) [1] (m_blocks (shared S))\<rparr>"
    using q(2) by (simp add: miso_commit_write_chunk_def handle_ok_def cache_line_size_def set_status_def st_used_def)
  show ?thesis
    unfolding b state_eqs(2)
    by (rule exI, rule own_step [OF i q(1) _ core_commit [OF M(2) mine_live_in [OF q(1)]]])
      (use mine_done_set [OF D(6) q(1), of "T_ready bs"] T p in auto)
qed


section \<open>Steps of the reading thread\<close>

lemma status_head:
  assumes "miso_inv n rc ts S"
  shows "miso_block (shared S) (read_cursor_cache (shared S)) = rc mod n"
    and "block_status (shared S) (rc mod n) = (case ts of [] \<Rightarrow> 0 | x # xs \<Rightarrow> (case tk_st x of T_ready d \<Rightarrow> 1 | T_skip \<Rightarrow> 2 | _ \<Rightarrow> 0))"
proof -
  note M = inv_memory [OF assms]
  show "miso_block (shared S) (read_cursor_cache (shared S)) = rc mod n" using M(1,6) by (simp add: miso_block_eq)
  show "block_status (shared S) (rc mod n) = (case ts of [] \<Rightarrow> 0 | x # xs \<Rightarrow> (case tk_st x of T_ready d \<Rightarrow> 1 | T_skip \<Rightarrow> 2 | _ \<Rightarrow> 0))"
    using core_head [OF M(2)] by (auto simp: block_status_def stat_def cache_line_size_def split: list.splits)
qed

lemma drop_threads:
  "threads_ok n (x # xs) S \<Longrightarrow> finished (tk_st x) \<Longrightarrow> threads_ok n xs S"
  by (auto simp: threads_ok_def intro: thread_ok_drop)

lemma inv_skip_ticket:
  assumes i: "miso_inv n rc ts S" and h: "holding S = MR_idle"
    and s: "block_status (shared S) (miso_block (shared S) (read_cursor_cache (shared S))) = st_invalid"
  shows "\<exists>rc' x xs. ts = x # xs \<and> tk_st x = T_skip \<and> miso_inv n rc' xs (S\<lparr>shared := skip_invalid (shared S)\<rparr>)"
proof -
  note M = inv_memory [OF i] and D = coreD [OF inv_memory(2) [OF i]] and sh = status_head [OF i]
  obtain x xs where ts: "ts = x # xs" "tk_st x = T_skip"
    using s sh by (auto simp: st_invalid_def split: list.splits tk_state.splits)
  let ?m' = "wr (128 * (rc mod n) + 3) [0] (m_blocks (shared S))"
  note bl = block_in_memory [OF D(1,3)]
  have x: "ticket_mem n (m_blocks (shared S)) rc (tk_len x) T_skip" using M(2) D(6) ts by (auto simp: core_def)
  have c: "core n (total_read S) (rc + tk_len x) (total_written S) xs ?m'"
  proof (rule core_drop_head)
    show "core n (total_read S) rc (total_written S) (x # xs) (m_blocks (shared S))" using M(2) ts by simp
    show "placed x" using ts by (simp add: placed_def)
    show "length ?m' = length (m_blocks (shared S))" using bl [of rc] by simp
    fix q assume q: "rc + tk_len x \<le> q" "q < total_read S + n"
    have "rc < q" "q < rc + n" using q D(4,6) ts by auto
    then have "rc mod n \<noteq> q mod n" by (rule mod_neq)
    then show "same_block (m_blocks (shared S)) ?m' (q mod n)"
      by (intro wr_other_block [where b = "rc mod n" and k = 1]) (use bl [of rc] bl [of q] in auto)
  qed
  have e: "skip_invalid (shared S) = (shared S)\<lparr>m_blocks := ?m', read_cursor_cache := of_nat (rc + tk_len x)\<rparr>"
    using sh(1) x M(6) by (simp add: skip_invalid_def Let_def set_status_def st_unused_def cache_line_size_def get_block_num_def bnum_def)
  have "threads_ok n xs S" using drop_threads i ts by (auto simp: miso_inv_def)
  then have "miso_inv n (rc + tk_len x) xs (S\<lparr>shared := skip_invalid (shared S)\<rparr>)"
    using i c ts h unfolding e by (auto simp: miso_inv_def memory_ok_def miso_ring_def threads_ok_def history_ok_def)
  then show ?thesis using ts by blast
qed

lemma read_once:
  assumes "block_status s (miso_block s (read_cursor_cache s)) \<noteq> st_invalid"
  shows "miso_read_chunk s = Some (if block_status s (miso_block s (read_cursor_cache s)) = st_used
    then (\<lparr>rh_addr = Some (128 * miso_block s (read_cursor_cache s) + 8), rh_result = Success,
      rh_size = data_size s (miso_block s (read_cursor_cache s))\<rparr>, s) else (no_read\<lparr>rh_result := Err_empty_log_buffer\<rparr>, s))"
  using assms by (subst miso_read_chunk.simps) (simp add: Let_def cache_line_size_def)

lemma miso_inv_read:
  assumes i: "miso_inv n rc ts S" and s: "block_status (shared S) (miso_block (shared S) (read_cursor_cache (shared S))) \<noteq> st_invalid"
    and r: "miso_read_chunk (shared S) = Some (h, b)"
  shows "miso_inv n rc ts (S\<lparr>shared := b, holding := MR_holding h\<rparr>)"
    and "rh_result h = Success \<longleftrightarrow> (\<exists>x xs d. ts = x # xs \<and> tk_st x = T_ready d)"
proof -
  note M = inv_memory [OF i] and sh = status_head [OF i] and ro = read_once [OF s]
  have x: "data_size (shared S) (rc mod n) = of_nat (length d)" if "ts = x # xs" "tk_st x = T_ready d" for x xs d
  proof -
    have "ticket_mem n (m_blocks (shared S)) rc (tk_len x) (T_ready d)" using M(2) coreD(6) [OF M(2)] that by (auto simp: core_def)
    then show ?thesis by (simp add: data_size_def bsize_def cache_line_size_def)
  qed
  have "b = shared S \<and> reader_ok n rc ts (MR_holding h) \<and> (rh_result h = Success \<longleftrightarrow> (\<exists>x xs d. ts = x # xs \<and> tk_st x = T_ready d))"
  proof (cases "\<exists>x xs d. ts = x # xs \<and> tk_st x = T_ready d")
    case True
    then obtain x xs d where t: "ts = x # xs" "tk_st x = T_ready d" by blast
    then show ?thesis using ro r sh x [OF t] by (auto simp: st_used_def)
  next
    case False
    then have "block_status (shared S) (rc mod n) \<noteq> st_used" using sh(2) by (auto simp: st_used_def split: list.splits tk_state.splits)
    then show ?thesis using ro r sh False by (auto simp: no_read_def)
  qed
  then show "miso_inv n rc ts (S\<lparr>shared := b, holding := MR_holding h\<rparr>)"
    and "rh_result h = Success \<longleftrightarrow> (\<exists>x xs d. ts = x # xs \<and> tk_st x = T_ready d)"
    using i by (auto simp: miso_inv_def memory_ok_def threads_ok_def history_ok_def simp del: reader_ok.simps)
qed

lemma inv_flush:
  assumes i: "miso_inv n rc ts S"
  shows "read_cursor (flush_read (shared S)) = of_nat rc \<and> total_read S + unat (read_cursor (flush_read (shared S)) - read_cursor (shared S)) = rc"
    and "miso_inv n rc ts (S\<lparr>shared := flush_read (shared S), total_read := rc\<rparr>)"
proof -
  note M = inv_memory [OF i] and D = coreD [OF inv_memory(2) [OF i]]
  let ?d = "rc - total_read S" and ?s = "shared S"
  have bound: "?d < 2 ^ 32" using D(2,4,5) by simp
  have diff: "unat (of_nat rc - of_nat (total_read S) :: u32) = ?d" using diff_cursor [OF D(4) bound] .
  have e: "flush_read ?s = (if 0 < ?d then (clear_statuses ?d (of_nat (total_read S)) ?s)\<lparr>read_cursor_start_cache := of_nat rc, read_cursor := of_nat rc\<rparr> else ?s)"
    using diff M(5,6) by (simp add: flush_read_def Let_def word_less_nat_alt)
  have rc: "read_cursor (flush_read ?s) = of_nat rc" using e M(4) D(4) by (cases "0 < ?d") auto
  then show "read_cursor (flush_read ?s) = of_nat rc \<and> total_read S + unat (read_cursor (flush_read ?s) - read_cursor ?s) = rc"
    using diff M(4) D(4) by simp
  have f: "flush_read ?s = ?s\<lparr>m_blocks := m_blocks (clear_statuses ?d (of_nat (total_read S)) ?s), read_cursor_start_cache := of_nat rc, read_cursor := of_nat rc\<rparr>"
    using clear_statuses_frame [of ?d "of_nat (total_read S)" ?s] M(4,5) D(4)
    unfolding e by (cases "0 < ?d") (metis miso.update_convs, auto)
  have c: "core n rc rc (total_written S) ts (m_blocks (clear_statuses ?d (of_nat (total_read S)) ?s))"
    by (rule core_flush [OF M(2,1)])
  have "thread_ok n rc ts t (seen S t) (pc S t)" for t using thread_ok_cong [OF inv_thread(2) [OF i]] D(4) by blast
  then show "miso_inv n rc ts (S\<lparr>shared := flush_read ?s, total_read := rc\<rparr>)"
    using i c D(4) unfolding f by (auto simp: miso_inv_def memory_ok_def miso_ring_def threads_ok_def history_ok_def intro: le_trans)
qed

lemma inv_return_success:
  assumes i: "miso_inv n rc (x # xs) S" and x: "tk_st x = T_ready d"
    and h: "h = \<lparr>rh_addr = Some (128 * (rc mod n) + 8), rh_result = Success, rh_size = of_nat (length d)\<rparr>"
  defines "b \<equiv> (shared S)\<lparr>read_cursor_cache := read_cursor_cache (shared S) + get_block_num (shared S) (miso_block (shared S) (read_cursor_cache (shared S)))\<rparr>"
  shows "miso_inv n (rc + tk_len x) xs (S\<lparr>shared := b, holding := MR_idle, taken := taken S @ [miso_chunk_data h (shared S)]\<rparr>)"
    and "miso_chunk_data h (shared S) = d"
proof -
  note M = inv_memory [OF i] and D = coreD [OF inv_memory(2) [OF i]] and sh = status_head [OF i]
  have t: "ticket_mem n (m_blocks (shared S)) rc (tk_len x) (T_ready d)" using M(2) D(6) x by (auto simp: core_def)
  have len: "length d < 2 ^ 32"
  proof -
    have "tk_len x < 2 ^ 24" using M(2) by (auto simp: core_def)
    moreover have "length d + 8 \<le> 128 * tk_len x" using t by simp
    ultimately show ?thesis by simp
  qed
  show e: "miso_chunk_data h (shared S) = d" using t len by (simp add: miso_chunk_data_def h unat_small)
  have b: "b = (shared S)\<lparr>read_cursor_cache := of_nat (rc + tk_len x)\<rparr>"
    using t sh(1) M(6) by (simp add: b_def get_block_num_def bnum_def cache_line_size_def)
  have c: "core n (total_read S) (rc + tk_len x) (total_written S) xs (m_blocks (shared S))"
    by (rule core_drop_head [OF M(2)]) (use x in \<open>auto simp: placed_def\<close>)
  have T: "threads_ok n xs S" using drop_threads i x by (auto simp: miso_inv_def)
  obtain tagged where g: "List.map snd tagged = taken S" "\<And>t. of_thread t (committed S) = of_thread t (tagged @ readys (x # xs))"
    using i by (auto simp: miso_inv_def history_ok_def)
  have "history_ok xs (S\<lparr>shared := b, holding := MR_idle, taken := taken S @ [d]\<rparr>)"
    unfolding history_ok_def by (rule exI [of _ "tagged @ [(tk_own x, d)]"]) (use g x in \<open>auto simp: of_thread_def\<close>)
  then show "miso_inv n (rc + tk_len x) xs (S\<lparr>shared := b, holding := MR_idle, taken := taken S @ [miso_chunk_data h (shared S)]\<rparr>)"
    using M c T unfolding e b by (auto simp: miso_inv_def memory_ok_def miso_ring_def threads_ok_def)
qed

lemma inv_flush_if:
  assumes i: "miso_inv n rc ts S" and b: "b = flush_read (shared S) \<or> b = shared S"
  shows "miso_inv n rc ts (S\<lparr>shared := b, total_read := total_read S + unat (read_cursor b - read_cursor (shared S))\<rparr>)"
  using inv_flush [OF i] i b by auto

lemma miso_inv_return:
  assumes i: "miso_inv n rc ts S" and h: "holding S = MR_holding h" and b: "b = miso_return_read_chunk h (shared S)"
  shows "\<exists>rc' ts'. miso_inv n rc' ts' (S\<lparr>shared := b, holding := MR_idle, total_read := total_read S + unat (read_cursor b - read_cursor (shared S)),
      taken := taken S @ (if rh_result h = Success then [miso_chunk_data h (shared S)] else [])\<rparr>)"
proof (cases "rh_result h = Err_empty_log_buffer")
  case True
  have i': "miso_inv n rc ts (S\<lparr>holding := MR_idle\<rparr>)" using i by (auto simp: miso_inv_def memory_ok_def threads_ok_def history_ok_def)
  have "miso_inv n rc ts (S\<lparr>holding := MR_idle, shared := b, total_read := total_read S + unat (read_cursor b - read_cursor (shared S))\<rparr>)"
    using inv_flush_if [OF i', of b] b True by (simp add: miso_return_read_chunk_def)
  then show ?thesis using True by (intro exI [of _ rc] exI [of _ ts], cases S) simp
next
  case False
  then obtain x xs d where t: "ts = x # xs" "tk_st x = T_ready d"
    and hh: "h = \<lparr>rh_addr = Some (128 * (rc mod n) + 8), rh_result = Success, rh_size = of_nat (length d)\<rparr>"
    using i h by (auto simp: miso_inv_def)
  let ?b = "(shared S)\<lparr>read_cursor_cache := read_cursor_cache (shared S) + get_block_num (shared S) (miso_block (shared S) (read_cursor_cache (shared S)))\<rparr>"
  have bb: "b = flush_read ?b \<or> b = ?b" using b hh by (auto simp: miso_return_read_chunk_def Let_def)
  have "miso_inv n (rc + tk_len x) xs (S\<lparr>shared := ?b, holding := MR_idle, taken := taken S @ [miso_chunk_data h (shared S)]\<rparr>)"
    using inv_return_success(1) [OF i [unfolded t(1)] t(2) hh] .
  from inv_flush_if [OF this, of b] show ?thesis
    using bb hh by (intro exI [of _ "rc + tk_len x"] exI [of _ xs], cases S) simp
qed

lemma miso_step_inv:
  assumes "miso_step S T" "miso_inv n rc ts S" "in_time S T"
  shows "\<exists>rc ts. miso_inv n rc ts T"
  using assms(1)
proof cases
  case (begin_alloc t c sz l)
  show ?thesis unfolding begin_alloc(1) using inv_begin [OF assms(2) begin_alloc(2-6)] by blast
next
  case (check t l ok l')
  show ?thesis unfolding check(1) using inv_check [OF assms(2) check(2,3)] by blast
next
  case (take t l l' b)
  have "pc T t = (if over l' b then P_over l' else P_place l')" unfolding take(1) goto_def by simp
  then have "total_written S + unat (l_need l) - seen S t < 2 ^ 32" using assms(3) take(2) by (simp add: in_time_def split: if_splits)
  then show ?thesis unfolding take(1) using inv_take [OF assms(2) take(2,3)] by blast
next
  case (look_again t l l')
  show ?thesis unfolding look_again(1) using inv_look_again [OF assms(2) look_again(2,3)] by blast
next
  case (give_back t l given b)
  show ?thesis unfolding give_back(1) using inv_give_back [OF assms(2) give_back(2,3)] by blast
next
  case (place t l b)
  show ?thesis unfolding place(1) using inv_place [OF assms(2) place(2,3)] by blast
next
  case (mark t l)
  show ?thesis unfolding mark(1) using inv_mark [OF assms(2) mark(2)] by blast
next
  case (finish t l h l' b)
  show ?thesis unfolding finish(1) using inv_finish [OF assms(2) finish(2,3)] by blast
next
  case (fill t h sz bs)
  show ?thesis unfolding fill(1) using miso_inv_fill [OF assms(2) fill(2,3)] by blast
next
  case (commit t h bs)
  show ?thesis unfolding commit(1) using miso_inv_commit [OF assms(2) commit(2)] by blast
next
  case skip
  show ?thesis unfolding skip(1) using inv_skip_ticket [OF assms(2) skip(2,3)] by blast
next
  case (read h b)
  show ?thesis unfolding read(1) using miso_inv_read(1) [OF assms(2) read(3,4)] by blast
next
  case (return h b)
  show ?thesis unfolding return(1) using miso_inv_return [OF assms(2) return(2,3)] .
next
  case (return_empty h b)
  have "b = flush_read (shared S)" using return_empty(3,4) by (simp add: miso_return_read_chunk_def)
  then show ?thesis unfolding return_empty(1) using inv_flush_if [OF assms(2)] by blast
next
  case (discard h)
  show ?thesis unfolding discard(1) using assms(2)
    by (auto simp: miso_inv_def memory_ok_def threads_ok_def history_ok_def miso_discard_read_chunk_def)
next
  case (drop h)
  show ?thesis unfolding drop(1) using assms(2) by (auto simp: miso_inv_def memory_ok_def threads_ok_def history_ok_def)
qed

section \<open>The start\<close>

lemma miso_blocks_count_pow2: "pow2 (unat (miso_blocks_count c)) \<and> unat (miso_blocks_count c) \<le> 2 ^ 24"
proof -
  let ?r = "roundup_pow_of_two c"
  have top: "unat (drop_bit 7 (of_nat (2 ^ k) :: u32)) = 2 ^ (k - 7)" if "7 \<le> k" "k < 32" for k
  proof -
    have "unat (of_nat (2 ^ k) :: u32) = 2 ^ k" using that(2) by (intro unat_small power_strict_increasing) auto
    then have "unat (drop_bit 7 (of_nat (2 ^ k) :: u32)) = 2 ^ k div 2 ^ 7"
      using unat_lt2p [of "of_nat (2 ^ k) :: u32"] that(2)
      by (subst unsigned_drop_bit_eq) (simp add: drop_bit_eq_div take_bit_nat_eq_self del: of_nat_power of_nat_numeral)
    then show ?thesis using that(1) by (simp add: power_diff)
  qed
  have "\<exists>k. 7 \<le> k \<and> k < 32 \<and> max (of_nat (16 * cache_line_size)) ?r = of_nat (2 ^ k)"
  proof (cases "?r = 0")
    case True
    then show ?thesis by (intro exI [of _ 11]) (simp add: cache_line_size_def)
  next
    case False
    then obtain j where j: "unat ?r = 2 ^ j" using roundup_pow2 [of c] by (auto simp: pow2_def)
    have "(2 :: nat) ^ j < 2 ^ 32" using unat_lt2p [of ?r] j by simp
    then have "j < 32" by (rule power_less_imp_less_exp [rotated]) simp
    moreover have "?r = of_nat (2 ^ j)" using j by (metis of_nat_unat ucast_id)
    moreover have "(of_nat (2 ^ 11) :: u32) \<le> of_nat (2 ^ j) \<longleftrightarrow> 11 \<le> j"
      using of_nat_le32 [of "2 ^ 11" "2 ^ j"] \<open>(2 :: nat) ^ j < 2 ^ 32\<close> power_increasing_iff [of "2 :: nat" 11 j] by simp
    ultimately show ?thesis
      by (cases "11 \<le> j") (auto simp: max_def cache_line_size_def intro: exI [of _ j] exI [of _ 11])
  qed
  then obtain k where k: "7 \<le> k" "k < 32" "miso_blocks_count c = drop_bit 7 (of_nat (2 ^ k))"
    by (auto simp: miso_blocks_count_def)
  then have u: "unat (miso_blocks_count c) = 2 ^ (k - 7)" using top by simp
  moreover have "(2 :: nat) ^ (k - 7) \<le> 2 ^ 24" using k by (intro power_increasing) auto
  ultimately show ?thesis by (auto simp: pow2_def)
qed

lemma init_statuses_spec:
  assumes "length (m_blocks s) = 128 * n" "k \<le> n"
  shows "init_statuses k s = s\<lparr>m_blocks := m_blocks (init_statuses k s)\<rparr> \<and> length (m_blocks (init_statuses k s)) = 128 * n
    \<and> (\<forall>b<k. stat (m_blocks (init_statuses k s)) b = 0)"
  using assms(2)
proof (induction k)
  case (Suc k)
  let ?m = "m_blocks (init_statuses k s)"
  have l: "length ?m = 128 * n" and z: "\<And>b. b < k \<Longrightarrow> stat ?m b = 0" and f: "init_statuses k s = s\<lparr>m_blocks := ?m\<rparr>" using Suc by auto
  have m: "m_blocks (init_statuses (Suc k) s) = wr (128 * k + 3) [0] ?m"
    by (simp add: set_status_def st_unused_def cache_line_size_def)
  have bl: "128 * k + 128 \<le> length ?m" using Suc.prems l by simp
  have "stat (wr (128 * k + 3) [0] ?m) b = 0" if "b < Suc k" for b
  proof (cases "b = k")
    case True
    then show ?thesis using set_stat(1) [OF bl] by simp
  next
    case False
    then have "same_block ?m (wr (128 * k + 3) [0] ?m) b" using that bl by (intro wr_other_block [where b = k and k = 1]) auto
    then show ?thesis using stat_cong z that False by fastforce
  qed
  moreover have "init_statuses (Suc k) s = s\<lparr>m_blocks := m_blocks (init_statuses (Suc k) s)\<rparr>"
    using arg_cong [OF f, of "set_status k st_unused"] by (simp add: set_status_def)
  ultimately show ?case using bl l unfolding m by (simp del: init_statuses.simps)
qed (use assms in simp)

lemma miso_inv_start:
  assumes u: "miso_usable c s" and r: "mr = Mmap_failed \<or> mr = Mmap_new_created" and s: "miso_ring_buffer c check_sum mr s = Some s'"
  shows "miso_inv (unat (miso_blocks_count c)) 0 [] (miso_start s')"
proof -
  let ?n = "unat (miso_blocks_count c)" and ?s = "s\<lparr>m_blocks_count := miso_blocks_count c\<rparr>"
  obtain v where v: "s' = miso_reset v ?s"
    using r s by (auto simp: miso_ring_buffer_def Let_def miso_init_with_memory_def miso_init_with_memory_map_def)
  have l: "length (m_blocks ?s) = 128 * ?n" using u by (simp add: miso_usable_def cache_line_size_def)
  note I = init_statuses_spec [OF l le_refl]
  have n: "pow2 ?n" "?n \<le> 2 ^ 24" "0 < ?n" using miso_blocks_count_pow2 [of c] pow2_pos by auto
  have count: "m_blocks_count s' = of_nat ?n" and m: "m_blocks s' = m_blocks (init_statuses ?n ?s)"
    using v arg_cong [OF conjunct1 [OF I], of m_blocks_count] by (simp_all add: miso_reset_def)
  have core: "core ?n 0 0 0 [] (m_blocks s')" unfolding m using I n by (auto simp: core_def)
  show ?thesis
    using core count n v
    by (auto simp: miso_inv_def memory_ok_def miso_start_def miso_ring_def threads_ok_def mine_done_def history_ok_def miso_reset_def of_thread_def)
qed

lemma miso_reachable_inv:
  "miso_reachable c S \<Longrightarrow> \<exists>rc ts. miso_inv (unat (miso_blocks_count c)) rc ts S"
proof (induction rule: miso_reachable.induct)
  case (start s mr check_sum s')
  then show ?case using miso_inv_start by blast
next
  case (step S T)
  then show ?case using miso_step_inv by blast
qed

section \<open>What the clients see\<close>

text \<open>
  What stands in the shared memory: the chunk that is published at a cursor, and the chunks that the reader gets with \<open>k\<close> calls of
  \<open>read_chunk\<close> and \<open>return_read_chunk\<close> while no other thread moves.
\<close>

definition published_chunk :: "miso \<Rightarrow> u32 \<Rightarrow> u8 list option" where
  "published_chunk s cursor =
     (let b = miso_block s cursor
      in if block_status s b = st_used then Some (rd (cache_line_size * b + 8) (unat (data_size s b)) (m_blocks s)) else None)"

fun miso_drain :: "nat \<Rightarrow> miso \<Rightarrow> u8 list list" where
  "miso_drain 0 s = []"
| "miso_drain (Suc k) s =
     (case miso_read_chunk s of
        None \<Rightarrow> []
      | Some (h, s) \<Rightarrow> if rh_result h = Success then miso_chunk_data h s # miso_drain k (miso_return_read_chunk h s) else [])"

definition ready_positions :: "ticket list \<Rightarrow> nat list" where
  "ready_positions ts = concat (List.map (\<lambda>x. case tk_st x of T_ready d \<Rightarrow> [tk_pos x] | _ \<Rightarrow> []) ts)"

lemma ready_positions_simps [simp]:
  "ready_positions [] = []"
  "ready_positions (x # xs) = (case tk_st x of T_ready d \<Rightarrow> [tk_pos x] | _ \<Rightarrow> []) @ ready_positions xs"
  by (simp_all add: ready_positions_def)

lemma ready_positions_sorted:
  assumes "tiles a ts w"
  shows "sorted_wrt (<) (ready_positions ts) \<and> (\<forall>p \<in> set (ready_positions ts). a \<le> p)"
  using assms
proof (induction ts arbitrary: a)
  case (Cons x xs)
  have "sorted_wrt (<) (ready_positions xs) \<and> (\<forall>p \<in> set (ready_positions xs). a + tk_len x \<le> p)" "0 < tk_len x" "tk_pos x = a"
    using Cons by auto
  then show ?case by (fastforce split: tk_state.split)
qed simp

lemma ready_published:
  assumes ring: "miso_ring s n" and n: "n \<le> 2 ^ 24"
    and ts: "\<And>x. x \<in> set ts \<Longrightarrow> tk_len x < 2 ^ 24 \<and> ticket_mem n (m_blocks s) (tk_pos x) (tk_len x) (tk_st x)"
  shows "List.map (\<lambda>p. published_chunk s (of_nat p)) (ready_positions ts) = List.map (\<lambda>e. Some (snd e)) (readys ts)"
  using ts
proof (induction ts)
  case (Cons x xs)
  show ?case
  proof (cases "tk_st x")
    case (T_ready d)
    then have t: "ticket_mem n (m_blocks s) (tk_pos x) (tk_len x) (T_ready d)" "tk_len x < 2 ^ 24" using Cons.prems [of x] by auto
    then have len: "length d < 2 ^ 32" by simp
    have "published_chunk s (of_nat (tk_pos x)) = Some d"
      using t(1) len miso_block_eq [OF ring, of "tk_pos x"]
      by (simp add: published_chunk_def block_status_def stat_def st_used_def data_size_def bsize_def cache_line_size_def unat_small)
    then show ?thesis using Cons T_ready by simp
  qed (use Cons in simp_all)
qed simp

lemma read_chunk_state:
  assumes "miso_inv n rc ts S" "holding S = MR_idle"
  shows "\<exists>rc' ts' h b. miso_read_chunk (shared S) = Some (h, b) \<and> miso_inv n rc' ts' (S\<lparr>shared := b, holding := MR_holding h\<rparr>)
    \<and> readys ts' = readys ts \<and> set ts' \<subseteq> set ts \<and> (rh_result h = Success \<longleftrightarrow> (\<exists>x xs d. ts' = x # xs \<and> tk_st x = T_ready d))
    \<and> ((\<forall>x \<in> set ts. finished (tk_st x)) \<longrightarrow> rh_result h \<noteq> Success \<longrightarrow> ts' = [])"
  using assms
proof (induction ts arbitrary: rc S)
  case Nil
  let ?b = "block_status (shared S) (miso_block (shared S) (read_cursor_cache (shared S)))"
  have b: "?b \<noteq> st_invalid" using status_head [OF Nil.prems(1)] by (simp add: st_invalid_def)
  then obtain h s where r: "miso_read_chunk (shared S) = Some (h, s)" using read_once by (metis surj_pair)
  show ?case using miso_inv_read [OF Nil.prems(1) b r] r by blast
next
  case (Cons x xs)
  let ?b = "block_status (shared S) (miso_block (shared S) (read_cursor_cache (shared S)))"
  show ?case
  proof (cases "?b = st_invalid")
    case False
    then obtain h s where r: "miso_read_chunk (shared S) = Some (h, s)" using read_once by (metis surj_pair)
    have "tk_st x \<noteq> T_skip" using False status_head [OF Cons.prems(1)] by (auto simp: st_invalid_def)
    then have "finished (tk_st x) \<Longrightarrow> \<exists>d. tk_st x = T_ready d" by (cases "tk_st x") auto
    moreover have "rh_result h = Success \<longleftrightarrow> (\<exists>d. tk_st x = T_ready d)" using miso_inv_read(2) [OF Cons.prems(1) False r] by simp
    ultimately show ?thesis using miso_inv_read(1) [OF Cons.prems(1) False r] r
      by (intro exI [of _ rc] exI [of _ "x # xs"] exI [of _ h] exI [of _ s]) simp
  next
    case True
    obtain rc' where i: "miso_inv n rc' xs (S\<lparr>shared := skip_invalid (shared S)\<rparr>)" and x: "tk_st x = T_skip"
      using inv_skip_ticket [OF Cons.prems True] by auto
    have skip: "miso_read_chunk (shared S) = miso_read_chunk (skip_invalid (shared S))"
      using True by (subst miso_read_chunk.simps) (simp add: Let_def)
    define T where "T = S\<lparr>shared := skip_invalid (shared S)\<rparr>"
    have T: "shared T = skip_invalid (shared S)" "holding T = MR_idle" "T\<lparr>shared := b, holding := MR_holding h\<rparr> = S\<lparr>shared := b, holding := MR_holding h\<rparr>" for b h
      using Cons.prems(2) by (simp_all add: T_def)
    obtain rc2 ts2 h b where "miso_read_chunk (skip_invalid (shared S)) = Some (h, b)"
      "miso_inv n rc2 ts2 (S\<lparr>shared := b, holding := MR_holding h\<rparr>)" "readys ts2 = readys xs" "set ts2 \<subseteq> set xs"
      "rh_result h = Success \<longleftrightarrow> (\<exists>x xs d. ts2 = x # xs \<and> tk_st x = T_ready d)"
      "(\<forall>x \<in> set xs. finished (tk_st x)) \<longrightarrow> rh_result h \<noteq> Success \<longrightarrow> ts2 = []"
      using Cons.IH [OF i [folded T_def] T(2)] unfolding T by blast
    then show ?thesis using x skip
      by (intro exI [of _ rc2] exI [of _ ts2] exI [of _ h] exI [of _ b]) auto
  qed
qed

lemma drain_readys:
  assumes "miso_inv n rc ts S" "holding S = MR_idle"
  shows "prefix (miso_drain k (shared S)) (List.map snd (readys ts))
    \<and> ((\<forall>x \<in> set ts. finished (tk_st x)) \<longrightarrow> miso_drain k (shared S) = List.take k (List.map snd (readys ts)))"
  using assms
proof (induction k arbitrary: rc ts S)
  case (Suc k)
  obtain rc' ts' h b where r: "miso_read_chunk (shared S) = Some (h, b)" "miso_inv n rc' ts' (S\<lparr>shared := b, holding := MR_holding h\<rparr>)"
    "readys ts' = readys ts" "set ts' \<subseteq> set ts" "rh_result h = Success \<longleftrightarrow> (\<exists>x xs d. ts' = x # xs \<and> tk_st x = T_ready d)"
    "(\<forall>x \<in> set ts. finished (tk_st x)) \<longrightarrow> rh_result h \<noteq> Success \<longrightarrow> ts' = []"
    using read_chunk_state [OF Suc.prems] by blast
  show ?case
  proof (cases "rh_result h = Success")
    case False
    then have "(\<forall>x \<in> set ts. finished (tk_st x)) \<Longrightarrow> readys ts = []" using r(3,6) by (metis readys_simps(1))
    then show ?thesis using r(1) False by simp
  next
    case True
    then obtain x xs d where t: "ts' = x # xs" "tk_st x = T_ready d" using r(5) by blast
    let ?S = "S\<lparr>shared := b, holding := MR_holding h\<rparr>"
    have "reader_ok n rc' ts' (MR_holding h)" using r(2) by (simp add: miso_inv_def)
    then have hh: "h = \<lparr>rh_addr = Some (128 * (rc' mod n) + 8), rh_result = Success, rh_size = of_nat (length d)\<rparr>" using t True by simp
    have d: "miso_chunk_data h b = d" using inv_return_success(2) [OF r(2) [unfolded t(1)] t(2) hh] by simp
    let ?b = "b\<lparr>read_cursor_cache := read_cursor_cache b + get_block_num b (miso_block b (read_cursor_cache b))\<rparr>"
    let ?c = "miso_return_read_chunk h b"
    have c: "?c = flush_read ?b \<or> ?c = ?b" using True by (auto simp: miso_return_read_chunk_def Let_def)
    have "miso_inv n (rc' + tk_len x) xs (S\<lparr>shared := ?b, holding := MR_idle, taken := taken S @ [d]\<rparr>)"
      using inv_return_success(1) [OF r(2) [unfolded t(1)] t(2) hh] d by simp
    from inv_flush_if [OF this, of ?c] obtain S' where i: "miso_inv n (rc' + tk_len x) xs S'" "shared S' = ?c" "holding S' = MR_idle"
      using c by force
    have "List.map snd (readys ts) = d # List.map snd (readys xs)" using t by (simp add: r(3) [symmetric])
    moreover have "(\<forall>x \<in> set ts. finished (tk_st x)) \<Longrightarrow> \<forall>x \<in> set xs. finished (tk_st x)" using r(4) t(1) by auto
    moreover have "miso_drain (Suc k) (shared S) = d # miso_drain k ?c" using r(1) True d by simp
    ultimately show ?thesis using Suc.IH [OF i(1,3)] unfolding i(2) by simp
  qed
qed simp

lemma inv_published:
  assumes "miso_inv n rc ts S"
  shows "sorted_wrt (<) (ready_positions ts) \<and> set (ready_positions ts) \<subseteq> {total_read S ..< total_read S + n}
    \<and> List.map (\<lambda>p. published_chunk (shared S) (of_nat p)) (ready_positions ts) = List.map (\<lambda>e. Some (snd e)) (readys ts)"
proof -
  note M = inv_memory [OF assms] and D = coreD [OF inv_memory(2) [OF assms]]
  have t: "tk_len x < 2 ^ 24 \<and> ticket_mem n (m_blocks (shared S)) (tk_pos x) (tk_len x) (tk_st x)" if "x \<in> set ts" for x
    using M(2) that by (simp add: core_def)
  have "p < total_read S + n" if p: "p \<in> set (ready_positions ts)" for p
  proof -
    obtain x d where x: "x \<in> set ts" "tk_st x = T_ready d" "p = tk_pos x"
    proof -
      obtain x where "x \<in> set ts" "p \<in> set (case tk_st x of T_ready d \<Rightarrow> [tk_pos x] | _ \<Rightarrow> [])" using p by (auto simp: ready_positions_def)
      then show ?thesis using that [of x] by (cases "tk_st x") auto
    qed
    then have "tk_pos x + tk_len x < total_read S + n" using M(2) by (simp add: core_def placed_def)
    then show ?thesis using x(3) by simp
  qed
  then show ?thesis using ready_positions_sorted [OF D(6)] ready_published [OF M(1) D(2) t] D(4) by fastforce
qed

lemma idle_finished:
  assumes "miso_inv n rc ts S" "\<forall>t. pc S t = P_idle"
  shows "\<forall>x \<in> set ts. finished (tk_st x)"
  using inv_thread(2) [OF assms(1)] assms(2) by (auto simp: mine_done_def)

text \<open>
  C4. In every interleaving in which the 32-bit cursors do not wrap around between a thread's load of the read cursor and its taking of blocks, what
  the reader has returned and what is pending is, for each writing thread, exactly what that thread committed, in the thread's order. The
  pending chunks stand in the shared memory, published at increasing cursors. A chunk that the reader holds is the first of them, byte for
  byte. A reader that goes on alone gets them in this order, up to a chunk that is not published yet, and gets all of them when no writing
  thread is inside its calls.
\<close>

theorem miso_fifo:
  assumes "miso_reachable default_buffer_size S"
  shows "\<exists>tagged pending. List.map snd tagged = taken S \<and> (\<forall>t. of_thread t (committed S) = of_thread t (tagged @ pending))
    \<and> (\<exists>ps. sorted_wrt (<) ps \<and> set ps \<subseteq> {total_read S ..< total_read S + unat (miso_blocks_count default_buffer_size)}
         \<and> List.map (\<lambda>p. published_chunk (shared S) (of_nat p)) ps = List.map (\<lambda>e. Some (snd e)) pending)
    \<and> (\<forall>h. holding S = MR_holding h \<longrightarrow> rh_result h = Success \<longrightarrow> pending \<noteq> [] \<and> miso_chunk_data h (shared S) = snd (hd pending))
    \<and> (\<forall>k. holding S = MR_idle \<longrightarrow> prefix (miso_drain k (shared S)) (List.map snd pending)
         \<and> ((\<forall>t. pc S t = P_idle) \<longrightarrow> miso_drain k (shared S) = List.take k (List.map snd pending)))"
proof -
  let ?n = "unat (miso_blocks_count default_buffer_size)"
  obtain rc ts where i: "miso_inv ?n rc ts S" using miso_reachable_inv [OF assms] by blast
  then obtain tagged where g: "List.map snd tagged = taken S" "\<And>t. of_thread t (committed S) = of_thread t (tagged @ readys ts)"
    by (auto simp: miso_inv_def history_ok_def)
  have held: "readys ts \<noteq> [] \<and> miso_chunk_data h (shared S) = snd (hd (readys ts))" if h: "holding S = MR_holding h" "rh_result h = Success" for h
  proof -
    obtain x xs d where t: "ts = x # xs" "tk_st x = T_ready d"
      and hh: "h = \<lparr>rh_addr = Some (128 * (rc mod ?n) + 8), rh_result = Success, rh_size = of_nat (length d)\<rparr>"
      using i h by (auto simp: miso_inv_def)
    show ?thesis using inv_return_success(2) [OF i [unfolded t(1)] t(2) hh] t by simp
  qed
  have drain: "prefix (miso_drain k (shared S)) (List.map snd (readys ts))
      \<and> ((\<forall>t. pc S t = P_idle) \<longrightarrow> miso_drain k (shared S) = List.take k (List.map snd (readys ts)))" if "holding S = MR_idle" for k
    using drain_readys [OF i that] idle_finished [OF i] by blast
  have "\<exists>ps. sorted_wrt (<) ps \<and> set ps \<subseteq> {total_read S ..< total_read S + ?n}
      \<and> List.map (\<lambda>p. published_chunk (shared S) (of_nat p)) ps = List.map (\<lambda>e. Some (snd e)) (readys ts)"
    by (rule exI) (rule inv_published [OF i])
  then show ?thesis using g held drain by blast
qed

lemma of_thread_mset:
  assumes "\<And>t. of_thread t xs = of_thread t ys"
  shows "mset xs = mset ys"
proof (rule multiset_eqI)
  fix e
  have "count (mset zs) e = count (mset (of_thread (fst e) zs)) e" for zs :: "(nat \<times> 'a) list"
    by (simp add: of_thread_def)
  then show "count (mset xs) e = count (mset ys) e" using assms by metis
qed

lemma read_chunk_ends:
  assumes "miso_inv n rc ts S" "holding S = MR_idle"
  shows "\<exists>h b. miso_read_chunk (shared S) = Some (h, b)
    \<and> ((\<forall>x\<in>set ts. finished (tk_st x)) \<longrightarrow> (rh_result h = Success \<longleftrightarrow> readys ts \<noteq> []))"
  using assms
proof (induction ts arbitrary: rc S)
  case Nil
  let ?b = "block_status (shared S) (miso_block (shared S) (read_cursor_cache (shared S)))"
  have "?b \<noteq> st_invalid" using status_head [OF Nil.prems(1)] by (simp add: st_invalid_def)
  then obtain h b where "miso_read_chunk (shared S) = Some (h, b)" using read_once by (metis surj_pair)
  then show ?case using miso_inv_read(2) [OF Nil.prems(1) \<open>?b \<noteq> st_invalid\<close>] by auto
next
  case (Cons x xs)
  let ?b = "block_status (shared S) (miso_block (shared S) (read_cursor_cache (shared S)))"
  show ?case
  proof (cases "?b = st_invalid")
    case False
    then obtain h b where r: "miso_read_chunk (shared S) = Some (h, b)" using read_once by (metis surj_pair)
    have "tk_st x \<noteq> T_skip" using False status_head [OF Cons.prems(1)] by (auto simp: st_invalid_def)
    then show ?thesis using r miso_inv_read(2) [OF Cons.prems(1) False r] by (cases "tk_st x") auto
  next
    case True
    obtain rc' where i: "miso_inv n rc' xs (S\<lparr>shared := skip_invalid (shared S)\<rparr>)" and x: "tk_st x = T_skip"
      using inv_skip_ticket [OF Cons.prems True] by auto
    have "miso_read_chunk (shared S) = miso_read_chunk (skip_invalid (shared S))"
      using True by (subst miso_read_chunk.simps) (simp add: Let_def)
    then show ?thesis using Cons.IH [OF i] Cons.prems(2) x by simp
  qed
qed

text \<open>
  C25. \<open>read_chunk\<close> always returns; while no writing thread is inside its three calls, it succeeds exactly if a
  committed chunk has not been returned yet.
\<close>

theorem miso_read_progress:
  assumes "miso_reachable default_buffer_size S" "holding S = MR_idle"
  shows "\<exists>h b. miso_read_chunk (shared S) = Some (h, b)
    \<and> ((\<forall>t. pc S t = P_idle) \<longrightarrow> (rh_result h = Success \<longleftrightarrow> length (taken S) < length (committed S)))"
proof -
  obtain rc ts where i: "miso_inv (unat (miso_blocks_count default_buffer_size)) rc ts S" using miso_reachable_inv [OF assms(1)] by blast
  obtain h b where r: "miso_read_chunk (shared S) = Some (h, b)"
    "(\<forall>x\<in>set ts. finished (tk_st x)) \<longrightarrow> (rh_result h = Success \<longleftrightarrow> readys ts \<noteq> [])"
    using read_chunk_ends [OF i assms(2)] by blast
  obtain tagged where g: "List.map snd tagged = taken S" "\<And>t. of_thread t (committed S) = of_thread t (tagged @ readys ts)"
    using i by (auto simp: miso_inv_def history_ok_def)
  have "length (committed S) = length (tagged @ readys ts)" using of_thread_mset [OF g(2)] by (metis size_mset)
  moreover have "length (taken S) = length tagged" using g(1) length_map by metis
  ultimately have "length (taken S) < length (committed S) \<longleftrightarrow> readys ts \<noteq> []" by simp
  then show ?thesis using r idle_finished [OF i] by blast
qed

section \<open>A run\<close>

definition do_begin :: "nat \<Rightarrow> u32 \<Rightarrow> miso_sys \<Rightarrow> miso_sys" where
  "do_begin t sz S = goto t (P_check (alloc_begin sz None (shared S))) (refer t None (l_ref (alloc_begin sz None (shared S))) S)"

definition do_fill_miso :: "nat \<Rightarrow> u8 list \<Rightarrow> miso_sys \<Rightarrow> miso_sys" where
  "do_fill_miso t bs S = (case pc S t of
     P_granted h sz \<Rightarrow> goto t (P_filled h bs) (S\<lparr>shared := miso_fill_chunk h bs (shared S)\<rparr>) | _ \<Rightarrow> S)"

definition thread_next :: "nat \<Rightarrow> miso_sys \<Rightarrow> miso_sys" where
  "thread_next t S = (case pc S t of
     P_check l \<Rightarrow>
       (case check_space l (shared S) of (ok, l') \<Rightarrow>
          if ok then goto t (P_take l') (refer t (Some (l_ref l)) (l_ref l') S)
          else leave t P_idle l' (refer t (Some (l_ref l)) (l_ref l') S))
   | P_take l \<Rightarrow>
       (case take_blocks l (shared S) of (l', b) \<Rightarrow>
          goto t (if over l' b then P_over l' else P_place l') (S\<lparr>shared := b, total_written := total_written S + unat (l_need l)\<rparr>))
   | P_place l \<Rightarrow>
       (let b = place_head l (shared S) in goto t (if not_contiguous l b then P_mark l else P_finish l) (S\<lparr>shared := b\<rparr>))
   | P_finish l \<Rightarrow>
       (case finish_alloc l (shared S) of (h, l', b) \<Rightarrow>
          leave t (P_granted h (l_size l)) l' (refer t (Some (l_ref l)) (l_ref l') (S\<lparr>shared := b\<rparr>)))
   | P_filled h bs \<Rightarrow> goto t P_idle (S\<lparr>shared := miso_commit_write_chunk h (shared S), committed := committed S @ [(t, bs)]\<rparr>)
   | _ \<Rightarrow> S)"

lemma next_others: "t' \<noteq> t \<Longrightarrow> pc (thread_next t S) t' = pc S t'"
  by (simp add: thread_next_def goto_def leave_def refer_def Let_def split: miso_pc.split prod.split)

lemma next_step:
  assumes "\<And>l. pc S t = P_take l \<Longrightarrow> total_written S + unat (l_need l) - seen S t < 2 ^ 32"
  shows "thread_next t S = S \<or> miso_step S (thread_next t S) \<and> in_time S (thread_next t S)"
proof -
  have "in_time S (thread_next t S)"
    unfolding in_time_def using assms next_others by metis
  moreover have "thread_next t S = S \<or> miso_step S (thread_next t S)"
  proof (cases "pc S t")
  case (P_check l)
  obtain ok l' where c: "check_space l (shared S) = (ok, l')" by fastforce
  show ?thesis using miso_step.check [OF P_check c] by (simp only: thread_next_def P_check c miso_pc.case prod.case simp_thms)
next
  case (P_take l)
  obtain l' b where c: "take_blocks l (shared S) = (l', b)" by fastforce
  show ?thesis using miso_step.take [OF P_take c] by (simp only: thread_next_def P_take c miso_pc.case prod.case simp_thms)
next
  case (P_place l)
  show ?thesis using miso_step.place [OF P_place refl] by (simp only: thread_next_def P_place miso_pc.case Let_def simp_thms)
next
  case (P_finish l)
  obtain h l' b where c: "finish_alloc l (shared S) = (h, l', b)" by (metis prod_cases3)
  show ?thesis using miso_step.finish [OF P_finish c] by (simp only: thread_next_def P_finish c miso_pc.case prod.case simp_thms)
next
  case (P_filled h bs)
  show ?thesis using miso_step.commit [OF P_filled] by (simp only: thread_next_def P_filled miso_pc.case simp_thms)
  qed (simp_all add: thread_next_def)
  ultimately show ?thesis by blast
qed

lemma reach_next:
  assumes "miso_reachable c S" "\<And>l. pc S t = P_take l \<Longrightarrow> total_written S + unat (l_need l) - seen S t < 2 ^ 32"
  shows "miso_reachable c (thread_next t S)"
  using next_step [OF assms(2)] assms(1) miso_reachable.step by metis

lemma reach_begin:
  assumes "miso_reachable c S" "pc S t = P_idle" "unat sz + 8 < 2 ^ 32" "\<not> bad_need (miso_need sz) (shared S)"
  shows "miso_reachable c (do_begin t sz S)"
proof -
  have "in_time S (do_begin t sz S)" using assms(2) by (auto simp: in_time_def do_begin_def goto_def refer_def)
  then show ?thesis unfolding do_begin_def using miso_reachable.step [OF assms(1) begin_alloc [OF assms(2) _ assms(3,4) refl]] by blast
qed

lemma miso_reach_fill:
  assumes "miso_reachable c S" "\<And>h sz. pc S t = P_granted h sz \<Longrightarrow> length bs = unat sz"
  shows "miso_reachable c (do_fill_miso t bs S)"
proof -
  have "in_time S (do_fill_miso t bs S)" by (auto simp: in_time_def do_fill_miso_def goto_def split: miso_pc.splits)
  then show ?thesis
    using assms miso_reachable.step [OF assms(1)] miso_step.fill by (auto simp: do_fill_miso_def split: miso_pc.splits)
qed

definition zero_miso :: miso where
  "zero_miso = \<lparr>m_blocks_count = 0, m_blocks = replicate 2048 0, write_cursor = 0, read_cursor = 0, read_cursor_cache = 0,
     read_cursor_start_cache = 0, log_checksum = 0, m_mmap_state = Init_with_memory\<rparr>"

definition miso_first :: miso_sys where
  "miso_first = miso_start (miso_init_with_memory (zero_miso\<lparr>m_blocks_count := miso_blocks_count 0\<rparr>))"

lemma count_0: "miso_blocks_count 0 = 16"
  by (simp add: miso_blocks_count_def roundup_pow_of_two_def cache_line_size_def)

lemma reach_first: "miso_reachable 0 miso_first"
  unfolding miso_first_def
proof (rule miso_reachable.start)
  show "miso_usable 0 zero_miso" by (simp add: miso_usable_def zero_miso_def count_0 cache_line_size_def)
  show "miso_ring_buffer 0 0 Mmap_failed zero_miso = Some (miso_init_with_memory (zero_miso\<lparr>m_blocks_count := miso_blocks_count 0\<rparr>))"
    by (simp add: miso_ring_buffer_def)
qed simp


text \<open>One thread writes three bytes: its steps, evaluated.\<close>

definition miso_run :: "nat \<Rightarrow> miso_sys" where
  "miso_run k = (thread_next 0 ^^ k) (do_begin 0 3 miso_first)"

definition miso_demo :: miso_sys where
  "miso_demo = thread_next 0 (do_fill_miso 0 [1, 2, 3] (miso_run 4))"

lemma first_shared: "m_blocks_count (shared miso_first) = 16" "write_cursor (shared miso_first) = 0" "read_cursor (shared miso_first) = 0"
    "pc miso_first = (\<lambda>_. P_idle)" "total_written miso_first = 0" "seen miso_first = (\<lambda>_. 0)" "total_read miso_first = 0"
    "committed miso_first = []" "taken miso_first = []" "holding miso_first = MR_idle"
  using arg_cong [OF conjunct1 [OF init_statuses_spec [of "zero_miso\<lparr>m_blocks_count := 16\<rparr>" 16 16]], of m_blocks_count]
  by (simp_all add: miso_first_def miso_start_def miso_init_with_memory_def miso_reset_def count_0 zero_miso_def)


lemma need_3: "miso_need 3 = 1"
  by (simp add: miso_need_def cache_line_size_def)

definition l3 :: alloc_local where
  "l3 = \<lparr>l_size = 3, l_need = 1, l_cur = 0, l_ref = 0, l_used = 0\<rparr>"

lemma refer_first: "refer 0 None 0 miso_first = miso_first"
  by (simp add: refer_def first_shared) (simp add: miso_first_def miso_start_def fun_upd_idem)

lemma run_0: "miso_run 0 = goto 0 (P_check l3) miso_first"
  by (simp add: miso_run_def refer_first do_begin_def alloc_begin_def need_3 first_shared l3_def Let_def)

lemma run_1: "miso_run 1 = goto 0 (P_take l3) miso_first"
  using run_0 by (simp add: miso_run_def thread_next_def check_space_def goto_def refer_def l3_def Let_def first_shared word_less_nat_alt)

lemma run_2: "miso_run 2 = goto 0 (P_place l3) (miso_first\<lparr>shared := (shared miso_first)\<lparr>write_cursor := 1\<rparr>, total_written := 1\<rparr>)"
proof -
  have "miso_run 2 = thread_next 0 (miso_run 1)" by (simp add: miso_run_def numeral_2_eq_2)
  then show ?thesis unfolding run_1
    by (simp add: thread_next_def take_blocks_def over_def goto_def l3_def first_shared word_le_nat_alt)
qed

lemma run_3: "miso_run 3 = goto 0 (P_finish l3) (miso_first\<lparr>shared := place_head l3 ((shared miso_first)\<lparr>write_cursor := 1\<rparr>), total_written := 1\<rparr>)"
proof -
  have "miso_run 3 = thread_next 0 (miso_run 2)" by (simp add: miso_run_def numeral_2_eq_2 numeral_3_eq_3)
  then show ?thesis unfolding run_2
    by (simp add: thread_next_def goto_def not_contiguous_def place_head_def set_block_num_def l3_def first_shared Let_def word_less_nat_alt)
qed

lemma run_4: "\<exists>h S. miso_run 4 = S \<and> pc S 0 = P_granted h 3 \<and> committed S = [] \<and> taken S = [] \<and> holding S = MR_idle \<and> (\<forall>t. t \<noteq> 0 \<longrightarrow> pc S t = P_idle)"
proof -
  have "miso_run 4 = thread_next 0 (miso_run 3)" by (simp add: miso_run_def numeral_eq_Suc)
  then show ?thesis unfolding run_3
    by (simp add: thread_next_def finish_alloc_def goto_def leave_def refer_def l3_def first_shared Let_def split: prod.split)
qed

lemma demo_miso: "miso_reachable 0 miso_demo \<and> committed miso_demo = [(0, [1, 2, 3])] \<and> taken miso_demo = [] \<and> holding miso_demo = MR_idle
    \<and> (\<forall>t. pc miso_demo t = P_idle)"
proof -
  have "\<not> bad_need (miso_need 3) (shared miso_first)" by (simp add: bad_need_def need_3 first_shared max_block_num_per_chunk_def)
  then have r0: "miso_reachable 0 (miso_run 0)"
    using reach_begin [OF reach_first, of 0 3] by (simp add: first_shared miso_run_def)
  have run: "miso_run 1 = thread_next 0 (miso_run 0)" "miso_run 2 = thread_next 0 (miso_run 1)" "miso_run 3 = thread_next 0 (miso_run 2)"
    "miso_run 4 = thread_next 0 (miso_run 3)" by (simp_all add: miso_run_def numeral_eq_Suc)
  have r1: "miso_reachable 0 (miso_run 1)" unfolding run(1) by (rule reach_next [OF r0]) (simp add: run_0 goto_def)
  have r2: "miso_reachable 0 (miso_run 2)" unfolding run(2)
    by (rule reach_next [OF r1]) (auto simp: run_1 [unfolded One_nat_def] goto_def first_shared l3_def)
  have r3: "miso_reachable 0 (miso_run 3)" unfolding run(3) by (rule reach_next [OF r2]) (simp add: run_2 goto_def)
  have r4: "miso_reachable 0 (miso_run 4)" unfolding run(4) by (rule reach_next [OF r3]) (simp add: run_3 goto_def)
  obtain h where h: "pc (miso_run 4) 0 = P_granted h 3" "committed (miso_run 4) = []" "taken (miso_run 4) = []" "holding (miso_run 4) = MR_idle"
    "\<And>t. t \<noteq> 0 \<Longrightarrow> pc (miso_run 4) t = P_idle" using run_4 by auto
  have f: "miso_reachable 0 (do_fill_miso 0 [1, 2, 3] (miso_run 4))" by (rule miso_reach_fill [OF r4]) (use h(1) in auto)
  have "miso_reachable 0 miso_demo" unfolding miso_demo_def
    by (rule reach_next [OF f]) (use h(1) in \<open>simp add: do_fill_miso_def goto_def\<close>)
  then show ?thesis using h by (simp add: miso_demo_def thread_next_def do_fill_miso_def goto_def)
qed

lemma demo_total: "total_read miso_demo = 0"
proof -
  have n: "total_read (thread_next t S) = total_read S" for t S
    by (simp add: thread_next_def goto_def leave_def refer_def Let_def split: miso_pc.split prod.split)
  have "total_read ((thread_next t ^^ k) S) = total_read S" for t k S by (induction k) (simp_all add: n)
  then have "total_read (miso_run 4) = 0" unfolding miso_run_def by (simp add: do_begin_def goto_def refer_def first_shared)
  moreover have "total_read (do_fill_miso t bs S) = total_read S" for t bs S by (simp add: do_fill_miso_def goto_def split: miso_pc.split)
  ultimately show ?thesis by (simp add: miso_demo_def n)
qed

theorem miso_fifo_witness:
  "miso_drain 5 (shared miso_demo) = [[1, 2, 3]] \<and> (\<exists>p < 16. published_chunk (shared miso_demo) (of_nat p) = Some [1, 2, 3])"
proof -
  have t: "total_read miso_demo = 0" "unat (miso_blocks_count 0) = 16" using demo_total by (simp_all add: count_0)
  have d: "miso_reachable 0 miso_demo" "committed miso_demo = [(0, [1, 2, 3])]" "taken miso_demo = []" "holding miso_demo = MR_idle"
    "\<forall>t. pc miso_demo t = P_idle" using demo_miso by simp_all
  obtain tagged pending ps where w: "List.map snd tagged = taken miso_demo" "\<And>t. of_thread t (committed miso_demo) = of_thread t (tagged @ pending)"
    "set ps \<subseteq> {0 ..< 0 + 16}" "List.map (\<lambda>p. published_chunk (shared miso_demo) (of_nat p)) ps = List.map (\<lambda>e. Some (snd e)) pending"
    "\<And>k. miso_drain k (shared miso_demo) = List.take k (List.map snd pending)"
    using miso_fifo [OF d(1)] d(4,5) unfolding t by blast
  have "tagged = []" using w(1) d(3) by simp
  then have "of_thread t [(0, [1, 2, 3])] = of_thread t pending" for t using w(2) d(2) by simp
  then have "mset pending = mset [(0, [1, 2, 3])]" using of_thread_mset by metis
  then have p: "pending = [(0, [1, 2, 3])]" by simp
  then obtain q where "ps = [q]" "published_chunk (shared miso_demo) (of_nat q) = Some [1, 2, 3]" using w(4) by auto
  then show ?thesis using w(3) w(5) [of 5] p by auto
qed

theorem miso_read_progress_witness:
  "\<exists>h b. miso_read_chunk (shared miso_demo) = Some (h, b) \<and> rh_result h = Success"
  using miso_read_progress [of 0 miso_demo] demo_miso by simp

end
