(* ===== verification/Bignum.thy ===== *)
theory Bignum
  imports Prelude
begin

text \<open>
  The multi-precision arithmetic of \<open>src/bq_common/encryption/rsa.cpp\<close>: numbers are arrays of \<open>l\<close> limbs of 32 bits, the least
  significant limb first. Each operation is the loop of the source; the output arrays, which the source passes as pointers and which
  may be one of the inputs, are results here, because every loop reads a limb before it writes it. \<open>bn_val\<close> is
  the number an array stands for, and the lemmas state each operation as arithmetic on it.
\<close>

section \<open>Operations\<close>

definition limbs_for_bytes :: "nat \<Rightarrow> nat" where
  "limbs_for_bytes bytes = (bytes + 3) div 4"

definition bn_zero :: "nat \<Rightarrow> u32 list" where
  "bn_zero l = replicate l 0"

text \<open>The loop runs over \<open>j = l - 1 - i\<close>, from the most significant limb down.\<close>

primrec bn_ucmp :: "nat \<Rightarrow> u32 list \<Rightarrow> u32 list \<Rightarrow> int" where
  "bn_ucmp 0 a b = 0"
| "bn_ucmp (Suc j) a b = (if a ! j < b ! j then -1 else if a ! j > b ! j then 1 else bn_ucmp j a b)"

fun bn_add_loop :: "u64 \<Rightarrow> u32 list \<Rightarrow> u32 list \<Rightarrow> u32 list \<times> u64" where
  "bn_add_loop c (x # xs) (y # ys) =
     (let c = c + ucast x; c = c + ucast y; (r, c') = bn_add_loop (drop_bit 32 c) xs ys in (ucast c # r, c'))"
| "bn_add_loop c _ _ = ([], c)"

definition bn_add :: "u32 list \<Rightarrow> u32 list \<Rightarrow> u32 list \<times> u32" where
  "bn_add a b = (let (r, c) = bn_add_loop 0 a b in (r, ucast c))"

fun bn_sub_loop :: "u64 \<Rightarrow> u32 list \<Rightarrow> u32 list \<Rightarrow> u32 list \<times> u64" where
  "bn_sub_loop c (x # xs) (y # ys) =
     (let t = (ucast x :: u64) - ucast y - c; (r, c') = bn_sub_loop (drop_bit 63 t AND 1) xs ys in (ucast t # r, c'))"
| "bn_sub_loop c _ _ = ([], c)"

definition bn_sub :: "u32 list \<Rightarrow> u32 list \<Rightarrow> u32 list \<times> u32" where
  "bn_sub a b = (let (r, c) = bn_sub_loop 0 a b in (r, ucast c))"

text \<open>Bytes are big-endian; byte \<open>i\<close> from the end goes to limb \<open>i >> 2\<close>, and is dropped if there is no such limb.\<close>

definition put_byte :: "nat \<Rightarrow> u8 list \<Rightarrow> u32 list \<Rightarrow> nat \<Rightarrow> u32 list" where
  "put_byte l be x i =
     (let bi = length be - 1 - i; wi = i div 4; bo = i mod 4
      in if wi < l then x[wi := x ! wi OR push_bit (8 * bo) (ucast (be ! bi))] else x)"

definition bn_from_be_bytes :: "nat \<Rightarrow> u8 list \<Rightarrow> u32 list" where
  "bn_from_be_bytes l be = foldl (put_byte l be) (bn_zero l) [0..<length be]"

definition get_byte :: "u32 list \<Rightarrow> nat \<Rightarrow> u8" where
  "get_byte x i =
     (let wi = i div 4; bo = i mod 4
      in if wi < length x then ucast (drop_bit (8 * bo) (x ! wi) AND 0xFF) else 0)"

definition bn_to_be_bytes :: "u32 list \<Rightarrow> nat \<Rightarrow> u8 list" where
  "bn_to_be_bytes x out_len =
     foldl (\<lambda>out i. out[out_len - 1 - i := get_byte x i]) (replicate out_len 0) [0..<out_len]"

text \<open>\<open>while ((x & (1u << 31)) == 0) { x <<= 1; pos--; }\<close>, entered with a nonzero \<open>x\<close> only, so that \<open>pos\<close> stays above zero.\<close>

primrec top_bit :: "nat \<Rightarrow> u32 \<Rightarrow> nat" where
  "top_bit 0 x = 0"
| "top_bit (Suc pos) x = (if x AND push_bit 31 1 = 0 then top_bit pos (push_bit 1 x) else Suc pos)"

primrec bn_bitlen :: "nat \<Rightarrow> u32 list \<Rightarrow> nat" where
  "bn_bitlen 0 a = 0"
| "bn_bitlen (Suc j) a = (let w = a ! j in if w \<noteq> 0 then j * 32 + top_bit 31 w + 1 else bn_bitlen j a)"

definition bn_getbit :: "u32 list \<Rightarrow> nat \<Rightarrow> bool" where
  "bn_getbit a bit_index =
     (let wi = bit_index div 32; bo = bit_index mod 32
      in if wi \<ge> length a then False else drop_bit bo (a ! wi) AND 1 \<noteq> 0)"

definition mod_add :: "u32 list \<Rightarrow> u32 list \<Rightarrow> u32 list \<Rightarrow> u32 list" where
  "mod_add a b m =
     (let (tmp, carry) = bn_add a b;
          ge = (carry \<noteq> 0 \<or> bn_ucmp (length m) tmp m \<ge> 0)
      in if ge then fst (bn_sub tmp m) else tmp)"

definition mod_double :: "u32 list \<Rightarrow> u32 list \<Rightarrow> u32 list" where
  "mod_double a m =
     (let (tmp, carry) = bn_add a a;
          ge = (carry \<noteq> 0 \<or> bn_ucmp (length m) tmp m \<ge> 0)
      in if ge then fst (bn_sub tmp m) else tmp)"

definition mul_step :: "u32 list \<Rightarrow> u32 list \<Rightarrow> u32 list \<times> u32 list \<Rightarrow> nat \<Rightarrow> u32 list \<times> u32 list" where
  "mul_step b m = (\<lambda>(acc, cur) i. (if bn_getbit b i then mod_add acc cur m else acc, mod_double cur m))"

definition mod_mul_bin :: "u32 list \<Rightarrow> u32 list \<Rightarrow> u32 list \<Rightarrow> u32 list" where
  "mod_mul_bin a b m = fst (foldl (mul_step b m) (bn_zero (length m), a) [0..<bn_bitlen (length m) b])"

definition pow_step :: "u32 list \<Rightarrow> u32 list \<Rightarrow> u32 list \<times> u32 list \<Rightarrow> nat \<Rightarrow> u32 list \<times> u32 list" where
  "pow_step e m = (\<lambda>(r, t0) i. (if bn_getbit e i then mod_mul_bin r t0 m else r, mod_mul_bin t0 t0 m))"

definition mod_pow :: "u32 list \<Rightarrow> u32 list \<Rightarrow> u32 list \<Rightarrow> u32 list" where
  "mod_pow a e m = fst (foldl (pow_step e m) ((bn_zero (length m))[0 := 1], a) [0..<bn_bitlen (length m) e])"

section \<open>The number of an array\<close>

primrec bn_val :: "u32 list \<Rightarrow> nat" where
  "bn_val [] = 0"
| "bn_val (x # xs) = unat x + 2 ^ 32 * bn_val xs"

lemma unat32: "unat (x :: u32) < 2 ^ 32"
  using unat_lt2p [of x] by simp

lemma bn_val_append: "bn_val (xs @ ys) = bn_val xs + 2 ^ (32 * length xs) * bn_val ys"
  by (induction xs) (simp_all add: algebra_simps power_add)

lemma bn_val_less: "bn_val a < 2 ^ (32 * length a)"
proof (induction a)
  case (Cons x a)
  have "unat x + 2 ^ 32 * bn_val a < 2 ^ 32 * (bn_val a + 1)" using unat32 [of x] by (simp add: algebra_simps)
  also have "\<dots> \<le> 2 ^ 32 * 2 ^ (32 * length a)" using Cons by (intro mult_left_mono) simp_all
  finally show ?case by (simp add: power_add)
qed simp

lemma bn_val_zero [simp]: "bn_val (bn_zero l) = 0" "length (bn_zero l) = l"
  by (induction l) (simp_all add: bn_zero_def)

lemma bn_val_one: "0 < l \<Longrightarrow> bn_val ((bn_zero l)[0 := 1]) = 1"
  by (cases l) (auto simp: bn_zero_def, metis bn_val_zero(1) bn_zero_def)

lemma bn_val_Suc: "j < length a \<Longrightarrow> bn_val (take (Suc j) a) = bn_val (take j a) + 2 ^ (32 * j) * unat (a ! j)"
  by (simp add: take_Suc_conv_app_nth bn_val_append)

lemma bn_val_take: "bn_val (take j a) = bn_val a mod 2 ^ (32 * j)"
proof (cases "j \<le> length a")
  case True
  have "bn_val a = bn_val (take j a) + 2 ^ (32 * j) * bn_val (drop j a)"
    using True bn_val_append [of "take j a" "drop j a"] by (simp add: min_absorb2)
  then show ?thesis using bn_val_less [of "take j a"] True by (simp add: min_absorb2)
next
  case False
  then have "bn_val a < 2 ^ (32 * j)" by (intro less_le_trans [OF bn_val_less]) (simp add: power_increasing)
  then show ?thesis using False by simp
qed

lemma bn_val_inject: "length a = length b \<Longrightarrow> bn_val a = bn_val b \<longleftrightarrow> a = b"
proof (induction a b rule: list_induct2)
  case (Cons x xs y ys)
  have "unat x = unat y \<and> bn_val xs = bn_val ys" if "unat x + 2 ^ 32 * bn_val xs = unat y + 2 ^ 32 * bn_val ys"
    using that unat32 [of x] unat32 [of y]
    by (metis add.commute mod_less mod_mult_self2 add_left_imp_eq mult_cancel1 power_eq_0_iff zero_neq_numeral)
  then show ?case using Cons by (auto simp: word_unat_eq_iff)
qed simp

section \<open>What the operations compute\<close>

lemma ucmp_split:
  assumes "(x :: nat) < B" "y < B"
  shows "u < v \<Longrightarrow> x + B * u < y + B * v"
proof -
  assume "u < v"
  then have "B * (u + 1) \<le> B * v" by (intro mult_left_mono) simp_all
  then show ?thesis using assms by (simp add: algebra_simps)
qed

lemma bn_ucmp_take:
  assumes "j \<le> length a" "j \<le> length b"
  shows "bn_ucmp j a b = (if bn_val (take j a) < bn_val (take j b) then -1
     else if bn_val (take j a) > bn_val (take j b) then 1 else 0)"
  using assms
proof (induction j)
  case (Suc j)
  have l: "bn_val (take j a) < 2 ^ (32 * j)" "bn_val (take j b) < 2 ^ (32 * j)"
    using bn_val_less [of "take j a"] bn_val_less [of "take j b"] Suc.prems by (simp_all add: min_absorb2)
  note s = ucmp_split [OF l(1) l(2), of "unat (a ! j)" "unat (b ! j)"] ucmp_split [OF l(2) l(1), of "unat (b ! j)" "unat (a ! j)"]
  consider "a ! j < b ! j" | "a ! j > b ! j" | "a ! j = b ! j" by (rule linorder_cases)
  then show ?case
    using Suc s by cases (simp_all add: bn_val_Suc word_less_nat_alt)
qed simp

lemma bn_ucmp:
  "length a = l \<Longrightarrow> length b = l \<Longrightarrow>
     bn_ucmp l a b = (if bn_val a < bn_val b then -1 else if bn_val a > bn_val b then 1 else 0)"
  by (subst bn_ucmp_take) simp_all

lemma unat_ucast_32_64 [simp]: "unat (ucast (x :: u32) :: u64) = unat x"
  using unat32 [of x] by (simp add: unsigned_ucast_eq take_bit_nat_eq_self)

lemma unat_ucast_64_32: "unat (ucast (t :: u64) :: u32) = unat t mod 2 ^ 32"
  by (simp add: unsigned_ucast_eq take_bit_eq_mod)

lemma add_limb:
  assumes "unat c \<le> 1"
  shows "unat ((c + ucast (x :: u32)) + ucast (y :: u32) :: u64) = unat c + unat x + unat y"
proof -
  have b: "unat c + unat x + unat y < 2 ^ 64" using assms unat32 [of x] unat32 [of y] by simp
  then show ?thesis by (simp add: unat_word_ariths)
qed

lemma bn_add_loop:
  "length a = length b \<Longrightarrow> unat c \<le> 1 \<Longrightarrow> bn_add_loop c a b = (r, c')
    \<Longrightarrow> length r = length a \<and> unat c' \<le> 1 \<and> bn_val r + 2 ^ (32 * length a) * unat c' = bn_val a + bn_val b + unat c"
proof (induction a b arbitrary: c r c' rule: list_induct2)
  case (Cons x xs y ys)
  define t where "t = (c + ucast x) + ucast y"
  obtain r2 where r2: "bn_add_loop (drop_bit 32 t) xs ys = (r2, c')" "r = ucast t # r2"
    using Cons.prems by (auto simp: t_def Let_def split: prod.splits)
  have t: "unat t = unat c + unat x + unat y" unfolding t_def using Cons.prems by (intro add_limb) simp
  have d: "unat (drop_bit 32 t) = unat t div 2 ^ 32" unfolding unat_drop_bit_eq by (rule drop_bit_eq_div)
  then have "unat (drop_bit 32 t) \<le> 1" using t Cons.prems unat32 [of x] unat32 [of y] by (simp add: div_le_mono)
  then have IH: "length r2 = length xs" "unat c' \<le> 1"
    "bn_val r2 + 2 ^ (32 * length xs) * unat c' = bn_val xs + bn_val ys + unat t div 2 ^ 32"
    using Cons.IH [OF _ r2(1)] d by auto
  have "bn_val r + 2 ^ (32 * length (x # xs)) * unat c'
      = unat t mod 2 ^ 32 + 2 ^ 32 * (bn_val r2 + 2 ^ (32 * length xs) * unat c')"
    by (simp add: r2(2) unat_ucast_64_32 power_add algebra_simps)
  also have "\<dots> = unat t + 2 ^ 32 * (bn_val xs + bn_val ys)"
    unfolding IH(3) by (simp add: algebra_simps mod_mult_div_eq)
  finally show ?case using IH(1,2) r2(2) t by (simp add: algebra_simps)
qed simp

lemma bn_add:
  assumes "length a = l" "length b = l" "bn_add a b = (r, c)"
  shows "length r = l" "unat c \<le> 1" "bn_val r + 2 ^ (32 * l) * unat c = bn_val a + bn_val b"
proof -
  obtain c' where c': "bn_add_loop 0 a b = (r, c')" "c = ucast c'"
    using assms(3) by (auto simp: bn_add_def Let_def split: prod.splits)
  then have "length r = length a \<and> unat c' \<le> 1 \<and> bn_val r + 2 ^ (32 * length a) * unat c' = bn_val a + bn_val b + unat (0 :: u64)"
    using assms by (intro bn_add_loop [OF _ _ c'(1)]) simp_all
  then show "length r = l" "unat c \<le> 1" "bn_val r + 2 ^ (32 * l) * unat c = bn_val a + bn_val b"
    using assms c'(2) by (auto simp: unat_ucast_64_32)
qed

lemma unat_and_1: "unat (drop_bit 63 (t :: u64) AND 1) = unat t div 2 ^ 63"
proof -
  have d: "unat (drop_bit 63 t) = unat t div 2 ^ 63" unfolding unat_drop_bit_eq by (rule drop_bit_eq_div)
  also have "\<dots> < 2 ^ 1" using unat_lt2p [of t] by simp
  finally have "take_bit 1 (drop_bit 63 t) = drop_bit 63 t" by (rule take_bit_word_less)
  then have "drop_bit 63 t AND 1 = drop_bit 63 t" by (simp only: take_bit_eq_mask mask_eq_exp_minus_1) simp
  then show ?thesis by (simp only: d)
qed

lemma sub_limb:
  fixes x y :: u32
  assumes "unat c \<le> 1"
  defines "t \<equiv> (ucast x :: u64) - ucast y - c"
  shows "unat (ucast t :: u32) + unat y + unat c = unat x + 2 ^ 32 * unat (drop_bit 63 t AND 1)"
    and "unat (drop_bit 63 t AND 1) \<le> 1"
proof -
  have b: "unat x < 2 ^ 32" "unat y < 2 ^ 32" by (rule unat32)+
  have "t = of_nat (2 ^ 64 + unat x - unat y - unat c)"
    using b assms(1) by (simp add: t_def of_nat_diff of_nat_unat)
  then have "unat t = (2 ^ 64 + unat x - unat y - unat c) mod 2 ^ 64"
    by (simp add: unat_of_nat take_bit_eq_mod)
  then have t: "unat t = (if unat y + unat c \<le> unat x then unat x - unat y - unat c else 2 ^ 64 + unat x - unat y - unat c)"
    using b assms(1) by (auto simp: mod_if)
  show "unat (ucast t :: u32) + unat y + unat c = unat x + 2 ^ 32 * unat (drop_bit 63 t AND 1)" "unat (drop_bit 63 t AND 1) \<le> 1"
    unfolding unat_and_1 unat_ucast_64_32
  proof (atomize (full), cases "unat y + unat c \<le> unat x")
    case True
    define n where "n = unat x - unat y - unat c"
    have n: "unat t = n" "n < 2 ^ 32" "unat x = n + unat y + unat c" using True t b(1) by (simp_all add: n_def)
    show "unat t mod 2 ^ 32 + unat y + unat c = unat x + 2 ^ 32 * (unat t div 2 ^ 63) \<and> unat t div 2 ^ 63 \<le> 1"
      using n by simp
  next
    case False
    define n where "n = 2 ^ 32 + unat x - unat y - unat c"
    have n: "n < 2 ^ 32" "2 ^ 32 + unat x = n + unat y + unat c" using False b assms(1) by (simp_all add: n_def)
    have "unat t = n + 2 ^ 32 * (2 ^ 32 - 1)" using False t b assms(1) by (simp add: n_def)
    then have "unat t mod 2 ^ 32 = n" "unat t div 2 ^ 63 = 1" using n(1) by (simp_all only: mod_mult_self2 mod_less) simp
    then show "unat t mod 2 ^ 32 + unat y + unat c = unat x + 2 ^ 32 * (unat t div 2 ^ 63) \<and> unat t div 2 ^ 63 \<le> 1"
      using n by simp
  qed
qed

lemma bn_sub_loop:
  "length a = length b \<Longrightarrow> unat c \<le> 1 \<Longrightarrow> bn_sub_loop c a b = (r, c')
    \<Longrightarrow> length r = length a \<and> unat c' \<le> 1 \<and> bn_val r + bn_val b + unat c = bn_val a + 2 ^ (32 * length a) * unat c'"
proof (induction a b arbitrary: c r c' rule: list_induct2)
  case (Cons x xs y ys)
  define t where "t = (ucast x :: u64) - ucast y - c"
  define d where "d = drop_bit 63 t AND 1"
  obtain r2 where r2: "bn_sub_loop d xs ys = (r2, c')" "r = ucast t # r2"
    using Cons.prems by (auto simp: t_def d_def Let_def split: prod.splits)
  have t: "unat (ucast t :: u32) + unat y + unat c = unat x + 2 ^ 32 * unat d" "unat d \<le> 1"
    using sub_limb [of c x y] Cons.prems by (simp_all add: t_def d_def)
  have IH: "length r2 = length xs" "unat c' \<le> 1"
    "bn_val r2 + bn_val ys + unat d = bn_val xs + 2 ^ (32 * length xs) * unat c'"
    using Cons.IH [OF t(2) r2(1)] by auto
  have "bn_val r + bn_val (y # ys) + unat c = (unat (ucast t :: u32) + unat y + unat c) + 2 ^ 32 * (bn_val r2 + bn_val ys)"
    by (simp add: r2(2) algebra_simps)
  also have "\<dots> = unat x + 2 ^ 32 * (bn_val r2 + bn_val ys + unat d)" unfolding t(1) by (simp add: algebra_simps)
  also have "\<dots> = bn_val (x # xs) + 2 ^ (32 * length (x # xs)) * unat c'"
    unfolding IH(3) by (simp add: algebra_simps power_add)
  finally show ?case using IH(1,2) r2(2) by simp
qed simp

lemma bn_sub:
  assumes "length a = l" "length b = l" "bn_sub a b = (r, c)"
  shows "length r = l" "unat c \<le> 1" "bn_val r + bn_val b = bn_val a + 2 ^ (32 * l) * unat c"
proof -
  obtain c' where c': "bn_sub_loop 0 a b = (r, c')" "c = ucast c'"
    using assms(3) by (auto simp: bn_sub_def Let_def split: prod.splits)
  then have "length r = length a \<and> unat c' \<le> 1 \<and> bn_val r + bn_val b + unat (0 :: u64) = bn_val a + 2 ^ (32 * length a) * unat c'"
    using assms by (intro bn_sub_loop [OF _ _ c'(1)]) simp_all
  then show "length r = l" "unat c \<le> 1" "bn_val r + bn_val b = bn_val a + 2 ^ (32 * l) * unat c"
    using assms c'(2) by (auto simp: unat_ucast_64_32)
qed

lemma reduce_once:
  assumes "length tmp = l" "length m = l" "unat carry \<le> 1" "0 < bn_val m"
    and s: "bn_val tmp + 2 ^ (32 * l) * unat carry = s" and "s < 2 * bn_val m"
  defines "r \<equiv> if carry \<noteq> 0 \<or> bn_ucmp (length m) tmp m \<ge> 0 then fst (bn_sub tmp m) else tmp"
  shows "bn_val r = s mod bn_val m" "length r = l"
proof -
  obtain r' c where r': "bn_sub tmp m = (r', c)" by (cases "bn_sub tmp m")
  note b = bn_sub [OF assms(1,2) r']
  have l: "bn_val m < 2 ^ (32 * l)" "bn_val r' < 2 ^ (32 * l)"
    using bn_val_less [of m] bn_val_less [of r'] b(1) assms(2) by simp_all
  have ge: "carry \<noteq> 0 \<or> bn_ucmp (length m) tmp m \<ge> 0 \<longleftrightarrow> bn_val m \<le> s"
    using assms(1,2) s l(1) bn_ucmp [of tmp "length m" m] by (cases "unat carry") (auto simp: unat_eq_0 [symmetric] simp del: unat_eq_0)
  have "bn_val r' = s - bn_val m" if "bn_val m \<le> s"
  proof -
    have "unat c = unat carry"
    proof (rule ccontr)
      assume "unat c \<noteq> unat carry"
      then consider "unat c = 0" "unat carry = 1" | "unat c = 1" "unat carry = 0" using b(2) assms(3) by linarith
      then show False using b(3) s that l assms by cases auto
    qed
    then show ?thesis using b(3) s by simp
  qed
  then show "bn_val r = s mod bn_val m"
    using ge r' assms by (auto simp: mod_if le_mod_geq)
  show "length r = l" using b(1) assms r' by simp
qed

definition bn_residue :: "nat \<Rightarrow> u32 list \<Rightarrow> nat \<Rightarrow> u32 list \<Rightarrow> bool" where
  "bn_residue l m v a \<longleftrightarrow> length a = l \<and> bn_val a = v mod bn_val m"

lemma mod_add:
  assumes "length m = l" "0 < bn_val m" "bn_residue l m u a" "bn_residue l m v b"
  shows "bn_residue l m (u + v) (mod_add a b m)"
proof -
  obtain tmp c where t: "bn_add a b = (tmp, c)" by (cases "bn_add a b")
  have ab: "length a = l" "length b = l" "bn_val a < bn_val m" "bn_val b < bn_val m"
    using assms by (auto simp: bn_residue_def)
  note r = reduce_once [OF bn_add(1) [OF ab(1,2) t] assms(1) bn_add(2) [OF ab(1,2) t] assms(2) bn_add(3) [OF ab(1,2) t]]
  show ?thesis
    using r ab assms by (simp add: mod_add_def t bn_residue_def mod_add_eq)
qed

lemma mod_double_is_add: "mod_double a m = mod_add a a m"
  by (simp add: mod_double_def mod_add_def)

section \<open>Bits, products and powers\<close>

lemma and_1_bit: "drop_bit k (w :: 'a::len word) AND 1 \<noteq> 0 \<longleftrightarrow> bit w k"
  by (simp add: and_one_eq odd_iff_mod_2_eq_one [symmetric] bit_iff_odd_drop_bit)

lemma bit_unat: "bit (unat (w :: 'a::len word)) k = bit w k"
  by (metis bit_unsigned_iff bit_imp_le_length possible_bit_nat UNIV_I possible_bit_def)

lemma bit_limb: "bit (unat (x :: u32) + 2 ^ 32 * v) i = (if i < 32 then bit x i else bit v (i - 32))"
proof -
  have "take_bit 32 (unat x) = unat x" using unat32 [of x] by (simp only: take_bit_nat_eq_self)
  then have "int (unat x + 2 ^ 32 * v) = concat_bit 32 (int (unat x)) (int v)"
    by (metis concat_bit_eq push_bit_eq_mult take_bit_of_nat mult.commute of_nat_add of_nat_mult of_nat_numeral of_nat_power)
  then have "bit (int (unat x + 2 ^ 32 * v)) i = bit (concat_bit 32 (int (unat x)) (int v)) i" by simp
  then show ?thesis by (auto simp: bit_concat_bit_iff bit_of_nat_iff bit_uint_iff simp del: of_nat_add of_nat_mult)
qed

lemma bn_getbit: "bn_getbit a i = bit (bn_val a) i"
proof (induction a arbitrary: i)
  case (Cons x a)
  show ?case
  proof (cases "i < 32")
    case True
    then show ?thesis by (simp add: bn_getbit_def and_1_bit bit_limb [simplified])
  next
    case False
    then have "i div 32 = Suc ((i - 32) div 32)" "i mod 32 = (i - 32) mod 32" by (simp_all add: le_div_geq le_mod_geq)
    then have "bn_getbit (x # a) i = bn_getbit a (i - 32)" by (simp add: bn_getbit_def)
    then show ?thesis using False Cons [of "i - 32"] by (simp add: bit_limb [simplified])
  qed
qed (simp add: bn_getbit_def)

lemma and_push_bit_1: "k < LENGTH('a) \<Longrightarrow> (x :: 'a::len word) AND push_bit k 1 = 0 \<longleftrightarrow> \<not> bit x k"
proof -
  assume "k < LENGTH('a)"
  then have "x AND push_bit k 1 = (if bit x k then push_bit k 1 else 0)" "bit (push_bit k 1 :: 'a word) k"
    by (intro bit_word_eqI, auto simp: bit_simps)
  then show ?thesis by (metis bit_0_eq bot_apply bot_bool_def)
qed

lemma top_bit:
  "pos \<le> 31 \<Longrightarrow> unat w < 2 ^ Suc pos \<Longrightarrow> unat w < 2 ^ Suc (top_bit pos (push_bit (31 - pos) w))"
proof (induction pos)
  case (Suc pos)
  have b: "push_bit (31 - Suc pos) w AND push_bit 31 1 = 0 \<longleftrightarrow> \<not> bit w (Suc pos)"
    using Suc.prems by (subst and_push_bit_1) (auto simp: bit_push_bit_iff)
  show ?case
  proof (cases "bit w (Suc pos)")
    case True
    then show ?thesis using Suc.prems b by simp
  next
    case False
    have "i < Suc pos" if "bit w i" for i
      using bit_less_exp [OF Suc.prems(2) that] that False by (metis less_SucE)
    then have "unat w < 2 ^ Suc pos" by (rule unat_less_exp_bits)
    moreover have "push_bit 1 (push_bit (31 - Suc pos) w) = push_bit (31 - pos) w"
    proof -
      have "31 - pos = 1 + (31 - Suc pos)" using Suc.prems by simp
      then show ?thesis by (simp only: push_bit_push_bit)
    qed
    ultimately show ?thesis using Suc b False by simp
  qed
qed simp

lemma bn_bitlen_take: "j \<le> length a \<Longrightarrow> bn_val (take j a) < 2 ^ bn_bitlen j a"
proof (induction j)
  case (Suc j)
  show ?case
  proof (cases "a ! j = 0")
    case True
    then show ?thesis using Suc by (simp add: bn_val_Suc)
  next
    case False
    have "unat (a ! j) < 2 ^ Suc (top_bit 31 (a ! j))"
      using top_bit [of 31 "a ! j"] unat32 [of "a ! j"] by simp
    then have "2 ^ (32 * j) * (unat (a ! j) + 1) \<le> 2 ^ (32 * j) * 2 ^ Suc (top_bit 31 (a ! j))"
      by (intro mult_left_mono) simp_all
    moreover have "bn_val (take j a) < 2 ^ (32 * j)"
      using bn_val_less [of "take j a"] Suc.prems by (simp add: min_absorb2)
    moreover have "bn_bitlen (Suc j) a = 32 * j + Suc (top_bit 31 (a ! j))" using False by simp
    ultimately show ?thesis using Suc.prems by (simp only: bn_val_Suc power_add) (simp add: algebra_simps)
  qed
qed simp

lemma bn_bitlen: "length a = l \<Longrightarrow> bn_val a < 2 ^ bn_bitlen l a"
  using bn_bitlen_take [of l a] by simp

lemma take_bit_Suc_split: "(v :: nat) mod 2 ^ Suc i = v mod 2 ^ i + (if bit v i then 2 ^ i else 0)"
  using take_bit_Suc_from_most [of i v] by (simp add: take_bit_eq_mod)

lemma residue_mod: "bn_residue l m u a \<Longrightarrow> u mod bn_val m = v mod bn_val m \<Longrightarrow> bn_residue l m v a"
  by (simp add: bn_residue_def)

lemma mul_step: "mul_step b m (acc, cur) i = (if bn_getbit b i then mod_add acc cur m else acc, mod_double cur m)"
  by (simp add: mul_step_def)

lemma pow_step: "pow_step e m (r, t) i = (if bn_getbit e i then mod_mul_bin r t m else r, mod_mul_bin t t m)"
  by (simp add: pow_step_def)

lemma mul_steps:
  assumes "length m = l" "0 < bn_val m" "bn_residue l m u a"
  shows "bn_residue l m (u * (bn_val b mod 2 ^ n)) (fst (foldl (mul_step b m) (bn_zero l, a) [0..<n]))
    \<and> bn_residue l m (u * 2 ^ n) (snd (foldl (mul_step b m) (bn_zero l, a) [0..<n]))"
proof (induction n)
  case 0
  then show ?case using assms by (simp add: bn_residue_def)
next
  case (Suc n)
  obtain acc cur where s: "foldl (mul_step b m) (bn_zero l, a) [0..<n] = (acc, cur)" by fastforce
  then have IH: "bn_residue l m (u * (bn_val b mod 2 ^ n)) acc" "bn_residue l m (u * 2 ^ n) cur" using Suc by simp_all
  have "foldl (mul_step b m) (bn_zero l, a) [0..<Suc n] = (if bn_getbit b n then mod_add acc cur m else acc, mod_double cur m)"
    by (simp add: s mul_step)
  moreover have "u * (bn_val b mod 2 ^ Suc n) = u * (bn_val b mod 2 ^ n) + (if bit (bn_val b) n then u * 2 ^ n else 0)"
    "u * 2 ^ Suc n = u * 2 ^ n + u * 2 ^ n"
    by (simp_all only: take_bit_Suc_split) (simp_all add: algebra_simps)
  ultimately show ?case
    using IH mod_add [OF assms(1,2) IH] mod_add [OF assms(1,2) IH(2) IH(2)]
    by (simp add: bn_getbit mod_double_is_add del: power_Suc)
qed

lemma mod_mul_bin:
  assumes "length m = l" "0 < bn_val m" "bn_residue l m u a" "bn_residue l m v b"
  shows "bn_residue l m (u * v) (mod_mul_bin a b m)"
proof -
  have b: "length b = l" "bn_val b = v mod bn_val m" using assms(4) by (simp_all add: bn_residue_def)
  have "bn_residue l m (u * (bn_val b mod 2 ^ bn_bitlen l b)) (mod_mul_bin a b m)"
    using mul_steps [OF assms(1,2,3)] assms(1) by (simp add: mod_mul_bin_def)
  then show ?thesis
    using bn_bitlen [OF b(1)] b(2) by (auto elim!: residue_mod simp: mod_mult_right_eq)
qed

lemma pow_steps:
  assumes "length m = l" "1 < bn_val m" "bn_residue l m u a"
  shows "bn_residue l m (u ^ (bn_val e mod 2 ^ n)) (fst (foldl (pow_step e m) ((bn_zero l)[0 := 1], a) [0..<n]))
    \<and> bn_residue l m (u ^ 2 ^ n) (snd (foldl (pow_step e m) ((bn_zero l)[0 := 1], a) [0..<n]))"
proof (induction n)
  case 0
  have "0 < l" using assms by (cases m) auto
  then show ?case using assms by (simp add: bn_residue_def bn_val_one [simplified])
next
  case (Suc n)
  have pos: "0 < bn_val m" using assms(2) by simp
  obtain r t where s: "foldl (pow_step e m) ((bn_zero l)[0 := 1], a) [0..<n] = (r, t)" by fastforce
  then have IH: "bn_residue l m (u ^ (bn_val e mod 2 ^ n)) r" "bn_residue l m (u ^ 2 ^ n) t" using Suc by simp_all
  have "foldl (pow_step e m) ((bn_zero l)[0 := 1], a) [0..<Suc n]
      = (if bn_getbit e n then mod_mul_bin r t m else r, mod_mul_bin t t m)"
    by (simp add: s pow_step)
  then show ?case
    using IH mod_mul_bin [OF assms(1) pos IH] mod_mul_bin [OF assms(1) pos IH(2) IH(2)]
    by (auto simp: bn_getbit take_bit_Suc_split power_add mult_2 simp del: power_Suc) (simp_all add: power_add mult_2)
qed

lemma mod_pow:
  assumes "length m = l" "length a = l" "length e = l" "bn_val a < bn_val m" "1 < bn_val m"
  shows "length (mod_pow a e m) = l" "bn_val (mod_pow a e m) = bn_val a ^ bn_val e mod bn_val m"
proof -
  have "bn_residue l m (bn_val a) a" using assms by (simp add: bn_residue_def)
  then have "bn_residue l m (bn_val a ^ (bn_val e mod 2 ^ bn_bitlen l e)) (mod_pow a e m)"
    using pow_steps [OF assms(1,5), of "bn_val a" a e "bn_bitlen l e"] assms(1) by (simp add: mod_pow_def)
  then show "length (mod_pow a e m) = l" "bn_val (mod_pow a e m) = bn_val a ^ bn_val e mod bn_val m"
    using bn_bitlen [OF assms(3)] by (simp_all add: bn_residue_def)
qed

section \<open>Bytes\<close>

primrec le_val :: "u8 list \<Rightarrow> nat" where
  "le_val [] = 0"
| "le_val (b # bs) = unat b + 2 ^ 8 * le_val bs"

definition be_val :: "u8 list \<Rightarrow> nat" where
  "be_val bs = le_val (rev bs)"

lemma bit_byte: "bit (unat (b :: u8) + 2 ^ 8 * v) i = (if i < 8 then bit b i else bit v (i - 8))"
proof -
  have "take_bit 8 (unat b) = unat b" using unat_lt2p [of b] by (simp add: take_bit_nat_eq_self)
  then have "int (unat b + 2 ^ 8 * v) = concat_bit 8 (int (unat b)) (int v)"
    by (metis concat_bit_eq push_bit_eq_mult take_bit_of_nat mult.commute of_nat_add of_nat_mult of_nat_numeral of_nat_power)
  then have "bit (int (unat b + 2 ^ 8 * v)) i = bit (concat_bit 8 (int (unat b)) (int v)) i" by simp
  then show ?thesis by (auto simp: bit_concat_bit_iff bit_of_nat_iff bit_uint_iff simp del: of_nat_add of_nat_mult)
qed

lemma bit_le_val: "bit (le_val bs) i \<longleftrightarrow> i div 8 < length bs \<and> bit (bs ! (i div 8)) (i mod 8)"
proof (induction bs arbitrary: i)
  case (Cons b bs)
  show ?case
  proof (cases "i < 8")
    case False
    then have "i div 8 = Suc ((i - 8) div 8)" "i mod 8 = (i - 8) mod 8" by (simp_all add: le_div_geq le_mod_geq)
    then show ?thesis using False Cons [of "i - 8"] by (simp add: bit_byte [simplified])
  qed (simp add: bit_byte [simplified])
qed simp

lemma bit_bn_val: "bit (bn_val a) i \<longleftrightarrow> i div 32 < length a \<and> bit (a ! (i div 32)) (i mod 32)"
  unfolding bn_getbit [symmetric] by (auto simp: bn_getbit_def and_1_bit Let_def)

lemma div_mod_32_8:
  fixes i :: nat
  shows "i div 32 = i div 8 div 4" "i mod 32 = 8 * (i div 8 mod 4) + i mod 8"
  using div_mult2_eq [of i 8 4] mod_mult2_eq [of i 8 4] by simp_all

lemma put_bytes:
  "n \<le> length be \<Longrightarrow> length (foldl (put_byte l be) (bn_zero l) [0..<n]) = l
    \<and> (\<forall>w < l. \<forall>k. bit (foldl (put_byte l be) (bn_zero l) [0..<n] ! w) k
         \<longleftrightarrow> k < 32 \<and> 4 * w + k div 8 < n \<and> bit (rev be ! (4 * w + k div 8)) (k mod 8))"
proof (induction n)
  case 0
  then show ?case by (simp add: bn_zero_def)
next
  case (Suc n)
  define x where "x = foldl (put_byte l be) (bn_zero l) [0..<n]"
  have IH: "length x = l" "\<And>w k. w < l \<Longrightarrow> bit (x ! w) k
      \<longleftrightarrow> k < 32 \<and> 4 * w + k div 8 < n \<and> bit (rev be ! (4 * w + k div 8)) (k mod 8)"
    using Suc by (simp_all add: x_def)
  have b: "be ! (length be - 1 - n) = rev be ! n" using Suc.prems by (simp add: rev_nth)
  have "foldl (put_byte l be) (bn_zero l) [0..<Suc n] = put_byte l be x n" by (simp add: x_def)
  also have "\<dots> = (if n div 4 < l then x[n div 4 := x ! (n div 4) OR push_bit (8 * (n mod 4)) (ucast (rev be ! n))] else x)"
    by (simp only: put_byte_def Let_def b)
  finally have step: "foldl (put_byte l be) (bn_zero l) [0..<Suc n] = \<dots>" .
  have idx: "4 * w + k div 8 = n \<longleftrightarrow> w = n div 4 \<and> k div 8 = n mod 4" if "k < 32" for w k :: nat
    using that by (auto simp: div_less_iff_less_mult)
  have bits: "bit (push_bit (8 * (n mod 4)) (ucast (rev be ! n) :: u32)) k
      \<longleftrightarrow> k < 32 \<and> k div 8 = n mod 4 \<and> bit (rev be ! n) (k mod 8)" for k
  proof (cases "k div 8 = n mod 4")
    case True
    then have "k = 8 * (n mod 4) + k mod 8" by (metis mult_div_mod_eq)
    then show ?thesis using True by (auto simp: bit_push_bit_iff bit_ucast_iff) (metis add_diff_cancel_left')+
  next
    case False
    have "k div 8 = n mod 4" if "8 * (n mod 4) \<le> k" "k - 8 * (n mod 4) < 8"
      using that by (intro div_nat_eqI) auto
    then have "\<not> (8 * (n mod 4) \<le> k \<and> k - 8 * (n mod 4) < 8)" using False by blast
    then show ?thesis using False by (auto simp: bit_push_bit_iff bit_ucast_iff dest: bit_imp_le_length)
  qed
  show ?case
    unfolding step using IH idx bits by (auto simp: nth_list_update bit_or_iff less_Suc_eq)
qed

lemma bn_from_be_bytes:
  "length (bn_from_be_bytes l be) = l" "bn_val (bn_from_be_bytes l be) = be_val be mod 2 ^ (32 * l)"
proof -
  note p = put_bytes [of "length be" be l, simplified]
  show "length (bn_from_be_bytes l be) = l" using p by (simp add: bn_from_be_bytes_def)
  show "bn_val (bn_from_be_bytes l be) = be_val be mod 2 ^ (32 * l)"
  proof (rule bit_eqI)
    fix i
    have "4 * (i div 32) + i mod 32 div 8 = i div 8" "i mod 32 mod 8 = i mod 8" "i < 32 * l \<longleftrightarrow> i div 32 < l"
      by (simp_all add: div_mod_32_8 div_less_iff_less_mult mult.commute)
    then show "bit (bn_val (bn_from_be_bytes l be)) i = bit (be_val be mod 2 ^ (32 * l)) i"
      using p by (auto simp: bit_bn_val bit_le_val be_val_def bn_from_be_bytes_def bit_take_bit_iff simp flip: take_bit_eq_mod)
  qed
qed

lemma bit_get_byte: "bit (get_byte x i) k \<longleftrightarrow> k < 8 \<and> bit (bn_val x) (8 * i + k)"
proof (cases "k < 8")
  case True
  then have d: "(8 * i + k) div 32 = i div 4" "(8 * i + k) mod 32 = 8 * (i mod 4) + k" by (simp_all add: div_mod_32_8)
  have "bit (0xFF :: u32) k" using True bit_mask_iff [where 'a = u32, of 8 k] by (simp add: mask_eq_exp_minus_1)
  then show ?thesis
    using True by (auto simp: get_byte_def Let_def bit_bn_val d bit_ucast_iff bit_and_iff bit_drop_bit_eq)
qed (auto dest: bit_imp_le_length)

lemma bn_to_be_bytes_eq: "bn_to_be_bytes x n = rev (map (get_byte x) [0..<n])"
proof -
  have "k \<le> n \<Longrightarrow> foldl (\<lambda>out i. out[n - 1 - i := get_byte x i]) (replicate n 0) [0..<k]
      = replicate (n - k) 0 @ rev (map (get_byte x) [0..<k])" for k
  proof (induction k)
    case (Suc k)
    then have "replicate (n - k) (0 :: u8) = replicate (n - Suc k) 0 @ [0]"
      by (metis Suc_diff_Suc Suc_le_lessD replicate_Suc replicate_append_same)
    then show ?case using Suc by (simp add: list_update_append)
  qed simp
  from this [of n] show ?thesis by (simp add: bn_to_be_bytes_def)
qed

lemma length_bn_to_be_bytes [simp]: "length (bn_to_be_bytes x n) = n"
  by (simp add: bn_to_be_bytes_eq)

lemma be_val_to_be_bytes: "be_val (bn_to_be_bytes x n) = bn_val x mod 2 ^ (8 * n)"
proof (rule bit_eqI)
  fix i :: nat
  have "bit (be_val (bn_to_be_bytes x n)) i \<longleftrightarrow> i div 8 < n \<and> bit (bn_val x) i"
    by (auto simp: be_val_def bn_to_be_bytes_eq bit_le_val bit_get_byte)
  then show "bit (be_val (bn_to_be_bytes x n)) i = bit (bn_val x mod 2 ^ (8 * n)) i"
    by (simp add: bit_take_bit_iff div_less_iff_less_mult mult.commute flip: take_bit_eq_mod)
qed

lemma be_val_inject: "length a = length b \<Longrightarrow> be_val a = be_val b \<longleftrightarrow> a = b"
proof -
  have "length c = length d \<Longrightarrow> le_val c = le_val d \<Longrightarrow> c = d" for c d
  proof (rule nth_equalityI)
    fix i assume h: "length c = length d" "le_val c = le_val d" "i < length c"
    show "c ! i = d ! i"
    proof (rule bit_word_eqI)
      fix k assume "k < LENGTH(8)"
      then show "bit (c ! i) k = bit (d ! i) k"
        using h bit_le_val [of c "8 * i + k"] bit_le_val [of d "8 * i + k"] by simp
    qed
  qed simp
  from this [of "rev a" "rev b"] show "length a = length b \<Longrightarrow> be_val a = be_val b \<longleftrightarrow> a = b"
    by (auto simp: be_val_def)
qed

lemma be_val_zeros: "be_val (replicate k 0 @ bs) = be_val bs"
proof -
  have "le_val (c @ replicate k 0) = le_val c" for c
    by (rule bit_eqI) (auto simp: bit_le_val nth_append)
  then show ?thesis by (simp add: be_val_def)
qed

lemma be_val_less: "be_val bs < 2 ^ (8 * length bs)"
proof -
  have "take_bit (8 * length c) (le_val c) = le_val c" for c
    by (rule bit_eqI) (auto simp: bit_take_bit_iff bit_le_val div_less_iff_less_mult mult.commute)
  then show ?thesis by (metis be_val_def length_rev take_bit_nat_less_exp)
qed

lemma bn_to_be_bytes_pad:
  assumes "bn_val x = be_val bs" "length bs \<le> n"
  shows "bn_to_be_bytes x n = replicate (n - length bs) 0 @ bs"
proof -
  have "(2 :: nat) ^ (8 * length bs) \<le> 2 ^ (8 * n)" using assms(2) by (intro power_increasing) simp_all
  then have "be_val bs < 2 ^ (8 * n)" using be_val_less [of bs] by linarith
  then show ?thesis
    using assms by (subst be_val_inject [symmetric]) (simp_all add: be_val_to_be_bytes be_val_zeros)
qed

end
