(* ===== verification/Rsa.thy ===== *)
theory Rsa
  imports Bignum
begin

text \<open>
  The operations \<open>encrypt\<close> and \<open>decrypt\<close> of \<open>src/bq_common/encryption/rsa.cpp\<close> (raw RSA, no padding). Keys hold their numbers as
  big-endian bytes. The number theory behind the round trip is proved here from the definition of a prime.
\<close>

section \<open>Keys and results\<close>

record public_key =
  pub_n :: "u8 list"
  pub_e :: "u8 list"

record private_key =
  pri_n :: "u8 list"
  pri_e :: "u8 list"
  pri_d :: "u8 list"
  pri_p :: "u8 list"
  pri_q :: "u8 list"
  pri_dp :: "u8 list"
  pri_dq :: "u8 list"
  pri_qinv :: "u8 list"

text \<open>\<open>Overread\<close> stands for a read past the end of an array, which the source does not check.\<close>

datatype 'a rsa_result = Rsa_ok 'a | Rsa_fail | Overread

section \<open>Operations\<close>

definition rsa_encrypt :: "public_key \<Rightarrow> u8 list \<Rightarrow> u8 list rsa_result" where
  "rsa_encrypt pub plaintext =
     (case plaintext of
        [] \<Rightarrow> Overread
      | b # _ \<Rightarrow>
          if b = 0 then Rsa_fail
          else if pub_n pub = [] then Rsa_fail
          else if pub_e pub = [] then Rsa_fail
          else
            (let k_bytes = length (pub_n pub)
             in if length plaintext > k_bytes then Rsa_fail
                else
                  (let l = limbs_for_bytes k_bytes;
                       n_l = bn_from_be_bytes l (pub_n pub);
                       e_l = bn_from_be_bytes l (pub_e pub);
                       m_l = bn_from_be_bytes l plaintext
                   in if bn_ucmp l m_l n_l \<ge> 0 then Rsa_fail
                      else Rsa_ok (bn_to_be_bytes (mod_pow m_l e_l n_l) k_bytes))))"

text \<open>The bytes without leading zeros; of zero the source copies one byte from behind the array.\<close>

definition fixed_limbs_to_min_be :: "u32 list \<Rightarrow> u8 list rsa_result" where
  "fixed_limbs_to_min_be x =
     (let k = length x * 4;
          tmp = bn_to_be_bytes x k;
          i = length (takeWhile (\<lambda>b. b = 0) tmp)
      in if i = k then Overread else Rsa_ok (take (k - i) (drop i tmp)))"

definition rsa_decrypt :: "private_key \<Rightarrow> u8 list \<Rightarrow> u8 list rsa_result" where
  "rsa_decrypt pri ciphertext =
     (if pri_n pri = [] then Rsa_fail
      else if pri_d pri = [] then Rsa_fail
      else
        (let k_bytes = length (pri_n pri)
         in if length ciphertext \<noteq> k_bytes then Rsa_fail
            else
              (let l = limbs_for_bytes k_bytes;
                   n_l = bn_from_be_bytes l (pri_n pri);
                   d_l = bn_from_be_bytes l (pri_d pri);
                   c_l = bn_from_be_bytes l ciphertext
               in if bn_ucmp l c_l n_l \<ge> 0 then Rsa_fail
                  else fixed_limbs_to_min_be (mod_pow c_l d_l n_l))))"

section \<open>Fermat's theorem\<close>

definition is_prime :: "nat \<Rightarrow> bool" where
  "is_prime p \<longleftrightarrow> 1 < p \<and> (\<forall>d \<in> {2..<p}. \<not> d dvd p)"

lemma prime_coprime:
  assumes "is_prime p" "\<not> p dvd a"
  shows "coprime p a"
proof -
  have g: "gcd p a dvd p" by simp
  have "gcd p a \<noteq> p" using assms(2) gcd_dvd2 [of p a] by metis
  moreover have "gcd p a \<le> p" "0 < gcd p a" using dvd_imp_le [OF g] assms(1) by (auto simp: is_prime_def)
  ultimately have "gcd p a = 1 \<or> gcd p a \<in> {2..<p}" unfolding atLeastLessThan_iff by linarith
  then have "gcd p a = 1" using assms(1) g by (auto simp: is_prime_def)
  then show ?thesis by (simp add: coprime_iff_gcd_eq_1)
qed

lemma prime_dvd_mult: "is_prime p \<Longrightarrow> p dvd a * b \<Longrightarrow> p dvd a \<or> p dvd b"
  using prime_coprime [of p a] coprime_dvd_mult_right_iff [of p a b] by blast

lemma prime_not_dvd_fact: "is_prime p \<Longrightarrow> k < p \<Longrightarrow> \<not> p dvd fact k"
proof (induction k)
  case (Suc k)
  have "\<not> p dvd Suc k" using Suc.prems by (auto dest: dvd_imp_le)
  then show ?case using Suc prime_dvd_mult [of p "Suc k" "fact k"] by (auto simp: fact_Suc)
qed (simp add: is_prime_def)

lemma prime_dvd_choose:
  assumes "is_prime p" "0 < k" "k < p"
  shows "p dvd p choose k"
proof -
  have "fact k * fact (p - k) * (p choose k) = (fact p :: nat)" using assms by (intro binomial_fact_lemma) simp
  moreover have "p dvd fact p" using assms by (intro dvd_fact) (simp_all add: is_prime_def)
  ultimately have "p dvd fact k * (fact (p - k) * (p choose k))" by (simp add: mult.assoc)
  moreover have "\<not> p dvd fact k" "\<not> p dvd fact (p - k)" using assms by (simp_all add: prime_not_dvd_fact)
  ultimately show ?thesis using prime_dvd_mult [OF assms(1)] by blast
qed

lemma fermat:
  assumes p: "is_prime p"
  shows "a ^ p mod p = a mod p"
proof (induction a)
  case 0
  then show ?case using p by (simp add: is_prime_def power_0_left)
next
  case (Suc a)
  have p1: "1 < p" using p by (simp add: is_prime_def)
  have "(a + 1) ^ p = (\<Sum>k\<le>p. (p choose k) * a ^ k)"
    using binomial [of a 1 p] by simp
  also have "\<dots> = (\<Sum>k\<in>{0, p}. (p choose k) * a ^ k) + (\<Sum>k\<in>{1..<p}. (p choose k) * a ^ k)"
  proof -
    have "{..p} = {0, p} \<union> {1..<p}" using p1 by auto
    then show ?thesis using p1 by (simp add: sum.union_disjoint)
  qed
  also have "(\<Sum>k\<in>{0, p}. (p choose k) * a ^ k) = 1 + a ^ p" using p1 by simp
  finally have e: "Suc a ^ p = 1 + a ^ p + (\<Sum>k\<in>{1..<p}. (p choose k) * a ^ k)" by simp
  have "p dvd (\<Sum>k\<in>{1..<p}. (p choose k) * a ^ k)"
    using p by (intro dvd_sum) (simp add: prime_dvd_choose dvd_mult2)
  then have "Suc a ^ p mod p = (1 + a ^ p) mod p" unfolding e by (auto elim!: dvdE)
  then show ?case using Suc by (metis mod_add_right_eq plus_1_eq_Suc)
qed

lemma fermat_power:
  assumes "is_prime p"
  shows "a ^ (1 + k * (p - 1)) mod p = a mod p"
proof (induction k)
  case (Suc k)
  have "1 + Suc k * (p - 1) = k * (p - 1) + p" using assms by (simp add: is_prime_def)
  then have "a ^ (1 + Suc k * (p - 1)) mod p = a ^ (k * (p - 1)) * (a ^ p mod p) mod p" by (simp only: power_add mod_mult_right_eq)
  also have "\<dots> = a ^ (1 + k * (p - 1)) mod p" by (simp add: fermat [OF assms] mod_simps mult.commute)
  finally show ?case using Suc by simp
qed simp

lemma mod_prod_eq:
  assumes "coprime p q" "(x :: nat) mod p = y mod p" "x mod q = y mod q"
  shows "x mod (p * q) = y mod (p * q)"
proof -
  have "int x mod int p = int y mod int p" "int x mod int q = int y mod int q"
    using assms(2,3) by (metis of_nat_mod)+
  then have "int p dvd int x - int y" "int q dvd int x - int y" by (simp_all add: mod_eq_dvd_iff)
  then have "int p * int q dvd int x - int y" using assms(1) by (intro divides_mult) simp_all
  then have "int x mod int (p * q) = int y mod int (p * q)" by (simp add: mod_eq_dvd_iff)
  then show ?thesis by (metis of_nat_mod of_nat_eq_iff)
qed

lemma rsa_inverse:
  assumes p: "is_prime p" and q: "is_prime q" and "p \<noteq> q" and ed: "e * d mod ((p - 1) * (q - 1)) = 1"
  shows "(x ^ e mod (p * q)) ^ d mod (p * q) = x mod (p * q)"
proof -
  have "\<not> p dvd q" using p q \<open>p \<noteq> q\<close> dvd_imp_le [of p q] by (auto simp: is_prime_def)
  then have cop: "coprime p q" using p by (intro prime_coprime)
  define k where "k = e * d div ((p - 1) * (q - 1))"
  have "e * d = k * ((p - 1) * (q - 1)) + 1" using ed div_mult_mod_eq [of "e * d" "(p - 1) * (q - 1)"] by (simp add: k_def)
  then have k: "e * d = 1 + (k * (q - 1)) * (p - 1)" "e * d = 1 + (k * (p - 1)) * (q - 1)" by (simp_all add: mult_ac)
  have "(x ^ e mod (p * q)) ^ d mod (p * q) = x ^ (e * d) mod (p * q)" by (simp add: power_mod power_mult)
  also have "\<dots> = x mod (p * q)"
    using fermat_power [OF p, of x "k * (q - 1)"] fermat_power [OF q, of x "k * (p - 1)"] k
    by (intro mod_prod_eq [OF cop]) metis+
  finally show ?thesis .
qed

section \<open>Properties\<close>

lemma unat_pos_take: "be_val (b # bs) = unat b * 2 ^ (8 * length bs) + be_val bs"
proof -
  have "le_val (c @ [b]) = le_val c + 2 ^ (8 * length c) * unat b" for c
    by (induction c) (simp_all add: algebra_simps power_add)
  then show ?thesis by (simp add: be_val_def)
qed

lemma be_val_pos: "b \<noteq> 0 \<Longrightarrow> 0 < be_val (b # bs)"
  by (simp add: unat_pos_take) (metis gr0I unat_eq_0)

lemma limb_room: "k \<le> 4 * limbs_for_bytes k" "32 * limbs_for_bytes k < 8 * k + 32"
  by (simp_all add: limbs_for_bytes_def)

lemma be_val_fits: "length bs \<le> k \<Longrightarrow> be_val bs mod 2 ^ (32 * limbs_for_bytes k) = be_val bs"
proof -
  assume "length bs \<le> k"
  then have "(2 :: nat) ^ (8 * length bs) \<le> 2 ^ (32 * limbs_for_bytes k)"
    using limb_room(1) [of k] by (intro power_increasing) simp_all
  then show ?thesis using be_val_less [of bs] by (metis mod_less less_le_trans)
qed

lemma residue_fits: "0 < be_val bs \<Longrightarrow> x mod be_val bs mod 2 ^ (8 * length bs) = x mod be_val bs"
  using be_val_less [of bs] by (metis mod_less less_trans mod_less_divisor)

lemma rsa_encrypt_accepts:
  assumes pt: "pt \<noteq> []" "hd pt \<noteq> 0" "pub_e pub \<noteq> []" "length pt \<le> length (pub_n pub)" "be_val pt < be_val (pub_n pub)"
  obtains c where "rsa_encrypt pub pt = Rsa_ok c" "length c = length (pub_n pub)"
    "be_val c = be_val pt ^ (be_val (pub_e pub) mod 2 ^ (32 * limbs_for_bytes (length (pub_n pub)))) mod be_val (pub_n pub)"
proof -
  obtain b bs where bs: "pt = b # bs" "b \<noteq> 0" using pt by (cases pt) auto
  define l where "l = limbs_for_bytes (length (pub_n pub))"
  have v: "bn_val (bn_from_be_bytes l pt) = be_val pt" "bn_val (bn_from_be_bytes l (pub_n pub)) = be_val (pub_n pub)"
    using pt by (simp_all add: bn_from_be_bytes l_def be_val_fits)
  note len = bn_from_be_bytes(1) [of l]
  have n: "1 < be_val (pub_n pub)" using pt(5) be_val_pos [OF bs(2), of bs] bs(1) by simp
  note p = mod_pow [OF len len len, of pt "pub_n pub" "pub_e pub", unfolded v, OF pt(5) n, unfolded bn_from_be_bytes(2)]
  show ?thesis
  proof (rule that)
    have "bn_ucmp l (bn_from_be_bytes l pt) (bn_from_be_bytes l (pub_n pub)) = -1"
      using bn_ucmp [OF len len, of pt "pub_n pub", unfolded v] pt(5) by simp
    moreover have "pub_n pub \<noteq> []" using pt by auto
    ultimately show "rsa_encrypt pub pt = Rsa_ok (bn_to_be_bytes
        (mod_pow (bn_from_be_bytes l pt) (bn_from_be_bytes l (pub_e pub)) (bn_from_be_bytes l (pub_n pub))) (length (pub_n pub)))"
      using pt bs by (simp add: rsa_encrypt_def Let_def l_def)
  qed (use p n in \<open>simp_all add: be_val_to_be_bytes residue_fits [simplified] l_def\<close>)
qed

lemma rsa_encrypt_refuses:
  assumes "pt \<noteq> []" "hd pt = 0 \<or> pub_e pub = [] \<or> length pt > length (pub_n pub) \<or> be_val pt \<ge> be_val (pub_n pub)"
  shows "rsa_encrypt pub pt = Rsa_fail"
proof -
  define l where "l = limbs_for_bytes (length (pub_n pub))"
  note len = bn_from_be_bytes(1) [of l]
  show ?thesis
  proof (cases "hd pt = 0 \<or> pub_n pub = [] \<or> pub_e pub = [] \<or> length pt > length (pub_n pub)")
    case True
    then show ?thesis using assms(1) by (cases pt) (auto simp: rsa_encrypt_def)
  next
    case False
    then have v: "bn_val (bn_from_be_bytes l pt) = be_val pt" "bn_val (bn_from_be_bytes l (pub_n pub)) = be_val (pub_n pub)"
      by (simp_all add: bn_from_be_bytes l_def be_val_fits)
    have "bn_ucmp l (bn_from_be_bytes l pt) (bn_from_be_bytes l (pub_n pub)) \<ge> 0"
      using bn_ucmp [OF len len, of pt "pub_n pub", unfolded v] assms(2) False by auto
    then show ?thesis using assms(1) by (cases pt) (auto simp: rsa_encrypt_def Let_def l_def)
  qed
qed

text \<open>
  C38. \<open>encrypt\<close> is modular exponentiation: a nonempty plaintext is refused exactly if it begins with a zero byte, the key has an empty part,
  or the plaintext is longer or not smaller than the modulus; otherwise the ciphertext has the length of the modulus and is
  the power of the plaintext modulo it. The exponent counts only as far as it fits in the limbs of the modulus.
\<close>

theorem rsa_encrypt_spec:
  assumes "pt \<noteq> []"
  shows "case rsa_encrypt pub pt of
      Rsa_ok c \<Rightarrow> hd pt \<noteq> 0 \<and> pub_e pub \<noteq> [] \<and> length pt \<le> length (pub_n pub) \<and> be_val pt < be_val (pub_n pub)
        \<and> length c = length (pub_n pub)
        \<and> be_val c = be_val pt ^ (be_val (pub_e pub) mod 2 ^ (32 * limbs_for_bytes (length (pub_n pub)))) mod be_val (pub_n pub)
    | Rsa_fail \<Rightarrow> hd pt = 0 \<or> pub_e pub = [] \<or> length pt > length (pub_n pub) \<or> be_val pt \<ge> be_val (pub_n pub)
    | Overread \<Rightarrow> False"
proof (cases "hd pt = 0 \<or> pub_e pub = [] \<or> length pt > length (pub_n pub) \<or> be_val pt \<ge> be_val (pub_n pub)")
  case True
  then show ?thesis using rsa_encrypt_refuses [OF assms, of pub] by simp
next
  case False
  then show ?thesis using assms by (auto intro: rsa_encrypt_accepts [of pt pub])
qed

theorem rsa_encrypt_spec_witness:
  "case rsa_encrypt \<lparr>pub_n = [143], pub_e = [7]\<rparr> [5] of
      Rsa_ok c \<Rightarrow> length c = 1 \<and> be_val c = 47
    | Rsa_fail \<Rightarrow> False | Overread \<Rightarrow> False"
  using rsa_encrypt_spec [of "[5]" "\<lparr>pub_n = [143], pub_e = [7]\<rparr>"]
  by (simp add: be_val_def limbs_for_bytes_def split: rsa_result.splits)

text \<open>A key pair: the modulus is a product of two different primes and the exponents are inverse modulo \<open>(p - 1) * (q - 1)\<close>.\<close>

definition rsa_pair :: "nat \<Rightarrow> nat \<Rightarrow> public_key \<Rightarrow> private_key \<Rightarrow> bool" where
  "rsa_pair p q pub pri \<longleftrightarrow> is_prime p \<and> is_prime q \<and> p \<noteq> q \<and> be_val (pub_n pub) = p * q \<and> pri_n pri = pub_n pub
     \<and> be_val (pub_e pub) * be_val (pri_d pri) mod ((p - 1) * (q - 1)) = 1
     \<and> pub_e pub \<noteq> [] \<and> length (pub_e pub) \<le> length (pub_n pub) \<and> pri_d pri \<noteq> [] \<and> length (pri_d pri) \<le> length (pub_n pub)"

lemma takeWhile_zeros: "b \<noteq> 0 \<Longrightarrow> takeWhile (\<lambda>b. b = 0) (replicate k 0 @ b # bs) = replicate k (0 :: u8)"
  by (induction k) simp_all

lemma min_be:
  assumes "bn_val x = be_val (b # bs)" "b \<noteq> 0" "Suc (length bs) \<le> 4 * length x"
  shows "fixed_limbs_to_min_be x = Rsa_ok (b # bs)"
  using assms bn_to_be_bytes_pad [of x "b # bs" "length x * 4"] by (simp add: fixed_limbs_to_min_be_def takeWhile_zeros mult.commute Let_def)

lemma rsa_roundtrip:
  assumes key: "rsa_pair p q pub pri"
    and pt: "pt \<noteq> []" "hd pt \<noteq> 0" "length pt \<le> length (pub_n pub)" "be_val pt < be_val (pub_n pub)"
  shows "\<exists>c. rsa_encrypt pub pt = Rsa_ok c \<and> length c = length (pub_n pub) \<and> rsa_decrypt pri c = Rsa_ok pt"
proof -
  define n where "n = be_val (pub_n pub)"
  define k where "k = length (pub_n pub)"
  define l where "l = limbs_for_bytes k"
  obtain c where c: "rsa_encrypt pub pt = Rsa_ok c" "length c = k" "be_val c = be_val pt ^ be_val (pub_e pub) mod n"
    using rsa_encrypt_accepts [of pt pub] key pt by (auto simp: rsa_pair_def n_def k_def be_val_fits)
  obtain b bs where bs: "pt = b # bs" "b \<noteq> 0" using pt by (cases pt) auto
  have n: "1 < n" using be_val_pos [OF bs(2), of bs] pt(4) bs(1) by (simp add: n_def)
  have less: "be_val c < n" using c(3) n by simp
  have v: "bn_val (bn_from_be_bytes l c) = be_val c" "bn_val (bn_from_be_bytes l (pub_n pub)) = n"
    "bn_val (bn_from_be_bytes l (pri_d pri)) = be_val (pri_d pri)"
    using c(2) key be_val_fits [of "pub_n pub" k] be_val_fits [of "pri_d pri" k] be_val_fits [of c k]
    unfolding rsa_pair_def bn_from_be_bytes l_def n_def k_def by (metis order_refl)+
  note len = bn_from_be_bytes(1) [of l]
  note p = mod_pow [OF len len len, of c "pub_n pub" "pri_d pri", unfolded v, OF less n]
  have "be_val c ^ be_val (pri_d pri) mod n = be_val pt"
    using rsa_inverse [of p q "be_val (pub_e pub)" "be_val (pri_d pri)" "be_val pt"] key pt(4) c(3)
    by (simp add: rsa_pair_def n_def)
  then have "fixed_limbs_to_min_be (mod_pow (bn_from_be_bytes l c) (bn_from_be_bytes l (pri_d pri)) (bn_from_be_bytes l (pub_n pub))) = Rsa_ok pt"
    using p bs pt(3) limb_room(1) [of k] by (simp only: bs(1)) (rule min_be, simp_all add: l_def k_def)
  moreover have "pri_n pri = pub_n pub" "pri_d pri \<noteq> []" "pub_n pub \<noteq> []" using key pt by (auto simp: rsa_pair_def)
  ultimately have "rsa_decrypt pri c = Rsa_ok pt"
    using bn_ucmp [OF len len, of c "pub_n pub", unfolded v] less c(2)
    by (simp add: rsa_decrypt_def Let_def l_def k_def)
  then show ?thesis using c(1,2) k_def by blast
qed

text \<open>
  C16. With a key pair, \<open>encrypt\<close> accepts every plaintext that does not begin with a zero byte, is no longer than the modulus and
  smaller as a number, and \<open>decrypt\<close> gives exactly its bytes back.
\<close>

theorem rsa_decrypt_encrypt:
  assumes key: "rsa_pair p q pub pri"
    and pt: "pt \<noteq> []" "hd pt \<noteq> 0" "length pt \<le> length (pub_n pub)" "be_val pt < be_val (pub_n pub)"
  shows "\<exists>c. rsa_encrypt pub pt = Rsa_ok c \<and> rsa_decrypt pri c = Rsa_ok pt"
  using rsa_roundtrip [OF assms] by blast

theorem rsa_decrypt_encrypt_witness:
  "\<exists>c. rsa_encrypt \<lparr>pub_n = [143], pub_e = [7]\<rparr> [5] = Rsa_ok c
    \<and> rsa_decrypt \<lparr>pri_n = [143], pri_e = [7], pri_d = [103], pri_p = [11], pri_q = [13], pri_dp = [], pri_dq = [], pri_qinv = []\<rparr> c = Rsa_ok [5]"
proof (rule rsa_decrypt_encrypt)
  show "rsa_pair 11 13 \<lparr>pub_n = [143], pub_e = [7]\<rparr>
      \<lparr>pri_n = [143], pri_e = [7], pri_d = [103], pri_p = [11], pri_q = [13], pri_dp = [], pri_dq = [], pri_qinv = []\<rparr>"
    by (simp add: rsa_pair_def be_val_def) code_simp
qed (simp_all add: be_val_def)

end
