(* ===== verification/Log_Args.thy ===== *)
theory Log_Args
  imports Utf_Mixed
begin

text \<open>
  How a log call lays its arguments out in the log buffer: \<open>bq::tools\<close> of \<open>include/bq_log/misc/bq_log_wrapper_tools.h\<close> and
  \<open>_do_log_args_fill\<close> of \<open>bq_log_impl.h\<close>, with the type information (\<open>INCLUDE_TYPE_INFO\<close>). Memory is a list of cells; \<open>None\<close> is a
  cell nothing was written to, so that the padding between arguments is part of the model. A read outside of a source text, or
  of a cell that was not written, is \<open>None\<close>.
\<close>

section \<open>Memory with unwritten cells\<close>

type_synonym mem = "u8 option list"

definition read_mem :: "nat \<Rightarrow> nat \<Rightarrow> mem \<Rightarrow> u8 list option" where
  "read_mem off n m = (if off + n \<le> length m then those (take n (drop off m)) else None)"

definition align_4 :: "nat \<Rightarrow> nat" where
  "align_4 n = (n + 3) div 4 * 4"

section \<open>Argument types\<close>

datatype log_arg_type_enum = Unsupported_type | Null_type | Pointer_type | Bool_type | Char_type | Char16_type | Char32_type
  | Int8_type | Uint8_type | Int16_type | Uint16_type | Int32_type | Uint32_type | Int64_type | Uint64_type
  | Float_type | Double_type | String_utf8_type | String_utf16_type | String_utf32_type | String_utf_mixed_type

definition arg_types :: "log_arg_type_enum list" where
  "arg_types = [Unsupported_type, Null_type, Pointer_type, Bool_type, Char_type, Char16_type, Char32_type, Int8_type, Uint8_type,
     Int16_type, Uint16_type, Int32_type, Uint32_type, Int64_type, Uint64_type, Float_type, Double_type,
     String_utf8_type, String_utf16_type, String_utf32_type, String_utf_mixed_type]"

text \<open>The number of a type, and the type a byte stands for.\<close>

definition arg_code :: "log_arg_type_enum \<Rightarrow> u8" where
  "arg_code t = of_nat (length (takeWhile (\<lambda>x. x \<noteq> t) arg_types))"

definition arg_type_of :: "u8 \<Rightarrow> log_arg_type_enum option" where
  "arg_type_of b = (if unat b < length arg_types then Some (arg_types ! unat b) else None)"

text \<open>
  The arguments by the C++ type the call was made with. A floating point number is its bit pattern. A text is \<open>None\<close> for a null pointer,
  otherwise the characters its size function counts, and for a \<open>char32_t\<close> text the memory it starts.
\<close>

datatype log_arg = Arg_nullptr | Arg_pointer u64 | Arg_bool u8 | Arg_char u8 | Arg_char16 u16 | Arg_char32 u32
  | Arg_int8 u8 | Arg_uint8 u8 | Arg_int16 u16 | Arg_uint16 u16 | Arg_int32 u32 | Arg_uint32 u32
  | Arg_int64 u64 | Arg_uint64 u64 | Arg_float u32 | Arg_double u64
  | Arg_utf8 "u8 list option" | Arg_utf16 "u16 list option" | Arg_utf32 "(nat \<times> u32 list) option"

fun get_log_param_type_enum :: "log_arg \<Rightarrow> log_arg_type_enum" where
  "get_log_param_type_enum Arg_nullptr = Null_type"
| "get_log_param_type_enum (Arg_pointer _) = Pointer_type"
| "get_log_param_type_enum (Arg_bool _) = Bool_type"
| "get_log_param_type_enum (Arg_char _) = Char_type"
| "get_log_param_type_enum (Arg_char16 _) = Char16_type"
| "get_log_param_type_enum (Arg_char32 _) = Char32_type"
| "get_log_param_type_enum (Arg_int8 _) = Int8_type"
| "get_log_param_type_enum (Arg_uint8 _) = Uint8_type"
| "get_log_param_type_enum (Arg_int16 _) = Int16_type"
| "get_log_param_type_enum (Arg_uint16 _) = Uint16_type"
| "get_log_param_type_enum (Arg_int32 _) = Int32_type"
| "get_log_param_type_enum (Arg_uint32 _) = Uint32_type"
| "get_log_param_type_enum (Arg_int64 _) = Int64_type"
| "get_log_param_type_enum (Arg_uint64 _) = Uint64_type"
| "get_log_param_type_enum (Arg_float _) = Float_type"
| "get_log_param_type_enum (Arg_double _) = Double_type"
| "get_log_param_type_enum (Arg_utf8 _) = String_utf8_type"
| "get_log_param_type_enum (Arg_utf16 _) = String_utf16_type"
| "get_log_param_type_enum (Arg_utf32 _) = String_utf16_type"

section \<open>Texts of 32-bit characters\<close>

text \<open>The loops of \<open>_get_utf32_c_style_string_storage_size_impl\<close>: the UTF-16 units of at most \<open>remaining\<close> characters, up to a null.\<close>

function utf32_size_slow :: "nat \<Rightarrow> u32 list \<Rightarrow> nat option" where
  "utf32_size_slow remaining p =
     (if remaining > 0
      then (case p of
              [] \<Rightarrow> None
            | c # p' \<Rightarrow>
                if c = 0 then Some 0
                else map_option (\<lambda>n. (if c \<le> 0xFFFF then 1 else 2) + n) (utf32_size_slow (remaining - 1) p'))
      else Some 0)"
  by pat_completeness auto
termination by (relation "measure fst") auto

function utf32_size_fast :: "nat \<Rightarrow> u32 list \<Rightarrow> nat option" where
  "utf32_size_fast remaining p =
     (if remaining \<ge> 4
      then (case p of
              c0 # c1 # c2 # c3 # p' \<Rightarrow>
                if (c0 - 1) OR (c1 - 1) OR (c2 - 1) OR (c3 - 1) \<le> 0xFFFE
                then map_option (\<lambda>n. 4 + n) (utf32_size_fast (remaining - 4) p')
                else utf32_size_slow remaining p
            | _ \<Rightarrow> None)
      else utf32_size_slow remaining p)"
  by pat_completeness auto
termination by (relation "measure fst") auto

declare utf32_size_slow.simps [simp del] utf32_size_fast.simps [simp del]

definition get_utf32_storage_size :: "nat \<Rightarrow> u32 list \<Rightarrow> nat option" where
  "get_utf32_storage_size max_character_count str = map_option (\<lambda>n. n * 2) (utf32_size_fast max_character_count str)"

text \<open>The loops of \<open>c_style_string_copy\<close> for \<open>char32_t\<close>; \<open>n\<close> is the room that is left, in units.\<close>

function utf32_copy_slow :: "nat \<Rightarrow> u32 list \<Rightarrow> u16 list option" where
  "utf32_copy_slow n src =
     (if n > 0
      then (case src of
              [] \<Rightarrow> None
            | c # src' \<Rightarrow>
                if c \<le> 0xFFFF then map_option (\<lambda>out. ucast c # out) (utf32_copy_slow (n - 1) src')
                else if n < 2 then Some [0]
                else (let c = c - 0x10000
                      in map_option (\<lambda>out. ucast (drop_bit 10 c + 0xD800) # ucast ((c AND 0x3FF) + 0xDC00) # out) (utf32_copy_slow (n - 2) src')))
      else Some [])"
  by pat_completeness auto
termination by (relation "measure fst") auto

function utf32_copy_fast :: "nat \<Rightarrow> u32 list \<Rightarrow> u16 list option" where
  "utf32_copy_fast n src =
     (if 4 \<le> n
      then (case src of
              c0 # c1 # c2 # c3 # src' \<Rightarrow>
                if c0 OR c1 OR c2 OR c3 \<le> 0xFFFF
                then map_option (\<lambda>out. [ucast c0, ucast c1, ucast c2, ucast c3] @ out) (utf32_copy_fast (n - 4) src')
                else utf32_copy_slow n src
            | _ \<Rightarrow> None)
      else utf32_copy_slow n src)"
  by pat_completeness auto
termination by (relation "measure fst") auto

declare utf32_copy_slow.simps [simp del] utf32_copy_fast.simps [simp del]

definition c_style_string_copy32 :: "u32 list \<Rightarrow> nat \<Rightarrow> u8 list option" where
  "c_style_string_copy32 src target_buffer_size = map_option unit_bytes (utf32_copy_fast (target_buffer_size div 2) src)"

section \<open>Storage sizes and the copy\<close>

text \<open>A null pointer is logged as this text.\<close>

definition null_str :: "'a::len word list" where
  "null_str = [0x6E, 0x75, 0x6C, 0x6C]"

definition array_chars :: "'a::len word list \<Rightarrow> 'a word list" where
  "array_chars str = (if last str = 0 then butlast str else str)"

definition chars_or_null :: "'a::len word list option \<Rightarrow> 'a word list" where
  "chars_or_null s = (case s of None \<Rightarrow> null_str | Some cs \<Rightarrow> cs)"

definition get_string_field_total_storage_size :: "nat \<Rightarrow> nat" where
  "get_string_field_total_storage_size n = 4 + 4 + n"

text \<open>The character count limit and the readable memory of a \<open>char32_t\<close> text.\<close>

definition source32 :: "(nat \<times> u32 list) option \<Rightarrow> nat \<times> u32 list" where
  "source32 s = (case s of None \<Rightarrow> (4, null_str) | Some p \<Rightarrow> p)"

fun get_storage_data_size :: "log_arg \<Rightarrow> nat option" where
  "get_storage_data_size Arg_nullptr = Some 4"
| "get_storage_data_size (Arg_pointer _) = Some (8 + 4)"
| "get_storage_data_size (Arg_bool _) = Some (1 + 2)"
| "get_storage_data_size (Arg_char _) = Some (1 + 2)"
| "get_storage_data_size (Arg_char16 _) = Some (2 + 2)"
| "get_storage_data_size (Arg_char32 _) = Some (4 + 4)"
| "get_storage_data_size (Arg_int8 _) = Some (1 + 2)"
| "get_storage_data_size (Arg_uint8 _) = Some (1 + 2)"
| "get_storage_data_size (Arg_int16 _) = Some (2 + 2)"
| "get_storage_data_size (Arg_uint16 _) = Some (2 + 2)"
| "get_storage_data_size (Arg_int32 _) = Some (4 + 4)"
| "get_storage_data_size (Arg_uint32 _) = Some (4 + 4)"
| "get_storage_data_size (Arg_int64 _) = Some (8 + 4)"
| "get_storage_data_size (Arg_uint64 _) = Some (8 + 4)"
| "get_storage_data_size (Arg_float _) = Some (4 + 4)"
| "get_storage_data_size (Arg_double _) = Some (8 + 4)"
| "get_storage_data_size (Arg_utf8 s) = Some (get_string_field_total_storage_size (length (chars_or_null s)))"
| "get_storage_data_size (Arg_utf16 s) = Some (get_string_field_total_storage_size (length (chars_or_null s) * 2))"
| "get_storage_data_size (Arg_utf32 s) =
     map_option get_string_field_total_storage_size (case source32 s of (n, p) \<Rightarrow> get_utf32_storage_size n p)"

text \<open>The cells from \<open>data_addr\<close> on that \<open>_type_copy\<close> leaves behind: type, gap, and the value after two or four bytes.\<close>

definition pod_copy :: "log_arg_type_enum \<Rightarrow> nat \<Rightarrow> 'a::len word \<Rightarrow> mem" where
  "pod_copy t sz v = Some (arg_code t) # replicate ((if sz \<le> 2 then 2 else 4) - 1) None @ map Some (le_bytes sz v)"

definition string_copy :: "log_arg_type_enum \<Rightarrow> u32 \<Rightarrow> u8 list \<Rightarrow> mem" where
  "string_copy t string_size bytes = Some (arg_code t) # replicate 3 None @ map Some (le_bytes 4 string_size)
     @ map Some (take (unat string_size) bytes)"

fun type_copy :: "log_arg \<Rightarrow> nat \<Rightarrow> mem option" where
  "type_copy Arg_nullptr data_size = Some [Some (arg_code Null_type)]"
| "type_copy (Arg_pointer v) data_size = Some (pod_copy Pointer_type 8 v)"
| "type_copy (Arg_bool v) data_size = Some (pod_copy Bool_type 1 v)"
| "type_copy (Arg_char v) data_size = Some (pod_copy Char_type 1 v)"
| "type_copy (Arg_char16 v) data_size = Some (pod_copy Char16_type 2 v)"
| "type_copy (Arg_char32 v) data_size = Some (pod_copy Char32_type 4 v)"
| "type_copy (Arg_int8 v) data_size = Some (pod_copy Int8_type 1 v)"
| "type_copy (Arg_uint8 v) data_size = Some (pod_copy Uint8_type 1 v)"
| "type_copy (Arg_int16 v) data_size = Some (pod_copy Int16_type 2 v)"
| "type_copy (Arg_uint16 v) data_size = Some (pod_copy Uint16_type 2 v)"
| "type_copy (Arg_int32 v) data_size = Some (pod_copy Int32_type 4 v)"
| "type_copy (Arg_uint32 v) data_size = Some (pod_copy Uint32_type 4 v)"
| "type_copy (Arg_int64 v) data_size = Some (pod_copy Int64_type 8 v)"
| "type_copy (Arg_uint64 v) data_size = Some (pod_copy Uint64_type 8 v)"
| "type_copy (Arg_float v) data_size = Some (pod_copy Float_type 4 v)"
| "type_copy (Arg_double v) data_size = Some (pod_copy Double_type 8 v)"
| "type_copy (Arg_utf8 s) data_size =
     Some (string_copy String_utf8_type (of_nat (data_size - 8)) (chars_or_null s))"
| "type_copy (Arg_utf16 s) data_size =
     Some (string_copy String_utf16_type (of_nat (data_size - 8)) (unit_bytes (chars_or_null s)))"
| "type_copy (Arg_utf32 s) data_size =
     map_option (string_copy String_utf16_type (of_nat (data_size - 8)))
       (c_style_string_copy32 (snd (source32 s)) (unat (of_nat (data_size - 8) :: u32)))"

text \<open>\<open>_do_log_args_fill\<close> over the sizes of the size sequence: every argument takes its size rounded up to four bytes.\<close>

fun log_args_fill :: "log_arg list \<Rightarrow> mem option" where
  "log_args_fill [] = Some []"
| "log_args_fill (a # as) =
     Option.bind (get_storage_data_size a) (\<lambda>sz.
     Option.bind (type_copy a sz) (\<lambda>m.
     map_option (\<lambda>rest. m @ replicate (align_4 sz - length m) None @ rest) (log_args_fill as)))"


section \<open>Texts of 32-bit characters are converted whole\<close>

text \<open>The UTF-16 units of a character.\<close>

definition utf16_units :: "u32 \<Rightarrow> u16 list" where
  "utf16_units c =
     (if c \<le> 0xFFFF then [ucast c]
      else [ucast (drop_bit 10 (c - 0x10000) + 0xD800), ucast (((c - 0x10000) AND 0x3FF) + 0xDC00)])"

text \<open>The characters the text consists of: at most \<open>n\<close>, up to a null.\<close>

definition text32 :: "nat \<Rightarrow> u32 list \<Rightarrow> u32 list" where
  "text32 n p = takeWhile (\<lambda>c. c \<noteq> 0) (take n p)"

lemma or_le_mask: "a OR b \<le> (0xFFFF :: u32) \<longleftrightarrow> a \<le> 0xFFFF \<and> b \<le> 0xFFFF"
proof -
  have m: "(0xFFFF :: u32) = mask 16" by (simp add: mask_eq_exp_minus_1)
  have le: "x \<le> mask 16 \<longleftrightarrow> (\<forall>i \<ge> 16. \<not> bit x i)" for x :: u32
  proof -
    have "x \<le> mask 16 \<longleftrightarrow> unat x < 2 ^ 16" by (simp add: m [symmetric] word_le_nat_alt) arith
    also have "\<dots> \<longleftrightarrow> (\<forall>i \<ge> 16. \<not> bit x i)" using bit_less_exp [of x 16] unat_less_exp_bits [of x 16] by (metis not_less)
    finally show ?thesis .
  qed
  show ?thesis unfolding m le by (auto simp: bit_simps)
qed

lemma length_utf16_units: "length (utf16_units c) = (if c \<le> 0xFFFF then 1 else 2)"
  by (simp add: utf16_units_def)

lemma size_slow: "n \<le> length p \<Longrightarrow> utf32_size_slow n p = Some (length (concat (map utf16_units (text32 n p))))"
proof (induction n p rule: utf32_size_slow.induct)
  case (1 n p)
  show ?case
  proof (cases "n = 0")
    case False
    then obtain c p' where p: "p = c # p'" using 1(2) by (cases p) auto
    have "text32 n p = (if c = 0 then [] else c # text32 (n - 1) p')"
      using False by (cases n) (simp_all add: p text32_def)
    then show ?thesis using False 1 by (subst utf32_size_slow.simps) (auto simp: p length_utf16_units)
  qed (simp add: text32_def utf32_size_slow.simps)
qed

lemma pred_le: "c - 1 \<le> (0xFFFE :: u32) \<Longrightarrow> c \<noteq> 0 \<and> c \<le> 0xFFFF"
  by (cases "c = 0") (auto simp: word_le_nat_alt unat_minus_one unsigned_minus_1_eq_mask mask_eq_exp_minus_1)

lemma le_or: "a \<le> a OR (b :: 'a::len word)" "b \<le> a OR b"
  using word_and_le1 [of a "a OR b"] word_and_le1 [of b "a OR b"] by (simp_all add: and.commute word_bw_lcs word_ao_absorbs)

lemma size_fast: "n \<le> length p \<Longrightarrow> utf32_size_fast n p = Some (length (concat (map utf16_units (text32 n p))))"
proof (induction n p rule: utf32_size_fast.induct)
  case (1 n p)
  show ?case
  proof (cases "n \<ge> 4")
    case True
    then obtain c0 c1 c2 c3 p' where p: "p = c0 # c1 # c2 # c3 # p'"
      using 1(2) by (cases p; cases "tl p"; cases "tl (tl p)"; cases "tl (tl (tl p))") auto
    show ?thesis
    proof (cases "(c0 - 1) OR (c1 - 1) OR (c2 - 1) OR (c3 - 1) \<le> 0xFFFE")
      case ok: True
      have c: "c0 \<noteq> 0 \<and> c0 \<le> 0xFFFF" "c1 \<noteq> 0 \<and> c1 \<le> 0xFFFF" "c2 \<noteq> 0 \<and> c2 \<le> 0xFFFF" "c3 \<noteq> 0 \<and> c3 \<le> 0xFFFF"
        using ok by (auto intro!: pred_le dest: order_trans [OF le_or(1)] order_trans [OF le_or(2)])
      define m where "m = n - 4"
      then have n: "n = Suc (Suc (Suc (Suc m)))" using True by simp
      have "text32 n p = c0 # c1 # c2 # c3 # text32 (n - 4) p'" using c by (simp add: text32_def p n)
      then show ?thesis using 1 True ok c by (subst utf32_size_fast.simps) (simp add: p length_utf16_units)
    qed (use True 1(2) in \<open>subst utf32_size_fast.simps, simp add: p size_slow\<close>)
  qed (use 1(2) in \<open>subst utf32_size_fast.simps, simp add: size_slow\<close>)
qed


lemma get_utf32_storage_size_eq:
  "n \<le> length p \<Longrightarrow> get_utf32_storage_size n p = Some (2 * length (concat (map utf16_units (text32 n p))))"
  by (simp add: get_utf32_storage_size_def size_fast)

lemma copy_slow: "utf32_copy_slow (length (concat (map utf16_units cs))) (cs @ beyond) = Some (concat (map utf16_units cs))"
proof (induction cs)
  case (Cons c cs)
  have "utf16_units c = [ucast c]" if "c \<le> 0xFFFF" using that by (simp add: utf16_units_def)
  moreover have "utf16_units c = [ucast (drop_bit 10 (c - 0x10000) + 0xD800), ucast (((c - 0x10000) AND 0x3FF) + 0xDC00)]"
    if "\<not> c \<le> 0xFFFF" using that by (simp add: utf16_units_def)
  ultimately show ?case using Cons by (subst utf32_copy_slow.simps) (cases "c \<le> 0xFFFF"; simp add: Let_def)
qed (simp add: utf32_copy_slow.simps)

text \<open>Four units may be two characters: the copy looks at two characters behind the text.\<close>

lemma copy_fast:
  "2 \<le> length beyond \<Longrightarrow> utf32_copy_fast (length (concat (map utf16_units cs))) (cs @ beyond) = Some (concat (map utf16_units cs))"
proof (induction cs rule: length_induct)
  case (1 cs)
  let ?n = "length (concat (map utf16_units cs))"
  note slow = copy_slow [of cs beyond]
  show ?case
  proof (cases "4 \<le> ?n")
    case True
    have "?n \<le> 2 * length cs" by (induction cs) (auto simp: length_utf16_units)
    then have "2 \<le> length cs" using True by simp
    then have l: "4 \<le> length (cs @ beyond)" using 1(2) by simp
    then obtain c0 c1 c2 c3 r where r: "cs @ beyond = c0 # c1 # c2 # c3 # r"
      by (cases "cs @ beyond"; cases "tl (cs @ beyond)"; cases "tl (tl (cs @ beyond))"; cases "tl (tl (tl (cs @ beyond)))") auto
    show ?thesis
    proof (cases "c0 OR c1 OR c2 OR c3 \<le> 0xFFFF")
      case ok: True
      then have c: "c0 \<le> 0xFFFF" "c1 \<le> 0xFFFF" "c2 \<le> 0xFFFF" "c3 \<le> 0xFFFF" by (simp_all add: or_le_mask)
      have "4 \<le> length cs"
      proof (rule ccontr)
        assume "\<not> 4 \<le> length cs"
        then have "set cs \<subseteq> {c0, c1, c2, c3}" using r by (cases cs; cases "tl cs"; cases "tl (tl cs)"; cases "tl (tl (tl cs))") auto
        then have "\<forall>c \<in> set cs. c \<le> 0xFFFF" using c by auto
        then have "?n = length cs" by (induction cs) (auto simp: length_utf16_units)
        then show False using True \<open>\<not> 4 \<le> length cs\<close> by simp
      qed
      then obtain cs' where cs: "cs = c0 # c1 # c2 # c3 # cs'" "r = cs' @ beyond"
        using r by (cases cs; cases "tl cs"; cases "tl (tl cs)"; cases "tl (tl (tl cs))") auto
      then have "utf32_copy_fast (length (concat (map utf16_units cs'))) r = Some (concat (map utf16_units cs'))" using 1 by simp
      then show ?thesis using ok c cs by (subst utf32_copy_fast.simps) (simp add: r utf16_units_def)
    qed (use True slow in \<open>subst utf32_copy_fast.simps, simp add: r\<close>)
  qed (use slow in \<open>subst utf32_copy_fast.simps, simp\<close>)
qed


section \<open>The argument area\<close>

text \<open>Closed forms of what the calls above leave in memory.\<close>

definition text_cells :: "log_arg_type_enum \<Rightarrow> u8 list \<Rightarrow> mem" where
  "text_cells t str = Some (arg_code t) # replicate 3 None @ map Some (le_bytes 4 (of_nat (length str) :: u32)) @ map Some str
     @ replicate (align_4 (length str) - length str) None"

definition pod_cells :: "log_arg_type_enum \<Rightarrow> nat \<Rightarrow> 'a::len word \<Rightarrow> mem" where
  "pod_cells t sz v = pod_copy t sz v @ replicate (if sz = 1 then 1 else 0) None"

definition text_of :: "log_arg \<Rightarrow> u8 list" where
  "text_of a = (case a of Arg_utf8 s \<Rightarrow> chars_or_null s | Arg_utf16 s \<Rightarrow> unit_bytes (chars_or_null s)
     | Arg_utf32 s \<Rightarrow> unit_bytes (concat (map utf16_units (text32 (fst (source32 s)) (snd (source32 s))))) | _ \<Rightarrow> [])"

fun arg_cells :: "log_arg \<Rightarrow> mem" where
  "arg_cells Arg_nullptr = Some (arg_code Null_type) # replicate 3 None"
| "arg_cells (Arg_pointer v) = pod_cells Pointer_type 8 v"
| "arg_cells (Arg_bool v) = pod_cells Bool_type 1 v"
| "arg_cells (Arg_char v) = pod_cells Char_type 1 v"
| "arg_cells (Arg_char16 v) = pod_cells Char16_type 2 v"
| "arg_cells (Arg_char32 v) = pod_cells Char32_type 4 v"
| "arg_cells (Arg_int8 v) = pod_cells Int8_type 1 v"
| "arg_cells (Arg_uint8 v) = pod_cells Uint8_type 1 v"
| "arg_cells (Arg_int16 v) = pod_cells Int16_type 2 v"
| "arg_cells (Arg_uint16 v) = pod_cells Uint16_type 2 v"
| "arg_cells (Arg_int32 v) = pod_cells Int32_type 4 v"
| "arg_cells (Arg_uint32 v) = pod_cells Uint32_type 4 v"
| "arg_cells (Arg_int64 v) = pod_cells Int64_type 8 v"
| "arg_cells (Arg_uint64 v) = pod_cells Uint64_type 8 v"
| "arg_cells (Arg_float v) = pod_cells Float_type 4 v"
| "arg_cells (Arg_double v) = pod_cells Double_type 8 v"
| "arg_cells (Arg_utf8 s) = text_cells String_utf8_type (text_of (Arg_utf8 s))"
| "arg_cells (Arg_utf16 s) = text_cells String_utf16_type (text_of (Arg_utf16 s))"
| "arg_cells (Arg_utf32 s) = text_cells String_utf16_type (text_of (Arg_utf32 s))"

text \<open>Texts are below one gibibyte; two characters behind a \<open>char32_t\<close> text can be read.\<close>

definition arg_ok :: "log_arg \<Rightarrow> bool" where
  "arg_ok a \<longleftrightarrow> length (text_of a) < 2 ^ 30 \<and>
     (case a of Arg_utf32 (Some (n, p)) \<Rightarrow> n \<le> length p \<and> length (text32 n p) + 2 \<le> length p | _ \<Rightarrow> True)"

lemma length_unit_bytes [simp]: "length (unit_bytes us) = 2 * length us"
  by (induction us) (simp_all add: unit_bytes_def)

lemma align_4_bounds: "n \<le> align_4 n" "align_4 n < n + 4" "4 dvd align_4 n"
  by (simp_all add: align_4_def)

lemma align_4_add8: "align_4 (8 + n) = 8 + align_4 n"
  unfolding align_4_def by presburger

lemma text32_prefix: "p = text32 n p @ drop (length (text32 n p)) p"
proof -
  have "text32 n p = take (length (text32 n p)) (take n p)" unfolding text32_def by (rule takeWhile_eq_take)
  moreover have "length (text32 n p) \<le> length (take n p)" unfolding text32_def by (rule length_takeWhile_le)
  ultimately have "text32 n p = take (length (text32 n p)) p" by (simp add: min_absorb1)
  then show ?thesis by (metis append_take_drop_id)
qed

lemma utf32_text:
  assumes "arg_ok (Arg_utf32 s)" "source32 s = (n, p)"
  shows "get_utf32_storage_size n p = Some (2 * length (concat (map utf16_units (text32 n p))))"
    "utf32_copy_fast (length (concat (map utf16_units (text32 n p)))) p = Some (concat (map utf16_units (text32 n p)))"
proof -
  show "get_utf32_storage_size n p = Some (2 * length (concat (map utf16_units (text32 n p))))"
    using assms by (intro get_utf32_storage_size_eq) (auto simp: arg_ok_def source32_def null_str_def split: option.splits prod.splits)
  show "utf32_copy_fast (length (concat (map utf16_units (text32 n p)))) p = Some (concat (map utf16_units (text32 n p)))"
  proof (cases s)
    case None
    then show ?thesis using assms(2)
      by (auto simp: source32_def null_str_def text32_def utf16_units_def utf32_copy_fast.simps utf32_copy_slow.simps)
  next
    case (Some q)
    then have l: "length (text32 n p) + 2 \<le> length p" using assms by (simp add: arg_ok_def source32_def)
    note text32_prefix [of p n]
    then show ?thesis using l copy_fast [of "drop (length (text32 n p)) p" "text32 n p"] by simp
  qed
qed


lemma fill_simp: "get_storage_data_size a = Some sz \<Longrightarrow> type_copy a sz = Some m \<Longrightarrow>
    log_args_fill (a # as) = map_option (\<lambda>rest. m @ replicate (align_4 sz - length m) None @ rest) (log_args_fill as)"
  by simp

lemma length_pod_copy: "length (pod_copy t sz v) = (if sz \<le> 2 then 2 else 4) + sz"
  by (simp add: pod_copy_def)

lemma fill_pod:
  assumes "get_storage_data_size a = Some sz" "type_copy a sz = Some (pod_copy t n v)" "arg_cells a = pod_cells t n v"
    "(sz, n) \<in> {(3, 1), (4, 2), (8, 4), (12, 8)}"
  shows "log_args_fill (a # as) = map_option (\<lambda>rest. arg_cells a @ rest) (log_args_fill as)"
  unfolding fill_simp [OF assms(1,2)] assms(3) using assms(4) by (auto simp: length_pod_copy pod_cells_def align_4_def)

lemmas fill_pods =
  fill_pod [OF get_storage_data_size.simps(2) type_copy.simps(2) arg_cells.simps(2)]
  fill_pod [OF get_storage_data_size.simps(3) type_copy.simps(3) arg_cells.simps(3)]
  fill_pod [OF get_storage_data_size.simps(4) type_copy.simps(4) arg_cells.simps(4)]
  fill_pod [OF get_storage_data_size.simps(5) type_copy.simps(5) arg_cells.simps(5)]
  fill_pod [OF get_storage_data_size.simps(6) type_copy.simps(6) arg_cells.simps(6)]
  fill_pod [OF get_storage_data_size.simps(7) type_copy.simps(7) arg_cells.simps(7)]
  fill_pod [OF get_storage_data_size.simps(8) type_copy.simps(8) arg_cells.simps(8)]
  fill_pod [OF get_storage_data_size.simps(9) type_copy.simps(9) arg_cells.simps(9)]
  fill_pod [OF get_storage_data_size.simps(10) type_copy.simps(10) arg_cells.simps(10)]
  fill_pod [OF get_storage_data_size.simps(11) type_copy.simps(11) arg_cells.simps(11)]
  fill_pod [OF get_storage_data_size.simps(12) type_copy.simps(12) arg_cells.simps(12)]
  fill_pod [OF get_storage_data_size.simps(13) type_copy.simps(13) arg_cells.simps(13)]
  fill_pod [OF get_storage_data_size.simps(14) type_copy.simps(14) arg_cells.simps(14)]
  fill_pod [OF get_storage_data_size.simps(15) type_copy.simps(15) arg_cells.simps(15)]
  fill_pod [OF get_storage_data_size.simps(16) type_copy.simps(16) arg_cells.simps(16)]

lemma log_args_fill_Cons:
  assumes "arg_ok a"
  shows "log_args_fill (a # as) = map_option (\<lambda>rest. arg_cells a @ rest) (log_args_fill as)"
proof -
  have t: "type_copy a (8 + length (text_of a)) = Some (string_copy ty (of_nat (length (text_of a))) (text_of a))
      \<and> get_storage_data_size a = Some (8 + length (text_of a)) \<and> arg_cells a = text_cells ty (text_of a)"
    if ty: "(\<exists>s. a = Arg_utf8 s) \<and> ty = String_utf8_type \<or> ((\<exists>s. a = Arg_utf16 s) \<or> (\<exists>s. a = Arg_utf32 s)) \<and> ty = String_utf16_type" for ty
  proof -
    have u: "unat (of_nat (length (text_of a)) :: u32) = length (text_of a)"
      using assms by (simp add: arg_ok_def unsigned_of_nat take_bit_nat_eq_self)
    consider s where "a = Arg_utf8 s" | s where "a = Arg_utf16 s" | s n p where "a = Arg_utf32 s" "source32 s = (n, p)"
      using ty by (cases "source32 (case a of Arg_utf32 s \<Rightarrow> s | _ \<Rightarrow> None)") auto
    then show ?thesis
    proof cases
      case 3
      define w where "w = concat (map utf16_units (text32 n p))"
      have x: "text_of (Arg_utf32 s) = unit_bytes w" by (simp add: text_of_def 3(2) w_def)
      have u2: "unat (of_nat (2 * length w) :: u32) = 2 * length w" using u by (simp add: 3(1) x del: of_nat_mult)
      note f = utf32_text [OF assms [unfolded 3(1)] 3(2), folded w_def]
      show ?thesis
        using ty unfolding 3(1)
        by (simp add: x f 3(2) get_string_field_total_storage_size_def c_style_string_copy32_def u2 del: of_nat_mult)
    qed (use ty in \<open>auto simp: text_of_def get_string_field_total_storage_size_def\<close>)
  qed
  have s: ?thesis if "type_copy a (8 + length (text_of a)) = Some (string_copy ty (of_nat (length (text_of a))) (text_of a))
      \<and> get_storage_data_size a = Some (8 + length (text_of a)) \<and> arg_cells a = text_cells ty (text_of a)" for ty
  proof -
    have u: "unat (of_nat (length (text_of a)) :: u32) = length (text_of a)"
      using assms by (simp add: arg_ok_def unsigned_of_nat take_bit_nat_eq_self)
    show ?thesis using that u by (simp add: string_copy_def text_cells_def align_4_add8)
  qed
  show ?thesis
  proof (cases a)
    case (Arg_utf8 x)
    then show ?thesis by (intro s [OF t, of String_utf8_type]) simp
  next
    case (Arg_utf16 x)
    then show ?thesis by (intro s [OF t, of String_utf16_type]) simp
  next
    case (Arg_utf32 x)
    then show ?thesis by (intro s [OF t, of String_utf16_type]) simp
  next
    case Arg_nullptr
    then show ?thesis using fill_simp [of a 4 "[Some (arg_code Null_type)]" as] by (simp add: align_4_def)
  qed (simp_all add: fill_pods del: log_args_fill.simps)
qed

lemma log_args_fill_cells: "\<forall>a \<in> set as. arg_ok a \<Longrightarrow> log_args_fill as = Some (concat (map arg_cells as))"
  by (induction as) (simp_all add: log_args_fill_Cons del: log_args_fill.simps(2))

lemma length_text_cells: "length (text_cells t str) = 8 + align_4 (length str)"
  using align_4_bounds(1) [of "length str"] by (simp add: text_cells_def)

lemma length_arg_cells: "\<exists>k. length (arg_cells a) = 4 + 4 * k"
  by (cases a) (simp_all add: pod_cells_def pod_copy_def length_text_cells align_4_def, presburger+)

end
