(* ===== verification/Compressed_Args.thy ===== *)
theory Compressed_Args
  imports Log_Args Vlq
begin

text \<open>
  The arguments of a log entry in a compressed log file: the writer loop of \<open>appender_file_compressed::log_impl\<close>
  (\<open>src/bq_log/log/appender/appender_file_compressed.cpp\<close>) packs the argument area of the log buffer, the reader loop of
  \<open>appender_decoder_compressed::parse_log_entry\<close> (\<open>src/bq_log/log/decoder/appender_decoder_compressed.cpp\<close>) rebuilds it.
\<close>

section \<open>Packing\<close>

definition read_word :: "nat \<Rightarrow> nat \<Rightarrow> mem \<Rightarrow> u64 option" where
  "read_word off n m = map_option le_word (read_mem off n m)"

text \<open>A text of \<open>str_len\<close> bytes: the length field is as long as the largest mixed form needs, a null fills it up.\<close>

definition pack_utf16 :: "simd_target \<Rightarrow> u32 \<Rightarrow> u8 list \<Rightarrow> u8 list option" where
  "pack_utf16 t str_len str =
     (let max_utf8_str_len = drop_bit 1 (str_len * 3) + 1;
          pre_len_size = get_vlq_encode_length (ucast max_utf8_str_len)
      in Option.bind (utf16_to_utf_mixed t (byte_units (take (unat (str_len div 2) * 2) str)) (unat max_utf8_str_len)) (\<lambda>mixed.
           let len = vlq_encode (of_nat (length mixed))
           in if length len = pre_len_size then Some (len @ mixed)
              else if length len + 1 = pre_len_size then Some (len @ 0 # mixed)
              else None))"

text \<open>
  One argument at the head of the argument area: the bytes that are written and how far \<open>args_data_cursor\<close> moves. \<open>None\<close>: the
  argument reaches over the end of the area, or the type byte is not one the switch moves on for.
\<close>

definition pack_arg :: "simd_target \<Rightarrow> mem \<Rightarrow> (u8 list \<times> nat) option" where
  "pack_arg t args =
     Option.bind (read_mem 0 1 args) (\<lambda>code.
     case Option.bind (arg_type_of (hd code)) (\<lambda>ty.
       case ty of
         Unsupported_type \<Rightarrow> Some ([], length args)
       | Null_type \<Rightarrow> Some ([], 4)
       | Pointer_type \<Rightarrow> map_option (\<lambda>b. (b, 4 + 8)) (read_mem 4 8 args)
       | Bool_type \<Rightarrow> map_option (\<lambda>b. (b, 4)) (read_mem 2 1 args)
       | Char_type \<Rightarrow> map_option (\<lambda>b. (b, 4)) (read_mem 2 1 args)
       | Int8_type \<Rightarrow> map_option (\<lambda>b. (b, 4)) (read_mem 2 1 args)
       | Uint8_type \<Rightarrow> map_option (\<lambda>b. (b, 4)) (read_mem 2 1 args)
       | Char16_type \<Rightarrow> map_option (\<lambda>v. (vlq_encode v, 4)) (read_word 2 2 args)
       | Uint16_type \<Rightarrow> map_option (\<lambda>v. (vlq_encode v, 4)) (read_word 2 2 args)
       | Int16_type \<Rightarrow> map_option (\<lambda>v. (vlq_encode (ucast (zigzag_encode (ucast v :: u16))), 4)) (read_word 2 2 args)
       | Char32_type \<Rightarrow> map_option (\<lambda>v. (vlq_encode v, 4 + 4)) (read_word 4 4 args)
       | Uint32_type \<Rightarrow> map_option (\<lambda>v. (vlq_encode v, 4 + 4)) (read_word 4 4 args)
       | Int32_type \<Rightarrow> map_option (\<lambda>v. (vlq_encode (ucast (zigzag_encode (ucast v :: u32))), 4 + 4)) (read_word 4 4 args)
       | Float_type \<Rightarrow> map_option (\<lambda>b. (b, 4 + 4)) (read_mem 4 4 args)
       | Uint64_type \<Rightarrow> map_option (\<lambda>v. (vlq_encode v, 4 + 8)) (read_word 4 8 args)
       | Int64_type \<Rightarrow> map_option (\<lambda>v. (vlq_encode (zigzag_encode v), 4 + 8)) (read_word 4 8 args)
       | Double_type \<Rightarrow> map_option (\<lambda>b. (b, 4 + 8)) (read_mem 4 8 args)
       | String_utf8_type \<Rightarrow>
           Option.bind (read_word 4 4 args) (\<lambda>str_len.
           map_option (\<lambda>str. (vlq_encode str_len @ str, 4 + 4 + align_4 (unat str_len))) (read_mem 8 (unat str_len) args))
       | String_utf16_type \<Rightarrow>
           Option.bind (read_word 4 4 args) (\<lambda>str_len.
           Option.bind (read_mem 8 (unat str_len) args) (\<lambda>str.
           map_option (\<lambda>b. (b, 4 + 4 + align_4 (unat str_len))) (pack_utf16 t (ucast str_len) str)))
       | String_utf32_type \<Rightarrow> None
       | String_utf_mixed_type \<Rightarrow> None) of
       None \<Rightarrow> None
     | Some (out, n) \<Rightarrow>
         Some ((if arg_type_of (hd code) = Some String_utf16_type then arg_code String_utf_mixed_type else hd code) # out, n))"

text \<open>The loop over the area. Only \<open>pack_arg\<close> moves the cursor, always forward.\<close>

function pack_args :: "simd_target \<Rightarrow> mem \<Rightarrow> u8 list option" where
  "pack_args t args =
     (if args = [] then Some []
      else (case pack_arg t args of
              None \<Rightarrow> None
            | Some (out, n) \<Rightarrow> if n = 0 then None else map_option (\<lambda>rest. out @ rest) (pack_args t (drop n args))))"
  by pat_completeness auto
termination by (relation "measure (\<lambda>(t, args). length args)") auto

declare pack_args.simps [simp del]

section \<open>Unpacking\<close>

datatype appender_decode_result = Decode_success | Decode_eof | Failed_invalid_handle | Failed_decode_error | Failed_io_error

text \<open>A length that was decoded from the body \<open>data\<close>, and what follows it. A read over the end of the body ends in the same error.\<close>

definition read_vlq :: "nat \<Rightarrow> u8 list \<Rightarrow> (u64 \<times> u8 list) option" where
  "read_vlq sz data = (case vlq_decode sz data of Vlq_ok n v \<Rightarrow> Some (v, drop n data) | _ \<Rightarrow> None)"

definition read_bytes :: "nat \<Rightarrow> u8 list \<Rightarrow> (u8 list \<times> u8 list) option" where
  "read_bytes n data = (if n \<le> length data then Some (take n data, drop n data) else None)"

definition raw_pod :: "nat \<Rightarrow> u8 list \<Rightarrow> mem" where
  "raw_pod gap bytes = replicate gap None @ map Some bytes"

definition raw_text :: "u8 list \<Rightarrow> mem" where
  "raw_text str = replicate 3 None @ map Some (le_bytes 4 (of_nat (length str) :: u32)) @ map Some str
     @ replicate (align_4 (length str) - length str) None"

text \<open>A leading null is taken for the place holder of the length field.\<close>

definition unpack_text :: "u8 list \<Rightarrow> (u8 list \<times> u8 list) option" where
  "unpack_text data =
     Option.bind (read_vlq 4 data) (\<lambda>(len, data).
       if unat len > length data then None
       else if len \<noteq> 0 \<and> hd data = 0 then read_bytes (unat len) (tl data)
       else read_bytes (unat len) data)"

text \<open>One argument, after its type byte: the type byte of the rebuilt area, the cells after it and the rest of the body.\<close>

definition unpack_arg :: "simd_target \<Rightarrow> bool \<Rightarrow> u8 \<Rightarrow> u8 list \<Rightarrow> (u8 \<times> mem \<times> u8 list) option" where
  "unpack_arg t simd code data =
     (case arg_type_of code of
        Some Unsupported_type \<Rightarrow> None
      | Some Null_type \<Rightarrow> Some (code, raw_pod 3 [], data)
      | Some Pointer_type \<Rightarrow> map_option (\<lambda>(b, data). (code, raw_pod 3 b, data)) (read_bytes 8 data)
      | Some Bool_type \<Rightarrow> map_option (\<lambda>(b, data). (code, raw_pod 1 b @ [None], data)) (read_bytes 1 data)
      | Some Char_type \<Rightarrow> map_option (\<lambda>(b, data). (code, raw_pod 1 b @ [None], data)) (read_bytes 1 data)
      | Some Int8_type \<Rightarrow> map_option (\<lambda>(b, data). (code, raw_pod 1 b @ [None], data)) (read_bytes 1 data)
      | Some Uint8_type \<Rightarrow> map_option (\<lambda>(b, data). (code, raw_pod 1 b @ [None], data)) (read_bytes 1 data)
      | Some Char16_type \<Rightarrow> map_option (\<lambda>(v, data). (code, raw_pod 1 (le_bytes 2 v), data)) (read_vlq 2 data)
      | Some Uint16_type \<Rightarrow> map_option (\<lambda>(v, data). (code, raw_pod 1 (le_bytes 2 v), data)) (read_vlq 2 data)
      | Some Int16_type \<Rightarrow>
          map_option (\<lambda>(v, data). (code, raw_pod 1 (le_bytes 2 (zigzag_decode (ucast v :: u16))), data)) (read_vlq 2 data)
      | Some Char32_type \<Rightarrow> map_option (\<lambda>(v, data). (code, raw_pod 3 (le_bytes 4 v), data)) (read_vlq 4 data)
      | Some Uint32_type \<Rightarrow> map_option (\<lambda>(v, data). (code, raw_pod 3 (le_bytes 4 v), data)) (read_vlq 4 data)
      | Some Int32_type \<Rightarrow>
          map_option (\<lambda>(v, data). (code, raw_pod 3 (le_bytes 4 (zigzag_decode (ucast v :: u32))), data)) (read_vlq 4 data)
      | Some Uint64_type \<Rightarrow> map_option (\<lambda>(v, data). (code, raw_pod 3 (le_bytes 8 v), data)) (read_vlq 8 data)
      | Some Int64_type \<Rightarrow> map_option (\<lambda>(v, data). (code, raw_pod 3 (le_bytes 8 (zigzag_decode v)), data)) (read_vlq 8 data)
      | Some Float_type \<Rightarrow> map_option (\<lambda>(b, data). (code, raw_pod 3 b, data)) (read_bytes 4 data)
      | Some Double_type \<Rightarrow> map_option (\<lambda>(b, data). (code, raw_pod 3 b, data)) (read_bytes 8 data)
      | Some String_utf8_type \<Rightarrow> map_option (\<lambda>(str, data). (code, raw_text str, data)) (unpack_text data)
      | Some String_utf_mixed_type \<Rightarrow>
          Option.bind (unpack_text data) (\<lambda>(mixed, data).
          map_option (\<lambda>str. (arg_code String_utf8_type, raw_text str, data)) 
            (utf_mixed_to_utf8 t simd mixed (unat (push_bit 1 (of_nat (length mixed) :: u32)))))
      | Some String_utf16_type \<Rightarrow> None
      | Some String_utf32_type \<Rightarrow> None
      | None \<Rightarrow> None)"

text \<open>
  The loop: the rebuilt argument area, or \<open>failed_decode_error\<close>. For a type the switch does not know, four cells are added but the
  cursor stays, so the next argument is written over them and four cells are left over at the end.
\<close>

definition unknown_type :: "u8 \<Rightarrow> bool" where
  "unknown_type code \<longleftrightarrow> arg_type_of code \<in> {None, Some String_utf16_type, Some String_utf32_type}"

function unpack_args :: "simd_target \<Rightarrow> bool \<Rightarrow> u8 list \<Rightarrow> mem option" where
  "unpack_args t simd data =
     (case data of
        [] \<Rightarrow> Some []
      | code # data' \<Rightarrow>
          if unknown_type code
          then map_option (\<lambda>m. if m = [] then [Some code, None, None, None] else m @ replicate 4 None) (unpack_args t simd data')
          else (case unpack_arg t simd code data' of
             None \<Rightarrow> None
           | Some (code', cells, rest) \<Rightarrow>
               if length rest \<le> length data' then map_option (\<lambda>m. Some code' # cells @ m) (unpack_args t simd rest) else None))"
  by pat_completeness auto
termination by (relation "measure (\<lambda>(t, simd, data). length data)") (auto split: if_splits)

declare unpack_args.simps [simp del]


section \<open>Closed forms\<close>

lemma those_map_Some [simp]: "those (map Some xs) = Some xs"
  by (induction xs) simp_all

lemma arg_type_of_code [simp]: "arg_type_of (arg_code t) = Some t"
  by (cases t; simp add: arg_type_of_def arg_code_def arg_types_def)

lemma read_mem_code [simp]: "read_mem 0 1 (Some c # m) = Some [c]" "read_mem 0 (Suc 0) (Some c # m) = Some [c]"
  by (simp_all add: read_mem_def)

lemma read_mem_pod:
  "1 \<le> k \<Longrightarrow> read_mem k (length b) (Some c # replicate (k - 1) None @ map Some b @ rest) = Some b"
  by (simp add: read_mem_def drop_Cons')

lemma pod_cells_form: "pod_cells t sz v @ rest = Some (arg_code t) # replicate ((if sz \<le> 2 then 2 else 4) - 1) None @ map Some (le_bytes sz v)
     @ (replicate (if sz = 1 then 1 else 0) None @ rest)"
  by (simp add: pod_cells_def pod_copy_def)

lemma read_pod:
  "k = (if sz \<le> 2 then 2 else 4) \<Longrightarrow> read_mem k sz (pod_cells t sz v @ rest) = Some (le_bytes sz v)"
  unfolding pod_cells_form using read_mem_pod [of k "le_bytes sz v"] by (simp split: if_splits)

lemma read_pod_word:
  "k = (if sz \<le> 2 then 2 else 4) \<Longrightarrow> read_word k sz (pod_cells t sz (v :: 'a::len word) @ rest) = Some (le_word (le_bytes sz v))"
  by (simp add: read_word_def read_pod)

lemma le_word_le_bytes_ucast:
  assumes "LENGTH('a) = 8 * n" "LENGTH('a) \<le> LENGTH('b)"
  shows "(le_word (le_bytes n (v :: 'a::len word)) :: 'b::len word) = ucast v"
proof (rule bit_word_eqI)
  fix i assume "i < LENGTH('b)"
  moreover have "i div 8 < n" if "bit v i" using bit_imp_le_length [OF that] assms(1) by (simp add: div_less_iff_less_mult)
  ultimately show "bit (le_word (le_bytes n v) :: 'b word) i = bit (ucast v :: 'b word) i"
    by (cases "i div 8 < n") (auto simp: bit_le_word bit_le_byte bit_ucast_iff)
qed

lemma pod_head: "read_mem 0 1 (pod_cells t sz v @ rest) = Some [arg_code t]"
  unfolding pod_cells_form by simp

lemma text_reads:
  assumes "length str < 2 ^ 30"
  shows "read_mem 0 1 (text_cells t str @ rest) = Some [arg_code t]"
    "read_word 4 4 (text_cells t str @ rest) = Some (of_nat (length str))"
    "read_mem 8 (length str) (text_cells t str @ rest) = Some str"
proof -
  show "read_mem 0 1 (text_cells t str @ rest) = Some [arg_code t]" by (simp add: text_cells_def)
  have "read_mem 4 4 (text_cells t str @ rest) = Some (le_bytes 4 (of_nat (length str) :: u32))"
    using read_mem_pod [of 4 "le_bytes 4 (of_nat (length str) :: u32)"] by (simp add: text_cells_def)
  moreover have "(ucast (of_nat (length str) :: u32) :: u64) = of_nat (length str)"
    using assms by (simp add: word_unat_eq_iff unsigned_of_nat unsigned_ucast_eq take_bit_nat_eq_self)
  ultimately show "read_word 4 4 (text_cells t str @ rest) = Some (of_nat (length str))"
    by (simp add: read_word_def le_word_le_bytes_ucast)
  show "read_mem 8 (length str) (text_cells t str @ rest) = Some str"
    by (simp add: read_mem_def text_cells_def drop_Cons')
qed


section \<open>What is written for an argument\<close>

definition mixed_text :: "simd_target \<Rightarrow> u8 list \<Rightarrow> u8 list" where
  "mixed_text t str = the (utf16_to_utf_mixed t (byte_units str) (length str * 3 div 2 + 1))"

definition text_gap :: "simd_target \<Rightarrow> u8 list \<Rightarrow> bool" where
  "text_gap t str \<longleftrightarrow> get_vlq_encode_length (of_nat (length (mixed_text t str))) \<noteq> get_vlq_encode_length (of_nat (length str * 3 div 2 + 1))"

fun packed_arg :: "simd_target \<Rightarrow> log_arg \<Rightarrow> u8 list" where
  "packed_arg t Arg_nullptr = [arg_code Null_type]"
| "packed_arg t (Arg_pointer v) = arg_code Pointer_type # le_bytes 8 v"
| "packed_arg t (Arg_bool v) = [arg_code Bool_type, v]"
| "packed_arg t (Arg_char v) = [arg_code Char_type, v]"
| "packed_arg t (Arg_int8 v) = [arg_code Int8_type, v]"
| "packed_arg t (Arg_uint8 v) = [arg_code Uint8_type, v]"
| "packed_arg t (Arg_char16 v) = arg_code Char16_type # vlq_encode (ucast v)"
| "packed_arg t (Arg_uint16 v) = arg_code Uint16_type # vlq_encode (ucast v)"
| "packed_arg t (Arg_int16 v) = arg_code Int16_type # vlq_encode (ucast (zigzag_encode v))"
| "packed_arg t (Arg_char32 v) = arg_code Char32_type # vlq_encode (ucast v)"
| "packed_arg t (Arg_uint32 v) = arg_code Uint32_type # vlq_encode (ucast v)"
| "packed_arg t (Arg_int32 v) = arg_code Int32_type # vlq_encode (ucast (zigzag_encode v))"
| "packed_arg t (Arg_float v) = arg_code Float_type # le_bytes 4 v"
| "packed_arg t (Arg_uint64 v) = arg_code Uint64_type # vlq_encode v"
| "packed_arg t (Arg_int64 v) = arg_code Int64_type # vlq_encode (zigzag_encode v)"
| "packed_arg t (Arg_double v) = arg_code Double_type # le_bytes 8 v"
| "packed_arg t (Arg_utf8 s) = arg_code String_utf8_type # vlq_encode (of_nat (length (text_of (Arg_utf8 s)))) @ text_of (Arg_utf8 s)"
| "packed_arg t (Arg_utf16 s) = (let str = text_of (Arg_utf16 s); m = mixed_text t str
     in arg_code String_utf_mixed_type # vlq_encode (of_nat (length m)) @ (if text_gap t str then [0] else []) @ m)"
| "packed_arg t (Arg_utf32 s) = (let str = text_of (Arg_utf32 s); m = mixed_text t str
     in arg_code String_utf_mixed_type # vlq_encode (of_nat (length m)) @ (if text_gap t str then [0] else []) @ m)"

lemma length_le_byte1: "le_bytes 1 (v :: u8) = [v]" "le_bytes (Suc 0) (v :: u8) = [v]"
  by (simp_all add: le_bytes_def le_byte_def)

lemma pack_pod:
  assumes "\<exists>v :: u8. a \<in> {Arg_bool v, Arg_char v, Arg_int8 v, Arg_uint8 v}
     \<or> (\<exists>v. a \<in> {Arg_char16 v, Arg_uint16 v, Arg_int16 v}) \<or> (\<exists>v. a \<in> {Arg_char32 v, Arg_uint32 v, Arg_int32 v, Arg_float v})
     \<or> (\<exists>v. a \<in> {Arg_pointer v, Arg_uint64 v, Arg_int64 v, Arg_double v})"
  shows "pack_arg t (arg_cells a @ rest) = Some (packed_arg t a, length (arg_cells a))"
proof -
  have l: "length (pod_cells ty sz w) = (if sz = 1 then 4 else if sz \<le> 2 then 2 + sz else 4 + sz)" for ty sz and w :: "'w::len word"
    by (simp add: pod_cells_def length_pod_copy)
  have u: "ucast (ucast v :: u64) = (v :: 'v::len word)" if "LENGTH('v) \<le> 64" for v
    using that by (simp add: ucast_down_ucast_id is_down)
  show ?thesis
    using assms
    by (elim exE disjE insertE emptyE)
      (simp_all add: pack_arg_def pod_head pod_head [unfolded One_nat_def] read_pod read_pod_word le_word_le_bytes_ucast length_le_byte1 l u)
qed


text \<open>Length classes of numbers below \<open>2^32\<close>.\<close>

lemma vlq_len_nat:
  "x < 2 ^ 32 \<Longrightarrow> get_vlq_encode_length (of_nat x) =
     (if x < 0x80 then 1 else if x < 0x4080 then 2 else if x < 0x204080 then 3 else if x < 0x10204080 then 4 else 5)"
  unfolding get_vlq_encode_length_def vlq_min_value_vals
  by (simp add: word_less_nat_alt unsigned_of_nat take_bit_nat_eq_self)

lemma mixed_text:
  assumes "length us < 2 ^ 29"
  shows "utf16_to_utf_mixed t us (3 * length us + 1) = Some (mixed_text t (unit_bytes us))"
    "length us \<le> length (mixed_text t (unit_bytes us))" "length (mixed_text t (unit_bytes us)) \<le> 2 * length us + 1"
    "utf_mixed_to_utf8 t' simd (mixed_text t (unit_bytes us)) (2 * length (mixed_text t (unit_bytes us))) = Some (utf16_to_utf8_sw us)"
    "us \<noteq> [] \<Longrightarrow> hd us \<noteq> 0 \<Longrightarrow> hd (mixed_text t (unit_bytes us)) \<noteq> 0"
proof -
  have "\<exists>m. utf16_to_utf_mixed t us (3 * length us + 1) = Some m \<and> utf_mixed_to_utf8 t' simd m (2 * length m) = Some (utf16_to_utf8_sw us)
    \<and> length us \<le> length m \<and> length m \<le> 2 * length us + 1 \<and> (us \<noteq> [] \<longrightarrow> hd us \<noteq> 0 \<longrightarrow> hd m \<noteq> 0)" for t' simd
    using mixed_reads [of us "3 * length us + 1" t t' simd] by auto
  moreover have "mixed_text t (unit_bytes us) = the (utf16_to_utf_mixed t us (3 * length us + 1))"
    by (simp add: mixed_text_def)
  ultimately show "utf16_to_utf_mixed t us (3 * length us + 1) = Some (mixed_text t (unit_bytes us))"
    "length us \<le> length (mixed_text t (unit_bytes us))" "length (mixed_text t (unit_bytes us)) \<le> 2 * length us + 1"
    "utf_mixed_to_utf8 t' simd (mixed_text t (unit_bytes us)) (2 * length (mixed_text t (unit_bytes us))) = Some (utf16_to_utf8_sw us)"
    "us \<noteq> [] \<Longrightarrow> hd us \<noteq> 0 \<Longrightarrow> hd (mixed_text t (unit_bytes us)) \<noteq> 0"
    by (metis option.sel)+
qed

lemma pack_utf16_text:
  assumes "length us < 2 ^ 29"
  shows "pack_utf16 t (of_nat (length (unit_bytes us))) (unit_bytes us) =
    Some (vlq_encode (of_nat (length (mixed_text t (unit_bytes us))))
      @ (if text_gap t (unit_bytes us) then [0] else []) @ mixed_text t (unit_bytes us))"
proof -
  let ?n = "length us" and ?m = "mixed_text t (unit_bytes us)"
  have w: "unat (drop_bit 1 (of_nat (2 * ?n) * 3 :: u32) + 1) = 3 * ?n + 1" "unat (of_nat (2 * ?n) div 2 :: u32) = ?n"
  proof -
    have "(of_nat (2 * ?n) * 3 :: u32) = of_nat (6 * ?n)" by simp
    moreover have "drop_bit 1 (of_nat (6 * ?n) :: u32) = of_nat (3 * ?n)"
      using assms by (simp add: word_unat_eq_iff unsigned_drop_bit_eq unsigned_of_nat take_bit_nat_eq_self drop_bit_Suc unat_div del: of_nat_mult)
    ultimately show "unat (drop_bit 1 (of_nat (2 * ?n) * 3 :: u32) + 1) = 3 * ?n + 1"
      using assms by (simp add: unat_word_ariths unsigned_of_nat take_bit_nat_eq_self)
    show "unat (of_nat (2 * ?n) div 2 :: u32) = ?n"
      using assms by (simp add: unat_div unsigned_of_nat take_bit_nat_eq_self del: of_nat_mult)
  qed
  have u: "(ucast (drop_bit 1 (of_nat (2 * ?n) * 3 :: u32) + 1) :: u64) = of_nat (3 * ?n + 1)"
  proof -
    have "unat (ucast y :: u64) = unat y" for y :: u32
      using unat_lt2p [of y] by (simp add: unsigned_ucast_eq take_bit_nat_eq_self)
    moreover have "unat (of_nat (3 * ?n + 1) :: u64) = 3 * ?n + 1"
      using assms by (simp add: unsigned_of_nat take_bit_nat_eq_self del: of_nat_mult of_nat_add of_nat_Suc)
    ultimately show ?thesis using w(1) by (simp only: word_unat_eq_iff)
  qed
  have l: "get_vlq_encode_length (of_nat (length ?m)) = get_vlq_encode_length (of_nat (3 * ?n + 1))
      \<or> get_vlq_encode_length (of_nat (length ?m)) + 1 = get_vlq_encode_length (of_nat (3 * ?n + 1))"
    using mixed_text(2,3) [OF assms, of t] assms by (simp add: vlq_len_nat del: of_nat_add of_nat_Suc)
  have g: "text_gap t (unit_bytes us) \<longleftrightarrow> get_vlq_encode_length (of_nat (length ?m)) \<noteq> get_vlq_encode_length (of_nat (3 * ?n + 1))"
    by (simp add: text_gap_def)
  have "take (?n * 2) (unit_bytes us) = unit_bytes us" by simp
  then show ?thesis
    unfolding pack_utf16_def Let_def length_unit_bytes u w g
    using l by (simp only: byte_units_unit_bytes mixed_text(1) [OF assms] bind.simps length_vlq_encode) (auto simp del: of_nat_add of_nat_mult)
qed


text \<open>The units a text of 16-bit or 32-bit characters is stored as.\<close>

fun units_of :: "log_arg \<Rightarrow> u16 list" where
  "units_of (Arg_utf16 s) = chars_or_null s"
| "units_of (Arg_utf32 s) = concat (map utf16_units (text32 (fst (source32 s)) (snd (source32 s))))"
| "units_of _ = []"

lemma pack_utf16_arg:
  assumes "arg_ok a" "(\<exists>s. a = Arg_utf16 s) \<or> (\<exists>s. a = Arg_utf32 s)"
  shows "pack_arg t (arg_cells a @ rest) = Some (packed_arg t a, length (arg_cells a))"
proof -
  define us where "us = units_of a"
  have a: "arg_cells a = text_cells String_utf16_type (unit_bytes us)" "text_of a = unit_bytes us"
    "packed_arg t a = arg_code String_utf_mixed_type # vlq_encode (of_nat (length (mixed_text t (unit_bytes us))))
       @ (if text_gap t (unit_bytes us) then [0] else []) @ mixed_text t (unit_bytes us)"
    using assms(2) by (auto simp: us_def text_of_def Let_def)
  have l: "length us < 2 ^ 29" using assms(1) by (simp add: arg_ok_def a)
  have u: "unat (of_nat (length (unit_bytes us)) :: u64) = length (unit_bytes us)"
    "(ucast (of_nat (length (unit_bytes us)) :: u64) :: u32) = of_nat (length (unit_bytes us))"
    using l by (simp_all add: word_unat_eq_iff unsigned_ucast_eq unsigned_of_nat take_bit_nat_eq_self del: of_nat_mult)
  have "length (unit_bytes us) < 2 ^ 30" using l by simp
  note r = text_reads [OF this, of String_utf16_type rest]
  show ?thesis
    using r l unfolding pack_arg_def
    by (simp add: r(1) [unfolded One_nat_def] u pack_utf16_text [OF l] a(1,3) length_text_cells del: of_nat_mult length_unit_bytes)
qed

lemma pack_utf8_arg:
  assumes "arg_ok (Arg_utf8 s)"
  shows "pack_arg t (arg_cells (Arg_utf8 s) @ rest) = Some (packed_arg t (Arg_utf8 s), length (arg_cells (Arg_utf8 s)))"
proof -
  define str where "str = text_of (Arg_utf8 s)"
  have l: "length str < 2 ^ 30" using assms by (simp add: arg_ok_def str_def)
  then have u: "unat (of_nat (length str) :: u64) = length str" by (simp add: unsigned_of_nat take_bit_nat_eq_self)
  note r = text_reads [of str String_utf8_type rest]
  show ?thesis
    using r l unfolding pack_arg_def
    by (simp add: r(1) [unfolded One_nat_def] u flip: str_def) (simp add: length_text_cells)
qed

lemma pack_arg_cells: "arg_ok a \<Longrightarrow> pack_arg t (arg_cells a @ rest) = Some (packed_arg t a, length (arg_cells a))"
proof (cases a)
  case Arg_nullptr
  then show ?thesis by (simp add: pack_arg_def)
next
  case (Arg_utf8 s)
  then show "arg_ok a \<Longrightarrow> ?thesis" using pack_utf8_arg by blast
next
  case (Arg_utf16 s)
  then show "arg_ok a \<Longrightarrow> ?thesis" using pack_utf16_arg by blast
next
  case (Arg_utf32 s)
  then show "arg_ok a \<Longrightarrow> ?thesis" using pack_utf16_arg by blast
qed (rule pack_pod, simp)+

lemma pack_args_cells:
  "\<forall>a \<in> set as. arg_ok a \<Longrightarrow> pack_args t (concat (map arg_cells as)) = Some (concat (map (packed_arg t) as))"
proof (induction as)
  case (Cons a as)
  obtain k where "length (arg_cells a) = 4 + 4 * k" using length_arg_cells by blast
  then show ?case using Cons by (subst pack_args.simps) (auto simp: pack_arg_cells)
qed (simp add: pack_args.simps)


section \<open>Reading the arguments back\<close>

text \<open>What the reader makes of an argument: texts become UTF-8, everything else stays.\<close>

definition as_utf8 :: "log_arg \<Rightarrow> log_arg" where
  "as_utf8 a = (case a of Arg_utf16 s \<Rightarrow> Arg_utf8 (Some (utf16_to_utf8_sw (units_of a)))
     | Arg_utf32 s \<Rightarrow> Arg_utf8 (Some (utf16_to_utf8_sw (units_of a))) | _ \<Rightarrow> a)"

text \<open>A text must not start with a null character, which the reader would take for a place holder.\<close>

definition no_leading_null :: "log_arg \<Rightarrow> bool" where
  "no_leading_null a \<longleftrightarrow> (text_of a = [] \<or> (case a of Arg_utf8 s \<Rightarrow> hd (text_of a) \<noteq> 0 | _ \<Rightarrow> hd (units_of a) \<noteq> 0))"

lemma vlq_decode_encoded:
  "sz \<in> {1, 2, 4, 8} \<Longrightarrow> unat v < 2 ^ (8 * sz) \<Longrightarrow> vlq_decode sz (vlq_encode v @ rest) = Vlq_ok (length (vlq_encode v)) v"
  using vlq_decode_encode_append [OF vlq_encode_length_sz, of sz v rest]
  by (simp only: take_bit_word_less length_vlq_encode)

lemma read_vlq_encode:
  "sz \<in> {1, 2, 4, 8} \<Longrightarrow> unat v < 2 ^ (8 * sz) \<Longrightarrow> read_vlq sz (vlq_encode v @ rest) = Some (v, rest)"
  by (simp only: read_vlq_def vlq_decode_encoded) simp

lemma vlq_decode_8: "vlq_decode 8 (vlq_encode v @ rest) = Vlq_ok (length (vlq_encode v)) v"
  using unat_lt2p [of v] by (intro vlq_decode_encoded) simp_all

lemma read_vlq_8: "read_vlq 8 (vlq_encode v @ rest) = Some (v, rest)"
  using unat_lt2p [of v] by (intro read_vlq_encode) simp_all

lemma unat_ucast_less:
  assumes "LENGTH('a) = 8 * sz" shows "unat (ucast (v :: 'a::len word) :: u64) < 2 ^ (8 * sz)"
proof -
  have "unat (ucast v :: u64) \<le> unat v" by (simp add: unsigned_ucast_eq take_bit_nat_less_eq_self)
  also have "\<dots> < 2 ^ (8 * sz)" using unat_lt2p [of v] assms by simp
  finally show ?thesis .
qed

lemma vlq_decode_ucast:
  assumes "LENGTH('a) = 8 * sz" "sz \<in> {1, 2, 4, 8}"
  shows "vlq_decode sz (vlq_encode (ucast (v :: 'a::len word)) @ rest) = Vlq_ok (length (vlq_encode (ucast v))) (ucast v)"
  by (rule vlq_decode_encoded [OF assms(2) unat_ucast_less [OF assms(1)]])

lemma read_vlq_ucast:
  assumes "LENGTH('a) = 8 * sz" "sz \<in> {1, 2, 4, 8}"
  shows "read_vlq sz (vlq_encode (ucast (v :: 'a::len word)) @ rest) = Some (ucast v, rest)"
  by (rule read_vlq_encode [OF assms(2) unat_ucast_less [OF assms(1)]])

lemma le_bytes_ucast:
  "8 * n \<le> LENGTH('a) \<Longrightarrow> 8 * n \<le> LENGTH('b) \<Longrightarrow> le_bytes n (ucast (v :: 'a::len word) :: 'b::len word) = le_bytes n v"
  by (rule nth_equalityI; simp; rule bit_word_eqI) (auto simp: bit_le_byte bit_ucast_iff)

lemma unpack_pod:
  assumes "(\<exists>v. a \<in> {Arg_bool v, Arg_char v, Arg_int8 v, Arg_uint8 v})
     \<or> (\<exists>v. a \<in> {Arg_char16 v, Arg_uint16 v, Arg_int16 v}) \<or> (\<exists>v. a \<in> {Arg_char32 v, Arg_uint32 v, Arg_int32 v, Arg_float v})
     \<or> (\<exists>v. a \<in> {Arg_pointer v, Arg_uint64 v, Arg_int64 v, Arg_double v}) \<or> a = Arg_nullptr"
  shows "\<exists>code data cells. packed_arg t a = code # data \<and> \<not> unknown_type code \<and> unpack_arg t' simd code (data @ rest) = Some (code, cells, rest)
    \<and> Some code # cells = arg_cells (as_utf8 a)"
proof -
  have u: "ucast (ucast v :: u64) = (v :: 'v::len word)" if "LENGTH('v) \<le> 64" for v
    using that by (simp add: ucast_down_ucast_id is_down)
  show ?thesis
    using assms
    by (elim exE disjE insertE emptyE)
      (simp_all add: unpack_arg_def unknown_type_def as_utf8_def read_vlq_ucast read_vlq_8 read_bytes_def
        pod_cells_def pod_copy_def raw_pod_def u le_bytes_ucast length_le_byte1 zigzag_decode_encode)
qed


lemma text_cells_raw: "Some (arg_code t) # raw_text str = text_cells t str"
  by (simp add: raw_text_def text_cells_def)

lemma unpack_text_len:
  assumes "length m < 2 ^ 32" "m \<noteq> []" "gap = [0] \<or> gap = [] \<and> hd m \<noteq> 0"
  shows "unpack_text (vlq_encode (of_nat (length m)) @ gap @ m @ rest) = Some (m, rest)"
proof -
  have u: "unat (of_nat (length m) :: u64) = length m" using assms(1) by (simp add: unsigned_of_nat take_bit_nat_eq_self)
  then have "read_vlq 4 (vlq_encode (of_nat (length m)) @ gap @ m @ rest) = Some (of_nat (length m), gap @ m @ rest)"
    using assms(1) by (intro read_vlq_encode) simp_all
  moreover have "(of_nat (length m) :: u64) \<noteq> 0" using u assms(2) by (metis length_0_conv unat_0)
  ultimately show ?thesis
    using assms(2,3) by (auto simp: unpack_text_def u read_bytes_def simp del: of_nat_Suc)
qed

lemma unpack_text_empty: "unpack_text (vlq_encode 0 @ rest) = Some ([], rest)"
proof -
  have "read_vlq 4 (vlq_encode 0 @ rest) = Some (0, rest)" by (intro read_vlq_encode) simp_all
  then show ?thesis by (simp add: unpack_text_def read_bytes_def)
qed

lemma unpack_texts:
  assumes "arg_ok a" "no_leading_null a" "(\<exists>s. a = Arg_utf8 s) \<or> (\<exists>s. a = Arg_utf16 s) \<or> (\<exists>s. a = Arg_utf32 s)"
  shows "\<exists>code data cells. packed_arg t a = code # data \<and> \<not> unknown_type code
    \<and> unpack_arg t' simd code (data @ rest) = Some (arg_code String_utf8_type, cells, rest)
    \<and> Some (arg_code String_utf8_type) # cells = arg_cells (as_utf8 a)"
proof (cases "\<exists>s. a = Arg_utf8 s")
  case True
  then obtain s where a: "a = Arg_utf8 s" by blast
  define str where "str = text_of a"
  have l: "length str < 2 ^ 32" using assms(1) by (simp add: arg_ok_def str_def)
  have "unpack_text (vlq_encode (of_nat (length str)) @ [] @ str @ rest) = Some (str, rest)"
  proof (cases "str = []")
    case False
    then show ?thesis using assms(2) l by (intro unpack_text_len) (auto simp: no_leading_null_def str_def a)
  qed (simp add: unpack_text_empty)
  then show ?thesis
    by (simp add: a as_utf8_def unpack_arg_def unknown_type_def text_cells_raw str_def)
next
  case False
  define us where "us = units_of a"
  define m where "m = mixed_text t (unit_bytes us)"
  have u: "text_of a = unit_bytes us" using assms(3) False by (auto simp: us_def text_of_def)
  then have l: "length us < 2 ^ 29" using assms(1) by (simp add: arg_ok_def)
  note mx = mixed_text [OF l, where t = t, folded m_def]
  have lm: "length m < 2 ^ 32" using mx(3) l by simp
  have p: "packed_arg t a = arg_code String_utf_mixed_type # vlq_encode (of_nat (length m)) @ (if text_gap t (unit_bytes us) then [0] else []) @ m"
    and utf8: "as_utf8 a = Arg_utf8 (Some (utf16_to_utf8_sw us))"
    using assms(3) False u by (auto simp: Let_def m_def as_utf8_def us_def)
  have r: "unpack_text (vlq_encode (of_nat (length m)) @ (if text_gap t (unit_bytes us) then [0] else []) @ m @ rest) = Some (m, rest)"
  proof (cases "us = []")
    case True
    then have "utf16_to_utf_mixed t [] 1 = Some m" using mx(1) by simp
    then have "m = []" by (rule_tac mixed_form [of "[]" t]) auto
    then show ?thesis using True by (simp add: text_gap_def m_def unpack_text_empty get_vlq_encode_length_def vlq_min_value_vals)
  next
    case False
    then have "text_of a \<noteq> []" using u length_unit_bytes [of us] by fastforce
    then have "hd us \<noteq> 0" using assms(2,3) \<open>\<nexists>s. a = Arg_utf8 s\<close> by (auto simp: no_leading_null_def us_def)
    then show ?thesis using False mx(2,5) lm by (intro unpack_text_len) auto
  qed
  have d: "unat (push_bit 1 (of_nat (length m) :: u32)) = 2 * length m"
    using mx(3) l by (simp add: unat_word_ariths unsigned_of_nat take_bit_nat_eq_self)
  have "utf_mixed_to_utf8 t' simd m (2 * length m) = Some (utf16_to_utf8_sw us)" using mx(4) by simp
  then show ?thesis
    unfolding p utf8 using r d
    by (simp add: unpack_arg_def unknown_type_def text_cells_raw text_of_def chars_or_null_def)
qed


lemma unpack_packed:
  assumes "arg_ok a" "no_leading_null a"
  shows "unpack_args t' simd (packed_arg t a @ rest) = map_option (\<lambda>m. arg_cells (as_utf8 a) @ m) (unpack_args t' simd rest)"
proof -
  have "\<exists>code data code' cells. packed_arg t a = code # data \<and> \<not> unknown_type code
    \<and> unpack_arg t' simd code (data @ rest) = Some (code', cells, rest) \<and> Some code' # cells = arg_cells (as_utf8 a)"
  proof (cases "(\<exists>s. a = Arg_utf8 s) \<or> (\<exists>s. a = Arg_utf16 s) \<or> (\<exists>s. a = Arg_utf32 s)")
    case True
    then show ?thesis using unpack_texts [OF assms, of t t' simd rest] by blast
  next
    case False
    then show ?thesis using unpack_pod [of a t t' simd rest] by (cases a) blast+
  qed
  then obtain code data code' cells where "packed_arg t a = code # data" "\<not> unknown_type code"
    "unpack_arg t' simd code (data @ rest) = Some (code', cells, rest)" "arg_cells (as_utf8 a) = Some code' # cells" by metis
  then show ?thesis by (subst unpack_args.simps) (cases "unpack_args t' simd rest"; simp)
qed

lemma unpack_args_packed:
  "\<forall>a \<in> set as. arg_ok a \<and> no_leading_null a \<Longrightarrow>
    unpack_args t' simd (concat (map (packed_arg t) as)) = Some (concat (map (\<lambda>a. arg_cells (as_utf8 a)) as))"
  by (induction as) (simp_all add: unpack_packed, simp add: unpack_args.simps)

section \<open>Properties\<close>

text \<open>
  C19. The arguments of a log call survive the compressed file: whatever texts below one gibibyte and numbers are logged, packing the argument
  area never leaves it, and unpacking on any machine rebuilds the area of the same call with its wide texts in UTF-8, provided that no
  text starts with a null character.
\<close>

theorem log_args_roundtrip:
  assumes "\<forall>a \<in> set as. arg_ok a \<and> no_leading_null a" and "\<forall>a \<in> set as. arg_ok (as_utf8 a)"
  shows "\<exists>area packed. log_args_fill as = Some area \<and> pack_args t area = Some packed
    \<and> unpack_args t' simd packed = log_args_fill (map as_utf8 as)"
  using assms pack_args_cells [of as t] unpack_args_packed [of as t' simd t] log_args_fill_cells [of as] log_args_fill_cells [of "map as_utf8 as"]
  by (simp add: comp_def)

theorem log_args_roundtrip_witness:
  "\<exists>area packed. log_args_fill [Arg_int32 (- 5), Arg_utf32 (Some (1, [0x4E2D, 0, 0]))] = Some area \<and> pack_args Simd_none area = Some packed
    \<and> unpack_args Simd_neon True packed = log_args_fill (map as_utf8 [Arg_int32 (- 5), Arg_utf32 (Some (1, [0x4E2D, 0, 0]))])"
proof (rule log_args_roundtrip)
  have u: "length (utf16_to_utf8_sw [0x4E2D]) = 3" by code_simp
  show "\<forall>a \<in> set [Arg_int32 (- 5), Arg_utf32 (Some (1, [0x4E2D, 0, 0]))]. arg_ok a \<and> no_leading_null a"
    by (simp add: arg_ok_def no_leading_null_def text_of_def source32_def text32_def utf16_units_def)
  show "\<forall>a \<in> set [Arg_int32 (- 5), Arg_utf32 (Some (1, [0x4E2D, 0, 0]))]. arg_ok (as_utf8 a)"
    by (simp add: arg_ok_def as_utf8_def text_of_def source32_def text32_def utf16_units_def chars_or_null_def u del: utf16_to_utf8_sw.simps)
qed


text \<open>A text that does start with one: the reader fails, or shifts the text and swallows the next argument.\<close>

theorem leading_null_misread:
  "pack_args t (arg_cells (Arg_utf8 (Some [0]))) = Some (packed_arg t (Arg_utf8 (Some [0]))) \<and>
   unpack_args t' simd (packed_arg t (Arg_utf8 (Some [0]))) = None"
proof -
  have "arg_ok (Arg_utf8 (Some [0]))" by (simp add: arg_ok_def text_of_def chars_or_null_def)
  then have p: "pack_args t (arg_cells (Arg_utf8 (Some [0]))) = Some (packed_arg t (Arg_utf8 (Some [0])))"
    using pack_args_cells [of "[Arg_utf8 (Some [0])]" t] by simp
  have "packed_arg t (Arg_utf8 (Some [0])) = arg_code String_utf8_type # vlq_encode 1 @ [0]"
    by (simp add: text_of_def chars_or_null_def)
  moreover have "read_vlq 4 (vlq_encode 1 @ [0]) = Some (1, [0])" by (rule read_vlq_encode) simp_all
  ultimately have "unpack_args t' simd (packed_arg t (Arg_utf8 (Some [0]))) = None"
    by (subst unpack_args.simps) (simp add: unknown_type_def unpack_arg_def unpack_text_def read_bytes_def)
  then show ?thesis using p by simp
qed

end
