(* ===== verification/Log_Entry.thy ===== *)
theory Log_Entry
  imports Compressed_Args
begin

text \<open>
  A log entry in the log buffer: its head (\<open>_log_entry_head_def\<close> of \<open>include/bq_log/misc/bq_log_def.h\<close>), the format text, the argument
  area and the thread name, as \<open>__api_log_write_begin\<close> and \<open>__api_log_write_finish\<close> of \<open>src/bq_log/api/bq_log_api.cpp\<close> write them, the
  accessors of \<open>log_entry_handle\<close> and its \<open>validate\<close> (\<open>src/bq_log/log/log_types.h\<close> and \<open>.cpp\<close>), which decides whether an entry
  recovered from a memory mapped file after a crash is used.
\<close>

section \<open>Layout\<close>

record log_head =
  timestamp_epoch :: u64
  ext_info_offset :: u32
  category_idx :: u32
  log_thread_id :: u64
  format_hash :: u64
  log_format_str_type :: u8
  head_level :: u8
  log_format_data_len :: u32

definition head_cells :: "log_head \<Rightarrow> mem" where
  "head_cells h = map Some (le_bytes 8 (timestamp_epoch h) @ le_bytes 4 (ext_info_offset h) @ le_bytes 4 (category_idx h)
     @ le_bytes 8 (log_thread_id h) @ le_bytes 8 (format_hash h) @ [log_format_str_type h, head_level h])
     @ [None, None] @ map Some (le_bytes 4 (log_format_data_len h))"

definition max_thread_name_len :: nat where
  "max_thread_name_len = 16"

text \<open>
  The entry of one log call. \<open>known\<close>: the format text is handed over as \<open>format_str_data\<close> and hashed while it is copied; otherwise the
  caller copies it into the entry itself and the hash stays 0, as it does for a \<open>char32_t\<close> format.
\<close>

definition log_write :: "(u8 list \<Rightarrow> u64) \<Rightarrow> bool \<Rightarrow> u64 \<Rightarrow> u8 \<Rightarrow> u32 \<Rightarrow> log_arg_type_enum \<Rightarrow> u8 list \<Rightarrow> mem \<Rightarrow> u64 \<Rightarrow> u8 list \<Rightarrow> mem" where
  "log_write hash known epoch_ms level category format_type format args thread_id thread_name =
     (let length_without_ext_info = 40 + align_4 (length format) + length args;
          thread_name = take max_thread_name_len thread_name
      in head_cells \<lparr>timestamp_epoch = epoch_ms, ext_info_offset = of_nat length_without_ext_info, category_idx = category,
             log_thread_id = thread_id,
             format_hash = (if known \<and> format_type \<noteq> String_utf32_type then hash format else 0),
             log_format_str_type = arg_code format_type, head_level = level, log_format_data_len = of_nat (length format)\<rparr>
         @ map Some format @ replicate (align_4 (length format) - length format) None
         @ args
         @ map Some (of_nat (length thread_name) # thread_name))"

section \<open>Accessors\<close>

definition get_log_head :: "mem \<Rightarrow> log_head option" where
  "get_log_head m =
     Option.bind (read_mem 0 34 m) (\<lambda>b.
     map_option (\<lambda>n. \<lparr>timestamp_epoch = le_word (take 8 b), ext_info_offset = le_word (take 4 (drop 8 b)),
         category_idx = le_word (take 4 (drop 12 b)), log_thread_id = le_word (take 8 (drop 16 b)),
         format_hash = le_word (take 8 (drop 24 b)), log_format_str_type = b ! 32, head_level = b ! 33,
         log_format_data_len = le_word n\<rparr>) (read_mem 36 4 m))"

definition get_format_string_data :: "log_head \<Rightarrow> mem \<Rightarrow> u8 list option" where
  "get_format_string_data h m = read_mem 40 (unat (log_format_data_len h)) m"

definition get_log_args_offset :: "log_head \<Rightarrow> nat" where
  "get_log_args_offset h = 40 + align_4 (unat (log_format_data_len h))"

definition get_log_args_data_size :: "log_head \<Rightarrow> u32" where
  "get_log_args_data_size h = ext_info_offset h - of_nat (get_log_args_offset h)"

definition get_log_args_data :: "log_head \<Rightarrow> mem \<Rightarrow> mem" where
  "get_log_args_data h m = take (unat (get_log_args_data_size h)) (drop (get_log_args_offset h) m)"

definition get_ext_head :: "log_head \<Rightarrow> mem \<Rightarrow> u8 option" where
  "get_ext_head h m = map_option hd (read_mem (unat (ext_info_offset h)) 1 m)"

definition get_thread_name :: "log_head \<Rightarrow> mem \<Rightarrow> u8 list option" where
  "get_thread_name h m = Option.bind (get_ext_head h m) (\<lambda>n. read_mem (unat (ext_info_offset h) + 1) (unat n) m)"

section \<open>Validation\<close>

text \<open>The step over one argument; the inner \<open>None\<close> rejects the entry, the outer one is a read of a cell nobody wrote.\<close>

definition arg_step :: "mem \<Rightarrow> u8 \<Rightarrow> nat option option" where
  "arg_step args code =
     (case arg_type_of code of
        Some Null_type \<Rightarrow> Some (Some 4)
      | Some Bool_type \<Rightarrow> Some (Some 4)
      | Some Char_type \<Rightarrow> Some (Some 4)
      | Some Char16_type \<Rightarrow> Some (Some 4)
      | Some Int8_type \<Rightarrow> Some (Some 4)
      | Some Uint8_type \<Rightarrow> Some (Some 4)
      | Some Int16_type \<Rightarrow> Some (Some 4)
      | Some Uint16_type \<Rightarrow> Some (Some 4)
      | Some Char32_type \<Rightarrow> Some (Some (4 + 4))
      | Some Int32_type \<Rightarrow> Some (Some (4 + 4))
      | Some Uint32_type \<Rightarrow> Some (Some (4 + 4))
      | Some Float_type \<Rightarrow> Some (Some (4 + 4))
      | Some Int64_type \<Rightarrow> Some (Some (4 + 8))
      | Some Uint64_type \<Rightarrow> Some (Some (4 + 8))
      | Some Double_type \<Rightarrow> Some (Some (4 + 8))
      | Some Pointer_type \<Rightarrow> Some (Some (4 + 8))
      | Some String_utf8_type \<Rightarrow>
          if length args < 8 then Some None
          else map_option (\<lambda>n. let n = 4 + 4 + align_4 (unat n) in if n > length args then None else Some n) (read_word 4 4 args)
      | Some String_utf16_type \<Rightarrow>
          if length args < 8 then Some None
          else map_option (\<lambda>n. let n = 4 + 4 + align_4 (unat n) in if n > length args then None else Some n) (read_word 4 4 args)
      | Some String_utf_mixed_type \<Rightarrow> Some None
      | Some String_utf32_type \<Rightarrow> Some None
      | Some Unsupported_type \<Rightarrow> Some None
      | None \<Rightarrow> Some None)"

lemma arg_step_pos [termination_simp]: "arg_step args code = Some (Some n) \<Longrightarrow> 4 \<le> n"
  by (auto simp: arg_step_def Let_def split: option.splits log_arg_type_enum.splits if_splits)

function validate_args :: "mem \<Rightarrow> bool option" where
  "validate_args args =
     (if args = [] then Some True
      else if length args < 4 then Some False
      else (case read_mem 0 1 args of
              None \<Rightarrow> None
            | Some code \<Rightarrow>
                (case arg_step args (hd code) of
                   None \<Rightarrow> None
                 | Some None \<Rightarrow> Some False
                 | Some (Some step) \<Rightarrow> if step > length args then Some False else validate_args (drop step args))))"
  by pat_completeness auto
termination by (relation "measure length") (auto dest: arg_step_pos)

declare validate_args.simps [simp del]

definition validate :: "mem \<Rightarrow> bool option" where
  "validate m =
     (if length m < 40 + 1 then Some False
      else Option.bind (get_log_head m) (\<lambda>h.
        if arg_type_of (log_format_str_type h) \<notin> {Some String_utf8_type, Some String_utf16_type, Some String_utf32_type} then Some False
        else if get_log_args_offset h > length m then Some False
        else if unat (ext_info_offset h) < get_log_args_offset h \<or> unat (ext_info_offset h) + 1 > length m then Some False
        else Option.bind (get_ext_head h m) (\<lambda>n.
          if unat (ext_info_offset h) + 1 + unat n > length m then Some False
          else validate_args (take (unat (ext_info_offset h) - get_log_args_offset h) (drop (get_log_args_offset h) m)))))"


section \<open>Reading an entry\<close>

lemma those_None_Cons [simp]: "those (None # xs) = None" "those (Some x # xs) = map_option (\<lambda>ys. x # ys) (those xs)"
  by simp_all

lemma read_mem_Some: "off + n \<le> length b \<Longrightarrow> read_mem off n (map Some b @ rest) = Some (take n (drop off b))"
  by (simp add: read_mem_def drop_map take_map)

lemma read_mem_skip: "length a \<le> off \<Longrightarrow> read_mem off n (a @ m) = read_mem (off - length a) n m"
  by (auto simp: read_mem_def)

lemma length_head_cells [simp]: "length (head_cells h) = 40"
  by (simp add: head_cells_def)

lemma read_mem_prefix: "off + n \<le> length a \<Longrightarrow> read_mem off n (a @ m) = read_mem off n a"
  by (simp add: read_mem_def)

lemma get_log_head_cells [simp]: "get_log_head (head_cells h @ rest) = Some h"
proof -
  define b where "b = le_bytes 8 (timestamp_epoch h) @ le_bytes 4 (ext_info_offset h) @ le_bytes 4 (category_idx h)
     @ le_bytes 8 (log_thread_id h) @ le_bytes 8 (format_hash h) @ [log_format_str_type h, head_level h]"
  have l: "length b = 34" by (simp add: b_def)
  have h: "head_cells h @ rest = map Some b @ [None, None] @ map Some (le_bytes 4 (log_format_data_len h)) @ rest"
    by (simp add: head_cells_def b_def)
  have r: "read_mem 0 34 (head_cells h @ rest) = Some b" using l unfolding h by (subst read_mem_Some) simp_all
  have n: "read_mem 36 4 (head_cells h @ rest) = Some (le_bytes 4 (log_format_data_len h))"
    using l unfolding h
    by (simp add: read_mem_skip [of "map Some b @ [None, None]" 36 4, simplified] read_mem_Some [of 0 4, simplified])
  show ?thesis unfolding get_log_head_def r n by (simp add: b_def nth_append)
qed


text \<open>The entry of a log call, when it is shorter than four gibibytes.\<close>

lemma log_write_reads:
  fixes hash known epoch lv cat ty fmt args tid name
  assumes "40 + align_4 (length fmt) + length args < 2 ^ 32"
  defines "m \<equiv> log_write hash known epoch lv cat ty fmt args tid name"
  defines "h \<equiv> \<lparr>timestamp_epoch = epoch, ext_info_offset = of_nat (40 + align_4 (length fmt) + length args), category_idx = cat, log_thread_id = tid,
     format_hash = (if known \<and> ty \<noteq> String_utf32_type then hash fmt else 0), log_format_str_type = arg_code ty, head_level = lv,
     log_format_data_len = of_nat (length fmt)\<rparr>"
  shows "get_log_head m = Some h" "get_format_string_data h m = Some fmt" "get_log_args_data h m = args"
    "get_log_args_offset h = 40 + align_4 (length fmt)" "unat (get_log_args_data_size h) = length args"
    "get_ext_head h m = Some (of_nat (length (take 16 name)))" "get_thread_name h m = Some (take 16 name)"
    "unat (ext_info_offset h) = 40 + align_4 (length fmt) + length args"
    "length m = 40 + align_4 (length fmt) + length args + 1 + length (take 16 name)"
proof -
  define pad where "pad = replicate (align_4 (length fmt) - length fmt) (None :: u8 option)"
  define tn where "tn = take 16 name"
  have m: "m = head_cells h @ map Some fmt @ pad @ args @ map Some (of_nat (length tn) # tn)"
    by (simp add: m_def h_def log_write_def Let_def pad_def tn_def max_thread_name_len_def)
  have lf: "length fmt \<le> align_4 (length fmt)" by (rule align_4_bounds)
  then have lp: "length fmt + length pad = align_4 (length fmt)" by (simp add: pad_def)
  have uf: "unat (of_nat (length fmt) :: u32) = length fmt" using assms(1) lf by (simp add: unsigned_of_nat take_bit_nat_eq_self)
  have ue: "unat (of_nat (40 + align_4 (length fmt) + length args) :: u32) = 40 + align_4 (length fmt) + length args"
    using assms(1) by (simp add: unsigned_of_nat take_bit_nat_eq_self del: of_nat_add)
  have un: "unat (of_nat (length tn) :: u8) = length tn" by (simp add: tn_def unsigned_of_nat take_bit_nat_eq_self)
  show g: "get_log_head m = Some h" by (simp add: m)
  show "get_format_string_data h m = Some fmt"
    by (simp add: get_format_string_data_def h_def uf m read_mem_skip read_mem_Some)
  show o: "get_log_args_offset h = 40 + align_4 (length fmt)" by (simp add: get_log_args_offset_def h_def uf)
  have "get_log_args_data_size h = of_nat (length args)"
    unfolding get_log_args_data_size_def o by (simp add: h_def)
  then show s: "unat (get_log_args_data_size h) = length args"
    using assms(1) by (simp add: unsigned_of_nat take_bit_nat_eq_self)
  show "get_log_args_data h m = args"
    unfolding get_log_args_data_def s o by (simp add: m lp [symmetric])
  show e: "unat (ext_info_offset h) = 40 + align_4 (length fmt) + length args" using ue by (simp add: h_def)
  define p where "p = head_cells h @ map Some fmt @ pad @ args"
  have x: "m = p @ map Some (of_nat (length tn) # tn)" "length p = 40 + align_4 (length fmt) + length args"
    using lp by (simp_all add: m p_def)
  show eh: "get_ext_head h m = Some (of_nat (length (take 16 name)))"
    unfolding get_ext_head_def e x(1) by (subst read_mem_skip) (simp_all add: x(2) tn_def)
  have "read_mem (length p + 1) (length tn) m = Some tn"
    using read_mem_skip [of "p @ [Some (of_nat (length tn))]" "length p + 1" "length tn" "map Some tn"] read_mem_Some [of 0 "length tn" tn "[]"]
    by (simp add: x(1))
  then show "get_thread_name h m = Some (take 16 name)"
    unfolding get_thread_name_def eh e using un by (simp add: x(2) tn_def)
  show "length m = 40 + align_4 (length fmt) + length args + 1 + length (take 16 name)"
    using x by (simp add: tn_def)
qed


section \<open>Validation accepts what is written and rejects what cannot be read\<close>

lemma arg_step_text:
  assumes "length str < 2 ^ 30" "ty = String_utf8_type \<or> ty = String_utf16_type"
  shows "arg_step (text_cells ty str @ rest) (arg_code ty) = Some (Some (8 + align_4 (length str)))"
proof -
  have u: "unat (of_nat (length str) :: u64) = length str" using assms(1) by (simp add: unsigned_of_nat take_bit_nat_eq_self)
  show ?thesis using assms(2) text_reads(2) [OF assms(1), of ty rest]
    by (elim disjE) (simp_all add: arg_step_def length_text_cells u)
qed

lemma arg_cells_head: "arg_cells a @ rest = Some (arg_code (get_log_param_type_enum a)) # tl (arg_cells a) @ rest"
  by (cases a) (simp_all add: pod_cells_def pod_copy_def text_cells_def)

lemma arg_step_cells: "arg_ok a \<Longrightarrow> arg_step (arg_cells a @ rest) (arg_code (get_log_param_type_enum a)) = Some (Some (length (arg_cells a)))"
proof (cases a)
  case (Arg_utf8 s)
  then show "arg_ok a \<Longrightarrow> ?thesis" by (simp add: arg_step_text length_text_cells arg_ok_def)
next
  case (Arg_utf16 s)
  then show "arg_ok a \<Longrightarrow> ?thesis" by (simp add: arg_step_text length_text_cells arg_ok_def)
next
  case (Arg_utf32 s)
  then show "arg_ok a \<Longrightarrow> ?thesis" by (simp add: arg_step_text length_text_cells arg_ok_def)
qed (simp_all add: arg_step_def pod_cells_def length_pod_copy)

lemma validate_args_cells: "\<forall>a \<in> set as. arg_ok a \<Longrightarrow> validate_args (concat (map arg_cells as)) = Some True"
proof (induction as)
  case (Cons a as)
  obtain k where k: "length (arg_cells a) = 4 + 4 * k" using length_arg_cells by blast
  have c: "read_mem 0 1 (arg_cells a @ concat (map arg_cells as)) = Some [arg_code (get_log_param_type_enum a)]"
    unfolding arg_cells_head [of a] by simp
  show ?case
    using Cons k arg_step_cells [of a "concat (map arg_cells as)"] by (subst validate_args.simps) (simp add: c [unfolded One_nat_def])
qed (simp add: validate_args.simps)

lemma vlq_len_near:
  assumes "k \<le> n" "n \<le> 3 * k + 2" "n < 2 ^ 32"
  shows "get_vlq_encode_length (of_nat k) = get_vlq_encode_length (of_nat n)
    \<or> get_vlq_encode_length (of_nat k) + 1 = get_vlq_encode_length (of_nat n)"
proof -
  have "k < 2 ^ 32" using assms by simp
  then show ?thesis using assms unfolding vlq_len_nat [OF assms(3)] vlq_len_nat [OF \<open>k < 2 ^ 32\<close>] by (simp split: if_split; linarith)
qed

text \<open>A text of any even or odd number of bytes has a mixed form that its length field fits.\<close>

lemma pack_utf16_some:
  assumes "length str < 2 ^ 30"
  shows "\<exists>b. pack_utf16 t (of_nat (length str)) str = Some b"
proof -
  let ?l = "length str"
  define us where "us = byte_units (take (?l div 2 * 2) str)"
  have units: "length (byte_units b) = length b div 2" for b :: "u8 list"
    by (induction b rule: byte_units.induct) simp_all
  have n: "length us = ?l div 2" by (simp add: us_def units)
  have w: "unat (drop_bit 1 (of_nat ?l * 3 :: u32) + 1) = 3 * ?l div 2 + 1" "unat (of_nat ?l div 2 :: u32) = ?l div 2"
  proof -
    have e: "(of_nat ?l * 3 :: u32) = of_nat (3 * ?l)" by simp
    have "unat (drop_bit 1 (of_nat (3 * ?l) :: u32)) = 3 * ?l div 2"
      using assms by (simp add: unsigned_drop_bit_eq unsigned_of_nat take_bit_nat_eq_self drop_bit_Suc unat_div del: of_nat_mult)
    then show "unat (drop_bit 1 (of_nat ?l * 3 :: u32) + 1) = 3 * ?l div 2 + 1"
      unfolding e using assms by (simp add: unat_word_ariths del: of_nat_mult)
    show "unat (of_nat ?l div 2 :: u32) = ?l div 2"
      using assms by (simp add: unat_div unsigned_of_nat take_bit_nat_eq_self)
  qed
  have u: "(ucast (drop_bit 1 (of_nat ?l * 3 :: u32) + 1) :: u64) = of_nat (3 * ?l div 2 + 1)"
  proof -
    have "unat (ucast y :: u64) = unat y" for y :: u32
      using unat_lt2p [of y] by (simp add: unsigned_ucast_eq take_bit_nat_eq_self)
    moreover have "unat (of_nat (3 * ?l div 2 + 1) :: u64) = 3 * ?l div 2 + 1"
      using assms by (simp add: unsigned_of_nat take_bit_nat_eq_self del: of_nat_mult of_nat_add of_nat_Suc)
    ultimately show ?thesis using w(1) by (simp only: word_unat_eq_iff)
  qed
  obtain m where m: "utf16_to_utf_mixed t us (3 * ?l div 2 + 1) = Some m" "?l div 2 \<le> length m" "length m \<le> 2 * (?l div 2) + 1"
  proof -
    have "2 * length us < 3 * ?l div 2 + 1" unfolding n by linarith
    then show ?thesis using mixed_reads [of us "3 * ?l div 2 + 1" t t True] that n by auto
  qed
  have "get_vlq_encode_length (of_nat (length m)) = get_vlq_encode_length (of_nat (3 * ?l div 2 + 1))
      \<or> get_vlq_encode_length (of_nat (length m)) + 1 = get_vlq_encode_length (of_nat (3 * ?l div 2 + 1))"
  proof (rule vlq_len_near)
    show "length m \<le> 3 * ?l div 2 + 1" "3 * ?l div 2 + 1 \<le> 3 * length m + 2" using m(2,3) by linarith+
    show "3 * ?l div 2 + 1 < 2 ^ 32" using assms by simp
  qed
  then show ?thesis
    unfolding pack_utf16_def Let_def u w us_def [symmetric] m(1) by (auto simp: length_vlq_encode)
qed


lemma read_mem_bytes: "off + n \<le> length b \<Longrightarrow> read_mem off n (map Some b) = Some (take n (drop off b))"
  using read_mem_Some [of off n b "[]"] by simp

lemma unat_le_word32: "length b = 4 \<Longrightarrow> unat (le_word b :: u64) < 2 ^ 32 \<and> ucast (le_word b :: u64) = (of_nat (unat (le_word b :: u64)) :: u32)"
  using unat_le_word_less [of b, where 'a = 64] by simp

lemma arg_step_packs:
  assumes "arg_step (map Some b) code = Some (Some n)" "b = code # b'" "n \<le> length b" "length b < 2 ^ 30"
  shows "\<exists>out. pack_arg t (map Some b) = Some (out, n)"
proof -
  have c: "read_mem 0 1 (map Some b) = Some [code]" "read_mem 0 (Suc 0) (map Some b) = Some [code]"
    using read_mem_bytes [of 0 1 b] assms(2) by simp_all
  have r: "4 \<le> n" using arg_step_pos [OF assms(1)] .
  show ?thesis
  proof (cases "arg_type_of code = Some String_utf8_type \<or> arg_type_of code = Some String_utf16_type")
    case True
    then obtain v where v: "read_word 4 4 (map Some b) = Some v" "n = 8 + align_4 (unat v)" "8 \<le> length b"
      using assms(1) by (auto simp: arg_step_def Let_def split: if_splits)
    have l: "8 + unat v \<le> length b" using v(2) assms(3) align_4_bounds(1) [of "unat v"] by simp
    then have "read_mem 8 (unat v) (map Some b) = Some (take (unat v) (drop 8 b))" by (rule read_mem_bytes)
    moreover have "(ucast v :: u32) = of_nat (length (take (unat v) (drop 8 b)))" using l by simp
    moreover have "length (take (unat v) (drop 8 b)) < 2 ^ 30" using assms(4) by simp
    then obtain p where "pack_utf16 t (of_nat (length (take (unat v) (drop 8 b)))) (take (unat v) (drop 8 b)) = Some p"
      using pack_utf16_some by blast
    ultimately show ?thesis using True v by (elim disjE) (simp_all add: pack_arg_def c)
  next
    case False
    obtain ty where ty: "arg_type_of code = Some ty" using assms(1) by (cases "arg_type_of code") (simp_all add: arg_step_def)
    show ?thesis
      using False assms(1,3) r unfolding arg_step_def pack_arg_def c ty read_word_def
      by (cases ty) (auto simp: read_mem_bytes ty)
  qed
qed

lemma validate_args_packs:
  "validate_args args = Some True \<Longrightarrow> args = map Some b \<Longrightarrow> length b < 2 ^ 30 \<Longrightarrow> \<exists>p. pack_args t args = Some p"
proof (induction args arbitrary: b rule: validate_args.induct)
  case (1 args)
  show ?case
  proof (cases b)
    case Nil
    then show ?thesis using 1 by (simp add: pack_args.simps)
  next
    case (Cons code b')
    then have c: "read_mem 0 1 args = Some [code]" using read_mem_bytes [of 0 1 b] 1(3) by simp
    have ne: "args \<noteq> []" using 1(3) Cons by simp
    then obtain n where n: "\<not> length args < 4" "arg_step args code = Some (Some n)" "n \<le> length args" "validate_args (drop n args) = Some True"
      using 1(2) c by (subst (asm) validate_args.simps) (auto split: if_splits option.splits)
    obtain out where o: "pack_arg t args = Some (out, n)" using arg_step_packs [of b code n b' t] n 1(3,4) Cons by auto
    have "\<exists>p. pack_args t (drop n args) = Some p"
      using 1(1) [OF ne n(1) c, of "Some n" n "drop n b"] n 1(3,4) by (simp add: drop_map)
    then show ?thesis using o arg_step_pos [OF n(2)] ne by (subst pack_args.simps) auto
  qed
qed


section \<open>Properties\<close>

text \<open>
  C14. Whatever bytes a crash left behind: an entry that passes \<open>validate\<close> has a head, a format text and a thread name inside the entry, and the
  compressed appender packs its arguments without leaving the argument area or looping.
\<close>

theorem validated_entry_is_safe:
  assumes "validate (map Some b) = Some True" and "length b < 2 ^ 30"
  shows "\<exists>h fmt packed name. get_log_head (map Some b) = Some h \<and> get_format_string_data h (map Some b) = Some fmt
    \<and> pack_args t (get_log_args_data h (map Some b)) = Some packed \<and> get_thread_name h (map Some b) = Some name"
proof -
  obtain h n where h: "get_log_head (map Some b) = Some h" "get_log_args_offset h \<le> length b"
      "get_log_args_offset h \<le> unat (ext_info_offset h)"
    and e: "unat (ext_info_offset h) + 1 \<le> length b" "get_ext_head h (map Some b) = Some n"
      "unat (ext_info_offset h) + 1 + unat n \<le> length b"
    and v: "validate_args (take (unat (ext_info_offset h) - get_log_args_offset h) (drop (get_log_args_offset h) (map Some b))) = Some True"
    using assms(1) by (auto simp: validate_def not_less split: if_splits bind_splits)
  have "40 + unat (log_format_data_len h) \<le> length b"
    using h(2) align_4_bounds(1) [of "unat (log_format_data_len h)"] by (simp add: get_log_args_offset_def)
  then have f: "get_format_string_data h (map Some b) = Some (take (unat (log_format_data_len h)) (drop 40 b))"
    unfolding get_format_string_data_def by (rule read_mem_bytes)
  have nm: "get_thread_name h (map Some b) = Some (take (unat n) (drop (unat (ext_info_offset h) + 1) b))"
    using e by (simp add: get_thread_name_def read_mem_bytes)
  have "(of_nat (get_log_args_offset h) :: u32) \<le> ext_info_offset h"
    using h(3) unat_lt2p [of "ext_info_offset h"] by (simp add: word_le_nat_alt unsigned_of_nat take_bit_nat_eq_self)
  then have "unat (get_log_args_data_size h) = unat (ext_info_offset h) - get_log_args_offset h"
    unfolding get_log_args_data_size_def using h(3) unat_lt2p [of "ext_info_offset h"]
    by (simp add: unat_sub unsigned_of_nat take_bit_nat_eq_self)
  then have "\<exists>p. pack_args t (get_log_args_data h (map Some b)) = Some p"
    using validate_args_packs [OF v, of "take (unat (ext_info_offset h) - get_log_args_offset h) (drop (get_log_args_offset h) b)"] assms(2)
    by (simp add: get_log_args_data_def take_map drop_map)
  then show ?thesis using h(1) f nm by blast
qed

definition sample_entry :: "u8 list" where
  "sample_entry = [7, 0, 0, 0, 0, 0, 0, 0, 48, 0, 0, 0, 0, 0, 0, 0, 9, 0, 0, 0, 0, 0, 0, 0, 5, 0, 0, 0, 0, 0, 0, 0,
     17, 2, 0, 0, 2, 0, 0, 0, 65, 66, 0, 0, 3, 0, 1, 0, 1, 84]"

lemma sample_entry_valid: "validate (map Some sample_entry) = Some True"
proof -
  define h where "h = \<lparr>timestamp_epoch = 7, ext_info_offset = 48, category_idx = 0, log_thread_id = 9, format_hash = 5,
    log_format_str_type = 17, head_level = 2, log_format_data_len = 2\<rparr>"
  have l: "length sample_entry = 50" by (simp add: sample_entry_def)
  have r: "read_mem off n (map Some sample_entry) = Some (take n (drop off sample_entry))" if "off + n \<le> 50" for off n
    using that l by (intro read_mem_bytes) simp
  have "get_log_head (map Some sample_entry) = Some h"
    unfolding get_log_head_def by (simp add: r) (simp add: sample_entry_def h_def)
  moreover have o: "get_log_args_offset h = 44" by (simp add: get_log_args_offset_def h_def align_4_def)
  moreover have "get_ext_head h (map Some sample_entry) = Some 1"
    by (simp add: get_ext_head_def h_def r) (simp add: sample_entry_def)
  moreover have "take 4 (drop 44 (map Some sample_entry)) = [Some 3, Some 0, Some 1, Some 0]"
    by (simp add: sample_entry_def)
  moreover have "validate_args [Some 3, Some 0, Some 1, Some 0] = Some True"
    by (simp add: validate_args.simps arg_step_def arg_type_of_def arg_types_def)
  moreover have "arg_type_of 17 = Some String_utf8_type" by (simp add: arg_type_of_def arg_types_def)
  ultimately show ?thesis by (simp add: validate_def l h_def o)
qed

theorem validated_entry_is_safe_witness:
  "\<exists>h fmt packed name. get_log_head (map Some sample_entry) = Some h \<and> get_format_string_data h (map Some sample_entry) = Some fmt
    \<and> pack_args Simd_none (get_log_args_data h (map Some sample_entry)) = Some packed
    \<and> get_thread_name h (map Some sample_entry) = Some name"
  by (rule validated_entry_is_safe [OF sample_entry_valid]) (simp add: sample_entry_def)

text \<open>
  C20. Every entry a log call writes is accepted by \<open>validate\<close>, whatever its arguments, and its accessors give back the head, the
  format text, the arguments and the first sixteen bytes of the thread name.
\<close>

theorem written_entry_validates:
  assumes "\<forall>a \<in> set as. arg_ok a" and "log_args_fill as = Some args" and "40 + align_4 (length fmt) + length args < 2 ^ 32"
    and "ty \<in> {String_utf8_type, String_utf16_type, String_utf32_type}"
  shows "validate (log_write hash known epoch lv cat ty fmt args tid name) = Some True
    \<and> (\<exists>h. get_log_head (log_write hash known epoch lv cat ty fmt args tid name) = Some h
      \<and> timestamp_epoch h = epoch \<and> category_idx h = cat \<and> log_thread_id h = tid \<and> head_level h = lv
      \<and> get_format_string_data h (log_write hash known epoch lv cat ty fmt args tid name) = Some fmt
      \<and> get_log_args_data h (log_write hash known epoch lv cat ty fmt args tid name) = args
      \<and> get_thread_name h (log_write hash known epoch lv cat ty fmt args tid name) = Some (take 16 name))"
proof -
  have args: "args = concat (map arg_cells as)" using assms(1,2) by (simp add: log_args_fill_cells)
  note r = log_write_reads [OF assms(3), where hash = hash and known = known and epoch = epoch and lv = lv and cat = cat and ty = ty and tid = tid]
  have n: "unat (of_nat (length (take 16 name)) :: u8) = length (take 16 name)" by (simp add: unsigned_of_nat take_bit_nat_eq_self)
  define m where "m = log_write hash known epoch lv cat ty fmt args tid name"
  obtain h where h: "get_log_head m = Some h" "get_log_args_data h m = args" "get_log_args_offset h = 40 + align_4 (length fmt)"
    "unat (get_log_args_data_size h) = length args" "get_ext_head h m = Some (of_nat (length (take 16 name)))"
    "unat (ext_info_offset h) = 40 + align_4 (length fmt) + length args"
    "length m = 40 + align_4 (length fmt) + length args + 1 + length (take 16 name)" "log_format_str_type h = arg_code ty"
    "timestamp_epoch h = epoch" "category_idx h = cat" "log_thread_id h = tid" "head_level h = lv"
    "get_format_string_data h m = Some fmt" "get_thread_name h m = Some (take 16 name)"
    using r unfolding m_def by simp
  have "take (unat (ext_info_offset h) - get_log_args_offset h) (drop (get_log_args_offset h) m) = args"
    using h(2,4) by (simp add: get_log_args_data_def h(3,6))
  then have "validate m = Some True"
    using validate_args_cells [OF assms(1)] assms(4) n unfolding validate_def h(1) by (auto simp: h(3,5-8) args)
  then show ?thesis using h unfolding m_def by blast
qed

theorem written_entry_validates_witness:
  "\<exists>args. log_args_fill [Arg_bool 1, Arg_uint64 9] = Some args
    \<and> validate (log_write (\<lambda>_. 0) True 5 2 0 String_utf8_type [65, 66] args 11 [84]) = Some True"
proof -
  have a: "\<forall>a \<in> set [Arg_bool 1, Arg_uint64 9]. arg_ok a" by (simp add: arg_ok_def text_of_def)
  then have f: "log_args_fill [Arg_bool 1, Arg_uint64 9] = Some (arg_cells (Arg_bool 1) @ arg_cells (Arg_uint64 9))"
    by (simp add: log_args_fill_cells del: log_args_fill.simps)
  show ?thesis
    using written_entry_validates [OF a f, of "[65, 66]" String_utf8_type "\<lambda>_. 0" True 5 2 0 11 "[84]"] f
    by (simp add: align_4_def pod_cells_def length_pod_copy del: log_args_fill.simps)
qed

end
