(* ===== verification/Hash_Cache.thy ===== *)
theory Hash_Cache
  imports Ring_Memory
begin

text \<open>
  The bounded cache of \<open>src/bq_log/types/bounded_hash_cache.h\<close>: an open addressing table from 64-bit keys to 32-bit values with
  linear probing, backward shift deletion and a bound on its entries. A null table is the empty list. Memory comes from the
  argument \<open>alloc\<close>: \<open>alloc n\<close> is \<open>None\<close> if one of the two allocations of a table of \<open>n\<close> slots fails, and otherwise what
  the fresh memory of the keys happens to hold, slot by slot. The hooks of the unit tests are left out.
\<close>

section \<open>State and operations\<close>

record hcache =
  hc_keys :: "u64 list"
  hc_values :: "u32 list"
  hc_size :: u32
  hc_capacity :: u32
  hc_victim :: u32
  hc_admission :: u32
  hc_max_size :: u32
  hc_revision :: u32

record insert_token =
  slot_index :: u32
  token_revision :: u32

definition no_token :: insert_token where
  "no_token = \<lparr>slot_index = 0xFFFFFFFF, token_revision = 0\<rparr>"

definition invalid_value :: u32 where
  "invalid_value = 0xFFFFFFFF"

definition min_capacity :: u32 where
  "min_capacity = 8"

definition admission_divisor :: u32 where
  "admission_divisor = 64"

text \<open>\<open>MAX_SIZE\<close> is the template argument.\<close>

definition normalize_max_size :: "u32 \<Rightarrow> u32 \<Rightarrow> u32" where
  "normalize_max_size MAX_SIZE x = (if x < min_capacity then min_capacity else if x > MAX_SIZE then MAX_SIZE else x)"

definition hcache_new :: "u32 \<Rightarrow> u32 \<Rightarrow> hcache" where
  "hcache_new MAX_SIZE x = \<lparr>hc_keys = [], hc_values = [], hc_size = 0, hc_capacity = 0, hc_victim = 0, hc_admission = 0,
     hc_max_size = normalize_max_size MAX_SIZE x, hc_revision = 0\<rparr>"

definition get_table_hash :: "u64 \<Rightarrow> u32" where
  "get_table_hash key =
     (let key = key XOR drop_bit 33 key;
          key = key * 0xff51afd7ed558ccd;
          key = key XOR drop_bit 33 key;
          key = key * 0xc4ceb9fe1a85ec53;
          key = key XOR drop_bit 33 key
      in ucast (drop_bit 32 key))"

definition next_slot :: "u32 \<Rightarrow> u32 \<Rightarrow> u32" where
  "next_slot capacity i = (i + 1) AND (capacity - 1)"

text \<open>The loop of \<open>find_slot_or_empty\<close>: whether the key was found, and the slot. It ends only if a slot is free.\<close>

partial_function (option) probe :: "u32 \<Rightarrow> u64 list \<Rightarrow> u32 list \<Rightarrow> u64 \<Rightarrow> u32 \<Rightarrow> (bool \<times> u32) option" where
  "probe capacity keys values key slot =
     (if values ! unat slot \<noteq> invalid_value
      then if keys ! unat slot = key then Some (True, slot) else probe capacity keys values key (next_slot capacity slot)
      else Some (False, slot))"

definition find_slot_or_empty :: "hcache \<Rightarrow> u64 \<Rightarrow> (bool \<times> u32) option" where
  "find_slot_or_empty c key =
     (if hc_values c = [] then Some (False, invalid_value)
      else probe (hc_capacity c) (hc_keys c) (hc_values c) key (get_table_hash key AND (hc_capacity c - 1)))"

text \<open>The value, if the key is found, and otherwise the token for the insertion.\<close>

definition hc_find :: "hcache \<Rightarrow> u64 \<Rightarrow> (u32 option \<times> insert_token) option" where
  "hc_find c key =
     map_option (\<lambda>(found, slot).
       if \<not> found then (None, \<lparr>slot_index = slot, token_revision = hc_revision c\<rparr>)
       else (Some (hc_values c ! unat slot), no_token)) (find_slot_or_empty c key)"

partial_function (option) free_slot :: "u32 \<Rightarrow> u32 list \<Rightarrow> u32 \<Rightarrow> u32 option" where
  "free_slot capacity values slot =
     (if values ! unat slot \<noteq> invalid_value then free_slot capacity values (next_slot capacity slot) else Some slot)"

text \<open>The loop of \<open>resize\<close> over the slots \<open>i\<close> of the old table.\<close>

fun rehash :: "hcache \<Rightarrow> u32 \<Rightarrow> nat list \<Rightarrow> u64 list \<times> u32 list \<Rightarrow> (u64 list \<times> u32 list) option" where
  "rehash c new_capacity [] new = Some new"
| "rehash c new_capacity (i # is) (new_keys, new_values) =
     (if hc_values c ! i \<noteq> invalid_value
      then Option.bind (free_slot new_capacity new_values (get_table_hash (hc_keys c ! i) AND (new_capacity - 1)))
        (\<lambda>s. rehash c new_capacity is (new_keys[unat s := hc_keys c ! i], new_values[unat s := hc_values c ! i]))
      else rehash c new_capacity is (new_keys, new_values))"

definition resize :: "(u32 \<Rightarrow> (nat \<Rightarrow> u64) option) \<Rightarrow> hcache \<Rightarrow> u32 \<Rightarrow> (bool \<times> hcache) option" where
  "resize alloc c new_capacity =
     (case alloc new_capacity of
        None \<Rightarrow> Some (False, c)
      | Some fresh_keys \<Rightarrow>
          map_option (\<lambda>(keys, values). (True, c\<lparr>hc_keys := keys, hc_values := values, hc_capacity := new_capacity,
              hc_victim := 0, hc_revision := hc_revision c + 1\<rparr>))
            (rehash c new_capacity [0..<unat (hc_capacity c)] (map fresh_keys [0..<unat new_capacity], replicate (unat new_capacity) 0xFFFFFFFF)))"

text \<open>The loop of \<open>erase\<close>: it ends with the slot to be emptied.\<close>

partial_function (option) erase_loop :: "u32 \<Rightarrow> u64 list \<Rightarrow> u32 list \<Rightarrow> u32 \<Rightarrow> u32 \<Rightarrow> (u64 list \<times> u32 list \<times> u32) option" where
  "erase_loop capacity keys values hole current =
     (if values ! unat current \<noteq> invalid_value
      then (let home = get_table_hash (keys ! unat current) AND (capacity - 1)
            in if (current - home) AND (capacity - 1) > (hole - home) AND (capacity - 1)
               then erase_loop capacity (keys[unat hole := keys ! unat current]) (values[unat hole := values ! unat current])
                      current (next_slot capacity current)
               else erase_loop capacity keys values hole (next_slot capacity current))
      else Some (keys, values, hole))"

definition hc_erase :: "hcache \<Rightarrow> u32 \<Rightarrow> hcache option" where
  "hc_erase c slot =
     map_option (\<lambda>(keys, values, hole). c\<lparr>hc_keys := keys, hc_values := values[unat hole := invalid_value],
         hc_size := hc_size c - 1, hc_revision := hc_revision c + 1\<rparr>)
       (erase_loop (hc_capacity c) (hc_keys c) (hc_values c) slot ((slot + 1) AND (hc_capacity c - 1)))"

partial_function (option) next_victim :: "u32 \<Rightarrow> u32 list \<Rightarrow> u32 \<Rightarrow> u32 option" where
  "next_victim capacity values victim =
     (if values ! unat victim = invalid_value then next_victim capacity values (next_slot capacity victim) else Some victim)"

text \<open>\<open>insert_new\<close> up to the choice of the slot: \<open>Some (False, c)\<close> if the entry is not admitted.\<close>

definition make_room :: "(u32 \<Rightarrow> (nat \<Rightarrow> u64) option) \<Rightarrow> hcache \<Rightarrow> (bool \<times> hcache) option" where
  "make_room alloc c =
     (if hc_values c = [] then resize alloc c min_capacity
      else if hc_size c < hc_max_size c \<and> hc_size c \<ge> hc_capacity c div 2 then resize alloc c (hc_capacity c * 2)
      else if hc_size c \<ge> hc_max_size c
      then (let c = c\<lparr>hc_admission := hc_admission c + 1\<rparr>
            in if hc_admission c AND (admission_divisor - 1) \<noteq> 0 then Some (False, c)
               else Option.bind (next_victim (hc_capacity c) (hc_values c) (hc_victim c)) (\<lambda>v.
                 map_option (Pair True) (hc_erase (c\<lparr>hc_victim := next_slot (hc_capacity c) v\<rparr>) v)))
      else Some (True, c))"

definition place :: "hcache \<Rightarrow> u64 \<Rightarrow> u32 \<Rightarrow> u32 \<Rightarrow> hcache" where
  "place c key value slot =
     c\<lparr>hc_keys := (hc_keys c)[unat slot := key], hc_values := (hc_values c)[unat slot := value],
       hc_size := hc_size c + 1, hc_revision := hc_revision c + 1\<rparr>"

definition insert_new :: "(u32 \<Rightarrow> (nat \<Rightarrow> u64) option) \<Rightarrow> hcache \<Rightarrow> u64 \<Rightarrow> u32 \<Rightarrow> insert_token \<Rightarrow> hcache option" where
  "insert_new alloc c key value token =
     Option.bind (make_room alloc c) (\<lambda>(admitted, c).
       if \<not> admitted then Some c
       else if token_revision token = hc_revision c \<and> slot_index token < hc_capacity c
           \<and> hc_values c ! unat (slot_index token) = invalid_value
       then Some (place c key value (slot_index token))
       else map_option (\<lambda>(found, slot).
           if found then c\<lparr>hc_values := (hc_values c)[unat slot := value]\<rparr> else place c key value slot)
         (find_slot_or_empty c key))"

definition hc_insert :: "(u32 \<Rightarrow> (nat \<Rightarrow> u64) option) \<Rightarrow> hcache \<Rightarrow> u64 \<Rightarrow> u32 \<Rightarrow> hcache option" where
  "hc_insert alloc c key value =
     Option.bind (find_slot_or_empty c key) (\<lambda>(found, slot).
       if found then Some (c\<lparr>hc_values := (hc_values c)[unat slot := value]\<rparr>)
       else insert_new alloc c key value no_token)"

definition hc_insert_token :: "(u32 \<Rightarrow> (nat \<Rightarrow> u64) option) \<Rightarrow> hcache \<Rightarrow> u64 \<Rightarrow> u32 \<Rightarrow> insert_token \<Rightarrow> hcache option" where
  "hc_insert_token alloc c key value token = insert_new alloc c key value token"

definition hc_set_max_size :: "u32 \<Rightarrow> hcache \<Rightarrow> u32 \<Rightarrow> bool \<times> hcache" where
  "hc_set_max_size MAX_SIZE c x =
     (let normalized = normalize_max_size MAX_SIZE x
      in if normalized = hc_max_size c then (True, c)
         else if hc_size c \<noteq> 0 \<and> normalized < hc_max_size c then (False, c)
         else (True, c\<lparr>hc_max_size := normalized\<rparr>))"

definition hc_clear :: "hcache \<Rightarrow> hcache" where
  "hc_clear c = c\<lparr>hc_keys := [], hc_values := [], hc_size := 0, hc_capacity := 0, hc_victim := 0, hc_admission := 0,
     hc_revision := hc_revision c + 1\<rparr>"

end
