(* ===== verification/Hash_Probing.thy ===== *)
theory Hash_Probing
  imports Hash_Cache
begin

text \<open>
  Linear probing on the table of the cache, with slots as natural numbers. \<open>cdist n h i\<close> is how far slot \<open>i\<close> lies behind slot
  \<open>h\<close> in a table of \<open>n\<close> slots. A table is sound if every slot between the home of an entry and the entry is occupied; while an
  entry is being erased one slot, the hole, counts as occupied although its entry is gone.
\<close>

section \<open>Cyclic distances\<close>

definition cdist :: "nat \<Rightarrow> nat \<Rightarrow> nat \<Rightarrow> nat" where
  "cdist n h i = (if h \<le> i then i - h else i + n - h)"

lemma cdist_less: "h < n \<Longrightarrow> i < n \<Longrightarrow> cdist n h i < n"
  by (auto simp: cdist_def)

lemma cdist_0 [simp]: "h < n \<Longrightarrow> i < n \<Longrightarrow> cdist n h i = 0 \<longleftrightarrow> i = h"
  by (auto simp: cdist_def)

lemma cdist_inject: "h < n \<Longrightarrow> i < n \<Longrightarrow> j < n \<Longrightarrow> cdist n h i = cdist n h j \<longleftrightarrow> i = j"
  by (auto simp: cdist_def split: if_splits)

lemma word_table:
  assumes "pow2 n" "n < 2 ^ 32"
  shows "i < n \<Longrightarrow> next_slot (of_nat n) (of_nat i) = of_nat (Suc i mod n)"
    and "i < n \<Longrightarrow> h < n \<Longrightarrow> unat ((of_nat i - of_nat h) AND (of_nat n - 1) :: u32) = cdist n h i"
    and "x AND (of_nat n - 1) = (of_nat (unat (x :: u32) mod n) :: u32)"
proof -
  show x: "x AND (of_nat n - 1) = (of_nat (unat x mod n) :: u32)" for x :: u32
  proof -
    have "unat (x AND (of_nat n - 1)) = unat x mod n"
      using of_nat_and_mask [OF assms(1), of "unat x"] assms(2) by simp
    moreover have "unat (of_nat (unat x mod n) :: u32) = unat x mod n"
      using pow2_pos [OF assms(1)] assms(2) by (intro unat_small) (meson mod_less_divisor less_trans)
    ultimately show ?thesis by (simp add: word_unat_eq_iff)
  qed
  show "next_slot (of_nat n) (of_nat i) = of_nat (Suc i mod n)" if "i < n"
    using x [of "of_nat (Suc i)"] that assms(2) unat_small [of "Suc i"] by (simp add: next_slot_def add.commute)
  show "unat ((of_nat i - of_nat h) AND (of_nat n - 1) :: u32) = cdist n h i" if i: "i < n" and h: "h < n"
  proof -
    obtain k where k: "n = 2 ^ k" using assms(1) by (auto simp: pow2_def)
    have "of_nat i - of_nat h = (of_nat (i + 2 ^ 32 - h) :: u32)"
      using h assms(2) by (simp add: of_nat_diff)
    then have e: "unat ((of_nat i - of_nat h) AND (of_nat n - 1) :: u32) = (i + 2 ^ 32 - h) mod n"
      using of_nat_and_mask [OF assms(1), of "i + 2 ^ 32 - h"] assms(2) by simp
    have "k \<le> 32" using assms(2) k by (metis less_imp_le_nat nat_power_less_imp_less zero_less_numeral)
    then have d: "(2 :: nat) ^ 32 = n * 2 ^ (32 - k)" using k by (simp flip: power_add)
    have "(i + 2 ^ 32 - h) mod n = (i + n - h) mod n"
    proof -
      have "1 \<le> (2 :: nat) ^ (32 - k)" by simp
      then obtain q where "2 ^ (32 - k) = Suc q" by (cases "(2 :: nat) ^ (32 - k)") auto
      then have "i + 2 ^ 32 - h = (i + n - h) + n * q" unfolding d using h by simp
      then show ?thesis by simp
    qed
    also have "\<dots> = cdist n h i" using i h by (auto simp: cdist_def mod_if)
    finally show ?thesis using e by simp
  qed
qed

lemma Suc_mod_cases: "i < n \<Longrightarrow> Suc i mod n = (if Suc i = n then 0 else Suc i)"
  by simp


section \<open>Tables\<close>

definition home :: "nat \<Rightarrow> u64 \<Rightarrow> nat" where
  "home n k = unat (get_table_hash k) mod n"

definition occ :: "u32 list \<Rightarrow> nat \<Rightarrow> bool" where
  "occ vs i \<longleftrightarrow> vs ! i \<noteq> invalid_value"

text \<open>The hole is \<open>e\<close>; \<open>e = n\<close> stands for none.\<close>

definition paths :: "nat \<Rightarrow> u64 list \<Rightarrow> u32 list \<Rightarrow> nat \<Rightarrow> bool" where
  "paths n ks vs e \<longleftrightarrow> (\<forall>i<n. i \<noteq> e \<longrightarrow> occ vs i \<longrightarrow>
     (\<forall>j<n. cdist n (home n (ks ! i)) j < cdist n (home n (ks ! i)) i \<longrightarrow> j = e \<or> occ vs j))"

definition entries :: "nat \<Rightarrow> u64 list \<Rightarrow> u32 list \<Rightarrow> nat \<Rightarrow> (u64 \<times> u32) set" where
  "entries n ks vs e = {(ks ! i, vs ! i) | i. i < n \<and> i \<noteq> e \<and> occ vs i}"

definition unique_keys :: "nat \<Rightarrow> u64 list \<Rightarrow> u32 list \<Rightarrow> nat \<Rightarrow> bool" where
  "unique_keys n ks vs e \<longleftrightarrow> (\<forall>i<n. \<forall>j<n. i \<noteq> e \<longrightarrow> j \<noteq> e \<longrightarrow> occ vs i \<longrightarrow> occ vs j \<longrightarrow> ks ! i = ks ! j \<longrightarrow> i = j)"

lemma home_less: "0 < n \<Longrightarrow> home n k < n"
  by (simp add: home_def)

section \<open>Probing\<close>

lemma next_dist:
  assumes "p < n" "h < n"
  shows "cdist n h (Suc p mod n) = (if Suc p mod n = h then 0 else Suc (cdist n h p))"
  using assms by (auto simp: cdist_def Suc_mod_cases)

lemma dist_to_free: "p < n \<Longrightarrow> f < n \<Longrightarrow> p \<noteq> f \<Longrightarrow> Suc (cdist n (Suc p mod n) f) = cdist n p f"
  by (auto simp: cdist_def Suc_mod_cases split: if_splits)

text \<open>The slot before \<open>h\<close> is the farthest from it, so whoever walks around without meeting a free slot has seen them all.\<close>

lemma walked_around:
  assumes "p < n" "h < n" "Suc p mod n = h" "j < n"
  shows "cdist n h j \<le> cdist n h p"
  using assms by (auto simp: cdist_def Suc_mod_cases split: if_splits)

lemma closer_cases:
  assumes "p < n" "h < n" "Suc p mod n \<noteq> h" "j < n" "cdist n h j < cdist n h (Suc p mod n)"
  shows "cdist n h j < cdist n h p \<or> j = p"
  using assms by (auto simp: cdist_def Suc_mod_cases split: if_splits)

lemma probe_returns:
  assumes n: "pow2 n" "n < 2 ^ 32" and f: "f < n" "\<not> occ vs f" and h: "h < n"
  shows "p < n \<Longrightarrow> (\<And>j. j < n \<Longrightarrow> cdist n h j < cdist n h p \<Longrightarrow> occ vs j \<and> ks ! j \<noteq> k) \<Longrightarrow>
    \<exists>found i. i < n \<and> probe (of_nat n) ks vs k (of_nat p) = Some (found, of_nat i) \<and>
      (if found then occ vs i \<and> ks ! i = k
       else \<not> occ vs i \<and> (\<forall>j<n. cdist n h j < cdist n h i \<longrightarrow> occ vs j \<and> ks ! j \<noteq> k))"
proof (induction "cdist n p f" arbitrary: p rule: less_induct)
  case less
  have u: "unat (of_nat p :: u32) = p" using less.prems n by (simp add: unat_small)
  show ?case
  proof (cases "occ vs p \<and> ks ! p \<noteq> k")
    case True
    then have pf: "p \<noteq> f" using f by auto
    have step: "probe (of_nat n) ks vs k (of_nat p) = probe (of_nat n) ks vs k (of_nat (Suc p mod n))"
      using True word_table(1) [OF n less.prems(1)] u by (subst probe.simps) (simp add: occ_def)
    have wrap: "Suc p mod n \<noteq> h"
    proof
      assume "Suc p mod n = h"
      then have "cdist n h f \<le> cdist n h p" using walked_around less.prems(1) h f(1) by blast
      moreover have "cdist n h f \<noteq> cdist n h p" using pf cdist_inject [OF h f(1) less.prems(1)] by simp
      ultimately show False using less.prems(2) [OF f(1)] f(2) by simp
    qed
    show ?thesis unfolding step
    proof (rule less.hyps)
      show "cdist n (Suc p mod n) f < cdist n p f" using dist_to_free [OF less.prems(1) f(1) pf] by simp
      show "Suc p mod n < n" using f(1) by simp
      fix j assume "j < n" "cdist n h j < cdist n h (Suc p mod n)"
      then show "occ vs j \<and> ks ! j \<noteq> k" using closer_cases [OF less.prems(1) h wrap] less.prems(2) True by blast
    qed
  next
    case False
    then have "probe (of_nat n) ks vs k (of_nat p) = Some (occ vs p, of_nat p)"
      using u by (subst probe.simps) (auto simp: occ_def)
    then show ?thesis using False less.prems by (intro exI [of _ "occ vs p"] exI [of _ p]) auto
  qed
qed


lemma free_slot_returns:
  assumes n: "pow2 n" "n < 2 ^ 32" and f: "f < n" "\<not> occ vs f" and h: "h < n"
  shows "p < n \<Longrightarrow> (\<And>j. j < n \<Longrightarrow> cdist n h j < cdist n h p \<Longrightarrow> occ vs j) \<Longrightarrow>
    \<exists>i. i < n \<and> free_slot (of_nat n) vs (of_nat p) = Some (of_nat i) \<and> \<not> occ vs i \<and> (\<forall>j<n. cdist n h j < cdist n h i \<longrightarrow> occ vs j)"
proof (induction "cdist n p f" arbitrary: p rule: less_induct)
  case less
  have u: "unat (of_nat p :: u32) = p" using less.prems n by (simp add: unat_small)
  show ?case
  proof (cases "occ vs p")
    case True
    then have pf: "p \<noteq> f" using f by auto
    have step: "free_slot (of_nat n) vs (of_nat p) = free_slot (of_nat n) vs (of_nat (Suc p mod n))"
      using True word_table(1) [OF n less.prems(1)] u by (subst free_slot.simps) (simp add: occ_def)
    have wrap: "Suc p mod n \<noteq> h"
      using walked_around [of p n h f] less.prems h f pf cdist_inject [OF h f(1) less.prems(1)] by (metis le_neq_implies_less)
    show ?thesis unfolding step
    proof (rule less.hyps)
      show "cdist n (Suc p mod n) f < cdist n p f" using dist_to_free [OF less.prems(1) f(1) pf] by simp
      show "Suc p mod n < n" using f(1) by simp
      fix j assume "j < n" "cdist n h j < cdist n h (Suc p mod n)"
      then show "occ vs j" using closer_cases [OF less.prems(1) h wrap] less.prems(2) True by blast
    qed
  next
    case False
    then have "free_slot (of_nat n) vs (of_nat p) = Some (of_nat p)"
      using u by (subst free_slot.simps) (auto simp: occ_def)
    then show ?thesis using False less.prems by (intro exI [of _ p]) auto
  qed
qed

lemma next_victim_returns:
  assumes n: "pow2 n" "n < 2 ^ 32" and f: "f < n" "occ vs f"
  shows "p < n \<Longrightarrow> \<exists>i. i < n \<and> occ vs i \<and> next_victim (of_nat n) vs (of_nat p) = Some (of_nat i)"
proof (induction "cdist n p f" arbitrary: p rule: less_induct)
  case less
  have u: "unat (of_nat p :: u32) = p" using less.prems n by (simp add: unat_small)
  show ?case
  proof (cases "occ vs p")
    case True
    then show ?thesis using u less.prems by (intro exI [of _ p]) (subst next_victim.simps, simp add: occ_def)
  next
    case False
    then have pf: "p \<noteq> f" using f by auto
    have "next_victim (of_nat n) vs (of_nat p) = next_victim (of_nat n) vs (of_nat (Suc p mod n))"
      using False word_table(1) [OF n less.prems] u by (subst next_victim.simps) (simp add: occ_def)
    moreover have "cdist n (Suc p mod n) f < cdist n p f" using dist_to_free [OF less.prems f(1) pf] by simp
    ultimately show ?thesis using less.hyps [of "Suc p mod n"] f(1) by simp
  qed
qed

lemma probe_home:
  assumes n: "pow2 n" "n < 2 ^ 32" and f: "f < n" "\<not> occ vs f" and p: "paths n ks vs n"
  obtains i where "i < n" "probe (of_nat n) ks vs k (of_nat (home n k)) = Some (True, of_nat i)" "occ vs i" "ks ! i = k"
  | i where "i < n" "probe (of_nat n) ks vs k (of_nat (home n k)) = Some (False, of_nat i)" "\<not> occ vs i"
      "\<forall>j<n. cdist n (home n k) j < cdist n (home n k) i \<longrightarrow> occ vs j" "\<forall>j<n. occ vs j \<longrightarrow> ks ! j \<noteq> k"
proof -
  have h: "home n k < n" using f(1) by (simp add: home_less)
  have z: "\<not> cdist n (home n k) j < cdist n (home n k) (home n k)" for j by (simp add: cdist_def)
  have "\<exists>found i. i < n \<and> probe (of_nat n) ks vs k (of_nat (home n k)) = Some (found, of_nat i) \<and>
    (if found then occ vs i \<and> ks ! i = k
       else \<not> occ vs i \<and> (\<forall>j<n. cdist n (home n k) j < cdist n (home n k) i \<longrightarrow> occ vs j \<and> ks ! j \<noteq> k))"
    by (rule probe_returns [OF n f h h]) (use z in blast)
  then obtain found i where i: "i < n" "probe (of_nat n) ks vs k (of_nat (home n k)) = Some (found, of_nat i)"
    "if found then occ vs i \<and> ks ! i = k
       else \<not> occ vs i \<and> (\<forall>j<n. cdist n (home n k) j < cdist n (home n k) i \<longrightarrow> occ vs j \<and> ks ! j \<noteq> k)" by blast
  have "ks ! j \<noteq> k" if "\<not> found" "j < n" "occ vs j" for j
  proof
    assume k: "ks ! j = k"
    have "j \<noteq> n" using that(2) by simp
    note path = p [unfolded paths_def, rule_format, OF that(2) this that(3) i(1), unfolded k]
    have "\<not> occ vs i" using i(3) that(1) by simp
    then have "\<not> cdist n (home n k) i < cdist n (home n k) j" using path i(1) by auto
    moreover have "i \<noteq> j" using that i(3) by auto
    then have "cdist n (home n k) i \<noteq> cdist n (home n k) j" using cdist_inject [OF h i(1) that(2)] by simp
    ultimately have "cdist n (home n k) j < cdist n (home n k) i" by simp
    then show False using i(3) that(1,2) k by auto
  qed
  then show ?thesis using i that(1) [of i] that(2) [of i] by (cases found) simp_all
qed

section \<open>Insertion\<close>

lemma paths_insert:
  assumes "paths n ks vs n" "i < n" "\<not> occ vs i" "v \<noteq> invalid_value" "length ks = n" "length vs = n"
    and "\<forall>j<n. cdist n (home n k) j < cdist n (home n k) i \<longrightarrow> occ vs j"
  shows "paths n (ks[i := k]) (vs[i := v]) n"
  unfolding paths_def
proof (intro allI impI)
  fix p j assume h: "p < n" "p \<noteq> n" "occ (vs[i := v]) p" "j < n"
    "cdist n (home n (ks[i := k] ! p)) j < cdist n (home n (ks[i := k] ! p)) p"
  show "j = n \<or> occ (vs[i := v]) j"
  proof (cases "p = i")
    case True
    then have "cdist n (home n k) j < cdist n (home n k) i" using h(5) assms(2,5) by simp
    then have "occ vs j" using assms(7) h(4) by simp
    then show ?thesis using assms(3) by (cases "j = i") (simp_all add: occ_def)
  next
    case False
    then have e: "vs[i := v] ! p = vs ! p" "ks[i := k] ! p = ks ! p" by simp_all
    have "occ vs p" "cdist n (home n (ks ! p)) j < cdist n (home n (ks ! p)) p" using h(3,5) unfolding occ_def e by blast+
    then have "j = n \<or> occ vs j" using assms(1) h(1,2,4) unfolding paths_def by blast
    then have "occ vs j" using h(4) by simp
    then show ?thesis using assms(3) by (cases "j = i") (simp_all add: occ_def)
  qed
qed

lemma entries_insert:
  assumes "i < n" "\<not> occ vs i" "v \<noteq> invalid_value" "length ks = n" "length vs = n"
  shows "entries n (ks[i := k]) (vs[i := v]) n = insert (k, v) (entries n ks vs n)"
  using assms unfolding entries_def occ_def by (auto simp: nth_list_update)

lemma unique_insert:
  assumes "unique_keys n ks vs n" "\<forall>j<n. occ vs j \<longrightarrow> ks ! j \<noteq> k" "length ks = n" "length vs = n"
  shows "unique_keys n (ks[i := k]) (vs[i := v]) n"
  unfolding unique_keys_def
proof (intro allI impI)
  fix p q assume h: "p < n" "q < n" "p \<noteq> n" "q \<noteq> n" "occ (vs[i := v]) p" "occ (vs[i := v]) q" "ks[i := k] ! p = ks[i := k] ! q"
  show "p = q"
  proof (cases "p = i \<or> q = i")
    case True
    then show ?thesis using h assms(2,3) by (cases "p = i"; cases "q = i") (auto simp: occ_def)
  next
    case False
    then show ?thesis using h assms(1) by (simp add: unique_keys_def occ_def)
  qed
qed

definition occupied :: "nat \<Rightarrow> u32 list \<Rightarrow> nat set" where
  "occupied n vs = {i. i < n \<and> occ vs i}"

lemma occupied_insert: "i < n \<Longrightarrow> v \<noteq> invalid_value \<Longrightarrow> length vs = n \<Longrightarrow> occupied n (vs[i := v]) = insert i (occupied n vs)"
  by (auto simp: occupied_def occ_def nth_list_update)

lemma finite_occupied [simp]: "finite (occupied n vs)"
  by (simp add: occupied_def)

lemma free_exists: "card (occupied n vs) < n \<Longrightarrow> \<exists>f<n. \<not> occ vs f"
proof (rule ccontr)
  assume "card (occupied n vs) < n" "\<not> (\<exists>f<n. \<not> occ vs f)"
  moreover from this have "occupied n vs = {..<n}" by (auto simp: occupied_def)
  ultimately show False by simp
qed

section \<open>Backward shift deletion\<close>

lemma cdist_add: "h < n \<Longrightarrow> e < n \<Longrightarrow> i < n \<Longrightarrow> cdist n h e \<le> cdist n h i \<Longrightarrow> cdist n h i = cdist n h e + cdist n e i"
  by (auto simp: cdist_def split: if_splits)

lemma cdist_on_path:
  "h < n \<Longrightarrow> e < n \<Longrightarrow> i < n \<Longrightarrow> c < n \<Longrightarrow> cdist n h e < cdist n h i \<Longrightarrow> cdist n e c < cdist n e i \<Longrightarrow> cdist n h c < cdist n h i"
  by (auto simp: cdist_def split: if_splits)

text \<open>The hole \<open>e\<close>, the slot \<open>c\<close> the scan has reached, and a free slot \<open>f\<close> that ends it: everything between the hole and the scan is
  occupied by entries that may stay.\<close>

definition erasing :: "nat \<Rightarrow> u64 list \<Rightarrow> u32 list \<Rightarrow> nat \<Rightarrow> nat \<Rightarrow> nat \<Rightarrow> bool" where
  "erasing n ks vs e c f \<longleftrightarrow> e < n \<and> c < n \<and> f < n \<and> c \<noteq> e \<and> e \<noteq> f \<and> \<not> occ vs f \<and> length ks = n \<and> length vs = n
     \<and> paths n ks vs e
     \<and> (\<forall>j<n. cdist n e j < cdist n e c \<longrightarrow> occ vs j)
     \<and> (\<forall>i<n. i \<noteq> e \<longrightarrow> cdist n e i < cdist n e c \<longrightarrow> \<not> cdist n (home n (ks ! i)) e < cdist n (home n (ks ! i)) i)"

lemma erasing_hole: "erasing n ks vs e c f \<Longrightarrow> occ vs e"
proof -
  assume a: "erasing n ks vs e c f"
  then have "cdist n e e < cdist n e c" using cdist_0 [of e n c] by (auto simp: erasing_def cdist_def)
  then show ?thesis using a by (auto simp: erasing_def)
qed

lemma erase_end:
  assumes "erasing n ks vs e c f" "\<not> occ vs c"
  shows "paths n ks (vs[e := invalid_value]) n"
  unfolding paths_def
proof (intro allI impI)
  note a = assms(1) [unfolded erasing_def]
  fix i j assume h: "i < n" "i \<noteq> n" "occ (vs[e := invalid_value]) i" "j < n" "cdist n (home n (ks ! i)) j < cdist n (home n (ks ! i)) i"
  have hm: "home n (ks ! i) < n" using h(1) by (intro home_less) simp
  have ie: "i \<noteq> e" using h(1,3) a by (auto simp: occ_def)
  then have oi: "occ vs i" using h(3) by (simp add: occ_def)
  have path: "j = e \<or> occ vs j" if "j < n" "cdist n (home n (ks ! i)) j < cdist n (home n (ks ! i)) i" for j
    using a that h(1) ie oi unfolding paths_def by blast
  have "j \<noteq> e"
  proof
    assume je: "j = e"
    show False
    proof (cases "cdist n e i < cdist n e c")
      case True
      then show False using a h(1,5) ie je by blast
    next
      case False
      have "i \<noteq> c" using oi assms(2) by auto
      then have "cdist n e c < cdist n e i" using False a h(1) cdist_inject [of e n i c] by force
      then have "cdist n (home n (ks ! i)) c < cdist n (home n (ks ! i)) i"
        using a h(1) hm h(5) [unfolded je] cdist_on_path [of "home n (ks ! i)" n e i c] by blast
      then show False using path [of c] a assms(2) by blast
    qed
  qed
  then show "j = n \<or> occ (vs[e := invalid_value]) j" using path [OF h(4,5)] by (simp add: occ_def)
qed

lemma erase_keep:
  assumes "erasing n ks vs e c f" "occ vs c" "\<not> cdist n (home n (ks ! c)) e < cdist n (home n (ks ! c)) c"
  shows "erasing n ks vs e (Suc c mod n) f"
proof -
  note a = assms(1) [unfolded erasing_def]
  have wrap: "Suc c mod n \<noteq> e"
  proof
    assume "Suc c mod n = e"
    then have "cdist n e f \<le> cdist n e c" using walked_around [of c n e f] a by blast
    moreover have "c \<noteq> f" using assms(2) a by auto
    then have "cdist n e f \<noteq> cdist n e c" using a cdist_inject [of e n f c] by auto
    ultimately show False using a by auto
  qed
  have near: "cdist n e j < cdist n e c \<or> j = c" if "j < n" "cdist n e j < cdist n e (Suc c mod n)" for j
    using closer_cases [of c n e j] a wrap that by blast
  show ?thesis unfolding erasing_def using a wrap near assms(2,3) by (auto dest!: near)
qed

lemma erase_move:
  assumes "erasing n ks vs e c f" "occ vs c" "cdist n (home n (ks ! c)) e < cdist n (home n (ks ! c)) c"
  shows "erasing n (ks[e := ks ! c]) (vs[e := vs ! c]) c (Suc c mod n) f"
proof -
  note a = assms(1) [unfolded erasing_def]
  have cf: "c \<noteq> f" using a assms(2) by auto
  have one: "cdist n c (Suc c mod n) = 1" "Suc c mod n \<noteq> c" using a cf by (auto simp: cdist_def Suc_mod_cases)
  have only: "j = c" if "j < n" "cdist n c j < cdist n c (Suc c mod n)" for j
    using that one a cdist_0 [of c n j] by simp
  have oc: "occ (vs[e := vs ! c]) j = (if j = e then occ vs c else occ vs j)" for j
    using a by (simp add: occ_def)
  have "paths n (ks[e := ks ! c]) (vs[e := vs ! c]) c"
    unfolding paths_def
  proof (intro allI impI)
    fix i j assume h: "i < n" "i \<noteq> c" "occ (vs[e := vs ! c]) i" "j < n"
      "cdist n (home n (ks[e := ks ! c] ! i)) j < cdist n (home n (ks[e := ks ! c] ! i)) i"
    show "j = c \<or> occ (vs[e := vs ! c]) j"
    proof (cases "i = e")
      case True
      then have "cdist n (home n (ks ! c)) j < cdist n (home n (ks ! c)) c" using h(5) a assms(3) by simp
      then have "j = e \<or> occ vs j" using a h(4) assms(2) unfolding paths_def by blast
      then show ?thesis using oc assms(2) by auto
    next
      case False
      then have "j = e \<or> occ vs j" using a h oc [of i] unfolding paths_def by auto
      then show ?thesis using oc assms(2) by auto
    qed
  qed
  then show ?thesis
    unfolding erasing_def using a one cf only assms(2) oc by (auto dest!: only)
qed

lemma entries_move:
  assumes "e < n" "c < n" "c \<noteq> e" "occ vs c" "length ks = n" "length vs = n"
  shows "entries n (ks[e := ks ! c]) (vs[e := vs ! c]) c = entries n ks vs e"
proof (intro set_eqI iffI)
  fix x assume "x \<in> entries n (ks[e := ks ! c]) (vs[e := vs ! c]) c"
  then obtain i where i: "x = (ks[e := ks ! c] ! i, vs[e := vs ! c] ! i)" "i < n" "i \<noteq> c" "occ (vs[e := vs ! c]) i"
    unfolding entries_def by blast
  have "x = (ks ! (if i = e then c else i), vs ! (if i = e then c else i))" "occ vs (if i = e then c else i)"
    using i assms by (cases "i = e"; simp add: occ_def)+
  then show "x \<in> entries n ks vs e" unfolding entries_def using i(2) assms(2,3) by (cases "i = e") auto
next
  fix x assume "x \<in> entries n ks vs e"
  then obtain i where i: "x = (ks ! i, vs ! i)" "i < n" "i \<noteq> e" "occ vs i" unfolding entries_def by blast
  define p where "p = (if i = c then e else i)"
  have "x = (ks[e := ks ! c] ! p, vs[e := vs ! c] ! p)" "occ (vs[e := vs ! c]) p" "p < n" "p \<noteq> c"
    using i assms by (auto simp: p_def occ_def)
  then show "x \<in> entries n (ks[e := ks ! c]) (vs[e := vs ! c]) c" unfolding entries_def by blast
qed

lemma unique_move:
  assumes "e < n" "c < n" "c \<noteq> e" "occ vs c" "length ks = n" "length vs = n" "unique_keys n ks vs e"
  shows "unique_keys n (ks[e := ks ! c]) (vs[e := vs ! c]) c"
  unfolding unique_keys_def
proof (intro allI impI)
  fix p q assume h: "p < n" "q < n" "p \<noteq> c" "q \<noteq> c" "occ (vs[e := vs ! c]) p" "occ (vs[e := vs ! c]) q"
    "ks[e := ks ! c] ! p = ks[e := ks ! c] ! q"
  define p' q' where "p' = (if p = e then c else p)" and "q' = (if q = e then c else q)"
  have "p' < n" "q' < n" "p' \<noteq> e" "q' \<noteq> e" "occ vs p'" "occ vs q'" "ks ! p' = ks ! q'"
    using h assms by (auto simp: p'_def q'_def occ_def nth_list_update split: if_splits)
  then have "p' = q'" using assms(7) unfolding unique_keys_def by blast
  then show "p = q" using h(3,4) by (auto simp: p'_def q'_def split: if_splits)
qed

lemma erase_loop_returns:
  assumes n: "pow2 n" "n < 2 ^ 32"
  shows "erasing n ks vs e c f \<Longrightarrow> unique_keys n ks vs e \<Longrightarrow>
    \<exists>ks' vs' e'. erase_loop (of_nat n) ks vs (of_nat e) (of_nat c) = Some (ks', vs', of_nat e') \<and> e' < n \<and> occ vs' e'
      \<and> length ks' = n \<and> length vs' = n \<and> entries n ks' vs' e' = entries n ks vs e \<and> unique_keys n ks' vs' e'
      \<and> occupied n vs' = occupied n vs \<and> paths n ks' (vs'[e' := invalid_value]) n"
proof (induction "cdist n c f" arbitrary: ks vs e c rule: less_induct)
  case less
  note a = less.prems(1) [unfolded erasing_def]
  have u: "unat (of_nat c :: u32) = c" "unat (of_nat e :: u32) = e" using a n by (auto intro!: unat_small)
  have hm: "home n k < n" for k using a by (intro home_less) auto
  have home: "get_table_hash k AND (of_nat n - 1) = of_nat (home n k)" for k
    using word_table(3) [OF n] by (simp add: home_def)
  show ?case
  proof (cases "occ vs c")
    case False
    then have "erase_loop (of_nat n) ks vs (of_nat e) (of_nat c) = Some (ks, vs, of_nat e)"
      using u by (subst erase_loop.simps) (simp add: occ_def)
    then show ?thesis using less.prems a erasing_hole [OF less.prems(1)] erase_end [OF less.prems(1) False] by blast
  next
    case True
    have cf: "c \<noteq> f" using True a by auto
    have dec: "cdist n (Suc c mod n) f < cdist n c f" using dist_to_free [of c n f] a cf by simp
    have cmp: "(of_nat c - of_nat h) AND (of_nat n - 1) > ((of_nat e - of_nat h) AND (of_nat n - 1) :: u32) \<longleftrightarrow> cdist n h e < cdist n h c"
      if "h < n" for h
      using word_table(2) [OF n _ that] a by (simp add: word_less_nat_alt)
    have nx: "next_slot (of_nat n) (of_nat c) = of_nat (Suc c mod n)" using word_table(1) [OF n] a by blast
    show ?thesis
    proof (cases "cdist n (home n (ks ! c)) e < cdist n (home n (ks ! c)) c")
      case move: True
      have step: "erase_loop (of_nat n) ks vs (of_nat e) (of_nat c)
          = erase_loop (of_nat n) (ks[e := ks ! c]) (vs[e := vs ! c]) (of_nat c) (of_nat (Suc c mod n))"
        using True move u cmp [OF hm] nx by (subst erase_loop.simps) (simp add: occ_def home)
      have eq: "entries n (ks[e := ks ! c]) (vs[e := vs ! c]) c = entries n ks vs e"
        "unique_keys n (ks[e := ks ! c]) (vs[e := vs ! c]) c"
        using a True less.prems(2) by (intro entries_move unique_move; blast)+
      have "occupied n (vs[e := vs ! c]) = occupied n vs"
        using a True erasing_hole [OF less.prems(1)] by (subst occupied_insert) (simp_all add: occ_def occupied_def insert_absorb)
      then show ?thesis
        using less.hyps [OF dec erase_move [OF less.prems(1) True move] eq(2)] unfolding step eq(1) by simp
    next
      case keep: False
      have step: "erase_loop (of_nat n) ks vs (of_nat e) (of_nat c) = erase_loop (of_nat n) ks vs (of_nat e) (of_nat (Suc c mod n))"
        using True keep u cmp [OF hm] nx by (subst erase_loop.simps) (simp add: occ_def home)
      show ?thesis using less.hyps [OF dec erase_keep [OF less.prems(1) True keep] less.prems(2)] unfolding step .
    qed
  qed
qed

end
