(* ===== verification/Hash_Cache_Laws.thy ===== *)
theory Hash_Cache_Laws
  imports Hash_Probing
begin

text \<open>
  The contract of the bounded cache: it is a map that may forget. \<open>hc_map\<close> is the map a cache stands for, \<open>cache_ok\<close> the invariant
  of every operation; the table is at most half full, so every probe ends.
\<close>

section \<open>Invariant and abstraction\<close>

definition hc_n :: "hcache \<Rightarrow> nat" where
  "hc_n c = unat (hc_capacity c)"

definition hc_list :: "hcache \<Rightarrow> (u64 \<times> u32) list" where
  "hc_list c = map (\<lambda>i. (hc_keys c ! i, hc_values c ! i)) (filter (\<lambda>i. hc_values c ! i \<noteq> invalid_value) [0..<hc_n c])"

definition hc_map :: "hcache \<Rightarrow> u64 \<Rightarrow> u32 option" where
  "hc_map c = map_of (hc_list c)"

definition hc_table :: "hcache \<Rightarrow> bool" where
  "hc_table c \<longleftrightarrow> pow2 (hc_n c) \<and> 8 \<le> hc_n c \<and> hc_n c \<le> 4 * unat (hc_max_size c) \<and> length (hc_keys c) = hc_n c
     \<and> length (hc_values c) = hc_n c \<and> paths (hc_n c) (hc_keys c) (hc_values c) (hc_n c)
     \<and> unique_keys (hc_n c) (hc_keys c) (hc_values c) (hc_n c) \<and> card (occupied (hc_n c) (hc_values c)) = unat (hc_size c)
     \<and> unat (hc_victim c) < hc_n c"

definition hc_bound :: "hcache \<Rightarrow> bool" where
  "hc_bound c \<longleftrightarrow> 8 \<le> unat (hc_max_size c) \<and> unat (hc_max_size c) \<le> 2 ^ 29"

definition cache_ok :: "hcache \<Rightarrow> bool" where
  "cache_ok c \<longleftrightarrow> hc_bound c \<and> unat (hc_size c) \<le> unat (hc_max_size c)
     \<and> (if hc_values c = [] then hc_keys c = [] \<and> hc_size c = 0 \<and> hc_capacity c = 0
        else hc_table c \<and> 0 < unat (hc_size c) \<and> 2 * unat (hc_size c) \<le> hc_n c)"

text \<open>A table with room for one more entry.\<close>

definition hc_ready :: "hcache \<Rightarrow> bool" where
  "hc_ready c \<longleftrightarrow> hc_bound c \<and> hc_table c \<and> 2 * (unat (hc_size c) + 1) \<le> hc_n c \<and> unat (hc_size c) < unat (hc_max_size c)"

abbreviation hc_entries :: "hcache \<Rightarrow> (u64 \<times> u32) set" where
  "hc_entries c \<equiv> entries (hc_n c) (hc_keys c) (hc_values c) (hc_n c)"

lemma set_hc_list: "set (hc_list c) = hc_entries c"
  by (auto simp: hc_list_def entries_def occ_def)

lemma entries_functional: "unique_keys n ks vs e \<Longrightarrow> (k, v) \<in> entries n ks vs e \<Longrightarrow> (k, w) \<in> entries n ks vs e \<Longrightarrow> v = w"
  unfolding unique_keys_def entries_def by blast

lemma hc_map_iff: "hc_table c \<Longrightarrow> hc_map c k = Some v \<longleftrightarrow> (k, v) \<in> hc_entries c"
proof
  show "hc_map c k = Some v \<Longrightarrow> (k, v) \<in> hc_entries c"
    unfolding set_hc_list [symmetric] hc_map_def by (rule map_of_SomeD)
  assume t: "hc_table c" and e: "(k, v) \<in> hc_entries c"
  then obtain w where w: "hc_map c k = Some w"
    unfolding set_hc_list [symmetric] hc_map_def by (meson weak_map_of_SomeI)
  then have "(k, w) \<in> hc_entries c" unfolding set_hc_list [symmetric] hc_map_def by (rule map_of_SomeD)
  then show "hc_map c k = Some v" using w entries_functional [OF _ e] t unfolding hc_table_def by blast
qed

lemma hc_map_empty: "hc_capacity c = 0 \<Longrightarrow> hc_map c = Map.empty"
  by (simp add: hc_map_def hc_list_def hc_n_def)

lemma map_eqI: "(\<And>k v. m k = Some v \<longleftrightarrow> m' k = Some v) \<Longrightarrow> m = m'"
  by (rule ext) (metis not_Some_eq)

lemma hc_map_cong: "hc_table c \<Longrightarrow> hc_table d \<Longrightarrow> hc_entries c = hc_entries d \<Longrightarrow> hc_map c = hc_map d"
  by (rule map_eqI) (simp add: hc_map_iff)

lemma hc_word: "hc_table c \<Longrightarrow> hc_bound c \<Longrightarrow> hc_n c < 2 ^ 32 \<and> hc_capacity c = of_nat (hc_n c) \<and> pow2 (hc_n c)"
  by (simp add: hc_table_def hc_bound_def hc_n_def)

lemma half_full: "hc_table c \<Longrightarrow> unat (hc_size c) < hc_n c \<Longrightarrow> \<exists>f < hc_n c. \<not> occ (hc_values c) f"
  using free_exists [of "hc_n c" "hc_values c"] by (simp add: hc_table_def)

section \<open>Looking up\<close>

lemma find_slot_cases:
  assumes c: "hc_bound c" "hc_table c" "unat (hc_size c) < hc_n c"
  obtains (found) i where "i < hc_n c" "find_slot_or_empty c k = Some (True, of_nat i)" "occ (hc_values c) i" "hc_keys c ! i = k"
      "unat (of_nat i :: u32) = i" "hc_map c k = Some (hc_values c ! i)"
  | (free) i where "i < hc_n c" "find_slot_or_empty c k = Some (False, of_nat i)" "\<not> occ (hc_values c) i"
      "unat (of_nat i :: u32) = i" "hc_map c k = None"
      "\<forall>j<hc_n c. cdist (hc_n c) (home (hc_n c) k) j < cdist (hc_n c) (home (hc_n c) k) i \<longrightarrow> occ (hc_values c) j"
      "\<forall>j<hc_n c. occ (hc_values c) j \<longrightarrow> hc_keys c ! j \<noteq> k"
proof -
  have w: "hc_n c < 2 ^ 32" "hc_capacity c = of_nat (hc_n c)" "pow2 (hc_n c)" using hc_word [OF c(2,1)] by auto
  obtain f where f: "f < hc_n c" "\<not> occ (hc_values c) f" using half_full [OF c(2,3)] by auto
  have ne: "hc_values c \<noteq> []" using c(2) by (auto simp: hc_table_def)
  have s: "find_slot_or_empty c k = probe (of_nat (hc_n c)) (hc_keys c) (hc_values c) k (of_nat (home (hc_n c) k))"
    using ne word_table(3) [OF w(3,1)] by (simp add: find_slot_or_empty_def w(2) home_def)
  have u: "i < hc_n c \<Longrightarrow> unat (of_nat i :: u32) = i" for i using w(1) by (simp add: unat_small)
  have p: "paths (hc_n c) (hc_keys c) (hc_values c) (hc_n c)" using c(2) by (simp add: hc_table_def)
  show ?thesis
  proof (rule probe_home [OF w(3,1) f p, of k])
    fix i assume i: "i < hc_n c" "probe (of_nat (hc_n c)) (hc_keys c) (hc_values c) k (of_nat (home (hc_n c) k)) = Some (True, of_nat i)"
      "occ (hc_values c) i" "hc_keys c ! i = k"
    then have "(k, hc_values c ! i) \<in> hc_entries c" unfolding entries_def by blast
    then show thesis using i found u s hc_map_iff [OF c(2)] by auto
  next
    fix i assume i: "i < hc_n c" "probe (of_nat (hc_n c)) (hc_keys c) (hc_values c) k (of_nat (home (hc_n c) k)) = Some (False, of_nat i)"
      "\<not> occ (hc_values c) i" "\<forall>j<hc_n c. cdist (hc_n c) (home (hc_n c) k) j < cdist (hc_n c) (home (hc_n c) k) i \<longrightarrow> occ (hc_values c) j"
      "\<forall>j<hc_n c. occ (hc_values c) j \<longrightarrow> hc_keys c ! j \<noteq> k"
    have "(k, v) \<notin> hc_entries c" for v using i(5) unfolding entries_def by blast
    then have "hc_map c k = None" using hc_map_iff [OF c(2)] by (metis not_Some_eq)
    then show thesis using i free u s by auto
  qed
qed

lemma find_returns:
  assumes "cache_ok c"
  shows "\<exists>t. hc_find c k = Some (hc_map c k, t)"
proof (cases "hc_values c = []")
  case True
  then show ?thesis using assms by (simp add: hc_find_def find_slot_or_empty_def cache_ok_def hc_map_empty)
next
  case False
  then have c: "hc_bound c" "hc_table c" "unat (hc_size c) < hc_n c" using assms by (auto simp: cache_ok_def)
  show ?thesis by (rule find_slot_cases [OF c, of k]) (simp_all add: hc_find_def)
qed

section \<open>Growing\<close>

definition good_table :: "nat \<Rightarrow> u64 list \<Rightarrow> u32 list \<Rightarrow> bool" where
  "good_table n ks vs \<longleftrightarrow> length ks = n \<and> length vs = n \<and> paths n ks vs n \<and> unique_keys n ks vs n"

lemma good_insert:
  assumes "good_table n ks vs" "i < n" "\<not> occ vs i" "v \<noteq> invalid_value" "\<forall>j<n. occ vs j \<longrightarrow> ks ! j \<noteq> k"
    "\<forall>j<n. cdist n (home n k) j < cdist n (home n k) i \<longrightarrow> occ vs j"
  shows "good_table n (ks[i := k]) (vs[i := v])" "entries n (ks[i := k]) (vs[i := v]) n = insert (k, v) (entries n ks vs n)"
    "card (occupied n (vs[i := v])) = Suc (card (occupied n vs))"
proof -
  have l: "length ks = n" "length vs = n" "paths n ks vs n" "unique_keys n ks vs n" using assms(1) by (simp_all add: good_table_def)
  show "good_table n (ks[i := k]) (vs[i := v])"
    using paths_insert [OF l(3) assms(2-4) l(1,2) assms(6)] unique_insert [OF l(4) assms(5) l(1,2)] l by (simp add: good_table_def)
  show "entries n (ks[i := k]) (vs[i := v]) n = insert (k, v) (entries n ks vs n)"
    by (rule entries_insert [OF assms(2-4) l(1,2)])
  have "i \<notin> occupied n vs" using assms(3) by (simp add: occupied_def)
  then show "card (occupied n (vs[i := v])) = Suc (card (occupied n vs))"
    using occupied_insert [OF assms(2,4) l(2)] by simp
qed

lemma rehash_returns:
  assumes n: "pow2 n" "n < 2 ^ 32"
  shows "distinct iss \<Longrightarrow> (\<forall>i \<in> set iss. \<forall>j \<in> set iss. hc_values c ! i \<noteq> invalid_value \<longrightarrow> hc_values c ! j \<noteq> invalid_value
      \<longrightarrow> hc_keys c ! i = hc_keys c ! j \<longrightarrow> i = j) \<Longrightarrow>
    good_table n ks vs \<Longrightarrow> (\<forall>i \<in> set iss. hc_values c ! i \<noteq> invalid_value \<longrightarrow> (\<forall>j<n. occ vs j \<longrightarrow> ks ! j \<noteq> hc_keys c ! i)) \<Longrightarrow>
    card (occupied n vs) + length (filter (\<lambda>i. hc_values c ! i \<noteq> invalid_value) iss) < n \<Longrightarrow>
    \<exists>ks' vs'. rehash c (of_nat n) iss (ks, vs) = Some (ks', vs') \<and> good_table n ks' vs'
      \<and> entries n ks' vs' n = entries n ks vs n \<union> {(hc_keys c ! i, hc_values c ! i) | i. i \<in> set iss \<and> hc_values c ! i \<noteq> invalid_value}
      \<and> card (occupied n vs') = card (occupied n vs) + length (filter (\<lambda>i. hc_values c ! i \<noteq> invalid_value) iss)"
proof (induction iss arbitrary: ks vs)
  case (Cons i iss)
  show ?case
  proof (cases "hc_values c ! i = invalid_value")
    case True
    have "{(hc_keys c ! j, hc_values c ! j) | j. j \<in> set (i # iss) \<and> hc_values c ! j \<noteq> invalid_value}
        = {(hc_keys c ! j, hc_values c ! j) | j. j \<in> set iss \<and> hc_values c ! j \<noteq> invalid_value}" using True by auto
    then show ?thesis using Cons.IH [of ks vs] Cons.prems True by simp
  next
    case False
    define k v where "k = hc_keys c ! i" and "v = hc_values c ! i"
    obtain f where f: "f < n" "\<not> occ vs f" using free_exists [of n vs] Cons.prems(5) by auto
    have h: "home n k < n" using f(1) by (intro home_less) simp
    have h0: "\<not> cdist n (home n k) j < cdist n (home n k) (home n k)" for j by (simp add: cdist_def)
    obtain p where p: "p < n" "free_slot (of_nat n) vs (of_nat (home n k)) = Some (of_nat p)" "\<not> occ vs p"
      "\<forall>j<n. cdist n (home n k) j < cdist n (home n k) p \<longrightarrow> occ vs j"
      using free_slot_returns [OF n f h h] h0 by blast
    have absent: "\<forall>j<n. occ vs j \<longrightarrow> ks ! j \<noteq> k" using Cons.prems(4) False by (simp add: k_def)
    note g = good_insert [OF Cons.prems(3) p(1,3) False [folded v_def] absent p(4)]
    have "unat (of_nat p :: u32) = p" using p(1) n by (simp add: unat_small)
    then have step: "rehash c (of_nat n) (i # iss) (ks, vs) = rehash c (of_nat n) iss (ks[p := k], vs[p := v])"
      using False p(2) word_table(3) [OF n, of "get_table_hash k"] by (simp add: k_def v_def home_def)
    have keys: "\<forall>j \<in> set iss. hc_values c ! j \<noteq> invalid_value \<longrightarrow> (\<forall>q<n. occ (vs[p := v]) q \<longrightarrow> ks[p := k] ! q \<noteq> hc_keys c ! j)"
    proof (intro ballI allI impI)
      fix j q assume j: "j \<in> set iss" "hc_values c ! j \<noteq> invalid_value" "q < n" "occ (vs[p := v]) q"
      show "ks[p := k] ! q \<noteq> hc_keys c ! j"
      proof (cases "q = p")
        case True
        have "i \<noteq> j" using Cons.prems(1) j(1) by auto
        then have "hc_keys c ! j \<noteq> k" using Cons.prems(2) j(1,2) False unfolding k_def by (metis list.set_intros)
        then show ?thesis using True p(1) Cons.prems(3) by (simp add: good_table_def)
      next
        case neq: False
        then show ?thesis using Cons.prems(4) j by (simp add: occ_def)
      qed
    qed
    obtain ks' vs' where r: "rehash c (of_nat n) iss (ks[p := k], vs[p := v]) = Some (ks', vs')" "good_table n ks' vs'"
      "entries n ks' vs' n = entries n (ks[p := k]) (vs[p := v]) n \<union> {(hc_keys c ! j, hc_values c ! j) | j. j \<in> set iss \<and> hc_values c ! j \<noteq> invalid_value}"
      "card (occupied n vs') = card (occupied n (vs[p := v])) + length (filter (\<lambda>i. hc_values c ! i \<noteq> invalid_value) iss)"
      using Cons.IH [OF _ _ g(1) keys] Cons.prems(1,2,5) g(3) False by auto
    have "{(hc_keys c ! j, hc_values c ! j) | j. j \<in> set (i # iss) \<and> hc_values c ! j \<noteq> invalid_value}
        = insert (k, v) {(hc_keys c ! j, hc_values c ! j) | j. j \<in> set iss \<and> hc_values c ! j \<noteq> invalid_value}"
      using False by (auto simp: k_def v_def)
    then show ?thesis using r g(2,3) step False by auto
  qed
qed simp

lemma resize_returns:
  assumes c: "hc_bound c" "hc_values c = [] \<and> hc_capacity c = 0 \<and> hc_size c = 0 \<or> hc_table c"
    and n: "pow2 (unat n)" "8 \<le> unat n" "unat n \<le> 4 * unat (hc_max_size c)" "unat (hc_size c) < unat n"
  shows "alloc n = None \<and> resize alloc c n = Some (False, c) \<or>
    (\<exists>d. resize alloc c n = Some (True, d) \<and> hc_table d \<and> hc_n d = unat n \<and> hc_map d = hc_map c
      \<and> hc_size d = hc_size c \<and> hc_max_size d = hc_max_size c)"
proof (cases "alloc n")
  case None
  then show ?thesis by (simp add: resize_def)
next
  case (Some fresh)
  define ks where "ks = map fresh [0..<unat n]"
  define vs where "vs = replicate (unat n) (0xFFFFFFFF :: u32)"
  have free: "\<not> occ vs j" if "j < unat n" for j using that by (simp add: vs_def occ_def invalid_value_def)
  have none: "occupied (unat n) vs = {}" "entries (unat n) ks vs (unat n) = {}" using free by (auto simp: occupied_def entries_def)
  have g: "good_table (unat n) ks vs" using free by (auto simp: good_table_def ks_def vs_def paths_def unique_keys_def)
  have n32: "unat n < 2 ^ 32" using unat_lt2p [of n] by simp
  have fin: "length (filter (\<lambda>i. hc_values c ! i \<noteq> invalid_value) [0..<hc_n c]) = unat (hc_size c)"
  proof -
    have "occupied (hc_n c) (hc_values c) = set (filter (\<lambda>i. hc_values c ! i \<noteq> invalid_value) [0..<hc_n c])"
      by (auto simp: occupied_def occ_def)
    then have "card (occupied (hc_n c) (hc_values c)) = length (filter (\<lambda>i. hc_values c ! i \<noteq> invalid_value) [0..<hc_n c])"
      by (simp only: distinct_card distinct_filter distinct_upt)
    then show ?thesis using c(2) by (auto simp: hc_table_def hc_n_def)
  qed
  have uniq: "\<forall>i \<in> set [0..<hc_n c]. \<forall>j \<in> set [0..<hc_n c]. hc_values c ! i \<noteq> invalid_value \<longrightarrow> hc_values c ! j \<noteq> invalid_value
      \<longrightarrow> hc_keys c ! i = hc_keys c ! j \<longrightarrow> i = j"
    using c(2) by (auto simp: hc_table_def unique_keys_def occ_def hc_n_def)
  obtain ks' vs' where r: "rehash c n [0..<hc_n c] (ks, vs) = Some (ks', vs')" "good_table (unat n) ks' vs'"
    "entries (unat n) ks' vs' (unat n) = {(hc_keys c ! i, hc_values c ! i) | i. i \<in> set [0..<hc_n c] \<and> hc_values c ! i \<noteq> invalid_value}"
    "card (occupied (unat n) vs') = unat (hc_size c)"
    using rehash_returns [OF n(1) n32 distinct_upt uniq g] free none fin n(4) by auto
  define d where "d = c\<lparr>hc_keys := ks', hc_values := vs', hc_capacity := n, hc_victim := 0, hc_revision := hc_revision c + 1\<rparr>"
  have d: "resize alloc c n = Some (True, d)" using Some r(1) by (simp add: resize_def d_def ks_def vs_def hc_n_def)
  have t: "hc_table d" using r n by (simp add: hc_table_def d_def hc_n_def good_table_def)
  have "hc_entries d = hc_entries c" using r(3) by (auto simp: d_def hc_n_def entries_def occ_def)
  then have "hc_map d = hc_map c"
    using hc_map_cong [OF t, of c] c(2) hc_map_iff [OF t] hc_map_empty [of c]
    by (auto simp: hc_n_def entries_def intro!: map_eqI)
  then show ?thesis using d t by (auto simp: d_def hc_n_def)
qed

section \<open>Erasing\<close>

lemma punch:
  assumes "e < n" "length vs = n"
  shows "entries n ks (vs[e := invalid_value]) n = entries n ks vs e"
    and "unique_keys n ks vs e \<Longrightarrow> unique_keys n ks (vs[e := invalid_value]) n"
    and "occupied n (vs[e := invalid_value]) = occupied n vs - {e}"
proof -
  have o: "occ (vs[e := invalid_value]) i \<longleftrightarrow> i \<noteq> e \<and> occ vs i" for i
    using assms by (cases "i = e") (simp_all add: occ_def)
  show "occupied n (vs[e := invalid_value]) = occupied n vs - {e}" by (auto simp: occupied_def o)
  show "unique_keys n ks vs e \<Longrightarrow> unique_keys n ks (vs[e := invalid_value]) n" unfolding unique_keys_def o by blast
  have "vs[e := invalid_value] ! i = vs ! i" if "i \<noteq> e" for i using that by simp
  then show "entries n ks (vs[e := invalid_value]) n = entries n ks vs e" unfolding entries_def o by fastforce
qed

lemma erasing_start:
  assumes "i < n" "f < n" "occ vs i" "\<not> occ vs f" "length ks = n" "length vs = n" "paths n ks vs n"
  shows "erasing n ks vs i (Suc i mod n) f"
proof -
  have "i \<noteq> f" using assms by auto
  then have one: "cdist n i (Suc i mod n) = 1" "Suc i mod n \<noteq> i" using assms(1,2) by (auto simp: cdist_def Suc_mod_cases)
  have "j = i" if "j < n" "cdist n i j < cdist n i (Suc i mod n)" for j
    using that one cdist_0 [of i n j] assms(1) by simp
  moreover have "paths n ks vs i" using assms(7) unfolding paths_def by blast
  ultimately show ?thesis unfolding erasing_def using assms one \<open>i \<noteq> f\<close> by auto
qed

lemma entries_hole:
  assumes "i < n" "occ vs i" "unique_keys n ks vs n"
  shows "(k, v) \<in> entries n ks vs i \<longleftrightarrow> (k, v) \<in> entries n ks vs n \<and> k \<noteq> ks ! i"
proof
  assume "(k, v) \<in> entries n ks vs i"
  then obtain j where j: "k = ks ! j" "v = vs ! j" "j < n" "j \<noteq> i" "occ vs j" unfolding entries_def by blast
  have "ks ! j \<noteq> ks ! i" using assms j unfolding unique_keys_def by (metis less_irrefl)
  moreover have "j \<noteq> n" using j(3) by simp
  moreover from this have "(k, v) \<in> entries n ks vs n" unfolding entries_def using j by blast
  ultimately show "(k, v) \<in> entries n ks vs n \<and> k \<noteq> ks ! i" using j(1) by simp
next
  assume "(k, v) \<in> entries n ks vs n \<and> k \<noteq> ks ! i"
  then show "(k, v) \<in> entries n ks vs i" unfolding entries_def by auto
qed

lemma erase_returns:
  assumes c: "hc_bound c" "hc_table c" "unat (hc_size c) < hc_n c" and i: "i < hc_n c" "occ (hc_values c) i"
  shows "\<exists>d. hc_erase c (of_nat i) = Some d \<and> hc_table d \<and> hc_n d = hc_n c \<and> unat (hc_size d) + 1 = unat (hc_size c)
    \<and> hc_max_size d = hc_max_size c \<and> hc_map d = (hc_map c)(hc_keys c ! i := None)"
proof -
  define n where "n = hc_n c"
  note t = c(2) [unfolded hc_table_def, folded n_def]
  have w: "n < 2 ^ 32" "hc_capacity c = of_nat n" "pow2 n" using hc_word [OF c(2,1)] by (auto simp: n_def)
  obtain f where f: "f < n" "\<not> occ (hc_values c) f" using half_full [OF c(2,3)] by (auto simp: n_def)
  have e: "erasing n (hc_keys c) (hc_values c) i (Suc i mod n) f"
    using erasing_start [OF _ f(1) i(2) f(2)] i(1) t by (simp add: n_def)
  have "unique_keys n (hc_keys c) (hc_values c) i" using t unfolding unique_keys_def by (metis less_irrefl)
  then obtain ks vs e' where r: "erase_loop (of_nat n) (hc_keys c) (hc_values c) (of_nat i) (of_nat (Suc i mod n)) = Some (ks, vs, of_nat e')"
    "e' < n" "occ vs e'" "length ks = n" "length vs = n" "entries n ks vs e' = entries n (hc_keys c) (hc_values c) i" "unique_keys n ks vs e'"
    "occupied n vs = occupied n (hc_values c)" "paths n ks (vs[e' := invalid_value]) n"
    using erase_loop_returns [OF w(3,1) e] by blast
  have u: "unat (of_nat e' :: u32) = e'" using r(2) w(1) by (simp add: unat_small)
  have start: "(of_nat i + 1) AND (of_nat n - 1) = (of_nat (Suc i mod n) :: u32)"
    using word_table(1) [OF w(3,1)] i(1) by (simp add: next_slot_def n_def)
  define d where "d = c\<lparr>hc_keys := ks, hc_values := vs[e' := invalid_value], hc_size := hc_size c - 1, hc_revision := hc_revision c + 1\<rparr>"
  have d: "hc_erase c (of_nat i) = Some d" using r(1) u start by (simp add: hc_erase_def d_def w(2))
  have "e' \<in> occupied n (hc_values c)" using r(2,3,8) by (auto simp: occupied_def)
  then have cd: "card (occupied n (vs[e' := invalid_value])) + 1 = unat (hc_size c)" "0 < unat (hc_size c)"
    using punch(3) [OF r(2,5)] r(8) t finite_occupied [of n "hc_values c"] card_gt_0_iff [of "occupied n (hc_values c)"]
    by (auto simp: card_Suc_Diff1)
  then have sz: "unat (hc_size c - 1) + 1 = unat (hc_size c)" by (subst unat_minus_one) auto
  have td: "hc_table d"
    using t r punch(2) [OF r(2,5,7)] cd sz by (simp add: hc_table_def d_def hc_n_def n_def)
  have "hc_map d = (hc_map c)(hc_keys c ! i := None)"
  proof (rule map_eqI)
    fix k v
    have "hc_map d k = Some v \<longleftrightarrow> (k, v) \<in> entries n (hc_keys c) (hc_values c) i"
      using hc_map_iff [OF td] punch(1) [OF r(2,5)] r(6) by (simp add: d_def hc_n_def n_def)
    also have "\<dots> \<longleftrightarrow> hc_map c k = Some v \<and> k \<noteq> hc_keys c ! i"
      using entries_hole [of i n "hc_values c" "hc_keys c"] i t hc_map_iff [OF c(2)] by (simp add: n_def)
    finally show "hc_map d k = Some v \<longleftrightarrow> ((hc_map c)(hc_keys c ! i := None)) k = Some v" by simp
  qed
  then show ?thesis using d td sz by (auto simp: d_def hc_n_def)
qed

section \<open>Inserting\<close>

lemma place_returns:
  assumes c: "hc_ready c" and v: "v \<noteq> invalid_value" and i: "i < hc_n c" "\<not> occ (hc_values c) i"
    "\<forall>j<hc_n c. cdist (hc_n c) (home (hc_n c) k) j < cdist (hc_n c) (home (hc_n c) k) i \<longrightarrow> occ (hc_values c) j"
    "\<forall>j<hc_n c. occ (hc_values c) j \<longrightarrow> hc_keys c ! j \<noteq> k"
  shows "cache_ok (place c k v (of_nat i))" "hc_map (place c k v (of_nat i)) = (hc_map c)(k \<mapsto> v)"
proof -
  define n where "n = hc_n c"
  have t: "hc_table c" and b: "hc_bound c" and sz: "2 * (unat (hc_size c) + 1) \<le> n" "unat (hc_size c) < unat (hc_max_size c)"
    using c by (simp_all add: hc_ready_def n_def)
  have w: "n < 2 ^ 32" using hc_word [OF t b] by (simp add: n_def)
  have u: "unat (of_nat i :: u32) = i" using i(1) w by (simp add: unat_small n_def)
  have g0: "good_table n (hc_keys c) (hc_values c)" using t by (simp add: hc_table_def good_table_def n_def)
  note g = good_insert [OF g0 i(1,2) [folded n_def] v i(4,3) [folded n_def]]
  have s: "unat (hc_size c + 1) = Suc (unat (hc_size c))" using sz w by (simp add: unat_word_ariths)
  define d where "d = place c k v (of_nat i)"
  have td: "hc_table d"
    using t g s by (simp add: hc_table_def d_def place_def u hc_n_def n_def good_table_def)
  have "length (hc_values d) = n" using t by (simp add: d_def place_def hc_table_def n_def)
  then have "hc_values d \<noteq> []" using t by (auto simp: hc_table_def n_def)
  then show "cache_ok (place c k v (of_nat i))"
    using td b sz s by (simp add: cache_ok_def d_def [symmetric]) (simp add: d_def place_def hc_bound_def hc_n_def n_def)
  have "hc_map d = (hc_map c)(k \<mapsto> v)"
  proof (rule map_eqI)
    fix k' v'
    have "(k, v') \<notin> hc_entries c" for v' using i(4) unfolding entries_def by blast
    moreover have "hc_map d k' = Some v' \<longleftrightarrow> (k', v') \<in> insert (k, v) (hc_entries c)"
      using hc_map_iff [OF td] g(2) by (simp add: d_def place_def u hc_n_def n_def)
    ultimately show "hc_map d k' = Some v' \<longleftrightarrow> ((hc_map c)(k \<mapsto> v)) k' = Some v'"
      using hc_map_iff [OF t] by auto
  qed
  then show "hc_map (place c k v (of_nat i)) = (hc_map c)(k \<mapsto> v)" by (simp add: d_def)
qed

lemma unat_double: "2 * unat (x :: u32) < 2 ^ 32 \<Longrightarrow> unat (x * 2) = 2 * unat x"
  by (simp add: unat_word_ariths)

lemma make_room_returns:
  assumes c: "cache_ok c"
  shows "(\<exists>d. make_room alloc c = Some (False, d) \<and> cache_ok d \<and> hc_map d = hc_map c \<and> hc_max_size d = hc_max_size c
        \<and> (unat (hc_size c) \<ge> unat (hc_max_size c) \<or> (\<exists>n. alloc n = None)))
    \<or> (\<exists>d. make_room alloc c = Some (True, d) \<and> hc_ready d \<and> (d = c \<or> hc_revision d = hc_revision c + 1)
        \<and> hc_max_size d = hc_max_size c
        \<and> (hc_map d = hc_map c \<and> unat (hc_size c) < unat (hc_max_size c)
          \<or> unat (hc_size c) \<ge> unat (hc_max_size c) \<and> (\<exists>old \<in> dom (hc_map c). hc_map d = (hc_map c)(old := None))))"
proof -
  have b: "hc_bound c" "unat (hc_size c) \<le> unat (hc_max_size c)" using c by (simp_all add: cache_ok_def)
  have half: "unat (hc_capacity c div 2) = hc_n c div 2" by (simp add: unat_div hc_n_def)
  have le: "hc_size c < hc_max_size c \<longleftrightarrow> unat (hc_size c) < unat (hc_max_size c)" "hc_size c \<ge> hc_capacity c div 2 \<longleftrightarrow> unat (hc_size c) \<ge> hc_n c div 2"
    "hc_size c \<ge> hc_max_size c \<longleftrightarrow> unat (hc_size c) \<ge> unat (hc_max_size c)"
    by (simp_all add: word_less_nat_alt word_le_nat_alt half)
  have grow: "?thesis" if r: "make_room alloc c = resize alloc c n" and n: "pow2 (unat n)" "8 \<le> unat n" "unat n \<le> 4 * unat (hc_max_size c)"
      "2 * (unat (hc_size c) + 1) \<le> unat n" "unat (hc_size c) < unat (hc_max_size c)" for n
  proof -
    have src: "hc_values c = [] \<and> hc_capacity c = 0 \<and> hc_size c = 0 \<or> hc_table c" using c by (auto simp: cache_ok_def split: if_splits)
    have "unat (hc_size c) < unat n" using n(4) by simp
    from resize_returns [where alloc = alloc, OF b(1) src n(1-3) this] show ?thesis
    proof
      assume "alloc n = None \<and> resize alloc c n = Some (False, c)"
      then show ?thesis using r c by auto
    next
      assume "\<exists>d. resize alloc c n = Some (True, d) \<and> hc_table d \<and> hc_n d = unat n \<and> hc_map d = hc_map c
        \<and> hc_size d = hc_size c \<and> hc_max_size d = hc_max_size c"
      then obtain d where d: "resize alloc c n = Some (True, d)" "hc_table d" "hc_n d = unat n" "hc_map d = hc_map c"
        "hc_size d = hc_size c" "hc_max_size d = hc_max_size c" by blast
      have "hc_ready d" using d n b by (simp add: hc_ready_def hc_bound_def)
      moreover have "hc_revision d = hc_revision c + 1" using d(1) by (auto simp: resize_def split: option.splits)
      ultimately show ?thesis using d r n(5) by auto
    qed
  qed
  show ?thesis
  proof (cases "hc_values c = []")
    case True
    then have "hc_size c = 0" using c by (simp add: cache_ok_def)
    then show ?thesis using True b by (intro grow [of min_capacity]) (auto simp: make_room_def min_capacity_def hc_bound_def)
  next
    case False
    then have t: "hc_table c" "0 < unat (hc_size c)" "2 * unat (hc_size c) \<le> hc_n c" using c by (simp_all add: cache_ok_def)
    have w: "hc_n c < 2 ^ 32" "hc_capacity c = of_nat (hc_n c)" "pow2 (hc_n c)" using hc_word [OF t(1) b(1)] by auto
    obtain m where m: "hc_n c = 2 ^ m" using w(3) by (auto simp: pow2_def)
    consider (more) "unat (hc_size c) < unat (hc_max_size c)" "unat (hc_size c) \<ge> hc_n c div 2"
      | (full) "unat (hc_size c) \<ge> unat (hc_max_size c)"
      | (room) "unat (hc_size c) < unat (hc_max_size c)" "unat (hc_size c) < hc_n c div 2" by linarith
    then show ?thesis
    proof cases
      case more
      have "2 * hc_n c \<le> 4 * unat (hc_max_size c)" using more t(3) m by (cases m) auto
      moreover from this have "unat (hc_capacity c * 2) = 2 * hc_n c" using b(1) unat_double [of "hc_capacity c"]
        by (simp add: hc_n_def hc_bound_def)
      moreover have "pow2 (2 * hc_n c)" using m by (auto simp: pow2_def intro: exI [of _ "Suc m"])
      moreover have "8 \<le> hc_n c" using t(1) by (simp add: hc_table_def)
      ultimately show ?thesis
        using more False le t(3) by (intro grow [of "hc_capacity c * 2"]) (simp_all add: make_room_def)
    next
      case full
      show ?thesis
      proof (cases "(hc_admission c + 1) AND (admission_divisor - 1) \<noteq> 0")
        case True
        define d where "d = c\<lparr>hc_admission := hc_admission c + 1\<rparr>"
        have "make_room alloc c = Some (False, d)" using True False full le by (simp add: make_room_def d_def Let_def)
        moreover have "cache_ok d" "hc_map d = hc_map c" using t b False
          by (simp_all add: d_def cache_ok_def hc_bound_def hc_table_def hc_n_def hc_map_def hc_list_def)
        ultimately show ?thesis using full by (auto simp: d_def)
      next
        case adm: False
        define a where "a v = c\<lparr>hc_admission := hc_admission c + 1, hc_victim := next_slot (hc_capacity c) v\<rparr>" for v
        obtain p where p: "p < hc_n c" "occ (hc_values c) p"
          using t(1,2) card_gt_0_iff [of "occupied (hc_n c) (hc_values c)"] by (auto simp: hc_table_def occupied_def)
        have vic: "unat (hc_victim c) < hc_n c" using t(1) by (simp add: hc_table_def)
        obtain i where i: "i < hc_n c" "occ (hc_values c) i" "next_victim (of_nat (hc_n c)) (hc_values c) (of_nat (unat (hc_victim c))) = Some (of_nat i)"
          using next_victim_returns [OF w(3,1) p vic] by blast
        have nx: "unat (next_slot (hc_capacity c) (of_nat i)) < hc_n c"
        proof -
          have "Suc i mod hc_n c < hc_n c" using i(1) by simp
          then show ?thesis unfolding w(2) word_table(1) [OF w(3,1) i(1)] using w(1) by (subst unat_small) linarith+
        qed
        define e where "e = a (of_nat i)"
        have e: "hc_bound e" "hc_table e" "hc_n e = hc_n c" "hc_values e = hc_values c" "hc_size e = hc_size c" "hc_max_size e = hc_max_size c"
          "hc_map e = hc_map c" "hc_revision e = hc_revision c"
          using t(1) b(1) nx by (simp_all add: e_def a_def hc_bound_def hc_table_def hc_n_def hc_map_def hc_list_def)
        obtain d where d: "hc_erase e (of_nat i) = Some d" "hc_table d" "hc_n d = hc_n e" "unat (hc_size d) + 1 = unat (hc_size e)"
          "hc_max_size d = hc_max_size e" "hc_map d = (hc_map e)(hc_keys e ! i := None)"
          using erase_returns [OF e(1,2), of i] e i t by auto
        have "make_room alloc c = Some (True, d)"
          using False full adm le i(3) d(1) by (simp add: make_room_def Let_def w(2) e_def a_def)
        moreover have "hc_revision d = hc_revision c + 1" using d(1) e(8) by (auto simp: hc_erase_def)
        moreover have "hc_ready d" using d e b t full by (simp add: hc_ready_def hc_bound_def)
        moreover have "hc_keys e ! i \<in> dom (hc_map c)"
        proof -
          have "(hc_keys c ! i, hc_values c ! i) \<in> hc_entries c" using i(1,2) unfolding entries_def by auto
          then show ?thesis using hc_map_iff [OF t(1)] by (auto simp: e_def a_def)
        qed
        ultimately show ?thesis using d e full by auto
      qed
    next
      case room
      have "hc_ready c" using room t b by (simp add: hc_ready_def)
      then show ?thesis using False room le by (auto simp: make_room_def)
    qed
  qed
qed


definition token_ok :: "hcache \<Rightarrow> u64 \<Rightarrow> insert_token \<Rightarrow> bool" where
  "token_ok c k t \<longleftrightarrow> t = no_token \<or> hc_find c k = Some (None, t)"

lemma token_slot:
  assumes "token_ok c k t" "hc_bound d" "hc_table d" "token_revision t = hc_revision d" "slot_index t < hc_capacity d"
    and "d = c \<or> hc_revision d = hc_revision c + 1"
  shows "d = c \<and> find_slot_or_empty c k = Some (False, slot_index t)"
proof -
  have "hc_n d \<le> 2 ^ 31" using assms(2,3) by (simp add: hc_table_def hc_bound_def)
  then have "t \<noteq> no_token" using assms(5) by (auto simp: no_token_def hc_n_def word_less_nat_alt)
  then obtain found slot where f: "find_slot_or_empty c k = Some (found, slot)" "\<not> found" "t = \<lparr>slot_index = slot, token_revision = hc_revision c\<rparr>"
    using assms(1) by (auto simp: token_ok_def hc_find_def split: if_splits prod.splits)
  then have "hc_revision d = hc_revision c" using assms(4) by simp
  then have "d = c" using assms(6) by (metis add_cancel_right_right zero_neq_one)
  then show ?thesis using f by simp
qed

lemma insert_new_returns:
  assumes c: "cache_ok c" and v: "v \<noteq> invalid_value"
    and t: "token_ok c k t" and k: "hc_map c k = None"
  shows "\<exists>d. insert_new alloc c k v t = Some d \<and> cache_ok d \<and> hc_max_size d = hc_max_size c
    \<and> (hc_map d = (hc_map c)(k \<mapsto> v) \<and> unat (hc_size c) < unat (hc_max_size c)
      \<or> hc_map d = hc_map c \<and> (unat (hc_size c) \<ge> unat (hc_max_size c) \<or> (\<exists>n. alloc n = None))
      \<or> (\<exists>old \<in> dom (hc_map c). hc_map d = (hc_map c)(old := None, k \<mapsto> v)) \<and> unat (hc_size c) \<ge> unat (hc_max_size c))"
proof -
  consider d where "make_room alloc c = Some (False, d)" "cache_ok d" "hc_map d = hc_map c" "hc_max_size d = hc_max_size c"
      "unat (hc_size c) \<ge> unat (hc_max_size c) \<or> (\<exists>n. alloc n = None)"
    | d where "make_room alloc c = Some (True, d)" "hc_ready d" "d = c \<or> hc_revision d = hc_revision c + 1" "hc_max_size d = hc_max_size c"
      "hc_map d = hc_map c \<and> unat (hc_size c) < unat (hc_max_size c)
          \<or> unat (hc_size c) \<ge> unat (hc_max_size c) \<and> (\<exists>old \<in> dom (hc_map c). hc_map d = (hc_map c)(old := None))"
    using make_room_returns [where alloc = alloc, OF c] by blast
  then show ?thesis
  proof cases
    case (1 d)
    then show ?thesis by (auto simp: insert_new_def)
  next
    case (2 d)
    have rd: "hc_bound d" "hc_table d" "unat (hc_size d) < hc_n d" using 2(2) by (simp_all add: hc_ready_def)
    have kd: "hc_map d k = None" using 2(5) k by auto
    show ?thesis
    proof (rule find_slot_cases [OF rd, of k])
      fix i assume "hc_map d k = Some (hc_values d ! i)"
      then show ?thesis using kd by simp
    next
      fix i assume i: "i < hc_n d" "find_slot_or_empty d k = Some (False, of_nat i)" "\<not> occ (hc_values d) i" "unat (of_nat i :: u32) = i"
        "hc_map d k = None" "\<forall>j<hc_n d. cdist (hc_n d) (home (hc_n d) k) j < cdist (hc_n d) (home (hc_n d) k) i \<longrightarrow> occ (hc_values d) j"
        "\<forall>j<hc_n d. occ (hc_values d) j \<longrightarrow> hc_keys d ! j \<noteq> k"
      have "insert_new alloc c k v t = Some (place d k v (of_nat i))"
        using 2(1) i(2) token_slot [OF t rd(1,2) _ _ 2(3)] by (auto simp: insert_new_def)
      moreover note place_returns [OF 2(2) v i(1,3,6,7)]
      moreover have "hc_max_size (place d k v (of_nat i)) = hc_max_size d" by (simp add: place_def)
      ultimately show ?thesis using 2(4,5) by auto
    qed
  qed
qed

lemma update_returns:
  assumes c: "cache_ok c" and i: "i < hc_n c" "occ (hc_values c) i" "unat (of_nat i :: u32) = i" and v: "v \<noteq> invalid_value"
  defines "d \<equiv> c\<lparr>hc_values := (hc_values c)[unat (of_nat i :: u32) := v]\<rparr>"
  shows "cache_ok d \<and> hc_map d = (hc_map c)(hc_keys c ! i \<mapsto> v)"
proof -
  have ne: "hc_values c \<noteq> []" using c i by (auto simp: cache_ok_def hc_n_def split: if_splits)
  then have t: "hc_table c" using c by (simp add: cache_ok_def)
  have l: "length (hc_values c) = hc_n c" using t by (simp add: hc_table_def)
  have o: "occ ((hc_values c)[i := v]) j \<longleftrightarrow> occ (hc_values c) j" for j
    using i v l by (cases "j = i") (simp_all add: occ_def)
  have dv: "hc_values d = (hc_values c)[i := v]" "hc_keys d = hc_keys c" "hc_n d = hc_n c" "hc_size d = hc_size c"
    "hc_max_size d = hc_max_size c" "hc_victim d = hc_victim c" "hc_capacity d = hc_capacity c"
    unfolding d_def i(3) by (simp_all add: hc_n_def)
  have same: "paths n ks ((hc_values c)[i := v]) e = paths n ks (hc_values c) e"
    "unique_keys n ks ((hc_values c)[i := v]) e = unique_keys n ks (hc_values c) e"
    "occupied n ((hc_values c)[i := v]) = occupied n (hc_values c)" for n ks e
    unfolding paths_def unique_keys_def occupied_def o by simp_all
  have td: "hc_table d" using t unfolding hc_table_def dv same by simp
  have "cache_ok d" using c ne td unfolding cache_ok_def hc_bound_def dv by simp
  moreover have "hc_map d = (hc_map c)(hc_keys c ! i \<mapsto> v)"
  proof (rule map_eqI)
    fix k w
    have u: "j = i" if "j < hc_n c" "occ (hc_values c) j" "hc_keys c ! j = hc_keys c ! i" for j
      using t that i(1,2) unfolding hc_table_def unique_keys_def by (metis less_irrefl)
    have kd: "hc_map d k = Some w \<longleftrightarrow> (\<exists>j<hc_n c. occ (hc_values c) j \<and> k = hc_keys c ! j \<and> w = (hc_values c)[i := v] ! j)"
      unfolding hc_map_iff [OF td] dv entries_def o by auto
    have kc: "hc_map c k = Some w \<longleftrightarrow> (\<exists>j<hc_n c. occ (hc_values c) j \<and> k = hc_keys c ! j \<and> w = hc_values c ! j)"
      unfolding hc_map_iff [OF t] entries_def by auto
    show "hc_map d k = Some w \<longleftrightarrow> ((hc_map c)(hc_keys c ! i \<mapsto> v)) k = Some w"
    proof (cases "k = hc_keys c ! i")
      case True
      then have "hc_map d k = Some w \<longleftrightarrow> w = v"
        using kd u i(1,2) l by (metis nth_list_update_eq)
      then show ?thesis using True by auto
    next
      case False
      then have "hc_map d k = Some w \<longleftrightarrow> hc_map c k = Some w"
        unfolding kd kc by (metis nth_list_update_neq)
      then show ?thesis using False by simp
    qed
  qed
  ultimately show ?thesis ..
qed

section \<open>Histories of a cache\<close>

text \<open>Allocations may fail or not at every step anew.\<close>

inductive hc_reachable :: "u32 \<Rightarrow> hcache \<Rightarrow> bool" for MAX_SIZE where
  hc_init: "hc_reachable MAX_SIZE (hcache_new MAX_SIZE x)"
| hc_insert: "hc_reachable MAX_SIZE c \<Longrightarrow> v \<noteq> invalid_value \<Longrightarrow> hc_insert alloc c k v = Some d \<Longrightarrow> hc_reachable MAX_SIZE d"
| hc_missed: "hc_reachable MAX_SIZE c \<Longrightarrow> v \<noteq> invalid_value \<Longrightarrow> hc_find c k = Some (None, t)
    \<Longrightarrow> hc_insert_token alloc c k v t = Some d \<Longrightarrow> hc_reachable MAX_SIZE d"
| hc_set_max: "hc_reachable MAX_SIZE c \<Longrightarrow> hc_set_max_size MAX_SIZE c x = (r, d) \<Longrightarrow> hc_reachable MAX_SIZE d"
| hc_cleared: "hc_reachable MAX_SIZE c \<Longrightarrow> hc_reachable MAX_SIZE (hc_clear c)"

lemma find_missed:
  assumes "cache_ok c" "hc_find c k = Some (None, t)"
  shows "hc_map c k = None" "token_ok c k t"
  using find_returns [OF assms(1), of k] assms(2) by (auto simp: token_ok_def)

lemma insert_returns:
  assumes c: "cache_ok c" and v: "v \<noteq> invalid_value"
  shows "\<exists>d. hc_insert alloc c k v = Some d \<and> cache_ok d \<and> hc_max_size d = hc_max_size c"
proof (cases "hc_values c = []")
  case True
  then have "hc_map c k = None" using c by (simp add: hc_map_empty cache_ok_def)
  then show ?thesis
    using insert_new_returns [where alloc = alloc and k = k and t = no_token, OF c v] True
    by (auto simp: hc_insert_def find_slot_or_empty_def token_ok_def)
next
  case False
  then have t: "hc_bound c" "hc_table c" "unat (hc_size c) < hc_n c" using c by (auto simp: cache_ok_def)
  show ?thesis
  proof (rule find_slot_cases [OF t, of k])
    fix i assume "i < hc_n c" "find_slot_or_empty c k = Some (True, of_nat i)" "occ (hc_values c) i" "unat (of_nat i :: u32) = i"
    then show ?thesis using update_returns [OF c _ _ _ v, of i] by (simp add: hc_insert_def)
  next
    fix i assume "find_slot_or_empty c k = Some (False, of_nat i)" "hc_map c k = None"
    then show ?thesis
      using insert_new_returns [where alloc = alloc and k = k and t = no_token, OF c v] by (auto simp: hc_insert_def token_ok_def)
  qed
qed

lemma normalize_bound:
  "8 \<le> unat MAX_SIZE \<Longrightarrow> 8 \<le> unat (normalize_max_size MAX_SIZE x) \<and> unat (normalize_max_size MAX_SIZE x) \<le> unat MAX_SIZE"
  by (auto simp: normalize_max_size_def min_capacity_def word_less_nat_alt)

lemma set_max_ok:
  assumes c: "cache_ok c" and b: "8 \<le> unat MAX_SIZE" "unat MAX_SIZE \<le> 2 ^ 29"
  shows "cache_ok (snd (hc_set_max_size MAX_SIZE c x))"
proof -
  define m where "m = normalize_max_size MAX_SIZE x"
  have m: "8 \<le> unat m" "unat m \<le> 2 ^ 29" using normalize_bound [OF b(1), of x] b(2) by (simp_all add: m_def)
  consider "hc_set_max_size MAX_SIZE c x = (True, c)" | "hc_set_max_size MAX_SIZE c x = (False, c)"
    | "hc_set_max_size MAX_SIZE c x = (True, c\<lparr>hc_max_size := m\<rparr>)" "hc_size c = 0 \<or> hc_max_size c \<le> m"
    by (cases "m = hc_max_size c"; cases "hc_size c \<noteq> 0 \<and> m < hc_max_size c")
      (auto simp: hc_set_max_size_def m_def [symmetric] not_less)
  then show ?thesis
  proof cases
    case 3
    have "cache_ok (c\<lparr>hc_max_size := m\<rparr>)"
    proof (cases "hc_values c = []")
      case False
      then have "hc_max_size c \<le> m" "hc_table c" using c 3(2) by (auto simp: cache_ok_def)
      then show ?thesis using c m False by (auto simp: cache_ok_def hc_bound_def hc_table_def hc_n_def word_le_nat_alt)
    qed (use c m in \<open>simp add: cache_ok_def hc_bound_def\<close>)
    then show ?thesis using 3 by simp
  qed (use c in simp_all)
qed

lemma reachable_ok:
  assumes "hc_reachable MAX_SIZE c" and b: "8 \<le> unat MAX_SIZE" "unat MAX_SIZE \<le> 2 ^ 29"
  shows "cache_ok c \<and> unat (hc_max_size c) \<le> unat MAX_SIZE"
  using assms(1)
proof (induction rule: hc_reachable.induct)
  case (hc_init x)
  then show ?case using normalize_bound [OF b(1), of x] b(2) by (simp add: cache_ok_def hcache_new_def hc_bound_def)
next
  case (hc_insert c v alloc k d)
  then show ?case using insert_returns [where c = c and v = v and alloc = alloc and k = k] by auto
next
  case (hc_missed c v k t alloc d)
  then have c: "cache_ok c" by simp
  show ?case
    using insert_new_returns [where alloc = alloc and k = k and t = t, OF c hc_missed(2)] find_missed [OF c hc_missed(3)] hc_missed
    by (auto simp: hc_insert_token_def)
next
  case (hc_set_max c x r d)
  then show ?case
    using set_max_ok [OF _ b, of c x] normalize_bound [OF b(1), of x] by (auto simp: hc_set_max_size_def Let_def split: if_splits)
next
  case (hc_cleared c)
  then show ?case by (simp add: cache_ok_def hc_clear_def hc_bound_def)
qed

lemma card_dom:
  assumes "cache_ok c"
  shows "card (dom (hc_map c)) = unat (hc_size c)"
proof (cases "hc_values c = []")
  case False
  then have t: "hc_table c" using assms by (simp add: cache_ok_def)
  have "dom (hc_map c) = (\<lambda>i. hc_keys c ! i) ` occupied (hc_n c) (hc_values c)"
    using hc_map_iff [OF t] by (auto simp: dom_def entries_def occupied_def)
  moreover have "inj_on (\<lambda>i. hc_keys c ! i) (occupied (hc_n c) (hc_values c))"
    using t by (auto simp: inj_on_def occupied_def hc_table_def unique_keys_def)
  ultimately show ?thesis using t by (simp add: card_image hc_table_def)
qed (use assms in \<open>simp add: cache_ok_def hc_map_empty\<close>)

section \<open>Properties\<close>

text \<open>
  C22. Whatever is inserted, forgotten, reconfigured and cleared, and whichever allocations fail, a cache holds at most \<open>max_size\<close> entries, and
  every lookup ends and gives exactly what the table holds for the key.
\<close>

theorem hash_cache_invariant:
  assumes "hc_reachable MAX_SIZE c" and "8 \<le> unat MAX_SIZE" "unat MAX_SIZE \<le> 2 ^ 29"
  shows "card (dom (hc_map c)) \<le> unat (hc_max_size c) \<and> hc_max_size c \<le> MAX_SIZE \<and> (\<exists>t. hc_find c k = Some (hc_map c k, t))"
  using reachable_ok [OF assms] card_dom [of c] find_returns [of c k] by (auto simp: cache_ok_def word_le_nat_alt)

theorem hash_cache_invariant_witness:
  "\<exists>d. hc_insert (\<lambda>m. Some (\<lambda>i. 0)) (hcache_new 16 8) 5 7 = Some d
    \<and> card (dom (hc_map d)) \<le> unat (hc_max_size d) \<and> hc_max_size d \<le> 16 \<and> (\<exists>t. hc_find d 5 = Some (hc_map d 5, t))"
proof -
  have v: "(7 :: u32) \<noteq> invalid_value" by (simp add: invalid_value_def)
  have r: "hc_reachable 16 (hcache_new 16 8)" by (rule hc_init)
  then obtain d where d: "hc_insert (\<lambda>m. Some (\<lambda>i. 0)) (hcache_new 16 8) 5 7 = Some d"
    using insert_returns [where v = 7 and k = 5 and alloc = "\<lambda>m. Some (\<lambda>i. 0)", OF _ v] reachable_ok [OF r] by auto
  show ?thesis using hash_cache_invariant [OF hc_reachable.hc_insert [OF r v d], of 5] d by simp
qed

text \<open>
  C21. The cache refines a map that may forget. Inserting after a missed lookup, with its token, ends in a cache that stands for the old map with
  the new entry, unless an allocation failed or the cache was full; a full cache stays as it was or replaces one entry.
\<close>

theorem hash_cache_refines:
  assumes "cache_ok c" and "v \<noteq> invalid_value" and "hc_find c k = Some (None, t)"
  shows "\<exists>d. hc_insert_token alloc c k v t = Some d \<and> cache_ok d
    \<and> (if card (dom (hc_map c)) < unat (hc_max_size c)
       then hc_map d = (hc_map c)(k \<mapsto> v) \<or> hc_map d = hc_map c \<and> (\<exists>n. alloc n = None)
       else hc_map d = hc_map c \<or> (\<exists>old \<in> dom (hc_map c). hc_map d = (hc_map c)(old := None, k \<mapsto> v)))"
proof -
  note m = find_missed [OF assms(1,3)]
  obtain d where d: "insert_new alloc c k v t = Some d" "cache_ok d"
    "hc_map d = (hc_map c)(k \<mapsto> v) \<and> unat (hc_size c) < unat (hc_max_size c)
      \<or> hc_map d = hc_map c \<and> (unat (hc_size c) \<ge> unat (hc_max_size c) \<or> (\<exists>n. alloc n = None))
      \<or> (\<exists>old \<in> dom (hc_map c). hc_map d = (hc_map c)(old := None, k \<mapsto> v)) \<and> unat (hc_size c) \<ge> unat (hc_max_size c)"
    using insert_new_returns [where alloc = alloc, OF assms(1,2) m(2,1)] by blast
  show ?thesis
    unfolding card_dom [OF assms(1)] hc_insert_token_def
    by (rule exI [of _ d]) (use d in \<open>cases "unat (hc_size c) < unat (hc_max_size c)"; simp; blast\<close>)
qed

theorem hash_cache_refines_witness:
  "\<exists>t d. hc_find (hcache_new 16 8) 5 = Some (None, t)
    \<and> hc_insert_token (\<lambda>m. Some (\<lambda>i. 0)) (hcache_new 16 8) 5 7 t = Some d \<and> hc_map d = [5 \<mapsto> 7]"
proof -
  have c: "cache_ok (hcache_new 16 8)"
    by (simp add: cache_ok_def hcache_new_def hc_bound_def normalize_max_size_def min_capacity_def)
  have e: "hc_map (hcache_new 16 8) = Map.empty" by (simp add: hc_map_empty hcache_new_def)
  obtain t where t: "hc_find (hcache_new 16 8) 5 = Some (None, t)"
    by (simp add: hc_find_def find_slot_or_empty_def hcache_new_def)
  show ?thesis
    using hash_cache_refines [where alloc = "\<lambda>m. Some (\<lambda>i. 0)" and v = 7 and k = 5 and t = t, OF c] t e
    by (auto simp: invalid_value_def hcache_new_def normalize_max_size_def min_capacity_def)
qed

section \<open>The interface of a forgetful map\<close>

text \<open>What the compressed appender relies on: a lookup is exact, and after an insertion every entry is an old one or the new one.\<close>

locale forgetful_map =
  fixes ok :: "'s \<Rightarrow> bool" and abs :: "'s \<Rightarrow> 'k \<Rightarrow> 'v option"
    and lookup :: "'s \<Rightarrow> 'k \<Rightarrow> ('v option \<times> 't) option" and update :: "'s \<Rightarrow> 'k \<Rightarrow> 'v \<Rightarrow> 't \<Rightarrow> 's option"
    and storable :: "'v \<Rightarrow> bool"
  assumes lookup_law: "ok s \<Longrightarrow> \<exists>t. lookup s k = Some (abs s k, t)"
    and update_law: "ok s \<Longrightarrow> storable v \<Longrightarrow> lookup s k = Some (None, t) \<Longrightarrow>
      \<exists>s'. update s k v t = Some s' \<and> ok s' \<and> (\<forall>k' v'. abs s' k' = Some v' \<longrightarrow> abs s k' = Some v' \<or> k' = k \<and> v' = v)"

interpretation hc: forgetful_map cache_ok hc_map hc_find "hc_insert_token alloc" "\<lambda>v. v \<noteq> invalid_value" for alloc
proof unfold_locales
  fix c k assume "cache_ok c"
  then show "\<exists>t. hc_find c k = Some (hc_map c k, t)" by (rule find_returns)
next
  fix c v k t assume c: "cache_ok c" and v: "v \<noteq> invalid_value" and f: "hc_find c k = Some (None, t)"
  note m = find_missed [OF c f]
  obtain d where d: "insert_new alloc c k v t = Some d" "cache_ok d"
    "hc_map d = (hc_map c)(k \<mapsto> v) \<or> hc_map d = hc_map c \<or> (\<exists>old. hc_map d = (hc_map c)(old := None, k \<mapsto> v))"
    using insert_new_returns [where alloc = alloc, OF c v m(2,1)] by blast
  then show "\<exists>d. hc_insert_token alloc c k v t = Some d \<and> cache_ok d
      \<and> (\<forall>k' v'. hc_map d k' = Some v' \<longrightarrow> hc_map c k' = Some v' \<or> k' = k \<and> v' = v)"
    by (auto simp: hc_insert_token_def split: if_splits)
qed

end
