(* ===== verification/Compressed_Items.thy ===== *)
theory Compressed_Items
  imports Compressed_Args
begin

text \<open>
  The items a compressed log file consists of: the head that \<open>appender_file_compressed::log_impl\<close> writes back in front of a body
  (\<open>src/bq_log/log/appender/appender_file_compressed.cpp\<close>), and \<open>read_item_data\<close> of \<open>appender_decoder_compressed.cpp\<close>.
\<close>

section \<open>Items\<close>

definition item_log_template :: u8 where "item_log_template = 0"
definition item_log_entry :: u8 where "item_log_entry = 128"
definition format_template_utf8 :: u8 where "format_template_utf8 = 0"
definition thread_info_template :: u8 where "thread_info_template = 1"
definition format_template_utf16 :: u8 where "format_template_utf16 = 2"
definition cache_empty :: u32 where "cache_empty = 0xFFFFFFFF"

definition get_vlq_min_bytes_length_of_item_header :: "u64 \<Rightarrow> nat" where
  "get_vlq_min_bytes_length_of_item_header value = (let bytes_len = get_vlq_encode_length value in if bytes_len > 1 then bytes_len - 1 else bytes_len)"

text \<open>
  The head that is written back once the body is known: one byte more than the shortest length field the body can need was left free. The
  length takes these bytes and shares its first one with the type, or leaves the first one to the type.
\<close>

definition put_item :: "u8 \<Rightarrow> u64 \<Rightarrow> u8 list \<Rightarrow> u8 list option" where
  "put_item ty max_size body =
     (let data_len_min_size = get_vlq_min_bytes_length_of_item_header max_size;
          len = vlq_encode (of_nat (length body))
      in if length len \<noteq> data_len_min_size
         then if length len \<noteq> 1 + data_len_min_size then None else Some ((hd len OR ty) # tl len @ body)
         else Some (ty # len @ body))"

text \<open>
  The head of an item, in the window of the first six bytes that are left: its type, its own length and the length of the body. \<open>None\<close>: the
  length field is too long, or it reaches over the end of the file.
\<close>

definition item_head :: "u8 list \<Rightarrow> (u8 \<times> nat \<times> nat) option" where
  "item_head handle =
     (let first_byte = hd handle;
          offset = (if first_byte AND 0x7F = 0 then 1 else 0);
          ty = first_byte AND 0x80;
          handle = (if offset = 0 then (first_byte AND 0x7F) # tl handle else handle)
      in (case vlq_decode 4 (drop offset handle) of
            Vlq_ok size_len data_size \<Rightarrow> Some (ty, size_len + offset, unat data_size)
          | _ \<Rightarrow> None))"

text \<open>\<open>read_item_data\<close> of the reader: type, body and rest of the file. Behind the end of the file there is nothing to read.\<close>

definition read_item_data :: "u8 list \<Rightarrow> appender_decode_result + (u8 \<times> u8 list \<times> u8 list)" where
  "read_item_data file =
     (let handle = take 6 file
      in if handle = [] then Inl Decode_eof
         else if length handle < 2 then Inl Failed_decode_error
         else (case item_head handle of
                 None \<Rightarrow> Inl Failed_decode_error
               | Some (ty, head_len, data_size) \<Rightarrow>
                   (let body = take data_size (drop head_len file)
                    in if length body \<noteq> data_size \<or> data_size < 2 then Inl Failed_decode_error
                       else Inr (ty, body, drop (head_len + data_size) file))))"


section \<open>Items are read back\<close>

lemma unat_of_nat64: "n < 2 ^ 32 \<Longrightarrow> unat (of_nat n :: u64) = n"
  by (simp add: unsigned_of_nat take_bit_nat_eq_self)

lemma length_vlq_32: "n < 2 ^ 32 \<Longrightarrow> 1 \<le> length (vlq_encode (of_nat n)) \<and> length (vlq_encode (of_nat n)) \<le> 5"
  by (simp only: length_vlq_encode vlq_len_nat) simp

lemma vlq_head_bounds:
  assumes "2 \<le> length (vlq_encode v)" "length (vlq_encode v) \<le> 8"
  shows "0 < unat (hd (vlq_encode v))" "unat (hd (vlq_encode v)) < 128"
proof -
  let ?n = "get_vlq_encode_length v"
  have n: "2 \<le> ?n" "?n \<le> 8" using assms by (simp_all add: length_vlq_encode)
  have p: "(2 :: nat) ^ (8 - ?n) \<le> 2 ^ 6" using n by (intro power_increasing) auto
  have "unat (hd (vlq_encode v)) = 2 ^ (8 - ?n) + unat (le_byte (?n - 1) (v - vlq_min_value ?n))"
    using n p vlq_head_less [OF n(2)] by (simp add: vlq_encode_def Let_def unat_word_ariths unat_vlq_prefix)
  then show "0 < unat (hd (vlq_encode v))" "unat (hd (vlq_encode v)) < 128"
    using vlq_head_less [OF n(2)] p by simp_all
qed

lemma shared_byte:
  assumes "unat b < 128" "ty = 0 \<or> ty = (128 :: u8)"
  shows "(b OR ty) AND 0x7F = b" "(b OR ty) AND 0x80 = ty"
proof -
  have "take_bit 7 b = b" using assms(1) by (intro take_bit_word_less) simp
  then have b: "b AND 0x7F = b" by (simp add: take_bit_eq_mask mask_eq_exp_minus_1)
  have h: "b AND 0x80 = 0"
  proof -
    have "b AND 0x80 = (b AND 0x7F) AND 0x80" by (simp only: b)
    then show ?thesis by (simp add: and.assoc)
  qed
  show "(b OR ty) AND 0x7F = b" "(b OR ty) AND 0x80 = ty"
    using assms(2) b h by (auto simp: bit.conj_disj_distrib2)
qed

text \<open>The class of the body is the class of the bound or the one below it, or both fit one byte.\<close>

lemma put_item_some:
  assumes "length body \<le> n \<or> length body < 0x80 \<and> n < 0x80" "n \<le> 12 * length body + 15" "n < 2 ^ 32"
  shows "\<exists>item. put_item ty (of_nat n) body = Some item"
proof -
  let ?k = "length body"
  have k: "?k < 2 ^ 32" using assms(1,3) by auto
  have "get_vlq_encode_length (of_nat ?k) = get_vlq_min_bytes_length_of_item_header (of_nat n)
    \<or> get_vlq_encode_length (of_nat ?k) = 1 + get_vlq_min_bytes_length_of_item_header (of_nat n)"
    using assms unfolding get_vlq_min_bytes_length_of_item_header_def Let_def vlq_len_nat [OF assms(3)] vlq_len_nat [OF k]
    by (simp split: if_split; linarith)
  then show ?thesis by (auto simp: put_item_def Let_def length_vlq_encode)
qed

lemma item_head_marked:
  assumes "n < 2 ^ 32" "ty = 0 \<or> ty = 128"
  shows "item_head (take 6 (ty # vlq_encode (of_nat n) @ rest)) = Some (ty, length (vlq_encode (of_nat n)) + 1, n)"
proof -
  let ?l = "vlq_encode (of_nat n)"
  have l: "length ?l \<le> 5" using length_vlq_32 [OF assms(1)] by simp
  have "vlq_decode 4 (?l @ take (5 - length ?l) rest) = Vlq_ok (length ?l) (take_bit 32 (of_nat n))"
    using vlq_decode_encode_append [OF vlq_encode_length_sz, of 4 "of_nat n" "take (5 - length ?l) rest"] assms(1)
    by (simp add: length_vlq_encode unat_of_nat64)
  moreover have "take_bit 32 (of_nat n :: u64) = of_nat n" using assms(1) by (simp add: take_bit_of_nat take_bit_nat_eq_self)
  ultimately show ?thesis using assms l by (auto simp: item_head_def Let_def unat_of_nat64)
qed

lemma item_head_shared:
  assumes "n < 2 ^ 32" "ty = 0 \<or> ty = 128" "2 \<le> length (vlq_encode (of_nat n))"
  shows "item_head (take 6 ((hd (vlq_encode (of_nat n)) OR ty) # tl (vlq_encode (of_nat n)) @ rest)) = Some (ty, length (vlq_encode (of_nat n)), n)"
proof -
  let ?l = "vlq_encode (of_nat n)"
  have l: "length ?l \<le> 5" using length_vlq_32 [OF assms(1)] by simp
  have h: "0 < unat (hd ?l)" "unat (hd ?l) < 128" using vlq_head_bounds [OF assms(3)] l by simp_all
  have nz: "hd ?l \<noteq> 0" using h(1) by auto
  note s = shared_byte [OF h(2) assms(2)]
  have "vlq_decode 4 (?l @ take (6 - length ?l) rest) = Vlq_ok (length ?l) (take_bit 32 (of_nat n))"
    using vlq_decode_encode_append [OF vlq_encode_length_sz, of 4 "of_nat n" "take (6 - length ?l) rest"] assms(1)
    by (simp add: length_vlq_encode unat_of_nat64)
  moreover have "take_bit 32 (of_nat n :: u64) = of_nat n" using assms(1) by (simp add: take_bit_of_nat take_bit_nat_eq_self)
  moreover have "hd ?l # tl ?l @ r = ?l @ r" for r using assms(3) by (cases ?l) auto
  moreover have "take 6 ((hd ?l OR ty) # tl ?l @ rest) = (hd ?l OR ty) # tl ?l @ take (6 - length ?l) rest"
    using l assms(3) by (cases ?l) auto
  ultimately show ?thesis using assms(1) s nz by (simp add: item_head_def Let_def unat_of_nat64 flip: append_Cons)
qed

lemma put_item_read:
  assumes "put_item ty max_size body = Some item" "ty = 0 \<or> ty = 128" "2 \<le> length body" "length body < 2 ^ 32"
  shows "read_item_data (item @ rest) = Inr (ty, body, rest)" "length body + 2 \<le> length item"
    "item_head (take 6 (item @ rest)) = Some (ty, length item - length body, length body)"
proof -
  let ?l = "vlq_encode (of_nat (length body))"
  have l: "1 \<le> length ?l" "length ?l \<le> 5" using length_vlq_32 [OF assms(4)] by simp_all
  have "(\<exists>h. item = h @ body \<and> 2 \<le> length h \<and> length h \<le> 6 \<and> item_head (take 6 (h @ body @ rest)) = Some (ty, length h, length body))"
  proof (cases "length ?l = get_vlq_min_bytes_length_of_item_header max_size")
    case True
    then have "item = (ty # ?l) @ body" using assms(1) by (simp add: put_item_def Let_def)
    then show ?thesis using item_head_marked [OF assms(4,2), of "body @ rest"] l by (intro exI [of _ "ty # ?l"]) simp
  next
    case False
    moreover have m: "1 \<le> get_vlq_min_bytes_length_of_item_header max_size"
      using get_vlq_encode_length_range [of max_size] by (auto simp: get_vlq_min_bytes_length_of_item_header_def Let_def)
    ultimately have i: "item = ((hd ?l OR ty) # tl ?l) @ body" "2 \<le> length ?l"
      using assms(1) by (auto simp: put_item_def Let_def split: if_splits)
    then show ?thesis using item_head_shared [OF assms(4,2) i(2), of "body @ rest"] l
      by (intro exI [of _ "(hd ?l OR ty) # tl ?l"]) (simp, linarith)
  qed
  then obtain h where h: "item = h @ body" "2 \<le> length h" "item_head (take 6 (h @ body @ rest)) = Some (ty, length h, length body)" by blast
  have g: "2 \<le> length (take 6 (h @ body @ rest))" using h(2) assms(3) by simp
  then have "take 6 (h @ body @ rest) \<noteq> []" by (metis list.size(3) not_numeral_le_zero)
  then show "read_item_data (item @ rest) = Inr (ty, body, rest)"
    using h g assms(3) unfolding read_item_data_def Let_def by (simp add: not_less)
  show "length body + 2 \<le> length item" using h(1,2) by simp
  show "item_head (take 6 (item @ rest)) = Some (ty, length item - length body, length body)" using h by simp
qed

end
