(* ===== verification/Compressed_Log.thy ===== *)
theory Compressed_Log
  imports Log_Entry Hash_Cache_Laws Compressed_Items
begin

text \<open>
  The writer of compressed log files: \<open>appender_file_compressed\<close> (\<open>src/bq_log/log/appender/appender_file_compressed.h\<close> and \<open>.cpp\<close>) writes log entries
  as items, where a format or a thread is written once, as a template, and later items refer to it by its index. The data section of a file
  is a list of bytes, the write cache is transparent. A failed assertion, a read outside of an entry and a loop that does
  not end are \<open>None\<close>; \<open>hash\<close> is \<open>bq::util::get_hash_64\<close> of the machine, \<open>t\<close> its vector unit, and \<open>alloc_f\<close> and
  \<open>alloc_t\<close> are the allocations of the two caches.
\<close>

section \<open>State of the appender\<close>

record appender =
  format_l1 :: "(u64 \<times> u32) list"
  thread_l1 :: "(u64 \<times> u32) list"
  format_l2 :: hcache
  thread_l2 :: hcache
  last_thread_id :: u64
  last_thread_info_idx :: u32
  current_format_template_max_index :: u32
  current_thread_info_max_index :: u32
  last_log_entry_epoch :: u64

definition get_format_template_hash :: "u8 \<Rightarrow> u32 \<Rightarrow> u64 \<Rightarrow> u64" where
  "get_format_template_hash level cat_idx fmt_str_hash = fmt_str_hash XOR (push_bit 32 (ucast cat_idx) OR ucast level)"

definition mix_cache_key :: "u64 \<Rightarrow> u64" where
  "mix_cache_key key =
     (let key = key XOR drop_bit 33 key;
          key = key * 0xff51afd7ed558ccd;
          key = key XOR drop_bit 33 key;
          key = key * 0xc4ceb9fe1a85ec53
      in key XOR drop_bit 33 key)"

definition l1_index :: "u32 \<Rightarrow> u64 \<Rightarrow> nat" where
  "l1_index l1_size key = unat (ucast (drop_bit 32 (mix_cache_key key)) AND (l1_size - 1))"

text \<open>Only the values of the first level are reset, its keys stay.\<close>

definition reset_l1 :: "(u64 \<times> u32) list \<Rightarrow> (u64 \<times> u32) list" where
  "reset_l1 l1 = map (\<lambda>(k, v). (k, cache_empty)) l1"

definition appender_reset :: "appender \<Rightarrow> appender" where
  "appender_reset s = s\<lparr>format_l2 := hc_clear (format_l2 s), thread_l2 := hc_clear (thread_l2 s), last_thread_id := 0xFFFFFFFFFFFFFFFF,
     last_thread_info_idx := cache_empty, current_format_template_max_index := 0, current_thread_info_max_index := 0,
     last_log_entry_epoch := 0, format_l1 := reset_l1 (format_l1 s), thread_l1 := reset_l1 (thread_l1 s)\<rparr>"

text \<open>
  Both caches are used the same way: the direct slot of the first level, then the bounded cache; a key that is in neither gets the next index.
  The result is the index, whether it is new, and both levels.
\<close>

definition template_index :: "('s \<Rightarrow> u64 \<Rightarrow> (u32 option \<times> 't) option) \<Rightarrow> ('s \<Rightarrow> u64 \<Rightarrow> u32 \<Rightarrow> 't \<Rightarrow> 's option) \<Rightarrow> u32 \<Rightarrow> (u64 \<times> u32) list \<Rightarrow> 's \<Rightarrow> u32 \<Rightarrow> u64
    \<Rightarrow> (u32 \<times> bool \<times> (u64 \<times> u32) list \<times> 's) option" where
  "template_index lookup update l1_size l1 l2 next_index key =
     (let i = l1_index l1_size key
      in if snd (l1 ! i) \<noteq> cache_empty \<and> fst (l1 ! i) = key then Some (snd (l1 ! i), False, l1, l2)
         else Option.bind (lookup l2 key) (\<lambda>(found, token).
           case found of
             Some idx \<Rightarrow> Some (idx, False, l1[i := (key, idx)], l2)
           | None \<Rightarrow> map_option (\<lambda>l2. (next_index, True, l1[i := (key, next_index)], l2)) (update l2 key next_index token)))"

section \<open>Writing an entry\<close>

text \<open>The loop that writes a format template: tried again with the size that was needed, if the head did not fit.\<close>

partial_function (option) write_format_template :: "simd_target \<Rightarrow> log_head \<Rightarrow> u8 list \<Rightarrow> nat \<Rightarrow> u8 list option" where
  "write_format_template t h fmt fmt_size_calculated =
     (let format_data_len = log_format_data_len h;
          utf8 = (arg_type_of (log_format_str_type h) = Some String_utf8_type);
          fmt_max_size = (if fmt_size_calculated \<noteq> 0 then fmt_size_calculated
                          else if utf8 then unat format_data_len else unat (drop_bit 1 (format_data_len * 3)) + 1);
          max_size = (of_nat (1 + 1 + 5 + fmt_max_size) :: u32)
      in Option.bind (if utf8 then Some fmt
                      else utf16_to_utf_mixed t (byte_units (take (unat (format_data_len div 2) * 2) fmt))
                             (unat (drop_bit 1 (format_data_len * 3) + 1))) (\<lambda>text.
           case put_item item_log_template (ucast max_size)
                  ((if utf8 then format_template_utf8 else format_template_utf16) # head_level h # vlq_encode (ucast (category_idx h)) @ text) of
             Some item \<Rightarrow> Some item
           | None \<Rightarrow> write_format_template t h fmt (length text)))"

definition write_thread_info_template :: "u32 \<Rightarrow> u64 \<Rightarrow> u8 list \<Rightarrow> u8 list option" where
  "write_thread_info_template idx thread_id thread_name =
     (let max_thread_info_data_size = 1 + 5 + 9 + length thread_name;
          body = thread_info_template # vlq_encode (ucast idx) @ vlq_encode thread_id @ thread_name;
          len = vlq_encode (of_nat (length body))
      in if get_vlq_encode_length (of_nat max_thread_info_data_size) \<noteq> 1 \<or> length len \<noteq> 1 then None
         else Some (item_log_template # len @ body))"

definition write_log_entry :: "simd_target \<Rightarrow> appender \<Rightarrow> log_head \<Rightarrow> mem \<Rightarrow> u32 \<Rightarrow> u32 \<Rightarrow> (u8 list \<times> appender) option" where
  "write_log_entry t s h m format_template_idx thread_info_idx =
     (let max_log_data_size = 5 + 5 + 5 + 2 * unat (get_log_args_data_size h);
          epoch_offset = timestamp_epoch h - last_log_entry_epoch s
      in Option.bind (pack_args t (get_log_args_data h m)) (\<lambda>args.
           map_option (\<lambda>item. (item, s\<lparr>last_log_entry_epoch := timestamp_epoch h\<rparr>))
             (put_item item_log_entry (of_nat max_log_data_size)
               (vlq_encode (zigzag_encode epoch_offset) @ vlq_encode (ucast format_template_idx) @ vlq_encode (ucast thread_info_idx) @ args))))"

text \<open>The format template of an entry: its index, what is written for it and the state after it.\<close>

definition log_format :: "(u8 list \<Rightarrow> u64) \<Rightarrow> simd_target \<Rightarrow> (u32 \<Rightarrow> (nat \<Rightarrow> u64) option) \<Rightarrow> appender \<Rightarrow> log_head \<Rightarrow> u8 list \<Rightarrow> (u32 \<times> u8 list \<times> appender) option" where
  "log_format hash t alloc_f s h fmt =
     (let fmt_hash = (if format_hash h = 0 then hash fmt else format_hash h);
          format_template_hash = get_format_template_hash (head_level h) (category_idx h) fmt_hash
      in Option.bind (template_index hc_find (hc_insert_token alloc_f) 256 (format_l1 s) (format_l2 s)
                        (current_format_template_max_index s) format_template_hash) (\<lambda>(idx, new, l1, l2).
           map_option (\<lambda>item. (idx, item, s\<lparr>format_l1 := l1, format_l2 := l2,
               current_format_template_max_index := (if new then current_format_template_max_index s + 1 else current_format_template_max_index s)\<rparr>))
             (if new then write_format_template t h fmt 0 else Some [])))"

definition log_thread :: "(u32 \<Rightarrow> (nat \<Rightarrow> u64) option) \<Rightarrow> appender \<Rightarrow> log_head \<Rightarrow> mem \<Rightarrow> (u32 \<times> u8 list \<times> appender) option" where
  "log_thread alloc_t s h m =
     (let tid = log_thread_id h
      in if tid = last_thread_id s then Some (last_thread_info_idx s, [], s)
         else Option.bind (template_index hc_find (hc_insert_token alloc_t) 64 (thread_l1 s) (thread_l2 s)
                        (current_thread_info_max_index s) tid) (\<lambda>(idx, new, l1, l2).
           map_option (\<lambda>item. (idx, item, s\<lparr>thread_l1 := l1, thread_l2 := l2, last_thread_id := tid, last_thread_info_idx := idx,
               current_thread_info_max_index := (if new then current_thread_info_max_index s + 1 else current_thread_info_max_index s)\<rparr>))
             (if new then Option.bind (get_thread_name h m) (write_thread_info_template (current_thread_info_max_index s) tid) else Some [])))"

text \<open>\<open>log_impl\<close>, once \<open>appender_file_base::log_impl\<close> has let the entry pass: the result, the bytes written and the state.\<close>

definition log_impl :: "(u8 list \<Rightarrow> u64) \<Rightarrow> simd_target \<Rightarrow> (u32 \<Rightarrow> (nat \<Rightarrow> u64) option) \<Rightarrow> (u32 \<Rightarrow> (nat \<Rightarrow> u64) option) \<Rightarrow> appender \<Rightarrow> mem
    \<Rightarrow> (bool \<times> u8 list \<times> appender) option" where
  "log_impl hash t alloc_f alloc_t s m =
     Option.bind (get_log_head m) (\<lambda>h.
     if 40 + unat (log_format_data_len h) > get_log_args_offset h then Some (False, [], s)
     else Option.bind (get_format_string_data h m) (\<lambda>fmt.
       Option.bind (log_format hash t alloc_f s h fmt) (\<lambda>(format_template_idx, format_item, s).
       Option.bind (log_thread alloc_t s h m) (\<lambda>(thread_info_idx, thread_item, s).
       map_option (\<lambda>(entry_item, s). (True, format_item @ thread_item @ entry_item, s))
         (write_log_entry t s h m format_template_idx thread_info_idx)))))"


section \<open>The template caches\<close>

text \<open>
  What a level-one slot or the map of level two knows is a set of pairs of keys and indices. It is a subset of \<open>known\<close>, the pairs whose
  template is in the file.
\<close>

definition l1_knows :: "(u64 \<times> u32) list \<Rightarrow> (u64 \<times> u32) set \<Rightarrow> bool" where
  "l1_knows l1 known \<longleftrightarrow> (\<forall>(k, v) \<in> set l1. v \<noteq> cache_empty \<longrightarrow> (k, v) \<in> known)"

lemma l1_index_less: "unat l1_size = n \<Longrightarrow> 0 < n \<Longrightarrow> l1_index l1_size key < n"
proof -
  assume n: "unat l1_size = n" "0 < n"
  have "l1_index l1_size key \<le> unat (l1_size - 1)"
    by (simp add: l1_index_def word_and_le1 flip: word_le_nat_alt)
  also have "\<dots> < n" using n by (simp add: unat_sub word_le_nat_alt)
  finally show ?thesis .
qed

lemma l1_knows_update: "l1_knows l1 known \<Longrightarrow> (k, v) \<in> known \<Longrightarrow> l1_knows (l1[i := (k, v)]) known"
  unfolding l1_knows_def using set_update_subset_insert [of l1 i "(k, v)"] by auto

lemma l1_knows_mono: "l1_knows l1 known \<Longrightarrow> known \<subseteq> known' \<Longrightarrow> l1_knows l1 known'"
  unfolding l1_knows_def by fastforce

lemma l1_knows_reset [simp]: "l1_knows (reset_l1 l1) known"
  by (auto simp: l1_knows_def reset_l1_def)

locale template_cache = forgetful_map ok abs lookup update storable
  for ok :: "'s \<Rightarrow> bool" and abs :: "'s \<Rightarrow> u64 \<Rightarrow> u32 option"
    and lookup :: "'s \<Rightarrow> u64 \<Rightarrow> (u32 option \<times> 't) option" and update :: "'s \<Rightarrow> u64 \<Rightarrow> u32 \<Rightarrow> 't \<Rightarrow> 's option"
    and storable :: "u32 \<Rightarrow> bool" +
  assumes storable_law: "v \<noteq> cache_empty \<Longrightarrow> storable v"
begin

text \<open>An index is either the one of a template that is known for the key, or it is new; the caches then know it too.\<close>

lemma template_index_known:
  assumes "ok l2" "l1_knows l1 known" "\<forall>k v. abs l2 k = Some v \<longrightarrow> (k, v) \<in> known" "next_index \<noteq> cache_empty"
    "length l1 = unat l1_size" "0 < length l1"
  shows "\<exists>idx new l1' l2'. template_index lookup update l1_size l1 l2 next_index key = Some (idx, new, l1', l2')
    \<and> ok l2' \<and> length l1' = length l1
    \<and> (if new then idx = next_index \<and> l1_knows l1' (insert (key, idx) known) \<and> (\<forall>k v. abs l2' k = Some v \<longrightarrow> (k, v) \<in> insert (key, idx) known)
       else (key, idx) \<in> known \<and> l1_knows l1' known \<and> l2' = l2)"
proof -
  let ?i = "l1_index l1_size key"
  have i: "?i < length l1" using l1_index_less [of l1_size "length l1" key] assms(5,6) by simp
  show ?thesis
  proof (cases "snd (l1 ! ?i) \<noteq> cache_empty \<and> fst (l1 ! ?i) = key")
    case True
    then have "(key, snd (l1 ! ?i)) \<in> known"
      using assms(2) nth_mem [OF i] unfolding l1_knows_def by (cases "l1 ! ?i") auto
    then show ?thesis using True assms(1,2) by (simp add: template_index_def Let_def exI [of _ False])
  next
    case False
    obtain token where f: "lookup l2 key = Some (abs l2 key, token)" using lookup_law [OF assms(1)] by blast
    show ?thesis
    proof (cases "abs l2 key")
      case (Some idx)
      then have "template_index lookup update l1_size l1 l2 next_index key = Some (idx, False, l1[?i := (key, idx)], l2)"
        using False f by (auto simp: template_index_def Let_def)
      then show ?thesis using Some assms(1-3) by (simp add: l1_knows_update exI [of _ False])
    next
      case None
      let ?known = "insert (key, next_index) known"
      obtain l2' where u: "update l2 key next_index token = Some l2'" "ok l2'"
        "\<forall>k' v'. abs l2' k' = Some v' \<longrightarrow> abs l2 k' = Some v' \<or> k' = key \<and> v' = next_index"
        using update_law [OF assms(1) storable_law [OF assms(4)]] f None by metis
      have "l1_knows (l1[?i := (key, next_index)]) ?known"
        using l1_knows_mono [OF assms(2), of ?known] by (intro l1_knows_update) auto
      moreover have "\<forall>k v. abs l2' k = Some v \<longrightarrow> (k, v) \<in> ?known" using u(3) assms(3) by blast
      moreover have "template_index lookup update l1_size l1 l2 next_index key = Some (next_index, True, l1[?i := (key, next_index)], l2')"
        using False f None u(1) by (auto simp: template_index_def Let_def)
      ultimately show ?thesis using u(2) by (simp add: exI [of _ True])
    qed
  qed
qed


end

interpretation tc: template_cache cache_ok hc_map hc_find "hc_insert_token alloc" "\<lambda>v. v \<noteq> invalid_value" for alloc
  by unfold_locales (simp add: cache_empty_def invalid_value_def)

end
