(* ===== verification/Compressed_Decoder.thy ===== *)
theory Compressed_Decoder
  imports Compressed_Log
begin

text \<open>
  The readers of compressed log files: \<open>appender_decoder_compressed\<close> (\<open>src/bq_log/log/decoder/appender_decoder_compressed.cpp\<close>), which rebuilds
  the log entries, and \<open>appender_file_compressed::parse_exist_log_file\<close>, which restores the state of the writer when it goes on with a
  file. The data section is one list of bytes; the layout of the rebuilt entries as text is not part of this.
\<close>

section \<open>The decoder\<close>

record format_template =
  template_level :: u8
  template_category :: u32
  template_format :: "u8 list"

record decoder =
  log_templates :: "format_template list"
  thread_info_templates :: "u64 \<rightharpoonup> u64 \<times> u8 list"
  decoder_epoch :: u64

definition decoder_init :: decoder where
  "decoder_init = \<lparr>log_templates = [], thread_info_templates = Map.empty, decoder_epoch = 0\<rparr>"

text \<open>
  \<open>categories\<close> is the number of category names of the file, \<open>behind\<close> what the read cache holds behind the item. The template is pushed before it is
  parsed, so one that does not parse stays, with what was read of it and without a text. The number of the category is read before it
  is compared with the end of the item, so a number that leaves it goes on in \<open>behind\<close>. The outer \<open>None\<close> is a read outside of the
  cache, or a text that does not fit where it is inflated.
\<close>

definition parse_formate_template :: "simd_target \<Rightarrow> bool \<Rightarrow> nat \<Rightarrow> u8 \<Rightarrow> u8 list \<Rightarrow> decoder \<Rightarrow> u8 list \<Rightarrow> (appender_decode_result \<times> decoder) option" where
  "parse_formate_template t simd categories sub_type behind d data =
     (if length data < 2 then Some (Failed_decode_error, d)
      else
        (let push = (\<lambda>category fmt. d\<lparr>log_templates := log_templates d @
                 [\<lparr>template_level = hd data, template_category = category, template_format = fmt\<rparr>]\<rparr>)
         in (case vlq_decode 4 (tl data @ behind) of
               Vlq_invalid \<Rightarrow> Some (Failed_decode_error, push 0xFFFFFFFF [])
             | Vlq_overread \<Rightarrow> None
             | Vlq_ok size_len category \<Rightarrow>
                 (let text = drop size_len (tl data)
                  in if 1 + size_len > length data \<or> unat category \<ge> categories then Some (Failed_decode_error, push (ucast category) [])
                     else map_option (\<lambda>fmt. (Decode_success, push (ucast category) fmt))
                       (if text = [] then Some []
                        else if sub_type = format_template_utf8 then Some text
                        else utf_mixed_to_utf8 t simd text (2 * length text))))))"

text \<open>A number that leaves the item ends in the same error here, as in the parser of the entries below.\<close>

definition parse_thread_info_template :: "decoder \<Rightarrow> u8 list \<Rightarrow> appender_decode_result \<times> decoder" where
  "parse_thread_info_template d data =
     (case read_vlq 4 data of
        None \<Rightarrow> (Failed_decode_error, d)
      | Some (idx, data) \<Rightarrow>
          if data = [] then (Failed_decode_error, d)
          else (case read_vlq 8 data of
                  None \<Rightarrow> (Failed_decode_error, d)
                | Some (thread_id, name) \<Rightarrow>
                    (Decode_success, d\<lparr>thread_info_templates := (thread_info_templates d)(idx \<mapsto> (thread_id, name))\<rparr>)))"

text \<open>The entry that is handed to the layout, and the new state.\<close>

definition parse_log_entry :: "simd_target \<Rightarrow> bool \<Rightarrow> decoder \<Rightarrow> u8 list \<Rightarrow> (mem \<times> decoder) option" where
  "parse_log_entry t simd d data =
     (if length data < 2 then None
      else Option.bind (read_vlq 8 data) (\<lambda>(epoch_offset_zigzag, data).
        Option.bind (read_vlq 4 data) (\<lambda>(formate_template_idx, data).
        if unat formate_template_idx \<ge> length (log_templates d) then None
        else if data = [] then None
        else Option.bind (read_vlq 4 data) (\<lambda>(thread_info_template_index, data).
          Option.bind (thread_info_templates d thread_info_template_index) (\<lambda>(thread_id, thread_name).
          let d = d\<lparr>decoder_epoch := decoder_epoch d + zigzag_decode epoch_offset_zigzag\<rparr>;
              template = log_templates d ! unat formate_template_idx;
              fmt = template_format template
          in map_option (\<lambda>args.
               let ext_info_offset = 40 + align_4 (length fmt) + length args;
                   name_len = (of_nat (length thread_name) :: u8)
               in (head_cells \<lparr>timestamp_epoch = decoder_epoch d, ext_info_offset = of_nat ext_info_offset,
                       category_idx = template_category template, log_thread_id = thread_id, format_hash = 0,
                       log_format_str_type = arg_code String_utf8_type, head_level = template_level template,
                       log_format_data_len = of_nat (length fmt)\<rparr>
                   @ map Some fmt @ replicate (align_4 (length fmt) - length fmt) None @ args
                   @ map Some (name_len # take (unat name_len) thread_name)
                   @ replicate (min 255 (length thread_name) - unat name_len) None, d))
             (unpack_args t simd data))))))"

lemma read_item_data_shorter [termination_simp]: "read_item_data file = Inr (ty, body, rest) \<Longrightarrow> length rest < length file"
proof -
  assume r: "read_item_data file = Inr (ty, body, rest)"
  then obtain head_len data_size where "length (take data_size (drop head_len file)) = data_size" "2 \<le> data_size" "rest = drop (head_len + data_size) file"
    by (auto simp: read_item_data_def Let_def split: if_splits option.splits)
  then show ?thesis by auto
qed

text \<open>
  \<open>decode_private\<close>: the items up to and including the next log entry. The result of a template is overwritten by that of the next item, so only a
  wrong kind of template, a failing \<open>read_item_data\<close> and a log entry end the loop. \<open>behind\<close> gives what the read cache holds behind
  an item, from the rest of the file.
\<close>

function decode_private :: "simd_target \<Rightarrow> bool \<Rightarrow> nat \<Rightarrow> (u8 list \<Rightarrow> u8 list) \<Rightarrow> decoder \<Rightarrow> u8 list
    \<Rightarrow> (appender_decode_result + (mem \<times> decoder \<times> u8 list)) option" where
  "decode_private t simd categories behind d file =
     (case read_item_data file of
        Inl r \<Rightarrow> Some (Inl r)
      | Inr (ty, body, rest) \<Rightarrow>
          if ty = item_log_template
          then (if hd body = format_template_utf8 \<or> hd body = format_template_utf16
                then Option.bind (parse_formate_template t simd categories (hd body) (behind rest) d (tl body))
                       (\<lambda>(result, d). decode_private t simd categories behind d rest)
                else if hd body = thread_info_template
                then (let (result, d) = parse_thread_info_template d (tl body) in decode_private t simd categories behind d rest)
                else Some (Inl Failed_decode_error))
          else (case parse_log_entry t simd d body of
                  None \<Rightarrow> Some (Inl Failed_decode_error)
                | Some (m, d) \<Rightarrow> Some (Inr (m, d, rest))))"
  by pat_completeness auto
termination by (relation "measure (\<lambda>(t, simd, categories, behind, d, file). length file)") (auto dest: read_item_data_shorter)

declare decode_private.simps [simp del]

lemma decode_private_shorter: "decode_private t simd categories behind d f = Some (Inr (m, d', rest)) \<Longrightarrow> length rest < length f"
proof (induction "length f" arbitrary: d f rule: less_induct)
  case less
  obtain ty body left where r: "read_item_data f = Inr (ty, body, left)"
    using less(2) by (subst (asm) decode_private.simps) (auto split: sum.splits)
  note shorter = read_item_data_shorter [OF r]
  have "(\<exists>d2. decode_private t simd categories behind d2 left = Some (Inr (m, d', rest))) \<or> rest = left"
    using less(2) r by (subst (asm) decode_private.simps)
      (auto simp: Let_def bind_eq_Some_conv split: if_splits prod.splits option.splits)
  then show ?case using less(1) [OF shorter] shorter by fastforce
qed

text \<open>All entries of a file with one segment, and how reading ended.\<close>

function decode_all :: "simd_target \<Rightarrow> bool \<Rightarrow> nat \<Rightarrow> (u8 list \<Rightarrow> u8 list) \<Rightarrow> decoder \<Rightarrow> u8 list \<Rightarrow> (mem list \<times> appender_decode_result) option" where
  "decode_all t simd categories behind d file =
     Option.bind (decode_private t simd categories behind d file) (\<lambda>x. case x of
        Inl r \<Rightarrow> Some ([], r)
      | Inr (m, d, rest) \<Rightarrow> map_option (\<lambda>(ms, r). (m # ms, r)) (decode_all t simd categories behind d rest))"
  by pat_completeness auto
termination by (relation "measure (\<lambda>(t, simd, categories, behind, d, file). length file)") (auto dest: decode_private_shorter)

declare decode_all.simps [simp del]

section \<open>Going on with a file\<close>

text \<open>
  A template or an entry seen by the writer. \<open>hash_utf8\<close> and \<open>hash_mixed\<close> are \<open>get_hash_64\<close> and \<open>hash_utf_mixed_as_utf16\<close>, \<open>alloc\<close>
  the allocations of the cache. The outer \<open>None\<close> is a lookup that does not end or a read outside of the read cache, the inner one is
  \<open>false\<close>. The writer takes the time of an entry without comparing the number with the end of the item, \<open>behind\<close> is what follows.
\<close>

definition reparse_format :: "(u8 list \<Rightarrow> u64) \<Rightarrow> (u8 list \<Rightarrow> u64) \<Rightarrow> nat \<Rightarrow> (u32 \<Rightarrow> (nat \<Rightarrow> u64) option) \<Rightarrow> u8 \<Rightarrow> appender \<Rightarrow> u8 list \<Rightarrow> appender option option" where
  "reparse_format hash_utf8 hash_mixed categories alloc sub_type s data =
     (if length data < 2 \<or> hd data > 5 then Some None
      else (case read_vlq 4 (tl data) of
              None \<Rightarrow> Some None
            | Some (category, text) \<Rightarrow>
                if unat category \<ge> categories then Some None
                else (let h = (if sub_type = format_template_utf8 then hash_utf8 text else hash_mixed text);
                          key = get_format_template_hash (hd data) (ucast category) h
                      in map_option (\<lambda>l2. Some (s\<lparr>format_l2 := l2, current_format_template_max_index := current_format_template_max_index s + 1\<rparr>))
                           (hc_insert alloc (format_l2 s) key (current_format_template_max_index s)))))"

definition reparse_log_entry :: "u8 list \<Rightarrow> appender \<Rightarrow> u8 list \<Rightarrow> appender option option" where
  "reparse_log_entry behind s data =
     (if length data < 2 then Some None
      else (case vlq_decode 8 (data @ behind) of
              Vlq_ok n z \<Rightarrow> Some (Some (s\<lparr>last_log_entry_epoch := last_log_entry_epoch s + zigzag_decode z\<rparr>))
            | Vlq_invalid \<Rightarrow> Some None
            | Vlq_overread \<Rightarrow> None))"

text \<open>
  The loop of \<open>parse_exist_log_file\<close>. Its \<open>read_item_data\<close> reads through a cache that remembers when it had less to offer than was asked for;
  then the loop ends with success, whether the item that was read is complete or not. \<open>alloc i\<close> are the allocations at the
  \<open>i\<close>-th item, each item may meet other ones.
\<close>

function parse_items :: "(u8 list \<Rightarrow> u64) \<Rightarrow> (u8 list \<Rightarrow> u64) \<Rightarrow> nat \<Rightarrow> (u8 list \<Rightarrow> u8 list) \<Rightarrow> (nat \<Rightarrow> u32 \<Rightarrow> (nat \<Rightarrow> u64) option)
    \<Rightarrow> appender \<Rightarrow> u8 list \<Rightarrow> appender option option" where
  "parse_items hash_utf8 hash_mixed categories behind alloc s file =
     (if length file < 6 then Some (Some s)
      else (case item_head (take 6 file) of
              None \<Rightarrow> Some None
            | Some (ty, head_len, data_size) \<Rightarrow>
                (let body = take data_size (drop head_len file); rest = drop (head_len + data_size) file
                 in if length body \<noteq> data_size then Some (Some s)
                    else if data_size < 2 then Some None
                    else Option.bind
                      (if ty = item_log_template
                       then (if hd body = format_template_utf8 \<or> hd body = format_template_utf16
                             then reparse_format hash_utf8 hash_mixed categories (alloc 0) (hd body) s (tl body)
                             else if hd body = thread_info_template then Some (if tl body = [] then None else Some s)
                             else Some None)
                       else reparse_log_entry (behind rest) s body)
                      (\<lambda>r. case r of None \<Rightarrow> Some None | Some s \<Rightarrow> parse_items hash_utf8 hash_mixed categories behind (\<lambda>i. alloc (Suc i)) s rest))))"
  by pat_completeness auto
termination by (relation "measure (\<lambda>(h, m, n, b, a, s, file). length file)") auto

declare parse_items.simps [simp del]

definition parse_exist_log_file :: "(u8 list \<Rightarrow> u64) \<Rightarrow> (u8 list \<Rightarrow> u64) \<Rightarrow> nat \<Rightarrow> (u8 list \<Rightarrow> u8 list) \<Rightarrow> (nat \<Rightarrow> u32 \<Rightarrow> (nat \<Rightarrow> u64) option)
    \<Rightarrow> appender \<Rightarrow> u8 list \<Rightarrow> appender option option" where
  "parse_exist_log_file hash_utf8 hash_mixed categories behind alloc s file =
     parse_items hash_utf8 hash_mixed categories behind alloc (appender_reset s) file"

end
