(* ===== verification/Compressed_Roundtrip.thy ===== *)
theory Compressed_Roundtrip
  imports Compressed_Decoder
begin

text \<open>
  The compressed log file as a whole: what \<open>appender_file_compressed\<close> writes for a sequence of log calls, \<open>appender_decoder_compressed\<close> reads
  back. Each call writes at most a format template, a thread template and an entry; writer and reader stay in step over each of them.
\<close>

section \<open>Sizes\<close>

lemma length_vlq_ucast:
  assumes "LENGTH('a) = 8 * sz" "sz \<in> {1, 2, 4, 8}"
  shows "1 \<le> length (vlq_encode (ucast (v :: 'a::len word))) \<and> length (vlq_encode (ucast v)) \<le> sz + 1"
proof -
  have "unat (ucast v :: u64) \<le> unat v" by (simp add: unsigned_ucast_eq take_bit_nat_less_eq_self)
  also have "\<dots> < 2 ^ (8 * sz)" using unat_lt2p [of v] assms(1) by simp
  finally show ?thesis
    using vlq_encode_length_sz [OF assms(2), of "ucast v"] get_vlq_encode_length_range [of "ucast v"] assms(2)
    by (auto simp: length_vlq_encode vlq_max_bytes_count_def)
qed

lemma length_vlq_any: "1 \<le> length (vlq_encode v) \<and> length (vlq_encode v) \<le> 9"
  using get_vlq_encode_length_range [of v] by (simp add: length_vlq_encode)

text \<open>What is written for an argument is neither much longer nor much shorter than its place in the argument area.\<close>

lemma packed_size:
  assumes "arg_ok a"
  shows "length (packed_arg t a) + 4 \<le> 2 * length (arg_cells a) \<and> length (arg_cells a) \<le> 6 * length (packed_arg t a)"
proof (cases "(\<exists>s. a = Arg_utf16 s) \<or> (\<exists>s. a = Arg_utf32 s)")
  case True
  define us where "us = units_of a"
  have a: "arg_cells a = text_cells String_utf16_type (unit_bytes us)"
    "packed_arg t a = arg_code String_utf_mixed_type # vlq_encode (of_nat (length (mixed_text t (unit_bytes us))))
       @ (if text_gap t (unit_bytes us) then [0] else []) @ mixed_text t (unit_bytes us)"
    and l: "length us < 2 ^ 29"
    using True assms by (auto simp: us_def text_of_def Let_def arg_ok_def)
  have m: "length us \<le> length (mixed_text t (unit_bytes us))" "length (mixed_text t (unit_bytes us)) \<le> 2 * length us + 1"
    using mixed_text(2,3) [OF l] by blast+
  have v: "1 \<le> length (vlq_encode (of_nat (length (mixed_text t (unit_bytes us))))) \<and> length (vlq_encode (of_nat (length (mixed_text t (unit_bytes us))))) \<le> 5"
    using m(2) l by (intro length_vlq_32) simp
  show ?thesis
    using m v align_4_bounds(1,2) [of "2 * length us"] by (simp add: a length_text_cells)
next
  case False
  show ?thesis
  proof (cases "\<exists>s. a = Arg_utf8 s")
    case True
    define str where "str = text_of a"
    have a: "arg_cells a = text_cells String_utf8_type str" "packed_arg t a = arg_code String_utf8_type # vlq_encode (of_nat (length str)) @ str"
      and l: "length str < 2 ^ 30"
      using True assms by (auto simp: str_def arg_ok_def)
    have v: "1 \<le> length (vlq_encode (of_nat (length str))) \<and> length (vlq_encode (of_nat (length str))) \<le> 5"
      using l by (intro length_vlq_32) simp
    show ?thesis using v align_4_bounds(1,2) [of "length str"] by (simp add: a length_text_cells)
  next
    case no8: False
    note v = length_vlq_any length_vlq_ucast [where 'a = 16 and sz = 2, simplified] length_vlq_ucast [where 'a = 32 and sz = 4, simplified]
    show ?thesis
      using False no8 v(1) [of "case a of Arg_uint64 v \<Rightarrow> v | Arg_int64 v \<Rightarrow> zigzag_encode v"]
        v(2) [of "case a of Arg_char16 v \<Rightarrow> v | Arg_uint16 v \<Rightarrow> v | Arg_int16 v \<Rightarrow> zigzag_encode v"]
        v(3) [of "case a of Arg_char32 v \<Rightarrow> v | Arg_uint32 v \<Rightarrow> v | Arg_int32 v \<Rightarrow> zigzag_encode v"]
      by (cases a) (simp_all add: pod_cells_def length_pod_copy)
  qed
qed

lemma packed_args_size:
  "\<forall>a \<in> set as. arg_ok a \<Longrightarrow> (as = [] \<or> length (concat (map (packed_arg t) as)) + 4 \<le> 2 * length (concat (map arg_cells as)))
    \<and> length (concat (map arg_cells as)) \<le> 6 * length (concat (map (packed_arg t) as))"
proof (induction as)
  case (Cons a as)
  then show ?case using packed_size [of a t] by (cases as) auto
qed simp

lemma packed_args_length: "length as \<le> length (concat (map (packed_arg t) as))"
proof (induction as)
  case (Cons a as)
  have "1 \<le> length (packed_arg t a)" by (cases a) (simp_all add: Let_def)
  then show ?case using Cons by simp
qed simp

section \<open>Calls\<close>

text \<open>
  A log call: \<open>call_known\<close> tells whether its format text is hashed while it is copied into the entry. What the call looks like in
  the log buffer and after the file was read: the format and the wide texts are UTF-8 then, and the format hash is gone.
\<close>

record log_call =
  call_known :: bool
  call_epoch :: u64
  call_level :: u8
  call_category :: u32
  call_type :: log_arg_type_enum
  call_format :: "u8 list"
  call_args :: "log_arg list"
  call_thread :: u64
  call_thread_name :: "u8 list"

definition call_entry :: "(u8 list \<Rightarrow> u64) \<Rightarrow> log_call \<Rightarrow> mem" where
  "call_entry hash c = log_write hash (call_known c) (call_epoch c) (call_level c) (call_category c) (call_type c) (call_format c)
     (the (log_args_fill (call_args c))) (call_thread c) (call_thread_name c)"

definition format_utf8 :: "log_call \<Rightarrow> u8 list" where
  "format_utf8 c = (if call_type c = String_utf8_type then call_format c else utf16_to_utf8_sw (byte_units (call_format c)))"

definition decoded_entry :: "log_call \<Rightarrow> mem" where
  "decoded_entry c = log_write (\<lambda>_. 0) False (call_epoch c) (call_level c) (call_category c) String_utf8_type (format_utf8 c)
     (the (log_args_fill (map as_utf8 (call_args c)))) (call_thread c) (call_thread_name c)"

definition format_key :: "(u8 list \<Rightarrow> u64) \<Rightarrow> log_call \<Rightarrow> u64" where
  "format_key hash c = get_format_template_hash (call_level c) (call_category c) (hash (call_format c))"

definition call_template :: "log_call \<Rightarrow> format_template" where
  "call_template c = \<lparr>template_level = call_level c, template_category = call_category c, template_format = format_utf8 c\<rparr>"

definition call_ok :: "nat \<Rightarrow> log_call \<Rightarrow> bool" where
  "call_ok categories c \<longleftrightarrow> (\<forall>a \<in> set (call_args c). arg_ok a \<and> no_leading_null a \<and> arg_ok (as_utf8 a))
     \<and> unat (call_category c) < categories \<and> call_thread c \<noteq> 0xFFFFFFFFFFFFFFFF
     \<and> length (call_format c) < 2 ^ 29 \<and> length (the (log_args_fill (call_args c))) < 2 ^ 29
     \<and> (call_type c = String_utf8_type \<or> call_type c \<in> {String_utf16_type, String_utf32_type} \<and> even (length (call_format c)))"

text \<open>The items of a call.\<close>

lemma unit_bytes_byte_units: "even (length b) \<Longrightarrow> unit_bytes (byte_units b) = b"
proof (induction b rule: byte_units.induct)
  case (1 x y bs)
  have "le_bytes 2 (le_word [x, y] :: u16) = [x, y]" using le_bytes_le_word [of "[x, y]", where 'a = 16] by (simp add: numeral_2_eq_2)
  then show ?case using 1 by (simp add: unit_bytes_def)
qed (simp_all add: unit_bytes_def)

lemma decode_template:
  assumes "put_item 0 max_size (sub # data) = Some item" "data \<noteq> []" "length data < 2 ^ 31"
    and "(sub = format_template_utf8 \<or> sub = format_template_utf16)
        \<and> parse_formate_template t simd categories sub (behind rest) d data = Some (result, d')
      \<or> sub = thread_info_template \<and> parse_thread_info_template d data = (result, d')"
  shows "decode_private t simd categories behind d (item @ rest) = decode_private t simd categories behind d' rest"
proof -
  have "Suc 0 \<le> length data" using assms(2) by (cases data) auto
  then have "read_item_data (item @ rest) = Inr (item_log_template, sub # data, rest)"
    using put_item_read(1) [OF assms(1), of rest] assms(3) by (simp add: item_log_template_def)
  then show ?thesis
    using assms(4) by (subst decode_private.simps)
      (auto simp: format_template_utf8_def format_template_utf16_def thread_info_template_def)
qed

text \<open>The three kinds of items.\<close>

definition format_item :: "simd_target \<Rightarrow> log_call \<Rightarrow> u8 list \<Rightarrow> bool" where
  "format_item t c item \<longleftrightarrow> (\<exists>max_size str sub. put_item 0 max_size (sub # call_level c # vlq_encode (ucast (call_category c)) @ str) = Some item
     \<and> length str < 2 ^ 30
     \<and> (if call_type c = String_utf8_type then sub = format_template_utf8 \<and> str = call_format c
        else sub = format_template_utf16 \<and> (\<exists>us. call_format c = unit_bytes us \<and> length us < 2 ^ 29 \<and> str = mixed_text t (unit_bytes us))))"

definition thread_item :: "u8 list \<Rightarrow> bool" where
  "thread_item item \<longleftrightarrow> (\<exists>max_size data. put_item 0 max_size (thread_info_template # data) = Some item \<and> data \<noteq> [] \<and> length data < 31)"

definition entry_item :: "u64 \<Rightarrow> nat \<Rightarrow> u8 list \<Rightarrow> bool" where
  "entry_item epoch_offset n item \<longleftrightarrow> (\<exists>max_size rest. put_item 128 max_size (vlq_encode (zigzag_encode epoch_offset) @ rest) = Some item
     \<and> n + 2 \<le> length rest \<and> length rest < 2 ^ 31)"

definition call_items :: "simd_target \<Rightarrow> u64 \<Rightarrow> log_call \<Rightarrow> format_template list \<Rightarrow> u8 list \<Rightarrow> bool" where
  "call_items t last_epoch c ts out \<longleftrightarrow> (\<exists>f th e. out = f @ th @ e \<and> (f = [] \<and> ts = [] \<or> format_item t c f \<and> ts = [call_template c])
     \<and> (th = [] \<or> thread_item th) \<and> entry_item (call_epoch c - last_epoch) (length (call_args c)) e)"

lemma write_format_item:
  assumes c: "call_ok categories c" and h: "log_format_str_type h = arg_code (call_type c)" "head_level h = call_level c"
    "category_idx h = call_category c" "log_format_data_len h = of_nat (length (call_format c))"
  shows "\<exists>item. write_format_template t h (call_format c) 0 = Some item \<and> format_item t c item"
proof -
  let ?fmt = "call_format c" and ?utf8 = "call_type c = String_utf8_type"
  define us where "us = byte_units ?fmt"
  have l: "length ?fmt < 2 ^ 29" using c by (simp add: call_ok_def)
  define str where "str = (if ?utf8 then ?fmt else mixed_text t (unit_bytes us))"
  define fmt_max_size where "fmt_max_size = (if ?utf8 then length ?fmt else 3 * length us + 1)"
  have wide: "?fmt = unit_bytes us \<and> length ?fmt = 2 * length us" if "\<not> ?utf8"
    using c that unit_bytes_byte_units [of ?fmt] unfolding us_def call_ok_def by (metis length_unit_bytes)
  have lu: "length us < 2 ^ 29" if "\<not> ?utf8" using wide [OF that] l by simp
  have str: "length str \<le> fmt_max_size" "fmt_max_size \<le> 3 * length str + 1" "length str < 2 ^ 30"
    using mixed_text(2,3) [of us t] lu l wide by (auto simp: str_def fmt_max_size_def)
  have w: "unat (drop_bit 1 (log_format_data_len h * 3)) = 3 * length us \<and> unat (drop_bit 1 (log_format_data_len h * 3) + 1) = 3 * length us + 1
      \<and> unat (log_format_data_len h div 2) * 2 = length ?fmt" if "\<not> ?utf8"
  proof -
    have e: "log_format_data_len h * 3 = of_nat (6 * length us)" "log_format_data_len h div 2 = of_nat (2 * length us) div 2"
      using wide [OF that] by (simp_all add: h(4))
    have "drop_bit 1 (of_nat (6 * length us) :: u32) = of_nat (3 * length us)"
      using lu [OF that] by (simp add: word_unat_eq_iff unsigned_drop_bit_eq unsigned_of_nat take_bit_nat_eq_self drop_bit_Suc unat_div del: of_nat_mult)
    then show ?thesis
      using lu [OF that] wide [OF that] unfolding e(2) unfolding e(1)
      by (simp add: unat_word_ariths unsigned_of_nat take_bit_nat_eq_self unat_div del: of_nat_mult)
  qed
  have u8: "unat (log_format_data_len h) = length ?fmt" using l by (simp add: h(4) unsigned_of_nat take_bit_nat_eq_self)
  define sub where "sub = (if ?utf8 then format_template_utf8 else format_template_utf16)"
  define body where "body = sub # call_level c # vlq_encode (ucast (call_category c)) @ str"
  define max_size where "max_size = 7 + fmt_max_size"
  note v = length_vlq_ucast [where 'a = 32 and sz = 4 and v = "call_category c", simplified]
  have lb: "2 \<le> length body" "length body \<le> max_size" "length body < 2 ^ 31" "max_size \<le> 12 * length body + 15" "max_size < 2 ^ 32"
    using v str by (simp_all add: body_def max_size_def)
  obtain item where item: "put_item 0 (of_nat max_size) body = Some item"
    using put_item_some [of body max_size] lb by auto
  have um: "ucast (of_nat max_size :: u32) = (of_nat max_size :: u64)"
    using lb(5) by (simp add: word_unat_eq_iff unsigned_ucast_eq unsigned_of_nat take_bit_nat_eq_self)
  have "write_format_template t h ?fmt 0 = Some item"
  proof (cases ?utf8)
    case True
    then have "put_item 0 (ucast (of_nat (7 + length ?fmt) :: u32)) (format_template_utf8 # call_level c # vlq_encode (ucast (call_category c)) @ ?fmt) = Some item"
      using item um by (simp add: body_def sub_def str_def max_size_def fmt_max_size_def)
    then show ?thesis
      using True by (subst write_format_template.simps) (simp add: h u8 [unfolded h(4)] item_log_template_def del: of_nat_add)
  next
    case False
    have "put_item 0 (ucast (of_nat (8 + 3 * length us) :: u32)) (format_template_utf16 # call_level c # vlq_encode (ucast (call_category c)) @ mixed_text t (unit_bytes us)) = Some item"
      using item um False by (simp add: body_def sub_def str_def max_size_def fmt_max_size_def)
    moreover have "byte_units (take (unat (log_format_data_len h div 2) * 2) ?fmt) = us" using w [OF False] by (simp add: us_def)
    moreover note mixed_text(1) [OF lu [OF False], of t]
    ultimately show ?thesis
      using False w [OF False] by (subst write_format_template.simps) (simp add: h(1-3) item_log_template_def del: of_nat_add)
  qed
  moreover have "format_item t c item"
    using item wide lu str(3) unfolding format_item_def body_def
    by (intro exI [of _ "of_nat max_size"] exI [of _ str] exI [of _ sub]) (auto simp: sub_def str_def)
  ultimately show ?thesis by blast
qed

lemma decode_format_item:
  assumes c: "call_ok categories c" and i: "format_item t c item"
  shows "decode_private t' simd categories behind d (item @ rest)
    = decode_private t' simd categories behind (d\<lparr>log_templates := log_templates d @ [call_template c]\<rparr>) rest"
proof -
  let ?utf8 = "call_type c = String_utf8_type"
  obtain max_size str sub where item: "put_item 0 max_size (sub # call_level c # vlq_encode (ucast (call_category c)) @ str) = Some item"
    and ls: "length str < 2 ^ 30" and if_utf8: "if ?utf8 then sub = format_template_utf8 \<and> str = call_format c
        else sub = format_template_utf16 \<and> (\<exists>us. call_format c = unit_bytes us \<and> length us < 2 ^ 29 \<and> str = mixed_text t (unit_bytes us))"
    using i unfolding format_item_def by blast
  have sub: "sub = (if ?utf8 then format_template_utf8 else format_template_utf16)" and utf8: "?utf8 \<Longrightarrow> str = call_format c"
    and wide: "\<not> ?utf8 \<Longrightarrow> \<exists>us. call_format c = unit_bytes us \<and> length us < 2 ^ 29 \<and> str = mixed_text t (unit_bytes us)"
    using if_utf8 by (simp_all split: if_splits)
  note v = length_vlq_ucast [where 'a = 32 and sz = 4 and v = "call_category c", simplified]
  have conv: "utf_mixed_to_utf8 t' simd str (2 * length str) = Some (format_utf8 c) \<and> (str = [] \<longrightarrow> format_utf8 c = [])" if nu: "\<not> ?utf8"
  proof -
    obtain us where us: "call_format c = unit_bytes us" "length us < 2 ^ 29" "str = mixed_text t (unit_bytes us)" using wide [OF nu] by blast
    then have "utf_mixed_to_utf8 t' simd str (2 * length str) = Some (format_utf8 c)"
      using mixed_text(4) [OF us(2), of t' simd t] nu by (simp add: format_utf8_def)
    moreover have "us = []" if "str = []" using mixed_text(2) [OF us(2), of t] that us(3) by simp
    ultimately show ?thesis using nu us(1) by (auto simp: format_utf8_def unit_bytes_def)
  qed
  show ?thesis
  proof (rule decode_template [OF item])
    show "length (call_level c # vlq_encode (ucast (call_category c)) @ str) < 2 ^ 31" using v ls by simp
    have "unat (ucast (call_category c) :: u64) < categories"
    proof -
      have "unat (ucast (call_category c) :: u64) \<le> unat (call_category c)" by (simp add: unsigned_ucast_eq take_bit_nat_less_eq_self)
      then show ?thesis using c unfolding call_ok_def by linarith
    qed
    then have parsed: "parse_formate_template t' simd categories sub (behind rest) d (call_level c # vlq_encode (ucast (call_category c)) @ str)
      = Some (Decode_success, d\<lparr>log_templates := log_templates d @ [call_template c]\<rparr>)"
      using v conv utf8 by (auto simp: sub parse_formate_template_def vlq_decode_ucast [where 'a = 32] call_template_def format_template_utf8_def
          format_template_utf16_def format_utf8_def ucast_down_ucast_id is_down)
    then show "(sub = format_template_utf8 \<or> sub = format_template_utf16)
        \<and> parse_formate_template t' simd categories sub (behind rest) d (call_level c # vlq_encode (ucast (call_category c)) @ str)
          = Some (Decode_success, d\<lparr>log_templates := log_templates d @ [call_template c]\<rparr>)
      \<or> sub = thread_info_template \<and> parse_thread_info_template d (call_level c # vlq_encode (ucast (call_category c)) @ str)
          = (Decode_success, d\<lparr>log_templates := log_templates d @ [call_template c]\<rparr>)"
      by (simp add: sub)
  qed simp_all
qed

lemma write_thread_item:
  assumes "length name \<le> 16"
  shows "\<exists>item. write_thread_info_template idx tid name = Some item \<and> thread_item item
    \<and> (\<forall>d rest. decode_private t' simd categories behind d (item @ rest)
         = decode_private t' simd categories behind (d\<lparr>thread_info_templates := (thread_info_templates d)(ucast idx \<mapsto> (tid, name))\<rparr>) rest)"
proof -
  define data where "data = vlq_encode (ucast idx) @ vlq_encode tid @ name"
  define item where "item = item_log_template # vlq_encode (of_nat (length (thread_info_template # data))) @ thread_info_template # data"
  note v = length_vlq_ucast [where 'a = 32 and sz = 4 and v = idx, simplified] length_vlq_any [of tid]
  have l: "1 \<le> length data" "length data < 31" using v assms by (simp_all add: data_def)
  have c: "get_vlq_encode_length (of_nat n) = 1" if "n \<le> 31" for n using that by (subst vlq_len_nat) simp_all
  have item: "put_item 0 (of_nat 31) (thread_info_template # data) = Some item"
    using l c [of 31] c [of "length (thread_info_template # data)"] unfolding item_def
    by (simp add: put_item_def Let_def get_vlq_min_bytes_length_of_item_header_def length_vlq_encode item_log_template_def del: of_nat_Suc of_nat_numeral)
  have "write_thread_info_template idx tid name = Some item"
    using l assms c [of "1 + 5 + 9 + length name"] c [of "length (thread_info_template # data)"] unfolding item_def
    by (simp add: write_thread_info_template_def Let_def length_vlq_encode data_def del: of_nat_Suc of_nat_add)
  moreover have "thread_item item" using item l unfolding thread_item_def by (intro exI [of _ "of_nat 31"] exI [of _ data]) auto
  moreover have "decode_private t' simd categories behind d (item @ rest)
      = decode_private t' simd categories behind (d\<lparr>thread_info_templates := (thread_info_templates d)(ucast idx \<mapsto> (tid, name))\<rparr>) rest" for d rest
  proof (rule decode_template [OF item])
    show "data \<noteq> []" "length data < 2 ^ 31" using l by auto
    have "vlq_encode tid @ name \<noteq> []" using v(2) by auto
    then have "parse_thread_info_template d data
      = (Decode_success, d\<lparr>thread_info_templates := (thread_info_templates d)(ucast idx \<mapsto> (tid, name))\<rparr>)"
      by (simp add: parse_thread_info_template_def data_def read_vlq_ucast [where 'a = 32] read_vlq_8)
    then show "(thread_info_template = format_template_utf8 \<or> thread_info_template = format_template_utf16)
        \<and> parse_formate_template t' simd categories thread_info_template (behind rest) d data
          = Some (Decode_success, d\<lparr>thread_info_templates := (thread_info_templates d)(ucast idx \<mapsto> (tid, name))\<rparr>)
      \<or> thread_info_template = thread_info_template \<and> parse_thread_info_template d data
          = (Decode_success, d\<lparr>thread_info_templates := (thread_info_templates d)(ucast idx \<mapsto> (tid, name))\<rparr>)"
      by simp
  qed
  ultimately show ?thesis by blast
qed

text \<open>The head of a call's entry and what its accessors give.\<close>

definition call_head :: "(u8 list \<Rightarrow> u64) \<Rightarrow> log_call \<Rightarrow> log_head" where
  "call_head hash c = \<lparr>timestamp_epoch = call_epoch c,
     ext_info_offset = of_nat (40 + align_4 (length (call_format c)) + length (the (log_args_fill (call_args c)))), category_idx = call_category c,
     log_thread_id = call_thread c, format_hash = (if call_known c \<and> call_type c \<noteq> String_utf32_type then hash (call_format c) else 0),
     log_format_str_type = arg_code (call_type c), head_level = call_level c, log_format_data_len = of_nat (length (call_format c))\<rparr>"

lemma call_entry_reads:
  assumes "call_ok categories c"
  shows "get_log_head (call_entry hash c) = Some (call_head hash c)"
    "get_format_string_data (call_head hash c) (call_entry hash c) = Some (call_format c)"
    "get_log_args_data (call_head hash c) (call_entry hash c) = the (log_args_fill (call_args c))"
    "unat (get_log_args_data_size (call_head hash c)) = length (the (log_args_fill (call_args c)))"
    "get_thread_name (call_head hash c) (call_entry hash c) = Some (take 16 (call_thread_name c))"
    "40 + unat (log_format_data_len (call_head hash c)) \<le> get_log_args_offset (call_head hash c)"
proof -
  have "40 + align_4 (length (call_format c)) + length (the (log_args_fill (call_args c))) < 2 ^ 32"
    using assms align_4_bounds(2) [of "length (call_format c)"] by (simp add: call_ok_def)
  note l = this
  note r = log_write_reads(1-3,7) [OF this, where hash = hash and known = "call_known c" and epoch = "call_epoch c" and lv = "call_level c" and cat = "call_category c" and ty = "call_type c"
        and tid = "call_thread c" and name = "call_thread_name c",
      folded call_entry_def call_head_def]
    log_write_reads(5) [OF l, where hash = hash and known = "call_known c" and epoch = "call_epoch c" and lv = "call_level c" and cat = "call_category c" and ty = "call_type c"
        and tid = "call_thread c", folded call_head_def]
  show "get_log_head (call_entry hash c) = Some (call_head hash c)"
    "get_format_string_data (call_head hash c) (call_entry hash c) = Some (call_format c)"
    "get_log_args_data (call_head hash c) (call_entry hash c) = the (log_args_fill (call_args c))"
    "unat (get_log_args_data_size (call_head hash c)) = length (the (log_args_fill (call_args c)))"
    "get_thread_name (call_head hash c) (call_entry hash c) = Some (take 16 (call_thread_name c))"
    using r by simp_all
  show "40 + unat (log_format_data_len (call_head hash c)) \<le> get_log_args_offset (call_head hash c)"
    by (simp add: get_log_args_offset_def align_4_bounds)
qed

lemma write_entry_item:
  assumes c: "call_ok categories c"
  shows "\<exists>item. write_log_entry t s (call_head hash c) (call_entry hash c) fi ti = Some (item, s\<lparr>last_log_entry_epoch := call_epoch c\<rparr>)
    \<and> entry_item (call_epoch c - last_log_entry_epoch s) (length (call_args c)) item
    \<and> (\<forall>d rest. decoder_epoch d = last_log_entry_epoch s \<longrightarrow> unat fi < length (log_templates d) \<longrightarrow> log_templates d ! unat fi = call_template c \<longrightarrow>
         thread_info_templates d (ucast ti) = Some (call_thread c, take 16 (call_thread_name c)) \<longrightarrow>
         decode_private t' simd categories behind d (item @ rest) = Some (Inr (decoded_entry c, d\<lparr>decoder_epoch := call_epoch c\<rparr>, rest)))"
proof -
  let ?as = "call_args c" and ?z = "zigzag_encode (call_epoch c - last_log_entry_epoch s)"
  have ok: "\<forall>a \<in> set ?as. arg_ok a" "\<forall>a \<in> set ?as. arg_ok a \<and> no_leading_null a" "\<forall>a \<in> set (map as_utf8 ?as). arg_ok a"
    using c by (auto simp: call_ok_def)
  define area where "area = concat (map arg_cells ?as)"
  define packed where "packed = concat (map (packed_arg t) ?as)"
  have fill: "log_args_fill ?as = Some area" "log_args_fill (map as_utf8 ?as) = Some (concat (map (\<lambda>a. arg_cells (as_utf8 a)) ?as))"
    using log_args_fill_cells [OF ok(1)] log_args_fill_cells [OF ok(3)] by (simp_all add: area_def comp_def)
  have pack: "pack_args t area = Some packed" unfolding area_def packed_def by (rule pack_args_cells [OF ok(1)])
  have la: "length area < 2 ^ 29" using c by (simp add: call_ok_def fill)
  define body where "body = vlq_encode ?z @ vlq_encode (ucast fi) @ vlq_encode (ucast ti) @ packed"
  note v = length_vlq_any [of ?z] length_vlq_ucast [where 'a = 32 and sz = 4 and v = fi, simplified] length_vlq_ucast [where 'a = 32 and sz = 4 and v = ti, simplified]
  have size: "?as = [] \<or> length packed + 4 \<le> 2 * length area" "length area \<le> 6 * length packed"
    using packed_args_size [OF ok(1), of t] unfolding area_def packed_def by blast+
  have pl: "length packed \<le> 2 * length area" using size(1) by (auto simp: packed_def)
  have lb: "3 \<le> length body" "length body \<le> 19 + length packed" "length packed + 3 \<le> length body" using v by (simp_all add: body_def)
  have "length body \<le> 15 + 2 * length area \<or> length body < 0x80 \<and> 15 + 2 * length area < 0x80"
  proof (cases "?as = []")
    case True
    then show ?thesis using lb(2) by (simp add: area_def packed_def)
  qed (use size(1) lb(2) in auto)
  then obtain item where item: "put_item item_log_entry (of_nat (15 + 2 * length area)) body = Some item"
    using put_item_some [of body "15 + 2 * length area" item_log_entry] size(2) lb(3) la by auto
  note r = call_entry_reads [OF c, of hash]
  have "write_log_entry t s (call_head hash c) (call_entry hash c) fi ti = Some (item, s\<lparr>last_log_entry_epoch := call_epoch c\<rparr>)"
    using item unfolding write_log_entry_def Let_def r fill option.sel pack by (simp add: body_def call_head_def)
  moreover have "entry_item (call_epoch c - last_log_entry_epoch s) (length (call_args c)) item"
  proof -
    have "length (call_args c) \<le> length packed" unfolding packed_def by (rule packed_args_length)
    then show ?thesis
      using item v(2,3) pl la unfolding entry_item_def body_def item_log_entry_def
      by (intro exI [of _ "of_nat (15 + 2 * length area)"] exI [of _ "vlq_encode (ucast fi) @ vlq_encode (ucast ti) @ packed"]) auto
  qed
  moreover have "decode_private t' simd categories behind d (item @ rest) = Some (Inr (decoded_entry c, d\<lparr>decoder_epoch := call_epoch c\<rparr>, rest))"
    if d: "decoder_epoch d = last_log_entry_epoch s" "unat fi < length (log_templates d)" "log_templates d ! unat fi = call_template c"
      "thread_info_templates d (ucast ti) = Some (call_thread c, take 16 (call_thread_name c))" for d rest
  proof -
    have "2 \<le> length body" "length body < 2 ^ 32" using lb pl la by simp_all
    then have rd: "read_item_data (item @ rest) = Inr (item_log_entry, body, rest)"
      using put_item_read(1) [OF item, of rest] by (simp add: item_log_entry_def)
    have n: "unat (of_nat (min (length (call_thread_name c)) 16) :: u8) = min (length (call_thread_name c)) 16"
      by (simp add: unsigned_of_nat take_bit_nat_eq_self)
    have tn: "take (min (length (call_thread_name c)) 16) (call_thread_name c) = take 16 (call_thread_name c)" by (simp add: min_def)
    have u: "unat (ucast fi :: u64) = unat fi" using unat_lt2p [of fi] by (simp add: unsigned_ucast_eq take_bit_nat_eq_self)
    have ne: "vlq_encode (ucast ti) @ packed \<noteq> []" using v(3) by auto
    have "parse_log_entry t' simd d body = Some (decoded_entry c, d\<lparr>decoder_epoch := call_epoch c\<rparr>)"
      using d lb(1) ne
      unfolding parse_log_entry_def body_def read_vlq_8
      by (simp add: read_vlq_ucast [where 'a = 32] read_vlq_8 u packed_def unpack_args_packed [OF ok(2)] zigzag_decode_encode
          decoded_entry_def log_write_def call_template_def fill Let_def max_thread_name_len_def n tn)
    then show ?thesis using rd by (subst decode_private.simps) (simp add: item_log_entry_def item_log_template_def)
  qed
  ultimately show ?thesis by blast
qed

section \<open>Writer and reader in step\<close>

text \<open>
  \<open>F\<close> gives the template for each format key, \<open>N\<close> the name of each thread. The writer's indices refer to templates the reader
  has, and both know the same time base.
\<close>

definition known_formats :: "(u64 \<Rightarrow> format_template) \<Rightarrow> decoder \<Rightarrow> (u64 \<times> u32) set" where
  "known_formats F d = {(k, v). unat v < length (log_templates d) \<and> log_templates d ! unat v = F k}"

definition known_threads :: "(u64 \<Rightarrow> u8 list) \<Rightarrow> u32 \<Rightarrow> decoder \<Rightarrow> (u64 \<times> u32) set" where
  "known_threads N next_index d = {(k, v). v < next_index \<and> thread_info_templates d (ucast v) = Some (k, N k)}"

definition caches_know :: "nat \<Rightarrow> (u64 \<times> u32) list \<Rightarrow> hcache \<Rightarrow> (u64 \<times> u32) set \<Rightarrow> bool" where
  "caches_know n l1 l2 known \<longleftrightarrow> length l1 = n \<and> cache_ok l2 \<and> l1_knows l1 known \<and> (\<forall>k v. hc_map l2 k = Some v \<longrightarrow> (k, v) \<in> known)"

definition formats_in_step :: "(u64 \<Rightarrow> format_template) \<Rightarrow> appender \<Rightarrow> decoder \<Rightarrow> bool" where
  "formats_in_step F s d \<longleftrightarrow> caches_know 256 (format_l1 s) (format_l2 s) (known_formats F d)
     \<and> unat (current_format_template_max_index s) = length (log_templates d)"

definition threads_in_step :: "(u64 \<Rightarrow> u8 list) \<Rightarrow> appender \<Rightarrow> decoder \<Rightarrow> bool" where
  "threads_in_step N s d \<longleftrightarrow> caches_know 64 (thread_l1 s) (thread_l2 s) (known_threads N (current_thread_info_max_index s) d)
     \<and> (last_thread_id s \<noteq> 0xFFFFFFFFFFFFFFFF \<longrightarrow> (last_thread_id s, last_thread_info_idx s) \<in> known_threads N (current_thread_info_max_index s) d)"

definition in_step :: "(u64 \<Rightarrow> format_template) \<Rightarrow> (u64 \<Rightarrow> u8 list) \<Rightarrow> appender \<Rightarrow> decoder \<Rightarrow> bool" where
  "in_step F N s d \<longleftrightarrow> formats_in_step F s d \<and> threads_in_step N s d \<and> last_log_entry_epoch s = decoder_epoch d"

lemma caches_know_mono: "caches_know n l1 l2 known \<Longrightarrow> known \<subseteq> known' \<Longrightarrow> caches_know n l1 l2 known'"
  unfolding caches_know_def using l1_knows_mono by blast

lemma cached_index:
  assumes "caches_know n l1 l2 known" "next_index \<noteq> cache_empty" "n = unat l1_size" "0 < n"
  shows "\<exists>idx new l1' l2'. template_index hc_find (hc_insert_token alloc) l1_size l1 l2 next_index key = Some (idx, new, l1', l2')
    \<and> (if new then idx = next_index \<and> caches_know n l1' l2' (insert (key, idx) known) else (key, idx) \<in> known \<and> caches_know n l1' l2' known)"
proof -
  have k: "cache_ok l2" "l1_knows l1 known" "\<forall>k v. hc_map l2 k = Some v \<longrightarrow> (k, v) \<in> known" "length l1 = unat l1_size" "0 < length l1"
    using assms by (simp_all add: caches_know_def)
  show ?thesis
    using tc.template_index_known [OF k(1-3) assms(2) k(4,5), where alloc = alloc and key = key] k(3,4) assms(3)
    unfolding caches_know_def by (metis (no_types, lifting))
qed

lemma format_step:
  assumes c: "call_ok categories c" and s: "formats_in_step F s d" and F: "F (format_key hash c) = call_template c"
    and n: "length (log_templates d) < 2 ^ 32 - 1"
  shows "\<exists>idx item l1 l2 n' ts. log_format hash t alloc s (call_head hash c) (call_format c)
      = Some (idx, item, s\<lparr>format_l1 := l1, format_l2 := l2, current_format_template_max_index := n'\<rparr>)
    \<and> (item = [] \<and> ts = [] \<or> format_item t c item \<and> ts = [call_template c]) \<and> (\<forall>rest. decode_private t' simd categories behind d (item @ rest) = decode_private t' simd categories behind (d\<lparr>log_templates := log_templates d @ ts\<rparr>) rest)
    \<and> formats_in_step F (s\<lparr>format_l1 := l1, format_l2 := l2, current_format_template_max_index := n'\<rparr>) (d\<lparr>log_templates := log_templates d @ ts\<rparr>)
    \<and> (format_key hash c, idx) \<in> known_formats F (d\<lparr>log_templates := log_templates d @ ts\<rparr>)"
proof -
  let ?i = "current_format_template_max_index s" and ?k = "format_key hash c" and ?d = "d\<lparr>log_templates := log_templates d @ [call_template c]\<rparr>"
  have i: "unat ?i = length (log_templates d)" and k: "caches_know 256 (format_l1 s) (format_l2 s) (known_formats F d)"
    using s by (simp_all add: formats_in_step_def)
  have ne: "?i \<noteq> cache_empty" using i n by (auto simp: cache_empty_def)
  obtain idx new l1 l2 where t: "template_index hc_find (hc_insert_token alloc) 256 (format_l1 s) (format_l2 s) ?i ?k = Some (idx, new, l1, l2)"
    "if new then idx = ?i \<and> caches_know 256 l1 l2 (insert (?k, idx) (known_formats F d)) else (?k, idx) \<in> known_formats F d \<and> caches_know 256 l1 l2 (known_formats F d)"
    using cached_index [OF k ne, of 256 alloc ?k] by auto
  have key: "get_format_template_hash (head_level (call_head hash c)) (category_idx (call_head hash c))
      (if format_hash (call_head hash c) = 0 then hash (call_format c) else format_hash (call_head hash c)) = ?k"
    by (simp add: format_key_def call_head_def)
  have head: "log_format_str_type (call_head hash c) = arg_code (call_type c)" "head_level (call_head hash c) = call_level c"
    "category_idx (call_head hash c) = call_category c" "log_format_data_len (call_head hash c) = of_nat (length (call_format c))"
    by (simp_all add: call_head_def)
  show ?thesis
  proof (cases new)
    case False
    then have "log_format hash t alloc s (call_head hash c) (call_format c) = Some (idx, [], s\<lparr>format_l1 := l1, format_l2 := l2, current_format_template_max_index := ?i\<rparr>)"
      using t(1) unfolding log_format_def Let_def key by simp
    then show ?thesis
      using False t(2) i by (intro exI [of _ idx] exI [of _ "[]"] exI [of _ l1] exI [of _ l2] exI [of _ ?i])
        (simp add: formats_in_step_def known_formats_def)
  next
    case True
    obtain item where item: "write_format_template t (call_head hash c) (call_format c) 0 = Some item" "format_item t c item"
      using write_format_item [OF c head, where t = t] by blast
    have w: "log_format hash t alloc s (call_head hash c) (call_format c) = Some (idx, item, s\<lparr>format_l1 := l1, format_l2 := l2, current_format_template_max_index := ?i + 1\<rparr>)"
      using True t(1) item(1) unfolding log_format_def Let_def key by simp
    have sub: "insert (?k, idx) (known_formats F d) \<subseteq> known_formats F ?d"
      using True t(2) i F by (auto simp: known_formats_def nth_append)
    then have "caches_know 256 l1 l2 (known_formats F ?d)" using True t(2) caches_know_mono by auto
    moreover have "unat (?i + 1) = length (log_templates ?d)" using i n by (simp add: unat_word_ariths)
    ultimately show ?thesis
      using w item(2) sub decode_format_item [OF c item(2), of t' simd behind d] by (intro exI [of _ idx] exI [of _ item] exI [of _ l1] exI [of _ l2] exI [of _ "?i + 1"] exI [of _ "[call_template c]"])
        (simp add: formats_in_step_def known_formats_def)
  qed
qed

lemma known_threads_mono: "n \<le> n' \<Longrightarrow> known_threads N n d \<subseteq> known_threads N n' d"
  by (auto simp: known_threads_def)

lemma thread_step:
  assumes c: "call_ok categories c" and s: "threads_in_step N s d" and N: "N (call_thread c) = take 16 (call_thread_name c)"
    and n: "unat (current_thread_info_max_index s) < 2 ^ 32 - 1"
  shows "\<exists>idx item l1 l2 n' threads. log_thread alloc s (call_head hash c) (call_entry hash c)
      = Some (idx, item, s\<lparr>thread_l1 := l1, thread_l2 := l2, last_thread_id := call_thread c, last_thread_info_idx := idx, current_thread_info_max_index := n'\<rparr>)
    \<and> (item = [] \<or> thread_item item) \<and> unat n' \<le> unat (current_thread_info_max_index s) + 1
    \<and> (\<forall>rest. decode_private t' simd categories behind d (item @ rest) = decode_private t' simd categories behind (d\<lparr>thread_info_templates := threads\<rparr>) rest)
    \<and> threads_in_step N (s\<lparr>thread_l1 := l1, thread_l2 := l2, last_thread_id := call_thread c, last_thread_info_idx := idx, current_thread_info_max_index := n'\<rparr>)
         (d\<lparr>thread_info_templates := threads\<rparr>)
    \<and> threads (ucast idx) = Some (call_thread c, take 16 (call_thread_name c))"
proof -
  let ?i = "current_thread_info_max_index s" and ?tid = "call_thread c" and ?h = "call_head hash c"
  have k: "caches_know 64 (thread_l1 s) (thread_l2 s) (known_threads N ?i d)"
    and last: "last_thread_id s \<noteq> 0xFFFFFFFFFFFFFFFF \<Longrightarrow> (last_thread_id s, last_thread_info_idx s) \<in> known_threads N ?i d"
    using s by (simp_all add: threads_in_step_def)
  have tid: "log_thread_id ?h = ?tid" "?tid \<noteq> 0xFFFFFFFFFFFFFFFF" using c by (simp_all add: call_head_def call_ok_def)
  have ne: "?i \<noteq> cache_empty" using n by (auto simp: cache_empty_def)
  show ?thesis
  proof (cases "?tid = last_thread_id s")
    case True
    then have "log_thread alloc s ?h (call_entry hash c) = Some (last_thread_info_idx s, [], s)"
      by (simp add: log_thread_def tid(1))
    moreover have "s = s\<lparr>thread_l1 := thread_l1 s, thread_l2 := thread_l2 s, last_thread_id := ?tid, last_thread_info_idx := last_thread_info_idx s,
        current_thread_info_max_index := ?i\<rparr>" using True by simp
    ultimately show ?thesis
      using True s last tid(2) N by (intro exI [of _ "last_thread_info_idx s"] exI [of _ "[]"] exI [of _ "thread_l1 s"] exI [of _ "thread_l2 s"] exI [of _ ?i]
          exI [of _ "thread_info_templates d"]) (simp add: known_threads_def)
  next
    case new_thread: False
    obtain idx new l1 l2 where t: "template_index hc_find (hc_insert_token alloc) 64 (thread_l1 s) (thread_l2 s) ?i ?tid = Some (idx, new, l1, l2)"
      "if new then idx = ?i \<and> caches_know 64 l1 l2 (insert (?tid, idx) (known_threads N ?i d)) else (?tid, idx) \<in> known_threads N ?i d \<and> caches_know 64 l1 l2 (known_threads N ?i d)"
      using cached_index [OF k ne, of 64 alloc ?tid] by auto
    show ?thesis
    proof (cases new)
      case False
      then have "log_thread alloc s ?h (call_entry hash c) = Some (idx, [], s\<lparr>thread_l1 := l1, thread_l2 := l2, last_thread_id := ?tid, last_thread_info_idx := idx,
          current_thread_info_max_index := ?i\<rparr>)"
        using new_thread t(1) unfolding log_thread_def Let_def tid(1) by simp
      then show ?thesis
        using False t(2) N by (intro exI [of _ idx] exI [of _ "[]"] exI [of _ l1] exI [of _ l2] exI [of _ ?i] exI [of _ "thread_info_templates d"])
          (simp add: threads_in_step_def known_threads_def)
    next
      case True
      let ?threads = "(thread_info_templates d)(ucast ?i \<mapsto> (?tid, take 16 (call_thread_name c)))"
      let ?d = "d\<lparr>thread_info_templates := ?threads\<rparr>"
      obtain item where item: "write_thread_info_template ?i ?tid (take 16 (call_thread_name c)) = Some item" "thread_item item"
        "\<forall>d rest. decode_private t' simd categories behind d (item @ rest)
         = decode_private t' simd categories behind (d\<lparr>thread_info_templates := (thread_info_templates d)(ucast ?i \<mapsto> (?tid, take 16 (call_thread_name c)))\<rparr>) rest"
        using write_thread_item [of "take 16 (call_thread_name c)" ?i ?tid t' simd categories behind] by auto
      have w: "log_thread alloc s ?h (call_entry hash c) = Some (idx, item, s\<lparr>thread_l1 := l1, thread_l2 := l2, last_thread_id := ?tid, last_thread_info_idx := idx,
          current_thread_info_max_index := ?i + 1\<rparr>)"
        using new_thread True t(1) item(1) call_entry_reads(5) [OF c, of hash] unfolding log_thread_def Let_def tid(1) by simp
      have i1: "unat (?i + 1) = unat ?i + 1" using n by (simp add: unat_word_ariths)
      have diff: "ucast v \<noteq> (ucast ?i :: u64)" if "v < ?i" for v
      proof -
        have "unat (ucast v :: u64) = unat v" "unat (ucast ?i :: u64) = unat ?i"
          using unat_lt2p [of v] unat_lt2p [of ?i] by (simp_all add: unsigned_ucast_eq take_bit_nat_eq_self)
        then show ?thesis using that unfolding word_less_nat_alt by (metis less_irrefl)
      qed
      have "v < ?i + 1" if "v \<le> ?i" for v using that i1 by (simp add: word_less_nat_alt word_le_nat_alt)
      then have sub: "insert (?tid, idx) (known_threads N ?i d) \<subseteq> known_threads N (?i + 1) ?d"
        using True t(2) N diff by (auto simp: known_threads_def less_imp_le)
      then have "caches_know 64 l1 l2 (known_threads N (?i + 1) ?d)" using True t(2) caches_know_mono by auto
      then show ?thesis
        using w item(2,3) sub i1 True t(2) by (intro exI [of _ idx] exI [of _ item] exI [of _ l1] exI [of _ l2] exI [of _ "?i + 1"] exI [of _ ?threads])
          (simp add: threads_in_step_def)
    qed
  qed
qed

lemma log_impl_step:
  assumes c: "call_ok categories c" and s: "in_step F N s d" and F: "F (format_key hash c) = call_template c"
    and N: "N (call_thread c) = take 16 (call_thread_name c)"
    and n: "length (log_templates d) < 2 ^ 32 - 1" "unat (current_thread_info_max_index s) < 2 ^ 32 - 1"
  shows "\<exists>out s' d'. log_impl hash t alloc_f alloc_t s (call_entry hash c) = Some (True, out, s') \<and> in_step F N s' d'
    \<and> length (log_templates d') \<le> length (log_templates d) + 1
    \<and> (\<exists>ts. log_templates d' = log_templates d @ ts \<and> call_items t (decoder_epoch d) c ts out) \<and> decoder_epoch d' = call_epoch c
    \<and> unat (current_thread_info_max_index s') \<le> unat (current_thread_info_max_index s) + 1
    \<and> (\<forall>rest. decode_private t' simd categories behind d (out @ rest) = Some (Inr (decoded_entry c, d', rest)))"
proof -
  let ?h = "call_head hash c" and ?m = "call_entry hash c"
  note r = call_entry_reads [OF c, of hash]
  obtain fi f_item f1 f2 fn ts where f: "log_format hash t alloc_f s ?h (call_format c)
      = Some (fi, f_item, s\<lparr>format_l1 := f1, format_l2 := f2, current_format_template_max_index := fn\<rparr>)"
    "f_item = [] \<and> ts = [] \<or> format_item t c f_item \<and> ts = [call_template c]" "\<forall>rest. decode_private t' simd categories behind d (f_item @ rest) = decode_private t' simd categories behind (d\<lparr>log_templates := log_templates d @ ts\<rparr>) rest"
    "formats_in_step F (s\<lparr>format_l1 := f1, format_l2 := f2, current_format_template_max_index := fn\<rparr>) (d\<lparr>log_templates := log_templates d @ ts\<rparr>)"
    "(format_key hash c, fi) \<in> known_formats F (d\<lparr>log_templates := log_templates d @ ts\<rparr>)"
    using format_step [where s = s and F = F and hash = hash and t = t and alloc = alloc_f and t' = t' and simd = simd and behind = behind, OF c _ F n(1)] s unfolding in_step_def by blast
  define s1 where "s1 = s\<lparr>format_l1 := f1, format_l2 := f2, current_format_template_max_index := fn\<rparr>"
  define d1 where "d1 = d\<lparr>log_templates := log_templates d @ ts\<rparr>"
  have "threads_in_step N s1 d1"
    using s by (simp add: in_step_def threads_in_step_def known_threads_def s1_def d1_def)
  moreover have "unat (current_thread_info_max_index s1) < 2 ^ 32 - 1" using n(2) by (simp add: s1_def)
  ultimately obtain ti t_item t1 t2 tn threads where t: "log_thread alloc_t s1 ?h ?m
      = Some (ti, t_item, s1\<lparr>thread_l1 := t1, thread_l2 := t2, last_thread_id := call_thread c, last_thread_info_idx := ti, current_thread_info_max_index := tn\<rparr>)"
    "t_item = [] \<or> thread_item t_item" "unat tn \<le> unat (current_thread_info_max_index s1) + 1"
    "\<forall>rest. decode_private t' simd categories behind d1 (t_item @ rest) = decode_private t' simd categories behind (d1\<lparr>thread_info_templates := threads\<rparr>) rest"
    "threads_in_step N (s1\<lparr>thread_l1 := t1, thread_l2 := t2, last_thread_id := call_thread c, last_thread_info_idx := ti, current_thread_info_max_index := tn\<rparr>)
         (d1\<lparr>thread_info_templates := threads\<rparr>)"
    "threads (ucast ti) = Some (call_thread c, take 16 (call_thread_name c))"
    using thread_step [where N = N and s = s1 and d = d1 and alloc = alloc_t and hash = hash and t' = t' and simd = simd and behind = behind, OF c _ N] by blast
  define s2 where "s2 = s1\<lparr>thread_l1 := t1, thread_l2 := t2, last_thread_id := call_thread c, last_thread_info_idx := ti, current_thread_info_max_index := tn\<rparr>"
  define d2 where "d2 = d1\<lparr>thread_info_templates := threads\<rparr>"
  obtain item where e: "write_log_entry t s2 ?h ?m fi ti = Some (item, s2\<lparr>last_log_entry_epoch := call_epoch c\<rparr>)"
    "entry_item (call_epoch c - last_log_entry_epoch s2) (length (call_args c)) item"
    "\<forall>d rest. decoder_epoch d = last_log_entry_epoch s2 \<longrightarrow> unat fi < length (log_templates d) \<longrightarrow> log_templates d ! unat fi = call_template c \<longrightarrow>
         thread_info_templates d (ucast ti) = Some (call_thread c, take 16 (call_thread_name c)) \<longrightarrow>
         decode_private t' simd categories behind d (item @ rest) = Some (Inr (decoded_entry c, d\<lparr>decoder_epoch := call_epoch c\<rparr>, rest))"
    using write_entry_item [OF c, where t = t and s = s2 and hash = hash and fi = fi and ti = ti and t' = t' and simd = simd and behind = behind] by blast
  let ?out = "f_item @ t_item @ item" and ?s = "s2\<lparr>last_log_entry_epoch := call_epoch c\<rparr>" and ?d = "d2\<lparr>decoder_epoch := call_epoch c\<rparr>"
  have "log_impl hash t alloc_f alloc_t s ?m = Some (True, ?out, ?s)"
    using f(1) t(1) e(1) r(6) unfolding log_impl_def r by (simp add: r(2) flip: s1_def s2_def)
  moreover have "in_step F N ?s ?d"
    using f(4) t(5) by (simp add: in_step_def formats_in_step_def threads_in_step_def known_formats_def known_threads_def s1_def d1_def s2_def d2_def)
  moreover have "decode_private t' simd categories behind d (?out @ rest) = Some (Inr (decoded_entry c, ?d, rest))" for rest
  proof -
    have "decoder_epoch d2 = last_log_entry_epoch s2" using s by (simp add: d1_def d2_def s1_def s2_def in_step_def)
    moreover have "unat fi < length (log_templates d2) \<and> log_templates d2 ! unat fi = call_template c"
      using f(5) F by (simp add: known_formats_def d1_def d2_def)
    moreover have "thread_info_templates d2 (ucast ti) = Some (call_thread c, take 16 (call_thread_name c))" using t(6) by (simp add: d2_def)
    ultimately have "decode_private t' simd categories behind d2 (item @ rest) = Some (Inr (decoded_entry c, ?d, rest))" using e(3) by blast
    then show ?thesis using f(3) t(4) by (simp flip: d1_def d2_def)
  qed
  moreover have "call_items t (decoder_epoch d) c ts ?out"
    unfolding call_items_def using f(2) t(2) e(2) s by (intro exI [of _ f_item] exI [of _ t_item] exI [of _ item]) (simp add: in_step_def s1_def s2_def)
  moreover have "log_templates ?d = log_templates d @ ts" by (simp add: d1_def d2_def)
  moreover have "decoder_epoch ?d = call_epoch c" by simp
  moreover have "length (log_templates ?d) \<le> length (log_templates d) + 1" using f(2) by (auto simp: d1_def d2_def)
  moreover have "unat (current_thread_info_max_index ?s) \<le> unat (current_thread_info_max_index s) + 1" using t(3) by (simp add: s1_def s2_def)
  ultimately show ?thesis by blast
qed

text \<open>A run of entries; \<open>alloc_f i\<close> and \<open>alloc_t i\<close> are the allocations at the \<open>i\<close>-th of them, each entry may meet other ones.\<close>

fun log_all :: "(u8 list \<Rightarrow> u64) \<Rightarrow> simd_target \<Rightarrow> (nat \<Rightarrow> u32 \<Rightarrow> (nat \<Rightarrow> u64) option) \<Rightarrow> (nat \<Rightarrow> u32 \<Rightarrow> (nat \<Rightarrow> u64) option) \<Rightarrow> appender \<Rightarrow> mem list
    \<Rightarrow> (bool list \<times> u8 list \<times> appender) option" where
  "log_all hash t alloc_f alloc_t s [] = Some ([], [], s)"
| "log_all hash t alloc_f alloc_t s (m # ms) = Option.bind (log_impl hash t (alloc_f 0) (alloc_t 0) s m) (\<lambda>(ok, out, s).
     map_option (\<lambda>(oks, outs, s). (ok # oks, out @ outs, s)) (log_all hash t (\<lambda>i. alloc_f (Suc i)) (\<lambda>i. alloc_t (Suc i)) s ms))"

lemma log_all_step:
  assumes "\<forall>c \<in> set cs. call_ok categories c \<and> F (format_key hash c) = call_template c \<and> N (call_thread c) = take 16 (call_thread_name c)"
    and "in_step F N s d" "length (log_templates d) + length cs < 2 ^ 32" "unat (current_thread_info_max_index s) + length cs < 2 ^ 32"
  shows "\<exists>out s' d'. log_all hash t alloc_f alloc_t s (map (call_entry hash) cs) = Some (replicate (length cs) True, out, s') \<and> in_step F N s' d'
    \<and> (\<forall>rest. decode_all t' simd categories behind d (out @ rest) = map_option (\<lambda>(ms, r). (map decoded_entry cs @ ms, r)) (decode_all t' simd categories behind d' rest))"
  using assms
proof (induction cs arbitrary: s d alloc_f alloc_t)
  case Nil
  then show ?case by (intro exI [of _ "[]"] exI [of _ s] exI [of _ d]) (simp add: option.map_ident)
next
  case (Cons c cs)
  have "length (log_templates d) < 2 ^ 32 - 1" "unat (current_thread_info_max_index s) < 2 ^ 32 - 1" using Cons.prems(3,4) by simp_all
  then obtain out1 s1 d1 where o: "log_impl hash t (alloc_f 0) (alloc_t 0) s (call_entry hash c) = Some (True, out1, s1)" "in_step F N s1 d1"
    "length (log_templates d1) \<le> length (log_templates d) + 1"
    "unat (current_thread_info_max_index s1) \<le> unat (current_thread_info_max_index s) + 1"
    "\<forall>rest. decode_private t' simd categories behind d (out1 @ rest) = Some (Inr (decoded_entry c, d1, rest))"
    using log_impl_step [where categories = categories and c = c and F = F and N = N and s = s and d = d and hash = hash and t = t
        and alloc_f = "alloc_f 0" and alloc_t = "alloc_t 0" and t' = t' and simd = simd and behind = behind] Cons.prems(1,2) by auto
  obtain out s2 d2 where a: "log_all hash t (\<lambda>i. alloc_f (Suc i)) (\<lambda>i. alloc_t (Suc i)) s1 (map (call_entry hash) cs) = Some (replicate (length cs) True, out, s2)" "in_step F N s2 d2"
    "\<forall>rest. decode_all t' simd categories behind d1 (out @ rest) = map_option (\<lambda>(ms, r). (map decoded_entry cs @ ms, r)) (decode_all t' simd categories behind d2 rest)"
    using Cons.IH [OF _ o(2), of "\<lambda>i. alloc_f (Suc i)" "\<lambda>i. alloc_t (Suc i)"] Cons.prems(1,3,4) o(3,4) by auto
  have "decode_all t' simd categories behind d ((out1 @ out) @ rest)
      = map_option (\<lambda>(ms, r). (map decoded_entry (c # cs) @ ms, r)) (decode_all t' simd categories behind d2 rest)" for rest
    using o(5) a(3) by (subst decode_all.simps) (simp add: option.map_comp comp_def case_prod_unfold)
  moreover have "log_all hash t alloc_f alloc_t s (map (call_entry hash) (c # cs)) = Some (replicate (length (c # cs)) True, out1 @ out, s2)"
    using o(1) a(1) by simp
  ultimately show ?case using a(2) by blast
qed

text \<open>A fresh writer and a fresh reader are in step.\<close>

definition appender_ok :: "appender \<Rightarrow> bool" where
  "appender_ok s \<longleftrightarrow> hc_reachable 0x1000000 (format_l2 s) \<and> hc_reachable 0x100000 (thread_l2 s) \<and> length (format_l1 s) = 256 \<and> length (thread_l1 s) = 64"

lemma length_reset: "length (reset_l1 l1) = length l1"
  by (simp add: reset_l1_def)

lemma reset_in_step: "appender_ok s \<Longrightarrow> in_step F N (appender_reset s) decoder_init"
proof -
  assume s: "appender_ok s"
  then have "hc_reachable 0x1000000 (hc_clear (format_l2 s))" "hc_reachable 0x100000 (hc_clear (thread_l2 s))"
    by (simp_all add: appender_ok_def hc_cleared)
  note reachable_ok [OF this(1)] reachable_ok [OF this(2)]
  then have "cache_ok (hc_clear (format_l2 s))" "cache_ok (hc_clear (thread_l2 s))" by simp_all
  moreover have "hc_map (hc_clear c) = Map.empty" for c by (rule hc_map_empty) (simp add: hc_clear_def)
  ultimately show ?thesis
    using s by (simp add: in_step_def formats_in_step_def threads_in_step_def caches_know_def appender_reset_def decoder_init_def appender_ok_def length_reset)
qed

lemma some_same: "\<forall>x \<in> A. \<forall>y \<in> A. f x = f y \<longrightarrow> g x = g y \<Longrightarrow> x \<in> A \<Longrightarrow> g (SOME y. y \<in> A \<and> f y = f x) = g x"
  by (rule someI2 [of _ x]) blast+

text \<open>
  C1. A compressed log file gives back the calls that were written to it, in order, each with its time, level, category, thread and thread
  name, with its format and wide texts as UTF-8 and its other arguments unchanged, and reading ends at the end of the file. It does not matter
  which templates the caches forgot, which allocations failed when, and what the reader's cache holds behind the items. The calls are
  those of \<open>call_ok\<close>: no text argument begins with a null character, the thread id is not the largest 64-bit number, the
  category has a name, the format and the arguments are shorter than 2^29 bytes, and a wide format has whole units. Two calls with
  the same 64-bit format key must have the same template, and a thread id must keep its name (its first 16 bytes).
\<close>

theorem compressed_log_roundtrip:
  assumes "\<forall>c \<in> set cs. call_ok categories c" and "length cs < 2 ^ 32" and "appender_ok s"
    and "\<forall>c \<in> set cs. \<forall>c' \<in> set cs. format_key hash c = format_key hash c' \<longrightarrow> call_template c = call_template c'"
    and "\<forall>c \<in> set cs. \<forall>c' \<in> set cs. call_thread c = call_thread c' \<longrightarrow> take 16 (call_thread_name c) = take 16 (call_thread_name c')"
  shows "\<exists>out s'. log_all hash t alloc_f alloc_t (appender_reset s) (map (call_entry hash) cs) = Some (replicate (length cs) True, out, s')
    \<and> decode_all t' simd categories behind decoder_init out = Some (map decoded_entry cs, Decode_eof)"
proof -
  define F where "F k = call_template (SOME c. c \<in> set cs \<and> format_key hash c = k)" for k
  define N where "N k = take 16 (call_thread_name (SOME c. c \<in> set cs \<and> call_thread c = k))" for k
  have "F (format_key hash c) = call_template c" if "c \<in> set cs" for c
    unfolding F_def by (rule some_same [OF assms(4) that])
  moreover have "N (call_thread c) = take 16 (call_thread_name c)" if "c \<in> set cs" for c
    unfolding N_def by (rule some_same [OF assms(5) that])
  ultimately have "\<forall>c \<in> set cs. call_ok categories c \<and> F (format_key hash c) = call_template c \<and> N (call_thread c) = take 16 (call_thread_name c)"
    using assms(1) by blast
  moreover have "length (log_templates decoder_init) + length cs < 2 ^ 32" "unat (current_thread_info_max_index (appender_reset s)) + length cs < 2 ^ 32"
    using assms(2) by (simp_all add: decoder_init_def appender_reset_def)
  ultimately obtain out s' d' where o: "log_all hash t alloc_f alloc_t (appender_reset s) (map (call_entry hash) cs) = Some (replicate (length cs) True, out, s')"
    "\<forall>rest. decode_all t' simd categories behind decoder_init (out @ rest) = map_option (\<lambda>(ms, r). (map decoded_entry cs @ ms, r)) (decode_all t' simd categories behind d' rest)"
    using log_all_step [where alloc_f = alloc_f and alloc_t = alloc_t and t = t and t' = t' and simd = simd and behind = behind, OF _ reset_in_step [OF assms(3)]] by blast
  have "decode_all t' simd categories behind d' [] = Some ([], Decode_eof)"
    by (subst decode_all.simps, subst decode_private.simps) (simp add: read_item_data_def)
  then have "decode_all t' simd categories behind decoder_init out = Some (map decoded_entry cs, Decode_eof)" using spec [OF o(2), of "[]"] by simp
  with o(1) show ?thesis by blast
qed


text \<open>Two calls of two threads: the second one has another format, its name is cut, and its text is wide.\<close>

definition sample_calls :: "log_call list" where
  "sample_calls =
     [\<lparr>call_known = True, call_epoch = 1700000000000, call_level = 2, call_category = 0, call_type = String_utf8_type, call_format = [123, 125],
       call_args = [Arg_int32 (- 5)], call_thread = 11, call_thread_name = [109]\<rparr>,
      \<lparr>call_known = False, call_epoch = 1699999999999, call_level = 4, call_category = 1, call_type = String_utf16_type, call_format = [0x2D, 0x4E],
       call_args = [Arg_utf32 (Some (1, [0x4E2D, 0, 0]))], call_thread = 12, call_thread_name = replicate 20 120\<rparr>]"

definition sample_appender :: appender where
  "sample_appender = \<lparr>format_l1 = replicate 256 (0, 0), thread_l1 = replicate 64 (0, 0), format_l2 = hcache_new 0x1000000 100000,
     thread_l2 = hcache_new 0x100000 2048, last_thread_id = 0, last_thread_info_idx = 0, current_format_template_max_index = 0,
     current_thread_info_max_index = 0, last_log_entry_epoch = 0\<rparr>"

lemma sample_calls_ok: "\<forall>c \<in> set sample_calls. call_ok 2 c"
proof -
  have u: "length (utf16_to_utf8_sw [0x4E2D]) = 3" by code_simp
  have a: "\<forall>a \<in> {Arg_int32 (- 5), Arg_utf32 (Some (1, [0x4E2D, 0, 0]))}. arg_ok a \<and> no_leading_null a \<and> arg_ok (as_utf8 a)"
    by (simp add: arg_ok_def no_leading_null_def text_of_def source32_def text32_def utf16_units_def as_utf8_def chars_or_null_def u del: utf16_to_utf8_sw.simps)
  have f: "log_args_fill [a] = Some (arg_cells a)" if "arg_ok a" for a using log_args_fill_cells [of "[a]"] that by simp
  have "length (arg_cells (Arg_int32 (- 5))) = 8" "length (arg_cells (Arg_utf32 (Some (1, [0x4E2D, 0, 0])))) = 12"
    by (simp_all add: pod_cells_def length_pod_copy length_text_cells text_of_def source32_def text32_def utf16_units_def align_4_def)
  then show ?thesis using a by (simp add: sample_calls_def call_ok_def f del: log_args_fill.simps arg_cells.simps)
qed

lemma sample_appender_ok: "appender_ok sample_appender"
  by (simp add: appender_ok_def sample_appender_def hc_init)

theorem compressed_log_roundtrip_witness:
  "\<exists>out s'. log_all (\<lambda>b. of_nat (length b)) Simd_neon (\<lambda>i n. if i = 0 then None else Some (\<lambda>_. 0)) (\<lambda>i n. None) (appender_reset sample_appender)
       (map (call_entry (\<lambda>b. of_nat (length b))) sample_calls) = Some (replicate (length sample_calls) True, out, s')
    \<and> decode_all Simd_none False 2 id decoder_init out = Some (map decoded_entry sample_calls, Decode_eof)"
proof (rule compressed_log_roundtrip [OF sample_calls_ok _ sample_appender_ok])
  show "\<forall>c \<in> set sample_calls. \<forall>c' \<in> set sample_calls. format_key (\<lambda>b. of_nat (length b)) c = format_key (\<lambda>b. of_nat (length b)) c' \<longrightarrow> call_template c = call_template c'"
    by (simp add: sample_calls_def format_key_def get_format_template_hash_def)
qed (simp_all add: sample_calls_def)

end
