(* ===== verification/Compressed_Reopen.thy ===== *)
theory Compressed_Reopen
  imports Compressed_Roundtrip
begin

text \<open>
  Going on with a compressed file: \<open>appender_file_compressed::parse_exist_log_file\<close> reads the file a former run has left and restores the indices of
  its formats and the time base, so that the calls logged from then on extend the file.
\<close>

section \<open>Inserting what was read\<close>

lemma insert_known:
  assumes c: "cache_ok c" and v: "v \<noteq> invalid_value"
  shows "\<exists>d. hc_insert alloc c k v = Some d \<and> cache_ok d \<and> (\<forall>k' v'. hc_map d k' = Some v' \<longrightarrow> hc_map c k' = Some v' \<or> k' = k \<and> v' = v)"
proof -
  have new: ?thesis if "hc_map c k = None" "hc_insert alloc c k v = insert_new alloc c k v no_token"
    using insert_new_returns [where alloc = alloc and k = k and t = no_token, OF c v _ that(1)] that(2)
    by (auto simp: token_ok_def split: if_splits)
  show ?thesis
  proof (cases "hc_values c = []")
    case True
    then have "hc_map c k = None" using c by (simp add: hc_map_empty cache_ok_def)
    then show ?thesis using True by (intro new) (auto simp: hc_insert_def find_slot_or_empty_def)
  next
    case False
    then have t: "hc_bound c" "hc_table c" "unat (hc_size c) < hc_n c" using c by (auto simp: cache_ok_def)
    show ?thesis
    proof (rule find_slot_cases [OF t, of k])
      fix i assume i: "i < hc_n c" "find_slot_or_empty c k = Some (True, of_nat i)" "occ (hc_values c) i" "unat (of_nat i :: u32) = i" "hc_keys c ! i = k"
      then show ?thesis using update_returns [OF c _ _ _ v, of i] by (auto simp: hc_insert_def split: if_splits)
    next
      fix i assume "find_slot_or_empty c k = Some (False, of_nat i)" "hc_map c k = None"
      then show ?thesis by (intro new) (auto simp: hc_insert_def)
    qed
  qed
qed

lemma caches_know_insert:
  assumes "caches_know n l1 l2 known" "v \<noteq> cache_empty" "insert (k, v) known \<subseteq> known'"
  shows "\<exists>l2'. hc_insert alloc l2 k v = Some l2' \<and> caches_know n l1 l2' known'"
proof -
  have "v \<noteq> invalid_value" using assms(2) by (simp add: cache_empty_def invalid_value_def)
  then obtain d where "hc_insert alloc l2 k v = Some d" "cache_ok d" "\<forall>k' v'. hc_map d k' = Some v' \<longrightarrow> hc_map l2 k' = Some v' \<or> k' = k \<and> v' = v"
    using insert_known [of l2 v alloc k] assms(1) unfolding caches_know_def by blast
  then show ?thesis using assms(1,3) l1_knows_mono [of l1 known known'] unfolding caches_know_def by blast
qed

section \<open>Reading the items\<close>

lemma put_item_suffix: "put_item ty max_size body = Some item \<Longrightarrow> \<exists>h. item = h @ body"
  by (auto simp: put_item_def Let_def split: if_splits)

lemma parse_template:
  assumes "put_item 0 max_size (sub # data) = Some item" "data \<noteq> []" "length data < 2 ^ 31" "6 \<le> length (item @ rest)"
  shows "parse_items hash hash_mixed categories behind alloc p (item @ rest) =
    Option.bind (if sub = format_template_utf8 \<or> sub = format_template_utf16 then reparse_format hash hash_mixed categories (alloc 0) sub p data
                 else if sub = thread_info_template then Some (if data = [] then None else Some p) else Some None)
      (\<lambda>r. case r of None \<Rightarrow> Some None | Some p \<Rightarrow> parse_items hash hash_mixed categories behind (\<lambda>i. alloc (Suc i)) p rest)"
proof -
  have l: "2 \<le> length (sub # data)" "length (sub # data) < 2 ^ 32" using assms(2,3) by (cases data; simp)+
  note r = put_item_read(2) [OF assms(1) _ l] put_item_read(3) [OF assms(1) _ l, of rest]
  obtain h where h: "item = h @ sub # data" using put_item_suffix [OF assms(1)] by blast
  then have "take (length data + 1) (drop (length item - length (sub # data)) (item @ rest)) = sub # data"
    "drop (length item) (item @ rest) = rest" by simp_all
  then show ?thesis
    using r l(1) assms(2,4) by (subst parse_items.simps) (simp add: item_log_template_def not_less)
qed


text \<open>The state of the writer while it reads: nothing is known of the threads.\<close>

definition restoring :: "(u64 \<Rightarrow> format_template) \<Rightarrow> (u64 \<Rightarrow> u8 list) \<Rightarrow> appender \<Rightarrow> decoder \<Rightarrow> bool" where
  "restoring F N p d \<longleftrightarrow> in_step F N p d \<and> current_thread_info_max_index p = 0"

lemma known_threads_none: "known_threads N 0 d = {}"
  by (simp add: known_threads_def)

lemma parse_format_item:
  assumes c: "call_ok categories c" "call_level c \<le> 5" and i: "format_item t c item" and p: "restoring F N p d"
    and F: "F (format_key hash c) = call_template c" and n: "length (log_templates d) < 2 ^ 32 - 1"
    and h: "\<And>us. length us < 2 ^ 29 \<Longrightarrow> hash_mixed (mixed_text t (unit_bytes us)) = hash (unit_bytes us)"
  shows "\<exists>p'. restoring F N p' (d\<lparr>log_templates := log_templates d @ [call_template c]\<rparr>) \<and> (\<forall>rest. 6 \<le> length (item @ rest) \<longrightarrow>
    parse_items hash hash_mixed categories behind alloc p (item @ rest) = parse_items hash hash_mixed categories behind (\<lambda>i. alloc (Suc i)) p' rest)"
proof -
  let ?utf8 = "call_type c = String_utf8_type" and ?d = "d\<lparr>log_templates := log_templates d @ [call_template c]\<rparr>"
    and ?i = "current_format_template_max_index p" and ?k = "format_key hash c"
  obtain max_size str sub where item: "put_item 0 max_size (sub # call_level c # vlq_encode (ucast (call_category c)) @ str) = Some item"
    and ls: "length str < 2 ^ 30" and kind: "if ?utf8 then sub = format_template_utf8 \<and> str = call_format c
        else sub = format_template_utf16 \<and> (\<exists>us. call_format c = unit_bytes us \<and> length us < 2 ^ 29 \<and> str = mixed_text t (unit_bytes us))"
    using i unfolding format_item_def by blast
  have sub: "sub = (if ?utf8 then format_template_utf8 else format_template_utf16)" using kind by (simp split: if_splits)
  have hs: "(if sub = format_template_utf8 then hash str else hash_mixed str) = hash (call_format c)"
    using kind h by (auto simp: format_template_utf8_def format_template_utf16_def split: if_splits)
  have s: "formats_in_step F p d" "threads_in_step N p d" "last_log_entry_epoch p = decoder_epoch d" "current_thread_info_max_index p = 0"
    using p by (simp_all add: restoring_def in_step_def)
  have k: "caches_know 256 (format_l1 p) (format_l2 p) (known_formats F d)" and u: "unat ?i = length (log_templates d)"
    using s(1) by (simp_all add: formats_in_step_def)
  have ne: "?i \<noteq> cache_empty" using u n by (auto simp: cache_empty_def)
  have "insert (?k, ?i) (known_formats F d) \<subseteq> known_formats F ?d" using u F by (auto simp: known_formats_def nth_append)
  then obtain l2 where l2: "hc_insert (alloc 0) (format_l2 p) ?k ?i = Some l2" "caches_know 256 (format_l1 p) l2 (known_formats F ?d)"
    using caches_know_insert [OF k ne] by blast
  let ?p = "p\<lparr>format_l2 := l2, current_format_template_max_index := ?i + 1\<rparr>"
  note v = length_vlq_ucast [where 'a = 32 and sz = 4 and v = "call_category c", simplified]
  have cat: "unat (ucast (call_category c) :: u64) < categories"
  proof -
    have "unat (ucast (call_category c) :: u64) \<le> unat (call_category c)" by (simp add: unsigned_ucast_eq take_bit_nat_less_eq_self)
    then show ?thesis using c(1) unfolding call_ok_def by linarith
  qed
  have ne2: "vlq_encode (ucast (call_category c)) \<noteq> []" using v by auto
  have "reparse_format hash hash_mixed categories (alloc 0) sub p (call_level c # vlq_encode (ucast (call_category c)) @ str) = Some (Some ?p)"
    using ne2 v c(2) cat l2(1) hs
    by (simp add: reparse_format_def read_vlq_ucast [where 'a = 32] ucast_down_ucast_id is_down not_less not_le format_key_def Let_def)
  then have "parse_items hash hash_mixed categories behind alloc p (item @ rest) = parse_items hash hash_mixed categories behind (\<lambda>i. alloc (Suc i)) ?p rest"
    if "6 \<le> length (item @ rest)" for rest
    using parse_template [OF item _ _ that, of hash hash_mixed categories behind alloc p] v ls by (simp add: sub split: if_splits)
  moreover have "unat (?i + 1) = length (log_templates ?d)" using u n by (simp add: unat_word_ariths)
  then have "restoring F N ?p ?d"
    using s l2(2) by (simp add: restoring_def in_step_def formats_in_step_def threads_in_step_def known_threads_none)
  ultimately show ?thesis by blast
qed

lemma parse_thread_item:
  assumes "thread_item item" "6 \<le> length (item @ rest)"
  shows "parse_items hash hash_mixed categories behind alloc p (item @ rest) = parse_items hash hash_mixed categories behind (\<lambda>i. alloc (Suc i)) p rest"
proof -
  obtain max_size data where "put_item 0 max_size (thread_info_template # data) = Some item" "data \<noteq> []" "length data < 31"
    using assms(1) unfolding thread_item_def by blast
  then show ?thesis
    using parse_template [OF _ _ _ assms(2), of max_size thread_info_template data hash hash_mixed categories behind alloc p]
    by (simp add: thread_info_template_def format_template_utf8_def format_template_utf16_def)
qed

lemma parse_entry_item:
  assumes "entry_item (e - last_log_entry_epoch p) n item" "n \<noteq> 0 \<or> rest \<noteq> []"
  shows "parse_items hash hash_mixed categories behind alloc p (item @ rest)
    = parse_items hash hash_mixed categories behind (\<lambda>i. alloc (Suc i)) (p\<lparr>last_log_entry_epoch := e\<rparr>) rest"
proof -
  let ?z = "vlq_encode (zigzag_encode (e - last_log_entry_epoch p))"
  obtain max_size r where i: "put_item 128 max_size (?z @ r) = Some item" "n + 2 \<le> length r" "length r < 2 ^ 31"
    using assms(1) unfolding entry_item_def by blast
  have l: "2 \<le> length (?z @ r)" "length (?z @ r) < 2 ^ 32" using i(2,3) length_vlq_any [of "zigzag_encode (e - last_log_entry_epoch p)"] by simp_all
  note h = put_item_read(2) [OF i(1) _ l] put_item_read(3) [OF i(1) _ l, of rest]
  obtain x where x: "item = x @ ?z @ r" using put_item_suffix [OF i(1)] by blast
  have "6 \<le> length (item @ rest)"
    using h(1) i(2) length_vlq_any [of "zigzag_encode (e - last_log_entry_epoch p)"] assms(2) by (cases rest) auto
  moreover have "reparse_log_entry (behind rest) p (?z @ r) = Some (Some (p\<lparr>last_log_entry_epoch := e\<rparr>))"
    using l(1) by (simp add: reparse_log_entry_def vlq_decode_8 zigzag_decode_encode)
  moreover have "take (length (?z @ r)) (drop (length item - length (?z @ r)) (item @ rest)) = ?z @ r" by (simp add: x)
  ultimately show ?thesis
    using h l(1) by (subst parse_items.simps) (simp add: item_log_template_def not_less)
qed


lemma parse_call:
  assumes c: "call_ok categories c" "call_level c \<le> 5" and i: "call_items t (decoder_epoch d) c ts out" and p: "restoring F N p d"
    and d: "log_templates d' = log_templates d @ ts" "decoder_epoch d' = call_epoch c"
    and F: "F (format_key hash c) = call_template c" and n: "length (log_templates d) < 2 ^ 32 - 1"
    and h: "\<And>us. length us < 2 ^ 29 \<Longrightarrow> hash_mixed (mixed_text t (unit_bytes us)) = hash (unit_bytes us)"
  shows "\<exists>p' k. restoring F N p' d' \<and> (\<forall>rest. call_args c \<noteq> [] \<or> rest \<noteq> [] \<longrightarrow>
    parse_items hash hash_mixed categories behind alloc p (out @ rest) = parse_items hash hash_mixed categories behind (\<lambda>i. alloc (k + i)) p' rest)"
proof -
  let ?parse = "parse_items hash hash_mixed categories behind"
  obtain f th e where out: "out = f @ th @ e" and f: "f = [] \<and> ts = [] \<or> format_item t c f \<and> ts = [call_template c]" and th: "th = [] \<or> thread_item th"
    and e: "entry_item (call_epoch c - decoder_epoch d) (length (call_args c)) e"
    using i unfolding call_items_def by blast
  have e6: "6 \<le> length (x @ e @ rest)" if "call_args c \<noteq> [] \<or> rest \<noteq> []" for x rest
  proof -
    obtain max_size r where r: "put_item 128 max_size (vlq_encode (zigzag_encode (call_epoch c - decoder_epoch d)) @ r) = Some e" "length (call_args c) + 2 \<le> length r" "length r < 2 ^ 31"
      using e unfolding entry_item_def by blast
    have "length r + 3 \<le> length e"
      using put_item_read(2) [OF r(1)] r(2,3) length_vlq_any [of "zigzag_encode (call_epoch c - decoder_epoch d)"] by simp
    moreover have "1 \<le> length (call_args c) + length rest" using that by (cases rest; cases "call_args c"; simp)
    ultimately show ?thesis using r(2) by simp
  qed
  let ?d = "d\<lparr>log_templates := log_templates d @ ts\<rparr>"
  have "\<exists>p1 k. restoring F N p1 ?d \<and> (\<forall>rest. call_args c \<noteq> [] \<or> rest \<noteq> [] \<longrightarrow>
      ?parse alloc p (f @ th @ e @ rest) = ?parse (\<lambda>i. alloc (k + i)) p1 (th @ e @ rest))"
  proof (cases "ts = []")
    case True
    then show ?thesis using f p by (intro exI [of _ p] exI [of _ 0]) simp
  next
    case False
    then have f: "format_item t c f" "ts = [call_template c]" using f by auto
    obtain p1 where p1: "restoring F N p1 ?d" "\<forall>rest. 6 \<le> length (f @ rest) \<longrightarrow> ?parse alloc p (f @ rest) = ?parse (\<lambda>i. alloc (Suc i)) p1 rest"
      using parse_format_item [where hash = hash and hash_mixed = hash_mixed and alloc = alloc and behind = behind and F = F, OF c f(1) p F n h] f(2) by blast
    have "?parse alloc p (f @ th @ e @ rest) = ?parse (\<lambda>i. alloc (1 + i)) p1 (th @ e @ rest)" if "call_args c \<noteq> [] \<or> rest \<noteq> []" for rest
      using p1(2) e6 [OF that, of "f @ th"] by simp
    then show ?thesis using p1(1) by blast
  qed
  then obtain p1 k where p1: "restoring F N p1 ?d" "\<forall>rest. call_args c \<noteq> [] \<or> rest \<noteq> [] \<longrightarrow>
      ?parse alloc p (f @ th @ e @ rest) = ?parse (\<lambda>i. alloc (k + i)) p1 (th @ e @ rest)"
    by blast
  define k' where "k' = (if th = [] then k else k + 1)"
  let ?p = "p1\<lparr>last_log_entry_epoch := call_epoch c\<rparr>"
  have "last_log_entry_epoch p1 = decoder_epoch d" using p1(1) by (simp add: restoring_def in_step_def)
  then have ee: "entry_item (call_epoch c - last_log_entry_epoch p1) (length (call_args c)) e" using e by simp
  have "?parse alloc p (out @ rest) = ?parse (\<lambda>i. alloc ((k' + 1) + i)) ?p rest" if r: "call_args c \<noteq> [] \<or> rest \<noteq> []" for rest
  proof -
    have "?parse (\<lambda>i. alloc (k + i)) p1 (th @ e @ rest) = ?parse (\<lambda>i. alloc (k' + i)) p1 (e @ rest)"
      using th parse_thread_item [OF _ e6 [OF r, of th], of hash hash_mixed categories behind "\<lambda>i. alloc (k + i)" p1] by (auto simp: k'_def)
    also have "\<dots> = ?parse (\<lambda>i. alloc (k' + Suc i)) ?p rest" using r by (intro parse_entry_item [OF ee]) simp
    finally show ?thesis using p1(2) r by (simp add: out)
  qed
  moreover have "restoring F N ?p d'"
    using p1(1) d by (auto simp: restoring_def in_step_def formats_in_step_def threads_in_step_def known_threads_none known_formats_def)
  ultimately show ?thesis by blast
qed


lemma log_all_parse:
  assumes "\<forall>c \<in> set cs. call_ok categories c \<and> call_level c \<le> 5 \<and> F (format_key hash c) = call_template c \<and> N (call_thread c) = take 16 (call_thread_name c)"
    and "in_step F N s d" "restoring F N p d" "length (log_templates d) + length cs < 2 ^ 32" "unat (current_thread_info_max_index s) + length cs < 2 ^ 32"
    and "cs \<noteq> [] \<longrightarrow> call_args (last cs) \<noteq> []"
    and h: "\<And>us. length us < 2 ^ 29 \<Longrightarrow> hash_mixed (mixed_text t (unit_bytes us)) = hash (unit_bytes us)"
  shows "\<exists>out s' d' p'. log_all hash t alloc_f alloc_t s (map (call_entry hash) cs) = Some (replicate (length cs) True, out, s') \<and> (cs \<noteq> [] \<longrightarrow> out \<noteq> [])
    \<and> restoring F N p' d' \<and> length (log_templates d') \<le> length (log_templates d) + length cs
    \<and> parse_items hash hash_mixed categories behind_w alloc p out = Some (Some p')
    \<and> (\<forall>rest. decode_all t' simd categories behind d (out @ rest) = map_option (\<lambda>(ms, r). (map decoded_entry cs @ ms, r)) (decode_all t' simd categories behind d' rest))"
  using assms(1-6)
proof (induction cs arbitrary: s d p alloc_f alloc_t alloc)
  case Nil
  have "parse_items hash hash_mixed categories behind_w alloc p [] = Some (Some p)" by (simp add: parse_items.simps)
  then show ?case using Nil.prems(3) by (intro exI [of _ "[]"] exI [of _ s] exI [of _ d] exI [of _ p]) (simp add: option.map_ident)
next
  case (Cons c cs)
  have c: "call_ok categories c" "call_level c \<le> 5" "F (format_key hash c) = call_template c" "N (call_thread c) = take 16 (call_thread_name c)"
    using Cons.prems(1) by simp_all
  have n: "length (log_templates d) < 2 ^ 32 - 1" "unat (current_thread_info_max_index s) < 2 ^ 32 - 1" using Cons.prems(4,5) by simp_all
  obtain out1 s1 d1 ts where o: "log_impl hash t (alloc_f 0) (alloc_t 0) s (call_entry hash c) = Some (True, out1, s1)" "in_step F N s1 d1"
    "length (log_templates d1) \<le> length (log_templates d) + 1" "log_templates d1 = log_templates d @ ts" "call_items t (decoder_epoch d) c ts out1"
    "decoder_epoch d1 = call_epoch c" "unat (current_thread_info_max_index s1) \<le> unat (current_thread_info_max_index s) + 1"
    "\<forall>rest. decode_private t' simd categories behind d (out1 @ rest) = Some (Inr (decoded_entry c, d1, rest))"
    using log_impl_step [where F = F and N = N and hash = hash and t = t and alloc_f = "alloc_f 0" and alloc_t = "alloc_t 0" and t' = t' and simd = simd and behind = behind,
      OF c(1) Cons.prems(2) c(3,4) n] by blast
  obtain p1 k where p1: "restoring F N p1 d1" "\<forall>rest. call_args c \<noteq> [] \<or> rest \<noteq> [] \<longrightarrow>
      parse_items hash hash_mixed categories behind_w alloc p (out1 @ rest) = parse_items hash hash_mixed categories behind_w (\<lambda>i. alloc (k + i)) p1 rest"
    using parse_call [where F = F and hash = hash and hash_mixed = hash_mixed and alloc = alloc and behind = behind_w, OF c(1,2) o(5) Cons.prems(3) o(4,6) c(3) n(1) h] by blast
  have last: "cs \<noteq> [] \<longrightarrow> call_args (last cs) \<noteq> []" "call_args c \<noteq> [] \<or> cs \<noteq> []" using Cons.prems(6) by (auto split: if_splits)
  obtain out2 s2 d2 p2 where a: "log_all hash t (\<lambda>i. alloc_f (Suc i)) (\<lambda>i. alloc_t (Suc i)) s1 (map (call_entry hash) cs) = Some (replicate (length cs) True, out2, s2)" "cs \<noteq> [] \<longrightarrow> out2 \<noteq> []"
    "restoring F N p2 d2" "length (log_templates d2) \<le> length (log_templates d1) + length cs"
    "parse_items hash hash_mixed categories behind_w (\<lambda>i. alloc (k + i)) p1 out2 = Some (Some p2)"
    "\<forall>rest. decode_all t' simd categories behind d1 (out2 @ rest) = map_option (\<lambda>(ms, r). (map decoded_entry cs @ ms, r)) (decode_all t' simd categories behind d2 rest)"
    using Cons.IH [OF _ o(2) p1(1) _ _ last(1), of "\<lambda>i. alloc_f (Suc i)" "\<lambda>i. alloc_t (Suc i)" "\<lambda>i. alloc (k + i)"] Cons.prems(1,4,5) o(3,7) by auto
  have ne: "out1 \<noteq> []" using spec [OF o(8), of "[]"] by (auto simp: decode_private.simps read_item_data_def)
  have "decode_all t' simd categories behind d ((out1 @ out2) @ rest)
      = map_option (\<lambda>(ms, r). (map decoded_entry (c # cs) @ ms, r)) (decode_all t' simd categories behind d2 rest)" for rest
    using o(8) a(6) by (subst decode_all.simps) (simp add: option.map_comp comp_def case_prod_unfold)
  moreover have "log_all hash t alloc_f alloc_t s (map (call_entry hash) (c # cs)) = Some (replicate (length (c # cs)) True, out1 @ out2, s2)"
    using o(1) a(1) by simp
  moreover have "parse_items hash hash_mixed categories behind_w alloc p (out1 @ out2) = Some (Some p2)" using p1(2) a(2,5) last(2) by auto
  moreover have "length (log_templates d2) \<le> length (log_templates d) + length (c # cs)" using a(4) o(3) by simp
  ultimately show ?case using a(3) ne by blast
qed

text \<open>
  C6. A writer that is started again on a file goes on with it: it restores its state from what the former run wrote, and the file it extends gives
  back the calls of both runs, with their times, whatever allocations failed in either run and while the file was read. The last call of
  the former run must have an argument, since the reader of the writer skips a last item shorter than six bytes
  (\<open>short_last_item_skipped\<close>). Otherwise the conditions are those of C1, over the calls of both runs: calls of \<open>call_ok\<close>, here
  with a level up to fatal, no two formats with the same 64-bit key, and thread ids that keep their 16-byte names in both runs.
\<close>

theorem reopened_log_roundtrip:
  assumes "\<forall>c \<in> set (cs @ cs'). call_ok categories c \<and> call_level c \<le> 5" and "length (cs @ cs') < 2 ^ 32" and "appender_ok s" and "appender_ok s'"
    and "\<forall>c \<in> set (cs @ cs'). \<forall>c' \<in> set (cs @ cs'). format_key (bq_hash_only ct insn supported) c = format_key (bq_hash_only ct insn supported) c' \<longrightarrow> call_template c = call_template c'"
    and "\<forall>c \<in> set (cs @ cs'). \<forall>c' \<in> set (cs @ cs'). call_thread c = call_thread c' \<longrightarrow> take 16 (call_thread_name c) = take 16 (call_thread_name c')"
    and "cs \<noteq> [] \<longrightarrow> call_args (last cs) \<noteq> []"
  defines "hash \<equiv> bq_hash_only ct insn supported"
  shows "\<exists>out s1 p out' s2. log_all hash t alloc_f alloc_t (appender_reset s) (map (call_entry hash) cs) = Some (replicate (length cs) True, out, s1)
    \<and> parse_exist_log_file hash (hash_utf_mixed_as_utf16 t2 ct insn supported) categories behind_w alloc s' out = Some (Some p)
    \<and> log_all hash t2 alloc_f' alloc_t' p (map (call_entry hash) cs') = Some (replicate (length cs') True, out', s2)
    \<and> decode_all t' simd categories behind decoder_init (out @ out') = Some (map decoded_entry (cs @ cs'), Decode_eof)"
proof -
  let ?all = "set (cs @ cs')" and ?mixed = "hash_utf_mixed_as_utf16 t2 ct insn supported"
  define F where "F k = call_template (SOME c. c \<in> ?all \<and> format_key hash c = k)" for k
  define N where "N k = take 16 (call_thread_name (SOME c. c \<in> ?all \<and> call_thread c = k))" for k
  have "F (format_key hash c) = call_template c" if "c \<in> ?all" for c
    unfolding F_def hash_def by (rule some_same [OF assms(5) that])
  moreover have "N (call_thread c) = take 16 (call_thread_name c)" if "c \<in> ?all" for c
    unfolding N_def by (rule some_same [OF assms(6) that])
  ultimately have FN: "\<forall>c \<in> ?all. call_ok categories c \<and> call_level c \<le> 5 \<and> F (format_key hash c) = call_template c \<and> N (call_thread c) = take 16 (call_thread_name c)"
    using assms(1) by blast
  have h: "?mixed (mixed_text t (unit_bytes us)) = hash (unit_bytes us)" if "length us < 2 ^ 29" for us
    unfolding hash_def by (rule mixed_hash [OF mixed_text(1) [OF that]])
  have rest: "restoring F N (appender_reset s') decoder_init"
    using reset_in_step [OF assms(4)] by (simp add: restoring_def appender_reset_def)
  have b: "length (log_templates decoder_init) + length cs < 2 ^ 32" "unat (current_thread_info_max_index (appender_reset s)) + length cs < 2 ^ 32"
    using assms(2) by (simp_all add: decoder_init_def appender_reset_def)
  have all1: "\<forall>c \<in> set cs. call_ok categories c \<and> call_level c \<le> 5 \<and> F (format_key hash c) = call_template c \<and> N (call_thread c) = take 16 (call_thread_name c)"
    using FN by simp
  obtain out s1 d1 p where o: "log_all hash t alloc_f alloc_t (appender_reset s) (map (call_entry hash) cs) = Some (replicate (length cs) True, out, s1)"
    "restoring F N p d1" "length (log_templates d1) \<le> length (log_templates decoder_init) + length cs"
    "parse_items hash ?mixed categories behind_w alloc (appender_reset s') out = Some (Some p)"
    "\<forall>rest. decode_all t' simd categories behind decoder_init (out @ rest) = map_option (\<lambda>(ms, r). (map decoded_entry cs @ ms, r)) (decode_all t' simd categories behind d1 rest)"
    using log_all_parse [where alloc_f = alloc_f and alloc_t = alloc_t and t' = t' and simd = simd and behind = behind and behind_w = behind_w and alloc = alloc, OF all1 reset_in_step [OF assms(3)] rest b assms(7) h]
    by blast
  have b2: "length (log_templates d1) + length cs' < 2 ^ 32" "unat (current_thread_info_max_index p) + length cs' < 2 ^ 32" "in_step F N p d1"
    using o(2,3) assms(2) by (simp_all add: decoder_init_def restoring_def)
  have all2: "\<forall>c \<in> set cs'. call_ok categories c \<and> F (format_key hash c) = call_template c \<and> N (call_thread c) = take 16 (call_thread_name c)"
    using FN by simp
  obtain out' s2 d2 where o2: "log_all hash t2 alloc_f' alloc_t' p (map (call_entry hash) cs') = Some (replicate (length cs') True, out', s2)"
    "\<forall>rest. decode_all t' simd categories behind d1 (out' @ rest) = map_option (\<lambda>(ms, r). (map decoded_entry cs' @ ms, r)) (decode_all t' simd categories behind d2 rest)"
    using log_all_step [where alloc_f = alloc_f' and alloc_t = alloc_t' and t = t2 and t' = t' and simd = simd and behind = behind, OF all2 b2(3,1,2)] by blast
  have "decode_all t' simd categories behind d2 [] = Some ([], Decode_eof)"
    by (subst decode_all.simps, subst decode_private.simps) (simp add: read_item_data_def)
  then have "decode_all t' simd categories behind decoder_init (out @ out') = Some (map decoded_entry (cs @ cs'), Decode_eof)"
    using spec [OF o(5), of out'] spec [OF o2(2), of "[]"] by simp
  moreover have "parse_exist_log_file hash ?mixed categories behind_w alloc s' out = Some (Some p)" using o(4) by (simp add: parse_exist_log_file_def)
  ultimately show ?thesis using o(1) o2(1) by blast
qed


theorem reopened_log_roundtrip_witness:
  "\<exists>out s1 p out' s2. log_all (bq_hash_only Crc_x86_64 sw_ops False) Simd_neon (\<lambda>i n. None) (\<lambda>i n. None) (appender_reset sample_appender)
       (map (call_entry (bq_hash_only Crc_x86_64 sw_ops False)) [hd sample_calls]) = Some (replicate (length [hd sample_calls]) True, out, s1)
    \<and> parse_exist_log_file (bq_hash_only Crc_x86_64 sw_ops False) (hash_utf_mixed_as_utf16 Simd_none Crc_x86_64 sw_ops False) 2 id (\<lambda>i n. None) sample_appender out = Some (Some p)
    \<and> log_all (bq_hash_only Crc_x86_64 sw_ops False) Simd_none (\<lambda>i n. None) (\<lambda>i n. None) p
       (map (call_entry (bq_hash_only Crc_x86_64 sw_ops False)) [hd sample_calls]) = Some (replicate (length [hd sample_calls]) True, out', s2)
    \<and> decode_all Simd_none False 2 id decoder_init (out @ out') = Some (map decoded_entry ([hd sample_calls] @ [hd sample_calls]), Decode_eof)"
proof (rule reopened_log_roundtrip [OF _ _ sample_appender_ok sample_appender_ok])
  have "call_ok 2 (hd sample_calls)" using sample_calls_ok by (simp add: sample_calls_def)
  then show "\<forall>c \<in> set ([hd sample_calls] @ [hd sample_calls]). call_ok 2 c \<and> call_level c \<le> 5" by (simp add: sample_calls_def)
qed (simp_all add: sample_calls_def)

text \<open>A last item of five bytes, an entry without arguments, is passed over: the time base stays behind by its offset.\<close>

theorem short_last_item_skipped:
  "parse_items hash hash_mixed categories behind alloc p [0x80, 0x83, 0x8A, 0x80, 0x80] = Some (Some p)
    \<and> (log_templates d \<noteq> [] \<and> thread_info_templates d 0 = Some x \<longrightarrow>
       (\<exists>m d'. decode_private t simd categories behind_r d [0x80, 0x83, 0x8A, 0x80, 0x80] = Some (Inr (m, d', [])) \<and> decoder_epoch d' = decoder_epoch d + 5))"
proof
  show "parse_items hash hash_mixed categories behind alloc p [0x80, 0x83, 0x8A, 0x80, 0x80] = Some (Some p)" by (subst parse_items.simps) simp
  have r: "read_item_data [0x80, 0x83, 0x8A, 0x80, 0x80] = Inr (0x80, [0x8A, 0x80, 0x80], [])" by code_simp
  have v: "read_vlq 8 [0x8A, 0x80, 0x80] = Some (10, [0x80, 0x80])" "read_vlq 4 [0x80, 0x80] = Some (0, [0x80])" "read_vlq 4 [0x80] = Some (0, [])"
    "zigzag_decode (10 :: u64) = 5" by code_simp+
  show "log_templates d \<noteq> [] \<and> thread_info_templates d 0 = Some x \<longrightarrow>
       (\<exists>m d'. decode_private t simd categories behind_r d [0x80, 0x83, 0x8A, 0x80, 0x80] = Some (Inr (m, d', [])) \<and> decoder_epoch d' = decoder_epoch d + 5)"
    by (subst decode_private.simps) (cases x; simp add: r v item_log_template_def parse_log_entry_def unpack_args.simps Let_def)
qed

end
