(* ===== verification/Layout_Scan.thy ===== *)
theory Layout_Scan
  imports Utf
begin

text \<open>
  The scans of \<open>src/bq_log/log/layout.cpp\<close> that copy the text of a format up to the next brace: the scalar loops, the AVX2, SSE
  and NEON loops and the dispatchers, for UTF-8 formats and for UTF-16 formats. A scan returns the bytes it copied, whose number
  is its return value (every copied unit gives one byte), and its output parameters. A vector loop compares a chunk at a time; the x86 loops for UTF-8 take the position of the
  brace from the mask of the comparison, all others leave a chunk with a brace to the scalar loop.
\<close>

definition is_brace :: "'a::len word \<Rightarrow> bool" where
  "is_brace c \<longleftrightarrow> c = 0x7B \<or> c = 0x7D"

section \<open>UTF-8 formats\<close>

fun find_brace_and_copy_sw :: "u8 list \<Rightarrow> u8 list \<times> bool" where
  "find_brace_and_copy_sw [] = ([], False)"
| "find_brace_and_copy_sw (c # src) =
     (if c = 0x7B \<or> c = 0x7D then ([], True)
      else (let (dst, found_brace) = find_brace_and_copy_sw src in (c # dst, found_brace)))"

text \<open>\<open>movemask\<close> collects one bit per lane, the first lane lowest; \<open>ctz\<close> is the position of the lowest bit.\<close>

definition movemask :: "bool list \<Rightarrow> u32" where
  "movemask lanes = horner_sum of_bool 2 lanes"

definition ctz :: "u32 \<Rightarrow> nat" where
  "ctz m = length (takeWhile (\<lambda>i. \<not> bit m i) [0..<32])"

definition cmpeq :: "'a::len word \<Rightarrow> 'a word list \<Rightarrow> bool list" where
  "cmpeq c chunk = map (\<lambda>x. x = c) chunk"

definition lanes_or :: "bool list \<Rightarrow> bool list \<Rightarrow> bool list" where
  "lanes_or a b = map2 (\<or>) a b"

function find_brace_chunks :: "nat \<Rightarrow> u8 list \<Rightarrow> u8 list \<times> bool" where
  "find_brace_chunks n src =
     (if 0 < n \<and> n \<le> length src
      then (let chunk = take n src;
                mask = movemask (lanes_or (cmpeq 0x7B chunk) (cmpeq 0x7D chunk))
            in if mask \<noteq> 0 then (take (ctz mask) src, True)
               else (let (dst, found_brace) = find_brace_chunks n (drop n src) in (chunk @ dst, found_brace)))
      else find_brace_and_copy_sw src)"
  by pat_completeness auto
termination by (relation "measure (\<lambda>(n, src). length src)") auto

declare find_brace_chunks.simps [simp del]

definition find_brace_and_copy_avx2 :: "u8 list \<Rightarrow> u8 list \<times> bool" where
  "find_brace_and_copy_avx2 src = find_brace_chunks 32 src"

definition find_brace_and_copy_sse :: "u8 list \<Rightarrow> u8 list \<times> bool" where
  "find_brace_and_copy_sse src = find_brace_chunks 16 src"

function find_brace_and_copy_neon :: "u8 list \<Rightarrow> u8 list \<times> bool" where
  "find_brace_and_copy_neon src =
     (if 16 \<le> length src \<and> \<not> list_ex (\<lambda>b. b) (lanes_or (cmpeq 0x7B (take 16 src)) (cmpeq 0x7D (take 16 src)))
      then (let (dst, found_brace) = find_brace_and_copy_neon (drop 16 src) in (take 16 src @ dst, found_brace))
      else find_brace_and_copy_sw src)"
  by pat_completeness auto
termination by (relation "measure length") auto

declare find_brace_and_copy_neon.simps [simp del]

fun find_brace_and_copy :: "simd_target \<Rightarrow> u8 list \<Rightarrow> u8 list \<times> bool" where
  "find_brace_and_copy (Simd_x86 avx2) src = (if avx2 then find_brace_and_copy_avx2 src else find_brace_and_copy_sse src)"
| "find_brace_and_copy Simd_neon src = find_brace_and_copy_neon src"
| "find_brace_and_copy Simd_none src = find_brace_and_copy_sw src"

section \<open>UTF-16 formats\<close>

text \<open>The bytes written, \<open>found_brace\<close> and \<open>non_ascii\<close>.\<close>

fun find_brace_and_convert_u16_sw :: "u16 list \<Rightarrow> u8 list \<times> bool \<times> bool" where
  "find_brace_and_convert_u16_sw [] = ([], False, False)"
| "find_brace_and_convert_u16_sw (c # src) =
     (if c \<ge> 0x80 then ([], False, True)
      else if c = 0x7B \<or> c = 0x7D then ([], True, False)
      else (let (dst, flags) = find_brace_and_convert_u16_sw src in (ucast c # dst, flags)))"

text \<open>The loops of AVX2 and SSE, then of NEON; both store a chunk narrowed to bytes.\<close>

function convert_u16_chunks :: "nat \<Rightarrow> u16 list \<Rightarrow> u8 list \<times> bool \<times> bool" where
  "convert_u16_chunks n src =
     (if 0 < n \<and> n \<le> length src \<and> ascii_chunk 0xFF80 (take n src)
           \<and> \<not> list_ex (\<lambda>b. b) (lanes_or (cmpeq 0x7B (take n src)) (cmpeq 0x7D (take n src)))
      then (let (dst, flags) = convert_u16_chunks n (drop n src) in (map ucast (take n src) @ dst, flags))
      else find_brace_and_convert_u16_sw src)"
  by pat_completeness auto
termination by (relation "measure (\<lambda>(n, src). length src)") auto

declare convert_u16_chunks.simps [simp del]

definition find_brace_and_convert_u16_avx2 :: "u16 list \<Rightarrow> u8 list \<times> bool \<times> bool" where
  "find_brace_and_convert_u16_avx2 src = convert_u16_chunks 16 src"

definition find_brace_and_convert_u16_sse :: "u16 list \<Rightarrow> u8 list \<times> bool \<times> bool" where
  "find_brace_and_convert_u16_sse src = convert_u16_chunks 8 src"

function find_brace_and_convert_u16_neon :: "u16 list \<Rightarrow> u8 list \<times> bool \<times> bool" where
  "find_brace_and_convert_u16_neon src =
     (if 8 \<le> length src \<and> \<not> foldr max (take 8 src) 0 \<ge> 0x80
           \<and> \<not> list_ex (\<lambda>b. b) (lanes_or (cmpeq 0x7B (take 8 src)) (cmpeq 0x7D (take 8 src)))
      then (let (dst, flags) = find_brace_and_convert_u16_neon (drop 8 src) in (map ucast (take 8 src) @ dst, flags))
      else find_brace_and_convert_u16_sw src)"
  by pat_completeness auto
termination by (relation "measure length") auto

declare find_brace_and_convert_u16_neon.simps [simp del]

fun find_brace_and_convert_u16 :: "simd_target \<Rightarrow> u16 list \<Rightarrow> u8 list \<times> bool \<times> bool" where
  "find_brace_and_convert_u16 (Simd_x86 avx2) src =
     (if avx2 then find_brace_and_convert_u16_avx2 src else find_brace_and_convert_u16_sse src)"
| "find_brace_and_convert_u16 Simd_neon src = find_brace_and_convert_u16_neon src"
| "find_brace_and_convert_u16 Simd_none src = find_brace_and_convert_u16_sw src"

section \<open>Every path is the scalar loop\<close>

lemma sw_copy: "find_brace_and_copy_sw src = (takeWhile (\<lambda>c. \<not> is_brace c) src, \<exists>c \<in> set src. is_brace c)"
  by (induction src) (auto simp: is_brace_def)

lemma braces_lanes: "lanes_or (cmpeq 0x7B chunk) (cmpeq 0x7D chunk) = map is_brace chunk"
  by (rule nth_equalityI) (simp_all add: lanes_or_def cmpeq_def is_brace_def)

lemma bit_movemask: "bit (movemask lanes) i \<longleftrightarrow> i < 32 \<and> i < length lanes \<and> lanes ! i"
  by (auto simp: movemask_def bit_horner_sum_bit_word_iff)

lemma movemask_zero: "length lanes \<le> 32 \<Longrightarrow> movemask lanes = 0 \<longleftrightarrow> (\<forall>b \<in> set lanes. \<not> b)"
  by (auto simp: bit_eq_iff bit_movemask in_set_conv_nth)

lemma ctz_movemask:
  assumes "length lanes \<le> 32" "\<exists>b \<in> set lanes. b"
  shows "ctz (movemask lanes) = length (takeWhile Not lanes)"
proof -
  let ?k = "length (takeWhile Not lanes)"
  have k: "?k < length lanes"
    using assms(2) length_takeWhile_le [of Not lanes] by (metis le_neq_implies_less set_takeWhileD takeWhile_eq_take take_all_iff)
  have here: "lanes ! ?k" using nth_length_takeWhile [OF k] by simp
  have before: "\<not> lanes ! i" if "i < ?k" for i
    using that by (metis nth_mem set_takeWhileD takeWhile_nth)
  have "takeWhile (\<lambda>i. \<not> bit (movemask lanes) i) [0..<32] = [0..<?k]"
  proof (rule takeWhile_eq_take_P_nth [THEN trans])
    show "\<not> bit (movemask lanes) ([0..<32] ! i)" if "i < ?k" "i < length [0..<32]" for i
      using that before [of i] k by (simp add: bit_movemask)
    show "\<not> \<not> bit (movemask lanes) ([0..<32] ! ?k)" if "?k < length [0..<32]"
      using that k here assms by (simp add: bit_movemask)
  qed (use k assms in \<open>simp add: take_upt\<close>)
  then show ?thesis by (simp add: ctz_def)
qed

lemma takeWhile_chunk:
  assumes "\<forall>c \<in> set (take n xs). P c"
  shows "takeWhile P xs = take n xs @ takeWhile P (drop n xs)"
  using assms takeWhile_append2 [of "take n xs" P "drop n xs"] by simp

lemma takeWhile_stop:
  assumes "\<exists>c \<in> set (take n xs). \<not> P c"
  shows "take (length (takeWhile P (take n xs))) xs = takeWhile P xs"
proof -
  have "takeWhile P xs = takeWhile P (take n xs)"
    using assms takeWhile_append1 [of _ "take n xs" P "drop n xs"] by auto
  then show ?thesis by (metis takeWhile_eq_take)
qed

lemma chunks_copy: "n \<le> 32 \<Longrightarrow> find_brace_chunks n src = find_brace_and_copy_sw src"
proof (induction n src rule: find_brace_chunks.induct)
  case (1 n src)
  let ?lanes = "map is_brace (take n src)"
  have len: "length ?lanes \<le> 32" using 1(2) by simp
  show ?case
  proof (cases "0 < n \<and> n \<le> length src")
    case False
    then show ?thesis by (subst find_brace_chunks.simps) (simp only: if_False)
  next
    case here: True
    show ?thesis
    proof (cases "movemask ?lanes = 0")
      case True
      then have "\<forall>c \<in> set (take n src). \<not> is_brace c"
        using movemask_zero [OF len] by simp
      moreover have "set src = set (take n src) \<union> set (drop n src)" by (metis append_take_drop_id set_append)
      ultimately show ?thesis
        using here True 1
        by (subst find_brace_chunks.simps) (auto simp: braces_lanes sw_copy takeWhile_chunk)
    next
      case False
      then have ex: "\<exists>b \<in> set ?lanes. b" using movemask_zero [OF len] by simp
      have "takeWhile Not ?lanes = map is_brace (takeWhile (\<lambda>c. \<not> is_brace c) (take n src))"
        by (simp add: takeWhile_map o_def)
      then have "ctz (movemask ?lanes) = length (takeWhile (\<lambda>c. \<not> is_brace c) (take n src))"
        using ctz_movemask [OF len ex] by simp
      then show ?thesis
        using here False ex takeWhile_stop [of n src "\<lambda>c. \<not> is_brace c"]
        by (subst find_brace_chunks.simps) (auto simp: braces_lanes sw_copy Let_def dest: in_set_takeD)
    qed
  qed
qed

lemma neon_copy: "find_brace_and_copy_neon src = find_brace_and_copy_sw src"
proof (induction src rule: find_brace_and_copy_neon.induct)
  case (1 src)
  have "set src = set (take 16 src) \<union> set (drop 16 src)" by (metis append_take_drop_id set_append)
  with 1 show ?case
    by (subst find_brace_and_copy_neon.simps)
      (auto simp: braces_lanes sw_copy list_ex_iff takeWhile_chunk [where n = 16])
qed

lemma convert_sw_chunk:
  "\<forall>c \<in> set a. c < 0x80 \<and> \<not> is_brace c \<Longrightarrow>
     find_brace_and_convert_u16_sw (a @ s) = (case find_brace_and_convert_u16_sw s of (dst, flags) \<Rightarrow> (map ucast a @ dst, flags))"
  by (induction a) (auto simp: is_brace_def not_le split: prod.splits)

lemma convert_sw_take:
  "\<forall>c \<in> set (take n s). c < 0x80 \<and> \<not> is_brace c \<Longrightarrow>
     find_brace_and_convert_u16_sw s =
       (case find_brace_and_convert_u16_sw (drop n s) of (dst, flags) \<Rightarrow> (map ucast (take n s) @ dst, flags))"
  using convert_sw_chunk [of "take n s" "drop n s"] by simp

lemma chunks_convert: "convert_u16_chunks n src = find_brace_and_convert_u16_sw src"
proof (induction n src rule: convert_u16_chunks.induct)
  case (1 n src)
  then show ?case
    by (subst convert_u16_chunks.simps)
      (auto simp: braces_lanes list_ex_iff utf16_mask.chunk list_all_iff intro!: convert_sw_take [symmetric])
qed

lemma foldr_max_less: "(\<not> foldr max cs 0 \<ge> (0x80 :: u16)) \<longleftrightarrow> (\<forall>c \<in> set cs. c < 0x80)"
  by (induction cs) (auto simp: not_le)

lemma neon_convert: "find_brace_and_convert_u16_neon src = find_brace_and_convert_u16_sw src"
proof (induction src rule: find_brace_and_convert_u16_neon.induct)
  case (1 src)
  then show ?case
    by (subst find_brace_and_convert_u16_neon.simps)
      (auto simp: braces_lanes list_ex_iff foldr_max_less simp del: foldr.simps intro!: convert_sw_take [symmetric])
qed

lemma find_brace_copy_eq: "find_brace_and_copy t src = (takeWhile (\<lambda>c. \<not> is_brace c) src, \<exists>c \<in> set src. is_brace c)"
  by (cases t) (simp_all add: find_brace_and_copy_avx2_def find_brace_and_copy_sse_def chunks_copy neon_copy sw_copy)

lemma find_brace_convert_eq: "find_brace_and_convert_u16 t src = find_brace_and_convert_u16_sw src"
  by (cases t)
    (simp_all add: find_brace_and_convert_u16_avx2_def find_brace_and_convert_u16_sse_def chunks_convert neon_convert)

end
