(* ===== verification/Layout_Format.thy ===== *)
theory Layout_Format
  imports Prelude "HOL-Library.Signed_Division"
begin

text \<open>
  The formatting of one argument in \<open>src/bq_log/log/layout.h\<close> and \<open>layout.cpp\<close>: the format specification \<open>c20_format\<close> reads, the alignment, the
  digits of integers in all bases with the path that takes three digits at a time, and the exponent style. The buffer
  \<open>format_content\<close> up to the cursor is a list of bytes that the functions extend; where the code moves the cursor back, the bytes
  behind it are dropped. A position in front of the buffer is \<open>None\<close>. The growth of the buffer is not modelled.
\<close>

section \<open>Format specifications\<close>

text \<open>The three characters the alignment is set to, and the specification.\<close>

datatype alignment = Align_right | Align_left | Align_middle

record format_info =
  used :: bool
  upper :: bool
  fill :: u8
  align :: alignment
  sign :: u8
  prefix :: u8
  offset :: nat
  width :: nat
  precision :: nat
  spec_type :: u8

definition new_format_info :: format_info where
  "new_format_info = \<lparr>used = False, upper = True, fill = 0x20, align = Align_right, sign = 0x2D, prefix = 0x20,
     offset = 0, width = 0, precision = 0xFFFFFFFF, spec_type = 0x20\<rparr>"

text \<open>
  The state of the loop of \<open>c20_format\<close>: the specification, the two characters of \<open>width\<close> (0 ends the text) and the flags
  \<open>precision\<close>, \<open>align\<close> and \<open>fill\<close>.
\<close>

record c20_state =
  c20_info :: format_info
  digit0 :: u8
  digit1 :: u8
  has_precision :: bool
  has_align :: bool
  has_fill :: bool

text \<open>\<open>atoi\<close> on the one or two digits.\<close>

definition atoi_width :: "c20_state \<Rightarrow> nat" where
  "atoi_width st = (if digit1 st = 0 then unat (digit0 st) - 0x30 else (unat (digit0 st) - 0x30) * 10 + (unat (digit1 st) - 0x30))"

definition fill_char :: "u8 \<Rightarrow> format_info \<Rightarrow> format_info" where
  "fill_char c fi = fi\<lparr>fill := (if align fi = Align_middle \<or> align fi = Align_left then 0x20 else c)\<rparr>"

definition c20_align :: "alignment \<Rightarrow> u8 \<Rightarrow> c20_state \<Rightarrow> c20_state" where
  "c20_align a c st =
     (if \<not> has_align st then st\<lparr>c20_info := c20_info st\<lparr>align := a\<rparr>, has_align := True\<rparr>
      else st\<lparr>c20_info := fill_char c (c20_info st)\<rparr>)"

text \<open>The type letters: b B e E f F x X o d.\<close>

definition type_letters :: "u8 list" where
  "type_letters = [0x62, 0x42, 0x65, 0x45, 0x66, 0x46, 0x78, 0x58, 0x6F, 0x64]"

definition c20_type :: "u8 \<Rightarrow> format_info \<Rightarrow> format_info" where
  "c20_type c fi =
     (let fi = (if spec_type fi = 0x20
                then (if c = 0x45 then fi\<lparr>spec_type := 0x65, upper := True\<rparr>
                      else if c = 0x58 then fi\<lparr>spec_type := 0x78, upper := True\<rparr>
                      else if c = 0x42 then fi\<lparr>spec_type := 0x62, upper := True\<rparr>
                      else fi\<lparr>spec_type := c, upper := False\<rparr>)
                else fi)
      in if (c = 0x78 \<or> c = 0x58) \<and> align fi \<noteq> Align_right then fi\<lparr>fill := 0x20\<rparr> else fi)"

definition c20_default :: "u8 \<Rightarrow> c20_state \<Rightarrow> c20_state" where
  "c20_default c st =
     (if \<not> has_fill st \<and> (c < 0x31 \<or> c > 0x39) then st\<lparr>c20_info := fill_char c (c20_info st)\<rparr>
      else if 0x30 \<le> c \<and> c \<le> 0x39
      then (let st = st\<lparr>has_fill := True\<rparr>
            in if digit0 st = 0x30 then st\<lparr>digit0 := c\<rparr>
               else if digit1 st = 0 then st\<lparr>digit1 := c\<rparr> else st)
      else st)"

definition c20_char :: "u8 \<Rightarrow> c20_state \<Rightarrow> c20_state" where
  "c20_char c st =
     (if c = 0x23 then st\<lparr>c20_info := c20_info st\<lparr>prefix := c\<rparr>\<rparr>
      else if c = 0x3E then c20_align Align_right c st
      else if c = 0x3C then c20_align Align_left c st
      else if c = 0x5E then c20_align Align_middle c st
      else if c = 0x2B \<or> c = 0x2D then st\<lparr>c20_info := c20_info st\<lparr>sign := c\<rparr>\<rparr>
      else if c \<in> set type_letters then st\<lparr>c20_info := c20_type c (c20_info st)\<rparr>
      else if c = 0x2E then st\<lparr>has_precision := True, c20_info := c20_info st\<lparr>width := atoi_width st\<rparr>, digit0 := 0x30, digit1 := 0\<rparr>
      else c20_default c st)"

text \<open>The loop from \<open>index\<close> on; the units are converted to \<open>char\<close>. It gives up at the end of the text and after ten characters.\<close>

fun c20_loop :: "nat \<Rightarrow> c20_state \<Rightarrow> 'a::len word list \<Rightarrow> c20_state" where
  "c20_loop index st [] = st\<lparr>c20_info := c20_info st\<lparr>offset := 0, width := 0\<rparr>\<rparr>"
| "c20_loop index st (u # style) =
     (let c = ucast u :: u8
      in if index > 10 \<or> c = 0x7B then st\<lparr>c20_info := c20_info st\<lparr>offset := 0, width := 0\<rparr>\<rparr>
         else if c = 0x7D then st\<lparr>c20_info := c20_info st\<lparr>offset := index\<rparr>\<rparr>
         else c20_loop (index + 1) (c20_char c st) style)"

definition c20_format :: "'a::len word list \<Rightarrow> format_info" where
  "c20_format style =
     (let fi = new_format_info\<lparr>used := True\<rparr>
      in if style = [] \<or> hd style \<noteq> 0x3A then fi
         else (let st = c20_loop 1 \<lparr>c20_info = fi, digit0 = 0x30, digit1 = 0, has_precision = False, has_align = False, has_fill = False\<rparr>
                          (tl style);
                   fi = c20_info st;
                   fi = (if has_precision st then fi\<lparr>precision := atoi_width st\<rparr> else fi\<lparr>width := atoi_width st\<rparr>)
               in if spec_type fi = 0x20 then fi\<lparr>spec_type := 0x64\<rparr> else fi))"

section \<open>Fill and alignment\<close>

text \<open>
  The move of a right aligned text to its place, from the last byte to the first; the bytes are given in reverse. The
  result: the bytes in the places from \<open>fill_count\<close> on, and \<open>ignore\<close>.
\<close>

fun move_right :: "format_info \<Rightarrow> u8 list \<Rightarrow> nat \<Rightarrow> nat \<Rightarrow> u8 list \<Rightarrow> u8 list \<times> nat" where
  "move_right fi [] ignore ignore_index out = (out, ignore)"
| "move_right fi (c # rest) ignore ignore_index out =
     (let move_index = length rest
      in if (c = 0x2B \<or> c = 0x2D) \<and> fill fi \<noteq> 0x20 then move_right fi rest 1 ignore_index (fill fi # out)
         else if fill fi = 0x30 \<and> prefix fi = 0x23 \<and> (spec_type fi = 0x62 \<or> spec_type fi = 0x78)
                  \<and> (c = 0x62 \<or> c = 0x42 \<or> c = 0x78 \<or> c = 0x58)
              then move_right fi rest 2 (move_index - 1) (fill fi # out)
         else if ignore = 2 \<and> ignore_index = move_index then move_right fi rest ignore ignore_index (fill fi # out)
         else move_right fi rest ignore ignore_index (c # out))"

text \<open>
  \<open>fill_and_alignment\<close> on the bytes from \<open>wirte_begin_pos\<close> on. The fill loop starts behind the first \<open>ignore\<close> bytes, which stay; a byte behind
  the cursor there is one nobody wrote.
\<close>

definition align_bytes :: "format_info \<Rightarrow> u8 list \<Rightarrow> u8 list option" where
  "align_bytes fi w =
     (let fill_count = width fi - length w
      in case align fi of
           Align_right \<Rightarrow>
             (let (moved, ignore) = move_right fi (rev w) 0 0 []
              in if min ignore fill_count > length w then None
                 else Some (take (min ignore fill_count) w @ replicate (fill_count - ignore) (fill fi) @ moved))
         | Align_left \<Rightarrow> Some (w @ replicate fill_count (fill fi))
         | Align_middle \<Rightarrow>
             (let end = fill_count div 2; front = fill_count - end
              in Some (replicate front (fill fi) @ w @ replicate end (fill fi))))"

text \<open>If the cursor was moved in front of \<open>wirte_begin_pos\<close>, the unsigned distance is above every width.\<close>

definition fill_and_alignment :: "format_info \<Rightarrow> nat \<Rightarrow> u8 list \<Rightarrow> u8 list option" where
  "fill_and_alignment fi wirte_begin_pos content =
     (if wirte_begin_pos \<le> length content \<and> length content - wirte_begin_pos < width fi
      then map_option (\<lambda>w. take wirte_begin_pos content @ w) (align_bytes fi (drop wirte_begin_pos content))
      else Some content)"

section \<open>Digits\<close>

text \<open>The bytes from \<open>begin_cursor\<close> to \<open>end_cursor\<close> are swapped pairwise.\<close>

function reverse :: "nat \<Rightarrow> nat \<Rightarrow> u8 list \<Rightarrow> u8 list" where
  "reverse begin_cursor end_cursor content =
     (if begin_cursor < end_cursor
      then reverse (begin_cursor + 1) (end_cursor - 1)
             (content[begin_cursor := content ! end_cursor, end_cursor := content ! begin_cursor])
      else content)"
  by pat_completeness auto
termination by (relation "measure (\<lambda>(b, e, _). e - b)") auto

declare reverse.simps [simp del]

definition digit_char :: "bool \<Rightarrow> nat \<Rightarrow> u8" where
  "digit_char up digit = of_nat (if digit < 0xA then 0x30 + digit else (if up then 0x41 else 0x61) + digit - 0xA)"

text \<open>The digits, lowest first, and \<open>e_count\<close>. The bases are 2, 8, 10 and 16; the loop below stops at the others as well.\<close>

function digit_loop :: "bool \<Rightarrow> nat \<Rightarrow> nat \<Rightarrow> u8 list \<times> nat" where
  "digit_loop up base value =
     (let digit = digit_char up (value mod base);
          value' = value div base;
          e = (if value' > base then 1 else 0)
      in if value' \<noteq> 0 \<and> base > 1
         then (let (digits, e_count) = digit_loop up base value' in (digit # digits, e + e_count))
         else ([digit], e))"
  by pat_completeness auto
termination by (relation "measure (\<lambda>(_, _, v). v)") (auto simp: div_eq_0_iff intro!: div_less_dividend)

lemma quot_smaller:
  fixes v base :: int
  assumes "v sdiv base \<noteq> 0" "1 < base"
  shows "\<bar>v sdiv base\<bar> < \<bar>v\<bar>"
proof -
  have "v \<noteq> 0" using assms by auto
  then have "\<bar>v\<bar> div base < \<bar>v\<bar>" using assms by (intro int_div_less_self) auto
  then show ?thesis
    using assms \<open>v \<noteq> 0\<close> pos_imp_zdiv_nonneg_iff [of base "\<bar>v\<bar>"]
    by (auto simp: signed_divide_int_def abs_mult abs_sgn_eq)
qed

function signed_digit_loop :: "bool \<Rightarrow> int \<Rightarrow> int \<Rightarrow> u8 list \<times> nat" where
  "signed_digit_loop up base value =
     (let digit = digit_char up (nat \<bar>value smod base\<bar>);
          value' = value sdiv base;
          e = (if value' > base then 1 else 0)
      in if value' \<noteq> 0 \<and> base > 1
         then (let (digits, e_count) = signed_digit_loop up base value' in (digit # digits, e + e_count))
         else ([digit], e))"
  by pat_completeness auto
termination by (relation "measure (\<lambda>(_, _, v). nat \<bar>v\<bar>)") (auto simp: quot_smaller)

declare digit_loop.simps [simp del] signed_digit_loop.simps [simp del]

text \<open>\<open>digit3_array\<close> holds the numbers below 1000 with leading zeros.\<close>

definition digit3 :: "nat \<Rightarrow> u8 list" where
  "digit3 r = [of_nat (0x30 + r div 100), of_nat (0x30 + r div 10 mod 10), of_nat (0x30 + r mod 10)]"

text \<open>The loop over groups of three digits; \<open>p\<close> is what \<open>tmp\<close> holds so far.\<close>

function digit3_loop :: "nat \<Rightarrow> u8 list \<Rightarrow> u8 list" where
  "digit3_loop value p =
     (if value \<ge> 1000 then digit3_loop (value div 1000) (digit3 (value mod 1000) @ p)
      else drop (if value \<ge> 100 then 0 else if value \<ge> 10 then 1 else 2) (digit3 value) @ p)"
  by pat_completeness auto
termination by (relation "measure fst") auto

declare digit3_loop.simps [simp del]

section \<open>Exponent style\<close>

text \<open>The number of decimal digits, and the digits of \<open>e_count\<close>, lowest first.\<close>

function bit_count :: "nat \<Rightarrow> nat" where
  "bit_count n = (if n div 10 \<noteq> 0 then 1 + bit_count (n div 10) else 1)"
  by pat_completeness auto
termination by (relation "measure id") auto

function exponent_digits :: "nat \<Rightarrow> u8 list" where
  "exponent_digits n = of_nat (0x30 + n mod 10) # (if n div 10 \<noteq> 0 then exponent_digits (n div 10) else [])"
  by pat_completeness auto
termination by (relation "measure id") auto

declare bit_count.simps [simp del] exponent_digits.simps [simp del]

definition fill_e_style :: "format_info \<Rightarrow> nat \<Rightarrow> nat \<Rightarrow> u8 list \<Rightarrow> u8 list option" where
  "fill_e_style fi e_count begin_cursor content =
     (let jump = int (length content) - (int begin_cursor + int (width fi) - int (bit_count e_count) - 2);
          cut = (if jump > 0
                 then (if jump > int (length content) then None
                       else (let n = length content - nat jump in Some (take (if n = begin_cursor then n + 1 else n) content)))
                 else Some content)
      in map_option (\<lambda>content.
           let content = content @ [if upper fi then 0x45 else 0x65, 0x2B];
               begin_cursor = length content;
               content = content @ exponent_digits e_count @ (if e_count \<le> 9 then [0x30] else [])
           in reverse begin_cursor (length content - 1) content) cut)"

section \<open>Integers\<close>

definition number_base :: "format_info \<Rightarrow> nat \<Rightarrow> nat" where
  "number_base fi base = (if spec_type fi = 0x62 then 2 else if spec_type fi = 0x78 then 16 else if spec_type fi = 0x6F then 8 else base)"

definition base_prefix :: "format_info \<Rightarrow> u8 list" where
  "base_prefix fi =
     (if prefix fi = 0x23
      then (if spec_type fi = 0x62 then [0x30, if upper fi then 0x42 else 0x62]
            else if spec_type fi = 0x78 then [0x30, if upper fi then 0x58 else 0x78] else [])
      else [])"

text \<open>The end of both integer functions: the digits are turned round, in the exponent style with a point behind the first.\<close>

definition finish_digits :: "format_info \<Rightarrow> u8 list \<Rightarrow> nat \<Rightarrow> u8 list \<Rightarrow> u8 list option" where
  "finish_digits fi digits e_count content =
     (let begin_cursor = length content
      in if spec_type fi = 0x65
         then (let content = content @ butlast digits @ [0x2E, last digits]
               in fill_e_style fi e_count begin_cursor (reverse begin_cursor (length content - 1) content))
         else (let content = content @ digits in Some (reverse begin_cursor (length content - 1) content)))"

definition insert_integral_unsigned :: "format_info \<Rightarrow> u64 \<Rightarrow> nat \<Rightarrow> u8 list \<Rightarrow> u8 list option" where
  "insert_integral_unsigned fi value base content =
     (let base = number_base fi base;
          content = content @ (if value > 0 \<and> sign fi = 0x2B then [0x2B] else []) @ base_prefix fi
      in if base = 10 \<and> spec_type fi \<noteq> 0x65 \<and> value \<ge> 1000000000
         then Some (content @ digit3_loop (unat value) [])
         else (let (digits, e_count) = digit_loop (upper fi) base (unat value) in finish_digits fi digits e_count content))"

definition insert_integral_signed :: "format_info \<Rightarrow> int \<Rightarrow> nat \<Rightarrow> u8 list \<Rightarrow> u8 list option" where
  "insert_integral_signed fi value base content =
     (let base = number_base fi base;
          content = content @ (if value < 0 then [0x2D] else if sign fi = 0x2B then [0x2B] else []) @ base_prefix fi
      in if base = 10 \<and> spec_type fi \<noteq> 0x65 \<and> (value \<ge> 1000000000 \<or> value \<le> - 1000000000)
         then (let mag = (if value < 0 then 0 - of_int value else of_int value) :: u64
               in Some (content @ digit3_loop (unat mag) []))
         else (let (digits, e_count) = signed_digit_loop (upper fi) (int base) value in finish_digits fi digits e_count content))"

section \<open>The digits of a number\<close>

lemma reverse_slice: "reverse (length a) (length a + length b - 1) (a @ b @ c) = a @ rev b @ c"
proof (induction "length b" arbitrary: a b c rule: less_induct)
  case less
  show ?case
  proof (cases b)
    case Nil
    then show ?thesis by (subst reverse.simps) auto
  next
    case (Cons x b')
    show ?thesis
    proof (cases b' rule: rev_cases)
      case Nil
      then show ?thesis using Cons by (subst reverse.simps) simp
    next
      case (snoc m y)
      let ?l = "a @ (x # m @ [y]) @ c"
      have b: "b = x # m @ [y]" using Cons snoc by simp
      have swap: "?l[length a := ?l ! (length a + length b - 1), length a + length b - 1 := ?l ! length a] = (a @ [y]) @ m @ x # c"
        by (simp add: b nth_append list_update_append)
      have "reverse (length (a @ [y])) (length (a @ [y]) + length m - 1) ((a @ [y]) @ m @ x # c) = (a @ [y]) @ rev m @ x # c"
        by (rule less) (simp add: b)
      moreover have "length a + length b - 1 - 1 = length (a @ [y]) + length m - 1" by (simp add: b)
      ultimately show ?thesis
        using swap by (subst reverse.simps) (simp add: b)
    qed
  qed
qed

lemma reverse_tail: "reverse (length a) (length (a @ b) - 1) (a @ b) = a @ rev b"
  using reverse_slice [of a b "[]"] by simp

definition digits_of :: "bool \<Rightarrow> nat \<Rightarrow> nat \<Rightarrow> u8 list" where
  "digits_of up base n = rev (fst (digit_loop up base n))"

lemma digit_loop_rec:
  "1 < base \<Longrightarrow> fst (digit_loop up base n) = digit_char up (n mod base) # (if n < base then [] else fst (digit_loop up base (n div base)))"
  by (subst digit_loop.simps) (auto simp: Let_def div_eq_0_iff split: prod.splits)

lemma digits_of_rec:
  "1 < base \<Longrightarrow> digits_of up base n = (if n < base then [] else digits_of up base (n div base)) @ [digit_char up (n mod base)]"
  unfolding digits_of_def using digit_loop_rec [of base up n] by simp

lemma digits_of_not_Nil [simp]: "1 < base \<Longrightarrow> digits_of up base n \<noteq> []"
  by (subst digits_of_rec) simp_all

lemma signed_digit_loop_eq:
  "1 < base \<Longrightarrow> signed_digit_loop up (int base) v =
     (fst (digit_loop up base (nat \<bar>v\<bar>)), if v < 0 then 0 else snd (digit_loop up base (nat \<bar>v\<bar>)))"
proof (induction "nat \<bar>v\<bar>" arbitrary: v rule: less_induct)
  case less
  let ?n = "nat \<bar>v\<bar>"
  have rem: "nat \<bar>v smod int base\<bar> = ?n mod base"
    using less(2) by (simp add: signed_modulo_int_def abs_mult abs_sgn_eq nat_mod_distrib)
  have q: "v sdiv int base = sgn v * int (?n div base)"
    using less(2) by (simp add: signed_divide_int_def zdiv_int)
  have quot: "nat \<bar>v sdiv int base\<bar> = ?n div base" if "v \<noteq> 0"
    using that by (simp add: q abs_mult abs_sgn_eq)
  have neg: "v sdiv int base < 0 \<longleftrightarrow> v < 0 \<and> ?n div base \<noteq> 0"
    and zero: "v sdiv int base = 0 \<longleftrightarrow> ?n div base = 0"
    and pos: "0 \<le> v \<Longrightarrow> v sdiv int base = int (?n div base)"
    unfolding q by (cases v "0 :: int" rule: linorder_cases; simp)+
  have step: "v sdiv int base \<noteq> 0 \<Longrightarrow> signed_digit_loop up (int base) (v sdiv int base) =
      (fst (digit_loop up base (?n div base)), if v sdiv int base < 0 then 0 else snd (digit_loop up base (?n div base)))"
    using less(1) [of "v sdiv int base"] less(2) quot zero by (cases "v = 0") (auto intro!: div_less_dividend)
  show ?case
    using step rem zero neg pos less(2)
    by (subst signed_digit_loop.simps, subst (1 2) digit_loop.simps) (auto simp: Let_def split: prod.splits)
qed

lemma digit_char_inj_value: "d < 16 \<Longrightarrow> digit_char up d = of_nat (if d < 10 then 0x30 + d else if up then 0x37 + d else 0x57 + d)"
  by (simp add: digit_char_def)

lemma of_nat_digit: "d < 10 \<Longrightarrow> digit_char up d = of_nat (0x30 + d)"
  by (simp add: digit_char_def)

lemma digit3_digits: "n < 1000 \<Longrightarrow> 100 \<le> n \<Longrightarrow> digits_of up 10 n = digit3 n"
  "n < 100 \<Longrightarrow> 10 \<le> n \<Longrightarrow> digits_of up 10 n = drop 1 (digit3 n)"
  "n < 10 \<Longrightarrow> digits_of up 10 n = drop 2 (digit3 n)"
proof -
  show "digits_of up 10 n = digit3 n" if "n < 1000" "100 \<le> n"
    using that by (subst digits_of_rec, simp, subst digits_of_rec, simp, subst digits_of_rec)
      (auto simp: digit3_def of_nat_digit div_mult2_eq [symmetric] simp del: of_nat_add)
  show "digits_of up 10 n = drop 1 (digit3 n)" if "n < 100" "10 \<le> n"
    using that by (subst digits_of_rec, simp, subst digits_of_rec)
      (auto simp: digit3_def of_nat_digit simp del: of_nat_add)
  show "digits_of up 10 n = drop 2 (digit3 n)" if "n < 10"
    using that by (subst digits_of_rec) (auto simp: digit3_def of_nat_digit simp del: of_nat_add)
qed

lemma last_digits:
  fixes n :: nat
  shows "n div 10 div 10 mod 10 = n mod 1000 div 100" "n div 10 mod 10 = n mod 1000 div 10 mod 10" "n mod 10 = n mod 1000 mod 10"
proof -
  define q r where "q = n div 1000" and "r = n mod 1000"
  have n: "n = r + 10 * (10 * (10 * q))" and r: "r < 1000" by (simp_all add: q_def r_def)
  have n1: "n div 10 = r div 10 + 10 * (10 * q)" unfolding n by simp
  then have n2: "n div 10 div 10 = r div 10 div 10 + 10 * q" by (metis add.commute div_mult_self4 zero_neq_numeral mult.commute)
  have r2: "r div 10 div 10 = r div 100" "r div 100 < 10" using r by (auto simp: div_mult2_eq [symmetric])
  show "n div 10 mod 10 = n mod 1000 div 10 mod 10"
    unfolding n1 r_def [symmetric] by (rule mod_mult_self2)
  have "n div 10 div 10 mod 10 = r div 10 div 10 mod 10" unfolding n2 by (rule mod_mult_self2)
  then show "n div 10 div 10 mod 10 = n mod 1000 div 100" using r2 by (simp add: r_def)
  show "n mod 10 = n mod 1000 mod 10" by (simp add: mod_mod_cancel)
qed

lemma digits_of_group: "1000 \<le> n \<Longrightarrow> digits_of up 10 n = digits_of up 10 (n div 1000) @ digit3 (n mod 1000)"
proof -
  assume "1000 \<le> n"
  then have n: "\<not> n < 10" "\<not> n div 10 < 10" "\<not> n div 10 div 10 < 10" by auto
  have step: "digits_of up 10 k = digits_of up 10 (k div 10) @ [digit_char up (k mod 10)]" if "\<not> k < 10" for k
    using that digits_of_rec [of 10 up k] by simp
  have "digits_of up 10 n = digits_of up 10 (n div 10 div 10 div 10)
      @ [digit_char up (n div 10 div 10 mod 10)] @ [digit_char up (n div 10 mod 10)] @ [digit_char up (n mod 10)]"
    using step [of n] step [of "n div 10"] step [of "n div 10 div 10"] n by (metis append_assoc)
  moreover have "n div 10 div 10 div 10 = n div 1000" by (simp add: div_mult2_eq [symmetric])
  moreover have "n div 10 div 10 mod 10 = n mod 1000 div 100" "n div 10 mod 10 = n mod 1000 div 10 mod 10" "n mod 10 = n mod 1000 mod 10"
    using last_digits by auto
  ultimately show ?thesis
    by (simp only: digit3_def of_nat_digit mod_less_divisor zero_less_numeral append_Cons append_Nil)
      (simp add: digit_char_def less_mult_imp_div_less)
qed

lemma digit3_loop_digits: "digit3_loop n p = digits_of up 10 n @ p"
proof (induction n p rule: digit3_loop.induct)
  case (1 n p)
  show ?case
  proof (cases "1000 \<le> n")
    case True
    then show ?thesis using 1 by (subst digit3_loop.simps) (simp add: digits_of_group)
  next
    case False
    then show ?thesis by (subst digit3_loop.simps) (simp add: digit3_digits)
  qed
qed

text \<open>\<open>tmp\<close> has room for 20 digits, which is enough.\<close>

lemma length_digits_of: "n < 10 ^ k \<Longrightarrow> 0 < k \<Longrightarrow> length (digits_of up 10 n) \<le> k"
proof (induction k arbitrary: n)
  case (Suc k)
  show ?case
  proof (cases "n < 10")
    case True
    then show ?thesis by (subst digits_of_rec) simp_all
  next
    case False
    then have "0 < k" using Suc.prems by (cases k) auto
    then have "length (digits_of up 10 (n div 10)) \<le> k" using Suc by auto
    then show ?thesis using False by (subst digits_of_rec) simp_all
  qed
qed simp

lemma length_digit3_loop: "length (digit3_loop (unat (v :: u64)) []) \<le> 20"
proof -
  have "unat v < 10 ^ 20" using unsigned_less [of v, where 'a = nat] by simp
  then show ?thesis using length_digits_of [of "unat v" 20 True] by (simp add: digit3_loop_digits [where up = True])
qed

text \<open>Reading the digits of a number in a base.\<close>

definition digit_value :: "u8 \<Rightarrow> nat" where
  "digit_value c = (if c \<le> 0x39 then unat c - 0x30 else if c \<le> 0x46 then unat c - 0x37 else unat c - 0x57)"

definition parse_digits :: "nat \<Rightarrow> u8 list \<Rightarrow> nat" where
  "parse_digits base ds = foldl (\<lambda>n c. n * base + digit_value c) 0 ds"

lemma digit_value_char: "d < 16 \<Longrightarrow> digit_value (digit_char up d) = d"
proof -
  have "\<forall>d \<in> {0..<16}. \<forall>up. digit_value (digit_char up d) = d"
    unfolding atLeastLessThan_upt by (simp add: upt_rec digit_value_def digit_char_def)
  moreover assume "d < 16"
  ultimately show ?thesis by simp
qed

lemma parse_digits_of: "1 < base \<Longrightarrow> base \<le> 16 \<Longrightarrow> parse_digits base (digits_of up base n) = n"
proof (induction n rule: less_induct)
  case (less n)
  have "n mod base < 16" using less(2,3) mod_less_divisor [of base n] by linarith
  then show ?case
    using less by (subst digits_of_rec) (auto simp: parse_digits_def digit_value_char not_less)
qed

text \<open>No number but 0 starts with the digit 0.\<close>

lemma hd_digits_of: "1 < base \<Longrightarrow> base \<le> 16 \<Longrightarrow> hd (digits_of up base n) = 0x30 \<Longrightarrow> n = 0"
proof (induction n rule: less_induct)
  case (less n)
  have first: "hd (digits_of up base n) = (if n < base then digit_char up n else hd (digits_of up base (n div base)))"
    using less(2) by (subst digits_of_rec) (auto simp: hd_append)
  show ?case
  proof (cases "n < base")
    case True
    then have "digit_char up n = 0x30" "n < 16" using first less by auto
    then show ?thesis using digit_value_char [of n up] by (simp add: digit_value_def)
  next
    case False
    then have "n div base = 0" using first less by (auto intro!: less(1))
    then show ?thesis using False less(2) by (simp add: div_eq_0_iff)
  qed
qed

section \<open>Integers in every style but the exponent style\<close>

lemma finish_plain: "spec_type fi \<noteq> 0x65 \<Longrightarrow> finish_digits fi ds e content = Some (content @ rev ds)"
  using reverse_tail [of content ds] by (simp add: finish_digits_def Let_def)

lemma insert_unsigned_plain:
  "spec_type fi \<noteq> 0x65 \<Longrightarrow> insert_integral_unsigned fi v base content =
     Some (content @ (if v > 0 \<and> sign fi = 0x2B then [0x2B] else []) @ base_prefix fi @ digits_of (upper fi) (number_base fi base) (unat v))"
  by (auto simp: insert_integral_unsigned_def Let_def finish_plain digit3_loop_digits [where up = "upper fi"] digits_of_def split: prod.splits)

lemma insert_signed_plain:
  assumes "spec_type fi \<noteq> 0x65" "1 < base" "- (2 ^ 63) \<le> v" "v < 2 ^ 63"
  shows "insert_integral_signed fi v base content =
     Some (content @ (if v < 0 then [0x2D] else if sign fi = 0x2B then [0x2B] else []) @ base_prefix fi
       @ digits_of (upper fi) (number_base fi base) (nat \<bar>v\<bar>))"
proof -
  have b: "1 < number_base fi base" using assms(2) by (simp add: number_base_def)
  have mag: "unat (if v < 0 then 0 - of_int v else of_int v :: u64) = nat \<bar>v\<bar>"
  proof -
    have "(if v < 0 then 0 - of_int v else of_int v :: u64) = of_int \<bar>v\<bar>" by (simp add: abs_if)
    moreover have "unat (of_int \<bar>v\<bar> :: u64) = nat \<bar>v\<bar>"
      using assms(3,4) by (simp add: unat_eq_nat_uint uint_word_of_int_eq take_bit_int_eq_self del: of_int_abs)
    ultimately show ?thesis by (simp only:)
  qed
  show ?thesis
  proof (cases "number_base fi base = 10 \<and> spec_type fi \<noteq> 0x65 \<and> (v \<ge> 1000000000 \<or> v \<le> - 1000000000)")
    case True
    then show ?thesis
      unfolding insert_integral_signed_def Let_def mag digit3_loop_digits [where up = "upper fi"] by simp
  next
    case False
    then show ?thesis
      unfolding insert_integral_signed_def Let_def signed_digit_loop_eq [OF b]
      by (simp only: if_False prod.case finish_plain [OF assms(1)] digits_of_def append_assoc)
  qed
qed

section \<open>Alignment\<close>

lemma length_move_right: "length (fst (move_right fi w ignore i out)) = length w + length out"
  by (induction w arbitrary: ignore i out) (simp_all add: Let_def)

text \<open>A text without the characters the right alignment looks for is moved as it is.\<close>

definition unmoved :: "format_info \<Rightarrow> u8 \<Rightarrow> bool" where
  "unmoved fi c \<longleftrightarrow> (c \<in> {0x2B, 0x2D} \<longrightarrow> fill fi = 0x20)
     \<and> (c \<in> {0x62, 0x42, 0x78, 0x58} \<longrightarrow> \<not> (fill fi = 0x30 \<and> prefix fi = 0x23 \<and> spec_type fi \<in> {0x62, 0x78}))"

lemma move_right_plain: "list_all (unmoved fi) w \<Longrightarrow> ignore \<noteq> 2 \<Longrightarrow> move_right fi w ignore i out = (rev w @ out, ignore)"
  by (induction w arbitrary: out) (auto simp: unmoved_def Let_def)

lemma fill_and_alignment_length:
  "fill_and_alignment fi (length content) (content @ w) = Some out \<Longrightarrow>
     take (length content) out = content \<and> length out = length content + max (width fi) (length w)"
  using length_move_right [of fi "rev w" 0 0 "[]"]
  by (auto simp: fill_and_alignment_def align_bytes_def Let_def split: if_splits alignment.splits prod.splits)

text \<open>The aligned text: the fill, the text, the fill again.\<close>

definition aligned :: "format_info \<Rightarrow> u8 list \<Rightarrow> u8 list" where
  "aligned fi w =
     (let n = width fi - length w
      in case align fi of
           Align_right \<Rightarrow> replicate n (fill fi) @ w
         | Align_left \<Rightarrow> w @ replicate n (fill fi)
         | Align_middle \<Rightarrow> replicate (n - n div 2) (fill fi) @ w @ replicate (n div 2) (fill fi))"

lemma fill_and_alignment_plain:
  "list_all (unmoved fi) w \<or> align fi \<noteq> Align_right \<Longrightarrow>
     fill_and_alignment fi (length content) (content @ w) = Some (content @ aligned fi w)"
  using move_right_plain [of fi "rev w" 0 0 "[]"]
  by (auto simp: fill_and_alignment_def align_bytes_def aligned_def Let_def not_less split: alignment.splits)

text \<open>
  A sign in front of a number stays in front of the zeros: with the fill 0 a signed number is padded between its sign and its digits.
\<close>

lemma move_right_app:
  "list_all (unmoved fi) w \<Longrightarrow> move_right fi (w @ v) 0 i out = move_right fi v 0 i (rev w @ out)"
  by (induction w arbitrary: out) (auto simp: unmoved_def Let_def)

lemma fill_signed:
  assumes "list_all (unmoved fi) w" "c = 0x2B \<or> c = 0x2D" "align fi = Align_right" "length w + 1 < width fi"
  shows "fill_and_alignment fi (length content) (content @ c # w) =
     Some (content @ (if fill fi = 0x20 then replicate (width fi - length w - 1) 0x20 @ c # w
                      else c # replicate (width fi - length w - 1) (fill fi) @ w))"
proof -
  have n: "width fi - length w - 1 = Suc (width fi - length w - 2)" using assms(4) by simp
  have m: "move_right fi (rev w @ [c]) 0 0 [] = (if fill fi = 0x20 then (c # w, 0) else (fill fi # w, 1))"
    using move_right_app [of fi "rev w" "[c]" 0 "[]"] assms(1,2) by (auto simp: Let_def)
  show ?thesis
    using assms(3,4) n by (cases "fill fi = 0x20")
      (auto simp: fill_and_alignment_def align_bytes_def m Let_def replicate_app_Cons_same replicate_append_same)
qed

text \<open>
  C10. Outside of the exponent style an integer is printed as its sign, the prefix of its base and digits which, read in that base, give its
  absolute value; a leading digit 0 is printed for 0 only. The path that takes three digits at a time from a table of 1000 entries
  prints the same as the loop over single digits.
\<close>

theorem integer_text:
  assumes "spec_type fi \<noteq> 0x65" "base = 10 \<or> base = 16" "- (2 ^ 63) \<le> v" "v < 2 ^ 63"
  shows "\<exists>ds us. insert_integral_signed fi v base content =
        Some (content @ (if v < 0 then [0x2D] else if sign fi = 0x2B then [0x2B] else []) @ base_prefix fi @ ds)
     \<and> insert_integral_unsigned fi w base content =
        Some (content @ (if w > 0 \<and> sign fi = 0x2B then [0x2B] else []) @ base_prefix fi @ us)
     \<and> parse_digits (number_base fi base) ds = nat \<bar>v\<bar> \<and> parse_digits (number_base fi base) us = unat w
     \<and> (hd ds = 0x30 \<longrightarrow> v = 0) \<and> (hd us = 0x30 \<longrightarrow> w = 0)"
proof -
  have b: "1 < base" "1 < number_base fi base" "number_base fi base \<le> 16" using assms(2) by (auto simp: number_base_def)
  then show ?thesis
    unfolding insert_signed_plain [OF assms(1) b(1) assms(3,4)] insert_unsigned_plain [OF assms(1)]
    using parse_digits_of [OF b(2,3)] hd_digits_of [OF b(2,3), where up = "upper fi" and n = "nat \<bar>v\<bar>"]
      hd_digits_of [OF b(2,3), where up = "upper fi" and n = "unat w"]
    by (intro exI [of _ "digits_of (upper fi) (number_base fi base) (nat \<bar>v\<bar>)"]
        exI [of _ "digits_of (upper fi) (number_base fi base) (unat w)"])
      (auto simp: unat_eq_zero)
qed

theorem integer_text_witness:
  "\<exists>ds us. insert_integral_signed (new_format_info\<lparr>spec_type := 0x78, prefix := 0x23\<rparr>) (- 255) 10 [] = Some ([0x2D] @ [0x30, 0x58] @ ds)
     \<and> insert_integral_unsigned (new_format_info\<lparr>spec_type := 0x78, prefix := 0x23\<rparr>) 4096 10 [] = Some ([0x30, 0x58] @ us)
     \<and> parse_digits 16 ds = 255 \<and> parse_digits 16 us = 4096"
  using integer_text [of "new_format_info\<lparr>spec_type := 0x78, prefix := 0x23\<rparr>" 10 "- 255" "[]" 4096]
  by (simp add: new_format_info_def number_base_def base_prefix_def) blast

end
