(* ===== verification/Layout_Decimal.thy ===== *)
theory Layout_Decimal
  imports Layout_Format
begin

text \<open>
  \<open>insert_decimal\<close> of \<open>src/bq_log/log/layout.cpp\<close> for \<open>float\<close> and \<open>double\<close>. A finite number is a sign, a mantissa and a binary exponent, read from
  its bits. The conversion to an integer cuts the fraction off, and subtracting that integer again is exact; only the multiplication by
  ten rounds, to the nearest number with 24 or 53 bits and ties to even. The fraction is \<open>k / 2 ^ s\<close> for naturals \<open>k\<close> and \<open>s\<close>. Infinities and
  NaN, and numbers outside of the 64-bit range, are \<open>None\<close>: the conversion is undefined there.
\<close>

section \<open>Binary floating point\<close>

definition decode_float :: "u32 \<Rightarrow> (bool \<times> nat \<times> int) option" where
  "decode_float w =
     (let e = unat (drop_bit 23 w AND 0xFF); f = unat (w AND 0x7FFFFF)
      in if e = 255 then None else Some (bit w 31, if e = 0 then f else f + 2 ^ 23, int (max e 1) - 150))"

definition decode_double :: "u64 \<Rightarrow> (bool \<times> nat \<times> int) option" where
  "decode_double w =
     (let e = unat (drop_bit 52 w AND 0x7FF); f = unat (w AND 0xFFFFFFFFFFFFF)
      in if e = 2047 then None else Some (bit w 63, if e = 0 then f else f + 2 ^ 52, int (max e 1) - 1075))"

text \<open>The integer part and the fraction of \<open>m * 2 ^ e\<close>.\<close>

definition int_part :: "nat \<Rightarrow> int \<Rightarrow> nat" where
  "int_part m e = (if e \<ge> 0 then m * 2 ^ nat e else m div 2 ^ nat (- e))"

definition frac_part :: "nat \<Rightarrow> int \<Rightarrow> nat \<times> nat" where
  "frac_part m e = (if e \<ge> 0 then (0, 0) else (m mod 2 ^ nat (- e), nat (- e)))"

fun bit_length :: "nat \<Rightarrow> nat" where
  "bit_length n = (if n = 0 then 0 else Suc (bit_length (n div 2)))"

declare bit_length.simps [simp del]

text \<open>Ten times the fraction, rounded to \<open>p\<close> bits.\<close>

definition round_even :: "nat \<Rightarrow> nat \<Rightarrow> nat" where
  "round_even n r =
     (let q = n div 2 ^ r; rest = n mod 2 ^ r
      in if 2 * rest > 2 ^ r \<or> 2 * rest = 2 ^ r \<and> odd q then q + 1 else q)"

definition times_ten :: "nat \<Rightarrow> nat \<times> nat \<Rightarrow> nat \<times> nat" where
  "times_ten p v =
     (case v of (k, s) \<Rightarrow>
        let n = 10 * k; r = bit_length n - p
        in if r = 0 then (n, s) else (round_even n r * 2 ^ (r - s), s - r))"

text \<open>The loop over the digits behind the point.\<close>

fun frac_digits :: "nat \<Rightarrow> nat \<Rightarrow> nat \<times> nat \<Rightarrow> u8 list" where
  "frac_digits p 0 v = []"
| "frac_digits p (Suc n) v =
     (let (k, s) = times_ten p v; digit = k div 2 ^ s
      in of_nat (0x30 + digit) # frac_digits p n (k mod 2 ^ s, s))"

section \<open>Insertion\<close>

text \<open>The point is swapped to the left past \<open>moves\<close> bytes; the result is the buffer and \<open>point_index\<close>.\<close>

fun move_point :: "nat \<Rightarrow> nat \<Rightarrow> u8 list \<Rightarrow> u8 list \<times> nat" where
  "move_point 0 point_index content = (content, point_index)"
| "move_point (Suc moves) point_index content =
     move_point moves (point_index - 1)
       (content[point_index := content ! (point_index - 1), point_index - 1 := content ! point_index])"

definition insert_int_part :: "format_info \<Rightarrow> bool \<Rightarrow> nat \<Rightarrow> u8 list \<Rightarrow> u8 list option" where
  "insert_int_part fi negative i_part content =
     (if \<not> negative then (if i_part < 2 ^ 64 then insert_integral_unsigned fi (of_nat i_part) 10 content else None)
      else (if i_part \<le> 2 ^ 63 then insert_integral_signed fi (- int i_part) 10 content else None))"

text \<open>
  The body of both functions, for \<open>p\<close> bits and \<open>d\<close> digits behind the point when none are asked for. A precision the width
  leaves no room for is negative for \<open>float\<close> and 0 for \<open>double\<close>: no digit is written in both cases. The cursor set behind the last byte for a
  short width is moved back again by \<open>fill_e_style\<close>, so that \<open>take\<close> serves both.
\<close>

definition insert_decimal :: "nat \<Rightarrow> nat \<Rightarrow> format_info \<Rightarrow> bool \<Rightarrow> nat \<Rightarrow> int \<Rightarrow> u8 list \<Rightarrow> u8 list option" where
  "insert_decimal p d fi neg m e content =
     (let exponent = spec_type fi = 0x65;
          fi_int = (if exponent then fi\<lparr>spec_type := 0x5A\<rparr> else fi);
          prec = (if precision fi \<noteq> 0xFFFFFFFF then precision fi else d);
          begin_cursor = length content
      in Option.bind (insert_int_part fi_int (neg \<and> m \<noteq> 0) (int_part m e) content) (\<lambda>content.
         let int_width = length content - begin_cursor;
             prec = (if width fi > 0 \<and> width fi < prec + 1 + int_width then width fi - int_width - 1 else prec);
             point = prec > 0 \<or> exponent \<and> int_width > 1;
             point_index = (if point then length content else 0);
             content = content @ (if point then [0x2E] else []) @ frac_digits p prec (frac_part m e)
         in if exponent
            then (let moves = int_width - 1;
                      (content, point_index) = (if point_index \<noteq> 0 then move_point moves point_index content else (content, point_index));
                      content = (if precision fi > 0 \<and> precision fi < length content - begin_cursor
                                 then take (point_index + precision fi + 1) content else content)
                  in fill_e_style fi moves begin_cursor content)
            else Some content))"

definition insert_decimal_float :: "format_info \<Rightarrow> u32 \<Rightarrow> u8 list \<Rightarrow> u8 list option" where
  "insert_decimal_float fi w content = Option.bind (decode_float w) (\<lambda>(neg, m, e). insert_decimal 24 7 fi neg m e content)"

definition insert_decimal_double :: "format_info \<Rightarrow> u64 \<Rightarrow> u8 list \<Rightarrow> u8 list option" where
  "insert_decimal_double fi w content = Option.bind (decode_double w) (\<lambda>(neg, m, e). insert_decimal 53 15 fi neg m e content)"

section \<open>The digits behind the point\<close>

lemma bit_length_bounds: "0 < n \<Longrightarrow> 2 ^ (bit_length n - 1) \<le> n \<and> n < 2 ^ bit_length n \<and> 0 < bit_length n"
proof (induction n rule: bit_length.induct)
  case (1 n)
  have rec: "bit_length n = Suc (bit_length (n div 2))" using 1(2) by (subst bit_length.simps) simp
  show ?case
  proof (cases "n div 2 = 0")
    case True
    then have "n = 1" using 1(2) by auto
    moreover have "bit_length n = 1" by (simp add: rec True bit_length.simps [of 0])
    ultimately show ?thesis by simp
  next
    case False
    then have "2 ^ (bit_length (n div 2) - 1) \<le> n div 2" "n div 2 < 2 ^ bit_length (n div 2)" "0 < bit_length (n div 2)"
      using 1 by auto
    then show ?thesis unfolding rec by (cases "bit_length (n div 2)") auto
  qed
qed

lemma bit_length_le: "n < 2 ^ k \<Longrightarrow> bit_length n \<le> k"
proof (cases "n = 0")
  case False
  assume "n < 2 ^ k"
  then have "2 ^ (bit_length n - 1) < (2 :: nat) ^ k" using bit_length_bounds [of n] False by linarith
  then show ?thesis using bit_length_bounds [of n] False by auto
qed (simp add: bit_length.simps)

text \<open>A fraction below 1 of at most \<open>p\<close> bits, or the power of two above them that rounding can give.\<close>

definition fraction :: "nat \<Rightarrow> nat \<times> nat \<Rightarrow> bool" where
  "fraction p v \<longleftrightarrow> fst v < 2 ^ snd v \<and> fst v \<le> 2 ^ p"

lemma round_even_near: "2 * round_even n r * 2 ^ r \<le> 2 * n + 2 ^ r"
proof -
  define q m where "q = n div 2 ^ r" and "m = n mod 2 ^ r"
  have "n = q * 2 ^ r + m" unfolding q_def m_def by (rule div_mult_mod_eq [symmetric])
  moreover have "round_even n r \<le> q \<or> round_even n r = q + 1 \<and> 2 ^ r \<le> 2 * m"
    unfolding round_even_def Let_def q_def [symmetric] m_def [symmetric] by auto
  then have "round_even n r * 2 ^ r \<le> q * 2 ^ r \<or> round_even n r * 2 ^ r = q * 2 ^ r + 2 ^ r \<and> 2 ^ r \<le> 2 * m"
    using mult_le_mono1 [of "round_even n r" q "2 ^ r"] by auto
  ultimately show ?thesis by linarith
qed

lemma round_even_le: "n < 2 ^ (p + r) \<Longrightarrow> round_even n r \<le> 2 ^ p"
proof -
  assume "n < 2 ^ (p + r)"
  then have "n div 2 ^ r < 2 ^ p" by (simp add: less_mult_imp_div_less power_add)
  then show ?thesis by (auto simp: round_even_def Let_def)
qed

lemma times_ten_fraction:
  assumes v: "fraction p (k, s)" and p: "4 < p" and w: "times_ten p (k, s) = (k', s')"
  shows "k' < 10 * 2 ^ s' \<and> k' \<le> 2 ^ p"
proof -
  define n r where "n = 10 * k" and "r = bit_length n - p"
  have k: "k < 2 ^ s" "k \<le> 2 ^ p" using v by (auto simp: fraction_def)
  show ?thesis
  proof (cases "r = 0")
    case True
    then have "(2 :: nat) ^ bit_length n \<le> 2 ^ p" by (intro power_increasing) (auto simp: r_def)
    moreover have "n < 2 ^ bit_length n \<or> n = 0" using bit_length_bounds [of n] by auto
    ultimately have "n < 2 ^ p \<or> n = 0" by (meson less_le_trans)
    then show ?thesis using w k True by (auto simp: times_ten_def n_def r_def Let_def)
  next
    case False
    have "bit_length 0 = 0" by (simp add: bit_length.simps)
    then have n0: "0 < n" and L: "bit_length n = p + r" using False by (cases "n = 0"; auto simp: r_def)+
    have lower: "2 ^ (p + r - 1) \<le> n" and upper: "n < 2 ^ (p + r)" using bit_length_bounds [OF n0] L by auto
    have "n < 2 ^ (s + 4)" using k by (simp add: n_def power_add)
    then have r: "p + r \<le> s + 4" using bit_length_le L by metis
    then have rs: "r \<le> s" using p by simp
    have near: "2 * round_even n r * 2 ^ r \<le> 2 * n + 2 ^ r" by (rule round_even_near)
    have "2 * round_even n r * 2 ^ r < 20 * 2 ^ s"
    proof (cases "s \<le> p")
      case True
      then have "r \<le> 4" using r by simp
      then have "(2 :: nat) ^ r \<le> 16" using power_increasing [of r 4 "2 :: nat"] by simp
      moreover have "20 * k + 20 \<le> 20 * 2 ^ s" using k by linarith
      ultimately show ?thesis using near n_def by linarith
    next
      case False
      then have "(2 :: nat) * 2 ^ p \<le> 2 ^ s" using power_increasing [of "Suc p" s "2 :: nat"] by simp
      then have "2 * n \<le> 10 * 2 ^ s" using k by (simp add: n_def)
      moreover have "(2 :: nat) ^ r \<le> 2 ^ (p + r - 1)" using p by (intro power_increasing) auto
      moreover have "(0 :: nat) < 2 ^ s" by simp
      ultimately show ?thesis using near lower by linarith
    qed
    moreover have "(2 :: nat) ^ s = 2 ^ (s - r) * 2 ^ r" using rs by (simp add: power_add [symmetric])
    ultimately have "round_even n r * 2 ^ r < 10 * 2 ^ (s - r) * 2 ^ r" by (simp only: mult.assoc)
    then have "round_even n r < 10 * 2 ^ (s - r)" by (simp only: mult_less_cancel2)
    moreover have "(k', s') = (round_even n r, s - r)"
      using w False rs by (simp add: times_ten_def n_def r_def Let_def)
    ultimately show ?thesis using round_even_le [OF upper] by simp
  qed
qed

text \<open>Hence every byte written is a decimal digit: rounding never carries into a tenth.\<close>

definition decimal :: "u8 \<Rightarrow> bool" where
  "decimal c \<longleftrightarrow> 0x30 \<le> c \<and> c \<le> 0x39"

lemma decimal_digit: "d < 10 \<Longrightarrow> decimal (of_nat (0x30 + d))"
proof -
  have "\<forall>d \<in> {0..<10}. decimal (of_nat (0x30 + d))"
    unfolding atLeastLessThan_upt by (simp add: upt_rec decimal_def)
  moreover assume "d < 10"
  ultimately show ?thesis by simp
qed

lemma frac_digits_decimal: "fraction p v \<Longrightarrow> 4 < p \<Longrightarrow> \<forall>c \<in> set (frac_digits p n v). decimal c"
proof (induction p n v rule: frac_digits.induct)
  case (2 p n v)
  obtain k s k' s' where v: "v = (k, s)" "times_ten p v = (k', s')" by (metis surj_pair)
  then have b: "k' < 10 * 2 ^ s'" "k' \<le> 2 ^ p" using times_ten_fraction 2(2,3) by auto
  then have "k' div 2 ^ s' < 10" by (simp add: less_mult_imp_div_less)
  moreover have "k' mod 2 ^ s' \<le> 2 ^ p" using b(2) mod_less_eq_dividend [of k' "2 ^ s'"] by linarith
  ultimately show ?case
    using 2(1) [of "(k', s')" k' s'] 2(3) v decimal_digit by (simp add: Let_def fraction_def)
qed simp

lemma length_frac_digits [simp]: "length (frac_digits p n v) = n"
  by (induction p n v rule: frac_digits.induct) (simp_all add: Let_def split: prod.splits)

text \<open>A fraction with few bits behind the point is multiplied exactly; its digits are those of the decimal expansion.\<close>

lemma parse_decimal: "d < 10 \<Longrightarrow> digit_value (of_nat (0x30 + d)) = d"
  using digit_value_char [of d True] by (simp add: digit_char_def)

lemma foldl_digits: "foldl (\<lambda>n c. n * base + digit_value c) a ds = a * base ^ length ds + parse_digits base ds"
proof (induction ds rule: rev_induct)
  case (snoc c ds)
  then show ?case by (simp add: parse_digits_def algebra_simps)
qed (simp add: parse_digits_def)

lemma parse_digits_Cons: "parse_digits base (c # ds) = digit_value c * base ^ length ds + parse_digits base ds"
  using foldl_digits [of base "digit_value c" ds] by (simp add: parse_digits_def)

lemma times_ten_exact:
  assumes "k < 2 ^ b" "b + 4 \<le> p" "v = (k * 2 ^ j, b + j)"
  shows "\<exists>j'. times_ten p v = (10 * k * 2 ^ j', b + j')"
proof -
  let ?n = "10 * (k * 2 ^ j)" and ?r = "bit_length (10 * (k * 2 ^ j)) - p"
  have "10 * k < 16 * 2 ^ b" using assms(1) by simp
  then have "?n < 16 * 2 ^ b * 2 ^ j" by simp
  then have "?n < 2 ^ (b + j + 4)" by (simp add: power_add mult.commute)
  then have r: "?r \<le> j" using bit_length_le [of ?n "b + j + 4"] assms(2) by simp
  show ?thesis
  proof (cases "?r = 0")
    case True
    then have "times_ten p v = (10 * k * 2 ^ j, b + j)" by (simp add: times_ten_def assms(3) Let_def mult.assoc)
    then show ?thesis by blast
  next
    case False
    define i where "i = j - ?r"
    have split: "?n = 10 * k * 2 ^ i * 2 ^ ?r" using r by (simp add: i_def power_add [symmetric])
    have "round_even ?n ?r = 10 * k * 2 ^ i"
      unfolding round_even_def Let_def by (subst (1 2 3 4 5) split) simp
    then have "times_ten p v = (10 * k * 2 ^ i, b + i)"
      using False r by (simp add: times_ten_def assms(3) Let_def i_def)
    then show ?thesis by blast
  qed
qed

lemma frac_digits_exact:
  "k < 2 ^ b \<Longrightarrow> b + 4 \<le> p \<Longrightarrow> parse_digits 10 (frac_digits p n (k * 2 ^ j, b + j)) = 10 ^ n * k div 2 ^ b"
proof (induction n arbitrary: k j)
  case 0
  then show ?case by (simp add: parse_digits_def)
next
  case (Suc n)
  obtain j' where t: "times_ten p (k * 2 ^ j, b + j) = (10 * k * 2 ^ j', b + j')"
    using times_ten_exact Suc.prems by blast
  define q m where "q = 10 * k div 2 ^ b" and "m = 10 * k mod 2 ^ b"
  have kqm: "10 * k = q * 2 ^ b + m" unfolding q_def m_def by (rule div_mult_mod_eq [symmetric])
  have q: "q < 10" and m: "m < 2 ^ b" using Suc.prems(1) by (auto simp: q_def m_def less_mult_imp_div_less)
  have "10 * k * 2 ^ j' div 2 ^ (b + j') = q" "10 * k * 2 ^ j' mod 2 ^ (b + j') = m * 2 ^ j'"
    unfolding q_def m_def power_add by (rule div_mult_mult2, simp) (rule mod_mult_mult2)
  moreover have split: "10 ^ Suc n * k div 2 ^ b = 10 ^ n * m div 2 ^ b + 10 ^ n * q"
  proof -
    have "10 ^ Suc n * k = 10 ^ n * (10 * k)" by simp
    also have "\<dots> = 10 ^ n * m + 10 ^ n * q * 2 ^ b" by (simp add: kqm distrib_left mult.assoc)
    finally show ?thesis by simp
  qed
  ultimately have "parse_digits 10 (frac_digits p (Suc n) (k * 2 ^ j, b + j)) = q * 10 ^ n + 10 ^ n * m div 2 ^ b"
    using Suc.IH [OF m Suc.prems(2)] t parse_decimal [OF q]
    by (simp only: frac_digits.simps prod.case Let_def parse_digits_Cons length_frac_digits)
  then show ?case using split by (simp only: mult.commute add.commute)
qed

section \<open>The text of a floating point number\<close>

lemma double_fraction: "decode_double w = Some (neg, m, e) \<Longrightarrow> m < 2 ^ 53"
proof -
  have "unat (w AND mask 52) = take_bit 52 (unat w)" by (simp only: take_bit_eq_mask [symmetric] unsigned_take_bit_eq)
  then have "unat (w AND mask 52) < 2 ^ 52" using take_bit_nat_less_exp [of 52 "unat w"] by (simp only:)
  then have "unat (w AND 0xFFFFFFFFFFFFF) < 2 ^ 52" by (simp add: mask_eq_exp_minus_1)
  then show "decode_double w = Some (neg, m, e) \<Longrightarrow> m < 2 ^ 53"
    by (auto simp: decode_double_def Let_def split: if_splits)
qed

lemma frac_part_fraction: "m < 2 ^ p \<Longrightarrow> fraction p (frac_part m e)"
  using le_less_trans [OF mod_less_eq_dividend [of m "2 ^ nat (- e)"], of "2 ^ p"] by (auto simp: frac_part_def fraction_def)

lemma frac_part_exact:
  assumes "2 ^ j dvd m" "e < 0" "- e \<le> int (j + b)" "b + 4 \<le> p"
  shows "parse_digits 10 (frac_digits p n (frac_part m e)) = 10 ^ n * (m mod 2 ^ nat (- e)) div 2 ^ nat (- e)"
proof -
  define s where "s = nat (- e)"
  define i where "i = min j s"
  have i: "i \<le> s" "s - i + 4 \<le> p" using assms(2,3,4) by (auto simp: i_def s_def)
  obtain q where "m = 2 ^ i * q"
    using assms(1) le_imp_power_dvd [of i j "2 :: nat"] by (metis dvd_def dvd_trans i_def min.cobounded1)
  moreover have s: "(2 :: nat) ^ s = 2 ^ i * 2 ^ (s - i)" using i by (simp add: power_add [symmetric])
  ultimately have k: "m mod 2 ^ s = q mod 2 ^ (s - i) * 2 ^ i" by (simp add: mult.commute)
  have "parse_digits 10 (frac_digits p n (m mod 2 ^ s, s)) = 10 ^ n * (q mod 2 ^ (s - i)) div 2 ^ (s - i)"
    using frac_digits_exact [of "q mod 2 ^ (s - i)" "s - i" p n i] i by (simp add: k)
  also have "\<dots> = 10 ^ n * (m mod 2 ^ s) div 2 ^ s"
  proof -
    have "10 ^ n * (q mod 2 ^ (s - i)) * 2 ^ i div (2 ^ (s - i) * 2 ^ i) = 10 ^ n * (q mod 2 ^ (s - i)) div 2 ^ (s - i)"
      by (rule div_mult_mult2) simp
    moreover have "10 ^ n * (m mod 2 ^ s) = 10 ^ n * (q mod 2 ^ (s - i)) * 2 ^ i" unfolding k by (rule mult.assoc [symmetric])
    moreover have "(2 :: nat) ^ s = 2 ^ (s - i) * 2 ^ i" using s by (simp only: mult.commute)
    ultimately show ?thesis by (simp only:)
  qed
  finally show ?thesis using assms(2) by (simp add: frac_part_def s_def)
qed

lemma insert_decimal_plain:
  assumes "spec_type fi \<noteq> 0x65" "insert_decimal p d fi neg m e content = Some out"
  shows "\<exists>whole n. insert_int_part fi (neg \<and> m \<noteq> 0) (int_part m e) content = Some whole
     \<and> out = whole @ (if n = 0 then [] else 0x2E # frac_digits p n (frac_part m e))"
proof -
  obtain whole where w: "insert_int_part fi (neg \<and> m \<noteq> 0) (int_part m e) content = Some whole"
    using assms by (auto simp: insert_decimal_def Let_def bind_eq_Some_conv)
  let ?prec = "if precision fi \<noteq> 0xFFFFFFFF then precision fi else d"
  let ?iw = "length whole - length content"
  let ?n = "if width fi > 0 \<and> width fi < ?prec + 1 + ?iw then width fi - ?iw - 1 else ?prec"
  have "Some out = Some (whole @ (if ?n > 0 then [0x2E] else []) @ frac_digits p ?n (frac_part m e))"
    unfolding assms(2) [symmetric] insert_decimal_def Let_def using assms(1) w by simp
  then have "out = whole @ (if ?n = 0 then [] else 0x2E # frac_digits p ?n (frac_part m e))"
    by (cases "?n = 0") (simp_all only: frac_digits.simps option.inject, simp_all)
  with w show ?thesis by blast
qed

lemma decimal_text_gen:
  assumes "spec_type fi \<noteq> 0x65" "insert_decimal p d fi neg m e content = Some out" "m < 2 ^ p" "4 < p"
  shows "\<exists>whole ds. insert_int_part fi (neg \<and> m \<noteq> 0) (int_part m e) content = Some whole
     \<and> out = whole @ (if ds = [] then [] else 0x2E # ds) \<and> list_all decimal ds
     \<and> (e < 0 \<longrightarrow> 2 ^ (nat (- e) + 4 - p) dvd m \<longrightarrow>
          parse_digits 10 ds = 10 ^ length ds * (m mod 2 ^ nat (- e)) div 2 ^ nat (- e))"
proof -
  obtain whole n where w: "insert_int_part fi (neg \<and> m \<noteq> 0) (int_part m e) content = Some whole"
      "out = whole @ (if n = 0 then [] else 0x2E # frac_digits p n (frac_part m e))"
    using insert_decimal_plain [OF assms(1,2)] by blast
  let ?ds = "frac_digits p n (frac_part m e)"
  have "list_all decimal ?ds"
    using frac_digits_decimal [OF frac_part_fraction [OF assms(3), of e] assms(4)] by (simp add: list_all_iff)
  moreover have "parse_digits 10 ?ds = 10 ^ length ?ds * (m mod 2 ^ nat (- e)) div 2 ^ nat (- e)"
    if "e < 0" "2 ^ (nat (- e) + 4 - p) dvd m"
    using frac_part_exact [OF that(2,1), of "p - 4" p n] assms(4) by simp
  moreover have "out = whole @ (if ?ds = [] then [] else 0x2E # ?ds)"
  proof (cases "n = 0")
    case False
    then have "?ds \<noteq> []" using length_frac_digits [of p n "frac_part m e"] by (metis list.size(3))
    then show ?thesis using w(2) False by simp
  qed (use w(2) in simp)
  ultimately show ?thesis using w(1) by blast
qed

text \<open>
  C1. The text \<open>C11. insert_decimal\<close> writes for a \<open>double\<close> outside of the exponent style is its integer part and, behind a point, nothing but decimal digits:
  the repeated multiplication by ten never rounds up to ten. The digits are those of the exact decimal expansion, cut off, whenever
  the last bit of the number stands at most 49 places behind the point.
\<close>

theorem decimal_text:
  assumes "spec_type fi \<noteq> 0x65" "decode_double w = Some (neg, m, e)" "insert_decimal_double fi w content = Some out"
  shows "\<exists>whole ds. insert_int_part fi (neg \<and> m \<noteq> 0) (int_part m e) content = Some whole
     \<and> out = whole @ (if ds = [] then [] else 0x2E # ds) \<and> list_all decimal ds
     \<and> (e < 0 \<longrightarrow> 2 ^ (nat (- e) + 4 - 53) dvd m \<longrightarrow>
          parse_digits 10 ds = 10 ^ length ds * (m mod 2 ^ nat (- e)) div 2 ^ nat (- e))"
  using assms decimal_text_gen [OF assms(1) _ double_fraction [OF assms(2)]] by (simp add: insert_decimal_double_def)

text \<open>The number -12.625 with three digits.\<close>

definition sample_spec :: format_info where
  "sample_spec = new_format_info\<lparr>used := True, precision := 3, spec_type := 0x66\<rparr>"

lemma sample_decode: "decode_double 0xC029400000000000 = Some (True, 7107243161944064, - 49)"
proof -
  have "drop_bit 52 (0xC029400000000000 :: u64) AND 0x7FF = 0x402" by simp
  moreover have "(0xC029400000000000 :: u64) AND 0xFFFFFFFFFFFFF = 0x9400000000000" by simp
  ultimately show ?thesis by (simp add: decode_double_def Let_def)
qed

lemma sample_double: "insert_decimal_double sample_spec 0xC029400000000000 [] = Some [0x2D, 0x31, 0x32, 0x2E, 0x36, 0x32, 0x35]"
proof -
  have "insert_int_part sample_spec True 12 [] = Some [0x2D, 0x31, 0x32]"
    by (simp add: insert_int_part_def insert_signed_plain sample_spec_def new_format_info_def number_base_def base_prefix_def
        digits_of_rec [of 10] digit_char_def)
  moreover have "frac_digits 53 3 (351843720888320, 49) = [0x36, 0x32, 0x35]"
    using bit_length_le [of _ 53] by (simp add: numeral_3_eq_3 times_ten_def Let_def)
  ultimately show ?thesis
    by (simp add: insert_decimal_double_def sample_decode insert_decimal_def Let_def int_part_def frac_part_def)
       (simp add: sample_spec_def new_format_info_def)
qed

theorem decimal_text_witness:
  "\<exists>whole ds. insert_int_part sample_spec True 12 [] = Some whole \<and> [0x2D, 0x31, 0x32, 0x2E, 0x36, 0x32, 0x35] = whole @ (if ds = [] then [] else 0x2E # ds)
     \<and> list_all decimal ds"
  using decimal_text [OF _ sample_decode sample_double] by (auto simp: sample_spec_def int_part_def)

text \<open>A number between -1 and 0 is printed like its absolute value: the sign comes from the integer part, which is 0.\<close>

lemma small_negative_loses_sign:
  assumes "int_part m e = 0" "sign fi \<noteq> 0x2B" "spec_type fi \<notin> {0x62, 0x78, 0x6F}"
  shows "insert_decimal p d fi True m e content = insert_decimal p d fi False m e content"
proof -
  have zero: "insert_int_part f neg 0 content = insert_int_part f False 0 content" if "sign f \<noteq> 0x2B" "number_base f 10 = 10" for f neg
  proof -
    have "signed_digit_loop (upper f) 10 0 = digit_loop (upper f) 10 0"
      using signed_digit_loop_eq [of 10 "upper f" 0] by simp
    then show ?thesis
      using that by (simp add: insert_int_part_def insert_integral_signed_def insert_integral_unsigned_def Let_def)
  qed
  have f: "number_base fi 10 = 10" "number_base (fi\<lparr>spec_type := 0x5A\<rparr>) 10 = 10"
    using assms by (simp_all add: number_base_def)
  let ?f = "if spec_type fi = 0x65 then fi\<lparr>spec_type := 0x5A\<rparr> else fi"
  have "insert_int_part ?f (True \<and> m \<noteq> 0) 0 content = insert_int_part ?f (False \<and> m \<noteq> 0) 0 content"
    using zero [of ?f "m \<noteq> 0"] assms(2) f by (cases "spec_type fi = 0x65") simp_all
  then show ?thesis unfolding insert_decimal_def Let_def assms(1) by (simp only:)
qed

end
