(* ===== verification/Time_Zone.thy ===== *)
theory Time_Zone
  imports Bq_String Layout_Format
begin

text \<open>
  \<open>bq::time_zone\<close> of \<open>src/bq_log/utils/time_zone.h\<close> and \<open>.cpp\<close>: the parser of time zone names, the name it gives to a fixed offset,
  the conversion of an epoch to calendar time, and the cache of the time string every log line starts with. The calendar of the C library and the
  name of the local zone are parameters, collected in a record.
\<close>

section \<open>The C library\<close>

record tm =
  tm_year :: int
  tm_mon :: int
  tm_mday :: int
  tm_hour :: int
  tm_min :: int
  tm_sec :: int

text \<open>\<open>localtime_r\<close> and \<open>gmtime_r\<close>, \<open>strftime\<close> with the local zone, \<open>time\<close> and \<open>mktime\<close>.\<close>

record libc =
  localtime :: "int \<Rightarrow> tm option"
  gmtime :: "int \<Rightarrow> tm option"
  strftime_zone :: "tm \<Rightarrow> string"
  time_now :: int
  mktime :: "tm \<Rightarrow> int"

definition isdigit_c :: "char \<Rightarrow> bool" where
  "isdigit_c c \<longleftrightarrow> 48 \<le> (of_char c :: nat) \<and> (of_char c :: nat) \<le> 57"

definition digits_value :: "string \<Rightarrow> nat" where
  "digits_value s = foldl (\<lambda>n c. n * 10 + (of_char c - 48)) 0 s"

text \<open>
  \<open>strtol\<close> in base 10 with the cast to \<open>int32_t\<close>: white space, a sign, digits. The value is cut to the range of a 64-bit \<open>long\<close>. \<open>None\<close> when
  there are no digits; otherwise the value and the rest of the text.
\<close>

definition strtol10 :: "string \<Rightarrow> (int \<times> string) option" where
  "strtol10 s =
     (let s = dropWhile isspace_c s;
          negative = s \<noteq> [] \<and> hd s = CHR ''-'';
          s = (if s \<noteq> [] \<and> (hd s = CHR ''-'' \<or> hd s = CHR ''+'') then tl s else s);
          ds = takeWhile isdigit_c s;
          v = (if negative then max (- (2 ^ 63)) (- int (digits_value ds)) else min (2 ^ 63 - 1) (int (digits_value ds)))
      in if ds = [] then None else Some (signed_take_bit 31 v, drop (length ds) s))"

text \<open>Decimal numbers as \<open>snprintf\<close> writes them, with a minimal width filled by zeros, and with a sign in any case.\<close>

definition print_nat :: "nat \<Rightarrow> string" where
  "print_nat n = map (\<lambda>b. char_of (unat b)) (digits_of True 10 n)"

definition print_width :: "nat \<Rightarrow> int \<Rightarrow> string" where
  "print_width w v =
     (let s = (if v < 0 then ''-'' else ''''); ds = print_nat (nat \<bar>v\<bar>)
      in s @ replicate (w - length s - length ds) (CHR ''0'') @ ds)"

definition print_signed :: "int \<Rightarrow> string" where
  "print_signed v = (if v < 0 then ''-'' else ''+'') @ print_nat (nat \<bar>v\<bar>)"

section \<open>State\<close>

record time_zone =
  use_local_time :: bool
  gmt_offset_hours :: int
  gmt_offset_minutes :: int
  time_zone_diff_to_gmt_ms :: int
  time_zone_str :: string
  time_cache :: string
  last_time_epoch_cache :: u64

definition zone_reset :: time_zone where
  "zone_reset = \<lparr>use_local_time = True, gmt_offset_hours = 0, gmt_offset_minutes = 0, time_zone_diff_to_gmt_ms = 0,
     time_zone_str = '''', time_cache = '''', last_time_epoch_cache = 0\<rparr>"

definition restore_by_config :: "bool \<Rightarrow> int \<Rightarrow> int \<Rightarrow> int \<Rightarrow> string \<Rightarrow> time_zone \<Rightarrow> time_zone" where
  "restore_by_config local_time hours minutes diff s z =
     z\<lparr>use_local_time := local_time, gmt_offset_hours := hours, gmt_offset_minutes := minutes,
       time_zone_diff_to_gmt_ms := diff, time_zone_str := s\<rparr>"

section \<open>Parsing\<close>

definition get_local_timezone_name :: "libc \<Rightarrow> string" where
  "get_local_timezone_name c =
     (case localtime c (time_now c) of
        None \<Rightarrow> ''localtime''
      | Some lt \<Rightarrow> (let name = strftime_zone c lt in if 0 < length name \<and> length name < 128 then name else ''localtime''))"

text \<open>The offset behind the optional ''UTC'', and the state it leaves when it is rejected: the minutes are stored before the end of the text is checked.\<close>

definition text_ends :: "string \<Rightarrow> bool" where
  "text_ends s \<longleftrightarrow> s = [] \<or> hd s = CHR 0x00"

definition set_offset :: "int \<Rightarrow> int \<Rightarrow> time_zone \<Rightarrow> time_zone" where
  "set_offset hour minute z =
     z\<lparr>use_local_time := False, gmt_offset_hours := hour, gmt_offset_minutes := (if hour < 0 then - minute else minute)\<rparr>"

definition parse_offset :: "string \<Rightarrow> time_zone \<Rightarrow> time_zone" where
  "parse_offset s z =
     (case strtol10 s of
        None \<Rightarrow> z
      | Some (hour, rest) \<Rightarrow>
          if hour < -12 \<or> hour > 14 then z
          else if rest \<noteq> [] \<and> hd rest = CHR '':''
          then (case strtol10 (tl rest) of
                  None \<Rightarrow> z
                | Some (minute, rest) \<Rightarrow>
                    if minute < 0 \<or> minute \<ge> 60 then z
                    else (let z = z\<lparr>gmt_offset_minutes := minute\<rparr> in if text_ends rest then set_offset hour minute z else z))
          else if text_ends rest then set_offset hour 0 z else z)"

definition zone_name :: "time_zone \<Rightarrow> string" where
  "zone_name z =
     (if gmt_offset_hours z = 0 \<and> gmt_offset_minutes z = 0 then ''UTC0''
      else if gmt_offset_minutes z = 0 then ''UTC'' @ print_signed (gmt_offset_hours z)
      else ''UTC'' @ print_signed (gmt_offset_hours z) @ '':'' @ print_width 2 \<bar>gmt_offset_minutes z\<bar>)"

definition finish_zone :: "libc \<Rightarrow> time_zone \<Rightarrow> time_zone" where
  "finish_zone c z =
     (if use_local_time z
      then z\<lparr>time_zone_str := get_local_timezone_name c,
             time_zone_diff_to_gmt_ms :=
               (case localtime c (time_now c) of
                  None \<Rightarrow> 0
                | Some lt \<Rightarrow> (case gmtime c (time_now c) of None \<Rightarrow> 0 | Some gt \<Rightarrow> (mktime c lt - mktime c gt) * 1000))\<rparr>
      else z\<lparr>time_zone_str := zone_name z, time_zone_diff_to_gmt_ms := (gmt_offset_hours z * 3600 + gmt_offset_minutes z * 60) * 1000\<rparr>)"

definition parse_by_string :: "libc \<Rightarrow> string \<Rightarrow> time_zone" where
  "parse_by_string c s =
     (let u = map toupper_c (str_trim s); z = zone_reset
      in finish_zone c
           (if u = '''' \<or> u = ''LOCAL'' \<or> u = ''LOCALTIME'' \<or> u = ''LOCAL_TIME'' then z
            else if u = ''GMT'' \<or> u = ''Z'' \<or> u = ''UTC'' then z\<lparr>use_local_time := False\<rparr>
            else parse_offset (if str_begin_with u ''UTC'' then drop 3 u else u) z))"

section \<open>Calendar time\<close>

definition get_tm_by_epoch :: "libc \<Rightarrow> time_zone \<Rightarrow> u64 \<Rightarrow> tm option" where
  "get_tm_by_epoch c z epoch_ms =
     (let base_sec = int (unat (epoch_ms div 1000))
      in if use_local_time z then localtime c base_sec
         else gmtime c (base_sec + (gmt_offset_hours z * 3600 + gmt_offset_minutes z * 60)))"

text \<open>A failed conversion leaves the structure as it was initialised, with zeros.\<close>

definition tm_or_zero :: "tm option \<Rightarrow> tm" where
  "tm_or_zero t = (case t of Some x \<Rightarrow> x | None \<Rightarrow> \<lparr>tm_year = 0, tm_mon = 0, tm_mday = 0, tm_hour = 0, tm_min = 0, tm_sec = 0\<rparr>)"

definition print_time :: "tm \<Rightarrow> string" where
  "print_time t = ''-'' @ print_width 2 (tm_mon t + 1) @ ''-'' @ print_width 2 (tm_mday t) @ '' '' @ print_width 2 (tm_hour t)
     @ '':'' @ print_width 2 (tm_min t) @ '':'' @ print_width 2 (tm_sec t)"

definition get_time_str_by_epoch :: "libc \<Rightarrow> time_zone \<Rightarrow> u64 \<Rightarrow> string" where
  "get_time_str_by_epoch c z epoch_ms =
     (let t = tm_or_zero (get_tm_by_epoch c z epoch_ms)
      in take 127 (print_width 4 (tm_year t + 1900) @ print_time t))"

text \<open>\<open>snprintf\<close> returns the length of the whole text; a text above the 128 bytes of the cache is \<open>None\<close>, for the caller copies the returned length.\<close>

definition inner_refresh_time_string_cache :: "libc \<Rightarrow> u64 \<Rightarrow> time_zone \<Rightarrow> time_zone option" where
  "inner_refresh_time_string_cache c epoch_ms z =
     (let t = tm_or_zero (get_tm_by_epoch c z epoch_ms);
          s = time_zone_str z @ '' '' @ print_width 0 (tm_year t + 1900) @ print_time t @ ''.''
      in if length s \<le> 128 then Some (z\<lparr>time_cache := s, last_time_epoch_cache := epoch_ms\<rparr>) else None)"

definition refresh_time_string_cache :: "libc \<Rightarrow> u64 \<Rightarrow> time_zone \<Rightarrow> time_zone option" where
  "refresh_time_string_cache c epoch_ms z =
     (if epoch_ms = last_time_epoch_cache z then Some z else inner_refresh_time_string_cache c epoch_ms z)"

section \<open>The name of a fixed offset is read back\<close>

lemma print_nat_rec: "print_nat n = (if n < 10 then [] else print_nat (n div 10)) @ [char_of (48 + n mod 10)]"
proof -
  have "unat (digit_char True (n mod 10)) = 48 + n mod 10"
  proof -
    have "n mod 10 < 10" by simp
    then show ?thesis by (simp add: digit_char_def unsigned_of_nat take_bit_nat_eq_self del: of_nat_add)
  qed
  then show ?thesis unfolding print_nat_def by (subst digits_of_rec) simp_all
qed

lemma of_char_digit: "n < 10 \<Longrightarrow> (of_char (char_of (48 + n :: nat)) :: nat) = 48 + n"
  by simp

lemma isdigit_print: "c \<in> set (print_nat n) \<Longrightarrow> isdigit_c c"
proof (induction n rule: less_induct)
  case (less n)
  have "isdigit_c (char_of (48 + n mod 10))" using of_char_digit [of "n mod 10"] by (simp add: isdigit_c_def)
  then show ?case using less.prems less.IH [of "n div 10"] print_nat_rec [of n] by (auto split: if_splits)
qed

lemma digits_value_snoc: "digits_value (s @ [c]) = digits_value s * 10 + (of_char c - 48)"
  by (simp add: digits_value_def)

lemma digits_value_print: "digits_value (print_nat n) = n"
proof (induction n rule: less_induct)
  case (less n)
  then show ?case using of_char_digit [of "n mod 10"]
    by (subst print_nat_rec) (auto simp: digits_value_snoc digits_value_def [of "[]"])
qed

lemma digits_value_zeros: "digits_value (replicate k (CHR ''0'') @ s) = digits_value s"
  by (induction k) (simp_all add: digits_value_def)

lemma print_nat_not_Nil [simp]: "print_nat n \<noteq> []"
  by (subst print_nat_rec) simp

lemma strtol_digits:
  assumes "\<forall>c \<in> set ds. isdigit_c c" "ds \<noteq> []" "rest = [] \<or> \<not> isdigit_c (hd rest)" "sg \<in> {'''', ''+'', ''-''}"
    "digits_value ds < 2 ^ 31"
  shows "strtol10 (sg @ ds @ rest) = Some (if sg = ''-'' then - int (digits_value ds) else int (digits_value ds), rest)"
proof -
  have h: "hd ds \<in> set ds" using assms(2) by simp
  then have "isdigit_c (hd ds)" using assms(1) by blast
  then have c: "\<not> isspace_c (hd ds)" "hd ds \<noteq> CHR ''-''" "hd ds \<noteq> CHR ''+''"
    by (auto simp: isdigit_c_def isspace_c_def)
  have tw: "takeWhile isdigit_c (ds @ rest) = ds"
    using assms(1,3) by (cases rest) auto
  have sp: "dropWhile isspace_c (sg @ ds @ rest) = sg @ ds @ rest"
    using assms(2,4) c(1) by (cases ds) (auto simp: isspace_c_def)
  have small: "signed_take_bit 31 (int (digits_value ds)) = int (digits_value ds)"
    "signed_take_bit 31 (- int (digits_value ds)) = - int (digits_value ds)"
    using assms(5) by (simp_all add: signed_take_bit_int_eq_self)
  show ?thesis
    using assms(2,4,5) c tw sp small by (cases ds) (auto simp: strtol10_def Let_def max_def min_def)
qed

lemma strtol_signed:
  "\<bar>v\<bar> < 2 ^ 31 \<Longrightarrow> rest = [] \<or> \<not> isdigit_c (hd rest) \<Longrightarrow> strtol10 (print_signed v @ rest) = Some (v, rest)"
  using strtol_digits [of "print_nat (nat \<bar>v\<bar>)" rest "if v < 0 then ''-'' else ''+''"] isdigit_print [of _ "nat \<bar>v\<bar>"]
  by (auto simp: print_signed_def digits_value_print)

lemma strtol_width: "0 \<le> v \<Longrightarrow> v < 2 ^ 31 \<Longrightarrow> strtol10 (print_width w v) = Some (v, [])"
proof -
  assume v: "0 \<le> v" "v < 2 ^ 31"
  let ?ds = "replicate (w - length (print_nat (nat v))) (CHR ''0'') @ print_nat (nat v)"
  have "\<forall>c \<in> set ?ds. isdigit_c c" using isdigit_print by (auto simp: isdigit_c_def)
  then have "strtol10 ('''' @ ?ds @ []) = Some (int (digits_value ?ds), [])"
    using strtol_digits [of ?ds "[]" "''''"] v by (simp add: digits_value_zeros digits_value_print del: append_assoc)
  then show ?thesis using v by (simp add: print_width_def Let_def digits_value_zeros digits_value_print)
qed

text \<open>The characters of a name are their own upper case, and the name has no white space at its ends.\<close>

definition zone_char :: "char \<Rightarrow> bool" where
  "zone_char c \<longleftrightarrow> toupper_c c = c \<and> \<not> isspace_c c"

lemma zone_char_digit: "isdigit_c c \<Longrightarrow> zone_char c"
  by (auto simp: zone_char_def isdigit_c_def toupper_c_def isspace_c_def)

lemma zone_char_print: "\<forall>c \<in> set (print_nat n). zone_char c" "\<forall>c \<in> set (print_signed v). zone_char c"
  "\<forall>c \<in> set (print_width w \<bar>v\<bar>). zone_char c"
  using isdigit_print zone_char_digit
  by (auto simp: print_signed_def print_width_def Let_def) (auto simp: zone_char_def toupper_c_def isspace_c_def)

lemma trim_zone: "\<forall>c \<in> set s. zone_char c \<Longrightarrow> map toupper_c (str_trim s) = s"
proof -
  assume s: "\<forall>c \<in> set s. zone_char c"
  have d: "dropWhile isspace_c r = r" if "\<forall>c \<in> set r. zone_char c" for r
    using that by (cases r) (auto simp: zone_char_def)
  have "str_trim s = s" unfolding str_trim_spec using d [of s] d [of "rev s"] s by simp
  then show ?thesis using s by (simp add: map_idI zone_char_def)
qed

lemma zone_char_name: "\<forall>c \<in> set (zone_name z). zone_char c"
  using zone_char_print by (auto simp: zone_name_def) (auto simp: zone_char_def toupper_c_def isspace_c_def)

definition fixed_zone :: "int \<Rightarrow> int \<Rightarrow> time_zone" where
  "fixed_zone hour minute = set_offset hour minute zone_reset"

lemma zone_name_text: "zone_name z = ''UTC'' @ drop 3 (zone_name z)" "drop 3 (zone_name z) \<noteq> []"
  by (auto simp: zone_name_def print_signed_def)

lemma parse_zone_name:
  assumes "-12 \<le> h" "h \<le> 14" "0 \<le> m" "m < 60"
  shows "parse_offset (drop 3 (zone_name (fixed_zone h m))) zone_reset = fixed_zone h m"
proof -
  have z: "strtol10 ''0'' = Some (0, '''')" using strtol_digits [of "''0''" "''''" "''''"] by (simp add: isdigit_c_def digits_value_def)
  have s: "strtol10 (print_signed h) = Some (h, [])" using strtol_signed [of h "[]"] assms by simp
  have c: "strtol10 (print_signed h @ CHR '':'' # r) = Some (h, CHR '':'' # r)" for r
    using strtol_signed [of h "CHR '':'' # r"] assms by (simp add: isdigit_c_def)
  have w: "strtol10 (print_width 2 m) = Some (m, [])" using strtol_width [of m 2] assms by simp
  show ?thesis
  proof (cases "m = 0")
    case True
    then show ?thesis using z s assms
      by (simp add: fixed_zone_def zone_name_def set_offset_def zone_reset_def parse_offset_def text_ends_def)
  next
    case False
    then show ?thesis using c w assms
      by (simp add: fixed_zone_def zone_name_def set_offset_def zone_reset_def parse_offset_def text_ends_def)
  qed
qed

definition local_or_fixed :: "time_zone \<Rightarrow> bool" where
  "local_or_fixed z \<longleftrightarrow> use_local_time z \<or> (\<exists>h m. -12 \<le> h \<and> h \<le> 14 \<and> 0 \<le> m \<and> m < 60 \<and> z = fixed_zone h m)"

lemma local_or_fixedI [intro]:
  "use_local_time z \<Longrightarrow> local_or_fixed z" "-12 \<le> h \<Longrightarrow> h \<le> 14 \<Longrightarrow> 0 \<le> m \<Longrightarrow> m < 60 \<Longrightarrow> local_or_fixed (fixed_zone h m)"
  by (auto simp: local_or_fixed_def)

lemma parse_offset_result: "local_or_fixed (parse_offset s zone_reset)"
proof -
  have reset: "set_offset h m (zone_reset\<lparr>gmt_offset_minutes := m\<rparr>) = fixed_zone h m" "set_offset h m zone_reset = fixed_zone h m" for h m
    by (simp_all add: fixed_zone_def set_offset_def zone_reset_def)
  have l: "local_or_fixed zone_reset" "local_or_fixed (zone_reset\<lparr>gmt_offset_minutes := m\<rparr>)" for m
    by (auto simp: zone_reset_def local_or_fixed_def)
  show ?thesis
    using l by (auto simp: parse_offset_def Let_def reset split: option.split)
qed

lemma parse_by_string_name:
  assumes "-12 \<le> h" "h \<le> 14" "0 \<le> m" "m < 60"
  shows "parse_by_string c (zone_name (fixed_zone h m)) = finish_zone c (fixed_zone h m)"
proof -
  let ?n = "zone_name (fixed_zone h m)"
  have u: "map toupper_c (str_trim ?n) = ?n" by (rule trim_zone [OF zone_char_name])
  obtain r where n: "?n = ''UTC'' @ r" "r \<noteq> []" using zone_name_text by metis
  have "r = drop 3 ?n" using n by simp
  then have "parse_offset r zone_reset = fixed_zone h m" using parse_zone_name [OF assms] by simp
  then show ?thesis unfolding parse_by_string_def Let_def u using n by (simp add: str_begin_with_def)
qed

text \<open>
  C12. The name \<open>parse_by_string\<close> gives to a zone with a fixed offset, which is written into the heads of log files, is parsed back to the same zone, and the offset lies between
  -12:59 and 14:59.
\<close>

theorem zone_name_roundtrip:
  assumes "\<not> use_local_time (parse_by_string c s)"
  shows "parse_by_string c (time_zone_str (parse_by_string c s)) = parse_by_string c s
     \<and> \<bar>gmt_offset_hours (parse_by_string c s) * 60 + gmt_offset_minutes (parse_by_string c s)\<bar> \<le> 899"
proof -
  define u where "u = map toupper_c (str_trim s)"
  define p where "p = (if u = '''' \<or> u = ''LOCAL'' \<or> u = ''LOCALTIME'' \<or> u = ''LOCAL_TIME'' then zone_reset
      else if u = ''GMT'' \<or> u = ''Z'' \<or> u = ''UTC'' then zone_reset\<lparr>use_local_time := False\<rparr>
      else parse_offset (if str_begin_with u ''UTC'' then drop 3 u else u) zone_reset)"
  have z: "parse_by_string c s = finish_zone c p" by (simp add: parse_by_string_def Let_def u_def p_def)
  have "zone_reset\<lparr>use_local_time := False\<rparr> = fixed_zone 0 0" by (simp add: fixed_zone_def set_offset_def zone_reset_def)
  then have "local_or_fixed (zone_reset\<lparr>use_local_time := False\<rparr>)" by (simp only:) (rule local_or_fixedI(2), auto)
  moreover have "local_or_fixed zone_reset" by (rule local_or_fixedI(1)) (simp add: zone_reset_def)
  ultimately have "local_or_fixed p" unfolding p_def by (simp only: parse_offset_result split: if_split) simp
  moreover have "use_local_time (finish_zone c p) = use_local_time p" by (simp add: finish_zone_def)
  ultimately obtain h m where hm: "-12 \<le> h" "h \<le> 14" "0 \<le> m" "m < 60" and p: "p = fixed_zone h m"
    using assms z by (auto simp: local_or_fixed_def)
  have f: "time_zone_str (finish_zone c p) = zone_name p" "gmt_offset_hours (finish_zone c p) = h"
    "gmt_offset_minutes (finish_zone c p) = (if h < 0 then - m else m)"
    by (simp_all add: p finish_zone_def fixed_zone_def set_offset_def)
  show ?thesis unfolding z f using parse_by_string_name [OF hm, of c] hm by (auto simp: p)
qed

definition sample_libc :: libc where
  "sample_libc = \<lparr>localtime = (\<lambda>_. None), gmtime = (\<lambda>_. None), strftime_zone = (\<lambda>_. ''''), time_now = 0, mktime = (\<lambda>_. 0)\<rparr>"

lemma sample_zone: "parse_by_string sample_libc '' utc-5:30 '' = finish_zone sample_libc (fixed_zone (-5) 30)"
  by code_simp

theorem zone_name_roundtrip_witness:
  "parse_by_string sample_libc ''UTC-5:30'' = parse_by_string sample_libc '' utc-5:30 ''"
proof -
  have z: "\<not> use_local_time (parse_by_string sample_libc '' utc-5:30 '')"
    "time_zone_str (parse_by_string sample_libc '' utc-5:30 '') = ''UTC-5:30''"
    unfolding sample_zone by code_simp+
  show ?thesis using zone_name_roundtrip [OF z(1)] unfolding z(2) by (rule conjunct1)
qed

text \<open>The sign of an offset of less than an hour is lost: the minutes are negated only when the hours are negative.\<close>

lemma negative_half_hour: "parse_by_string sample_libc ''UTC-0:30'' = finish_zone sample_libc (fixed_zone 0 30)"
  by code_simp

end
