(* ===== verification/Layout.thy ===== *)
theory Layout
  imports Log_Entry Layout_Scan Layout_Decimal Time_Zone
begin

text \<open>
  The text of a log entry, \<open>src/bq_log/log/layout.cpp\<close>: the prefix with time, thread, level and category, and the format text with its
  placeholders, for formats in UTF-8 and in UTF-16, in the current version and in the version kept as reference for the tests (legacy).
  \<open>format_content\<close> up to the cursor is a list of bytes; the argument area from the cursor on is a list of cells. \<open>None\<close> is a failed
  assertion, a read of a cell that was not written, or a write in front of the buffer.
\<close>

section \<open>Arguments\<close>

definition insert_str_utf8 :: "u8 list \<Rightarrow> u8 list \<Rightarrow> u8 list" where
  "insert_str_utf8 str content = content @ str"

definition insert_str_utf16 :: "simd_target \<Rightarrow> bool \<Rightarrow> u8 list \<Rightarrow> u8 list \<Rightarrow> u8 list" where
  "insert_str_utf16 t simd str content = content @ utf16_to_utf8 t simd (byte_units (take (length str div 2 * 2) str))"

definition insert_pointer :: "format_info \<Rightarrow> u64 \<Rightarrow> u8 list \<Rightarrow> u8 list option" where
  "insert_pointer fi ptr content =
     (if ptr \<noteq> 0 then insert_integral_unsigned fi ptr 16 (content @ [0x30, 0x78]) else Some (content @ null_str))"

definition insert_bool :: "bool \<Rightarrow> u8 list \<Rightarrow> u8 list" where
  "insert_bool v content = content @ (if v then [0x54, 0x52, 0x55, 0x45] else [0x46, 0x41, 0x4C, 0x53, 0x45])"

definition insert_char :: "u8 \<Rightarrow> u8 list \<Rightarrow> u8 list" where
  "insert_char v content = content @ [v]"

definition insert_char16 :: "simd_target \<Rightarrow> bool \<Rightarrow> u16 \<Rightarrow> u8 list \<Rightarrow> u8 list" where
  "insert_char16 t simd v content = insert_str_utf16 t simd (unit_bytes [v]) content"

definition insert_char32 :: "simd_target \<Rightarrow> bool \<Rightarrow> u32 \<Rightarrow> u8 list \<Rightarrow> u8 list" where
  "insert_char32 t simd v content =
     (if v \<le> 0xFFFF then insert_str_utf16 t simd (unit_bytes [ucast v]) content
      else (let v = v - 0x10000
            in insert_str_utf16 t simd (unit_bytes [ucast (drop_bit 10 v + 0xD800), ucast ((v AND 0x3FF) + 0xDC00)]) content))"

text \<open>The bytes of a text argument: its size after four bytes, then the text. The result has the step to the next argument.\<close>

definition read_text :: "mem \<Rightarrow> (u8 list \<times> nat) option" where
  "read_text args =
     Option.bind (read_word 4 4 args) (\<lambda>n.
     map_option (\<lambda>str. (str, 4 + 4 + align_4 (unat n))) (read_mem 8 (unat n) args))"

text \<open>The switch over the type of the next argument: the new content and the step of the cursor.\<close>

definition insert_arg :: "simd_target \<Rightarrow> bool \<Rightarrow> format_info \<Rightarrow> mem \<Rightarrow> u8 list \<Rightarrow> (u8 list \<times> nat) option" where
  "insert_arg t simd fi args content =
     Option.bind (read_mem 0 1 args) (\<lambda>code.
       case arg_type_of (hd code) of
         Some Null_type \<Rightarrow> Some (insert_str_utf8 null_str content, 4)
       | Some Pointer_type \<Rightarrow> Option.bind (read_word 4 8 args) (\<lambda>v. map_option (\<lambda>c. (c, 4 + 8)) (insert_pointer fi v content))
       | Some Bool_type \<Rightarrow> map_option (\<lambda>v. (insert_bool (v \<noteq> 0) content, 4)) (read_word 2 1 args)
       | Some Char_type \<Rightarrow> map_option (\<lambda>v. (insert_char (ucast v) content, 4)) (read_word 2 1 args)
       | Some Char16_type \<Rightarrow> map_option (\<lambda>v. (insert_char16 t simd (ucast v) content, 4)) (read_word 2 2 args)
       | Some Char32_type \<Rightarrow> map_option (\<lambda>v. (insert_char32 t simd (ucast v) content, 8)) (read_word 4 4 args)
       | Some Int8_type \<Rightarrow> Option.bind (read_word 2 1 args) (\<lambda>v. map_option (\<lambda>c. (c, 4)) (insert_integral_signed fi (sint (ucast v :: u8)) 10 content))
       | Some Uint8_type \<Rightarrow> Option.bind (read_word 2 1 args) (\<lambda>v. map_option (\<lambda>c. (c, 4)) (insert_integral_unsigned fi v 10 content))
       | Some Int16_type \<Rightarrow> Option.bind (read_word 2 2 args) (\<lambda>v. map_option (\<lambda>c. (c, 4)) (insert_integral_signed fi (sint (ucast v :: u16)) 10 content))
       | Some Uint16_type \<Rightarrow> Option.bind (read_word 2 2 args) (\<lambda>v. map_option (\<lambda>c. (c, 4)) (insert_integral_unsigned fi v 10 content))
       | Some Int32_type \<Rightarrow> Option.bind (read_word 4 4 args) (\<lambda>v. map_option (\<lambda>c. (c, 8)) (insert_integral_signed fi (sint (ucast v :: u32)) 10 content))
       | Some Uint32_type \<Rightarrow> Option.bind (read_word 4 4 args) (\<lambda>v. map_option (\<lambda>c. (c, 8)) (insert_integral_unsigned fi v 10 content))
       | Some Int64_type \<Rightarrow> Option.bind (read_word 4 8 args) (\<lambda>v. map_option (\<lambda>c. (c, 12)) (insert_integral_signed fi (sint v) 10 content))
       | Some Uint64_type \<Rightarrow> Option.bind (read_word 4 8 args) (\<lambda>v. map_option (\<lambda>c. (c, 12)) (insert_integral_unsigned fi v 10 content))
       | Some Float_type \<Rightarrow> Option.bind (read_word 4 4 args) (\<lambda>v. map_option (\<lambda>c. (c, 4 + 4)) (insert_decimal_float fi (ucast v) content))
       | Some Double_type \<Rightarrow> Option.bind (read_word 4 8 args) (\<lambda>v. map_option (\<lambda>c. (c, 4 + 8)) (insert_decimal_double fi v content))
       | Some String_utf8_type \<Rightarrow> map_option (\<lambda>(str, step). (insert_str_utf8 str content, step)) (read_text args)
       | Some String_utf16_type \<Rightarrow> map_option (\<lambda>(str, step). (insert_str_utf16 t simd str content, step)) (read_text args)
       | _ \<Rightarrow> Some (content, 0))"

section \<open>Placeholders\<close>

text \<open>
  The distance of the closing brace, searched in the next 20 units; \<open>None\<close> if the specification is not closed there. The
  UTF-16 version steps over a doubled opening brace.
\<close>

fun spec_len :: "nat \<Rightarrow> 'a::len word list \<Rightarrow> nat option" where
  "spec_len 0 s = None"
| "spec_len (Suc n) [] = None"
| "spec_len (Suc n) (c # s) = (if c = 0x7D then Some 0 else if c = 0x7B then None else map_option Suc (spec_len n s))"

fun spec_len_utf16 :: "nat \<Rightarrow> u16 list \<Rightarrow> nat option" where
  "spec_len_utf16 0 s = None"
| "spec_len_utf16 (Suc n) [] = None"
| "spec_len_utf16 (Suc n) (c # s) =
     (if c = 0x7D then Some 0
      else if c = 0x7B
      then (case s of
              c2 # s' \<Rightarrow> if c2 = 0x7B then map_option (\<lambda>l. l + 2) (spec_len_utf16 (n - 1) s') else None
            | [] \<Rightarrow> None)
      else map_option Suc (spec_len_utf16 n s))"

text \<open>
  A format text behind a brace \<open>c\<close>: the rest of the format, the rest of the arguments and the content after it was handled. \<open>closing\<close> is the
  search for the closing brace.
\<close>

definition place_arg :: "simd_target \<Rightarrow> bool \<Rightarrow> format_info \<Rightarrow> mem \<Rightarrow> u8 list \<Rightarrow> (mem \<times> u8 list) option" where
  "place_arg t simd fi args content =
     Option.bind (insert_arg t simd fi args content) (\<lambda>(content', step).
       if step > length args then None
       else map_option (\<lambda>c. (drop step args, c)) (fill_and_alignment fi (length content) content'))"

definition brace_step :: "('a::len word list \<Rightarrow> nat option) \<Rightarrow> simd_target \<Rightarrow> bool \<Rightarrow> 'a word \<Rightarrow> 'a word list \<Rightarrow> mem \<Rightarrow> u8 list
    \<Rightarrow> ('a word list \<times> mem \<times> u8 list) option" where
  "brace_step closing t simd c fmt args content =
     (if fmt \<noteq> [] \<and> c = 0x7D \<and> hd fmt = 0x7D then Some (tl fmt, args, content @ [0x7D])
      else if c = 0x7D then Some (fmt, args, content @ [0x7D])
      else if args = [] then Some (fmt, args, content @ [0x7B])
      else (case closing fmt of
              None \<Rightarrow> Some (fmt, args, content @ [0x7B])
            | Some format_spec_len \<Rightarrow>
                (let fi = c20_format (take (format_spec_len + 1) fmt);
                     rest = drop (if offset fi \<noteq> 0 then offset fi + 1 else format_spec_len + 1) fmt
                 in map_option (\<lambda>(args, content). (rest, args, content)) (place_arg t simd fi args content))))"

lemma brace_step_length: "brace_step closing t simd c fmt args content = Some (fmt', args', content') \<Longrightarrow> length fmt' \<le> length fmt"
  by (auto simp: brace_step_def Let_def split: if_splits option.splits)

definition brace_utf8 :: "simd_target \<Rightarrow> bool \<Rightarrow> u8 \<Rightarrow> u8 list \<Rightarrow> mem \<Rightarrow> u8 list \<Rightarrow> (u8 list \<times> mem \<times> u8 list) option" where
  "brace_utf8 = brace_step (spec_len 20)"

definition brace_utf16 :: "simd_target \<Rightarrow> bool \<Rightarrow> u16 \<Rightarrow> u16 list \<Rightarrow> mem \<Rightarrow> u8 list \<Rightarrow> (u16 list \<times> mem \<times> u8 list) option" where
  "brace_utf16 = brace_step (spec_len_utf16 20)"

definition brace_utf8_legacy :: "simd_target \<Rightarrow> bool \<Rightarrow> u8 \<Rightarrow> u8 list \<Rightarrow> mem \<Rightarrow> u8 list \<Rightarrow> (u8 list \<times> mem \<times> u8 list) option" where
  "brace_utf8_legacy = brace_step (spec_len 20)"

definition brace_utf16_legacy :: "simd_target \<Rightarrow> bool \<Rightarrow> u16 \<Rightarrow> u16 list \<Rightarrow> mem \<Rightarrow> u8 list \<Rightarrow> (u16 list \<times> mem \<times> u8 list) option" where
  "brace_utf16_legacy = brace_step (spec_len 20)"

section \<open>Formats in UTF-8\<close>

function format_loop_utf8 :: "simd_target \<Rightarrow> bool \<Rightarrow> u8 list \<Rightarrow> mem \<Rightarrow> u8 list \<Rightarrow> u8 list option" where
  "format_loop_utf8 t simd fmt args content =
     (if fmt = [] then Some content
      else (let (run, found_brace) = find_brace_and_copy t fmt
            in if found_brace
               then (case drop (length run) fmt of
                       [] \<Rightarrow> None
                     | c # fmt' \<Rightarrow>
                         (case brace_utf8 t simd c fmt' args (content @ run) of
                            None \<Rightarrow> None
                          | Some (fmt'', args', content') \<Rightarrow> format_loop_utf8 t simd fmt'' args' content'))
               else Some (content @ run)))"
  by pat_completeness auto
termination
  by (relation "measure (\<lambda>(_, _, fmt, _). length fmt)")
    (auto simp: brace_utf8_def dest!: brace_step_length arg_cong [where f = length])

definition format_content_utf8 :: "simd_target \<Rightarrow> bool \<Rightarrow> u8 list \<Rightarrow> mem \<Rightarrow> u8 list \<Rightarrow> u8 list option" where
  "format_content_utf8 t simd fmt args content = (if args = [] then Some (content @ fmt) else format_loop_utf8 t simd fmt args content)"

fun copy_legacy :: "u8 list \<Rightarrow> u8 list \<times> u8 list" where
  "copy_legacy [] = ([], [])"
| "copy_legacy (c # fmt) = (if c = 0x7B \<or> c = 0x7D then ([], c # fmt) else (let (out, rest) = copy_legacy fmt in (c # out, rest)))"

lemma copy_legacy_eq: "copy_legacy fmt = (takeWhile (\<lambda>c. \<not> is_brace c) fmt, dropWhile (\<lambda>c. \<not> is_brace c) fmt)"
  by (induction fmt) (auto simp: is_brace_def)

lemma copy_legacy_rest: "(run, c # rest) = copy_legacy fmt \<Longrightarrow> length rest < length fmt"
  using length_dropWhile_le [of "\<lambda>c. \<not> is_brace c" fmt] by (auto simp: copy_legacy_eq dest!: arg_cong [where f = length])

function format_content_utf8_legacy :: "simd_target \<Rightarrow> bool \<Rightarrow> u8 list \<Rightarrow> mem \<Rightarrow> u8 list \<Rightarrow> u8 list option" where
  "format_content_utf8_legacy t simd fmt args content =
     (case copy_legacy fmt of
        (run, []) \<Rightarrow> Some (content @ run)
      | (run, c # fmt') \<Rightarrow>
          (case brace_utf8_legacy t simd c fmt' args (content @ run) of
             None \<Rightarrow> None
           | Some (fmt'', args', content') \<Rightarrow> format_content_utf8_legacy t simd fmt'' args' content'))"
  by pat_completeness auto
termination
  by (relation "measure (\<lambda>(_, _, fmt, _). length fmt)")
    (auto simp: brace_utf8_legacy_def dest!: brace_step_length copy_legacy_rest)

declare format_loop_utf8.simps [simp del] format_content_utf8_legacy.simps [simp del]

section \<open>Formats in UTF-16\<close>

text \<open>The conversion of a unit that is not ASCII: its bytes and the units behind it. An orphan surrogate is skipped.\<close>

definition convert_unit :: "u16 \<Rightarrow> u16 list \<Rightarrow> u8 list \<times> u16 list" where
  "convert_unit c fmt =
     (if c < 0x80 then ([ucast c], fmt)
      else if c < 0x800 then (two_bytes (ucast c), fmt)
      else if c \<ge> 0xD800 \<and> c \<le> 0xDBFF
      then (case fmt of
              c2 # fmt' \<Rightarrow>
                if c2 \<ge> 0xDC00 \<and> c2 \<le> 0xDFFF
                then (four_bytes (0x10000 + (ucast c - 0xD800) * 0x400 + (ucast c2 - 0xDC00)), fmt')
                else ([], fmt)
            | [] \<Rightarrow> ([], fmt))
      else if c \<ge> 0xDC00 \<and> c \<le> 0xDFFF then ([], fmt)
      else (three_bytes (ucast c), fmt))"

lemma convert_unit_length [termination_simp]: "(out, rest) = convert_unit c fmt \<Longrightarrow> length rest \<le> length fmt"
  by (auto simp: convert_unit_def split: if_splits list.splits)

function format_content_utf16 :: "simd_target \<Rightarrow> bool \<Rightarrow> u16 list \<Rightarrow> mem \<Rightarrow> u8 list \<Rightarrow> u8 list option" where
  "format_content_utf16 t simd fmt args content =
     (if fmt = [] then Some content
      else (let (run, found_brace, non_ascii) = find_brace_and_convert_u16 t fmt
            in if non_ascii
               then (case drop (length run) fmt of
                       [] \<Rightarrow> Some (content @ run)
                     | c # fmt' \<Rightarrow>
                         (let (out, rest) = convert_unit c fmt' in format_content_utf16 t simd rest args (content @ run @ out)))
               else if found_brace
               then (case drop (length run) fmt of
                       [] \<Rightarrow> None
                     | c # fmt' \<Rightarrow>
                         (case brace_utf16 t simd c fmt' args (content @ run) of
                            None \<Rightarrow> None
                          | Some (fmt'', args', content') \<Rightarrow> format_content_utf16 t simd fmt'' args' content'))
               else Some (content @ run)))"
  by pat_completeness auto
termination
  by (relation "measure (\<lambda>(_, _, fmt, _). length fmt)")
    (auto simp: brace_utf16_def dest!: brace_step_length convert_unit_length arg_cong [where f = length])

fun convert_legacy :: "u16 list \<Rightarrow> u8 list \<times> u16 list" where
  "convert_legacy [] = ([], [])"
| "convert_legacy (c # fmt) =
     (if c = 0x7B \<or> c = 0x7D then ([], c # fmt)
      else (let (out, rest) = convert_unit c fmt; (out', rest') = convert_legacy rest in (out @ out', rest')))"

lemma convert_legacy_length: "(run, rest) = convert_legacy fmt \<Longrightarrow> length rest \<le> length fmt"
proof (induction fmt arbitrary: run rest rule: convert_legacy.induct)
  case (2 c fmt)
  obtain out mid out' tail where u: "convert_unit c fmt = (out, mid)" "convert_legacy mid = (out', tail)" by (metis surj_pair)
  show ?case
  proof (cases "c = 0x7B \<or> c = 0x7D")
    case True
    then show ?thesis using 2(2) by simp
  next
    case False
    then have "length tail \<le> length mid" using 2(1) [OF False] u by simp
    then show ?thesis using 2(2) False u convert_unit_length [OF u(1) [symmetric]] by (simp add: Let_def)
  qed
qed simp

function format_content_utf16_legacy :: "simd_target \<Rightarrow> bool \<Rightarrow> u16 list \<Rightarrow> mem \<Rightarrow> u8 list \<Rightarrow> u8 list option" where
  "format_content_utf16_legacy t simd fmt args content =
     (case convert_legacy fmt of
        (run, []) \<Rightarrow> Some (content @ run)
      | (run, c # fmt') \<Rightarrow>
          (case brace_utf16_legacy t simd c fmt' args (content @ run) of
             None \<Rightarrow> None
           | Some (fmt'', args', content') \<Rightarrow> format_content_utf16_legacy t simd fmt'' args' content'))"
  by pat_completeness auto
termination
  by (relation "measure (\<lambda>(_, _, fmt, _). length fmt)")
    (auto simp: brace_utf16_legacy_def dest!: brace_step_length convert_legacy_length)

declare format_content_utf16.simps [simp del] format_content_utf16_legacy.simps [simp del]

section \<open>The whole line\<close>

text \<open>The format text of an entry, in either version.\<close>

definition python_style_format_content :: "simd_target \<Rightarrow> bool \<Rightarrow> log_head \<Rightarrow> mem \<Rightarrow> u8 list \<Rightarrow> u8 list option" where
  "python_style_format_content t simd h m content =
     Option.bind (get_format_string_data h m) (\<lambda>fmt.
       if log_format_str_type h = arg_code String_utf8_type
       then format_content_utf8 t simd fmt (get_log_args_data h m) content
       else format_content_utf16 t simd (byte_units (take (length fmt div 2 * 2) fmt)) (get_log_args_data h m) content)"

definition python_style_format_content_legacy :: "simd_target \<Rightarrow> bool \<Rightarrow> log_head \<Rightarrow> mem \<Rightarrow> u8 list \<Rightarrow> u8 list option" where
  "python_style_format_content_legacy t simd h m content =
     Option.bind (get_format_string_data h m) (\<lambda>fmt.
       if log_format_str_type h = arg_code String_utf8_type
       then format_content_utf8_legacy t simd fmt (get_log_args_data h m) content
       else format_content_utf16_legacy t simd (byte_units (take (length fmt div 2 * 2) fmt)) (get_log_args_data h m) content)"

datatype layout_result = Finished | To_be_continue | Parse_error

text \<open>The layout object: its zone with the cached time, and the names of the threads seen so far.\<close>

record layout =
  layout_zone :: time_zone
  thread_names_cache :: "u64 \<Rightarrow> u8 list option"

definition insert_time :: "libc \<Rightarrow> log_head \<Rightarrow> layout \<Rightarrow> u8 list \<Rightarrow> (layout \<times> u8 list) option" where
  "insert_time c h l content =
     map_option (\<lambda>z. (l\<lparr>layout_zone := z\<rparr>,
         content @ map of_char (time_cache z) @ digit3 (unat (timestamp_epoch h mod 1000))))
       (refresh_time_string_cache c (timestamp_epoch h) (layout_zone l))"

text \<open>The text of a thread is built once in a buffer of 256 bytes and kept; as a C string it ends at the first NUL.\<close>

definition insert_thread_info :: "log_head \<Rightarrow> mem \<Rightarrow> layout \<Rightarrow> u8 list \<Rightarrow> (layout \<times> u8 list) option" where
  "insert_thread_info h m l content =
     (case thread_names_cache l (log_thread_id h) of
        Some name \<Rightarrow> Some (l, content @ name)
      | None \<Rightarrow>
          Option.bind (get_thread_name h m) (\<lambda>name.
            let tmp = [0x5B, 0x74, 0x69, 0x64, 0x2D] @ digits_of True 10 (unat (log_thread_id h)) @ [0x20] @ name @ [0x5D, 0x09]
            in if length tmp < 256
               then (let s = takeWhile (\<lambda>c. c \<noteq> 0) tmp
                     in Some (l\<lparr>thread_names_cache := (thread_names_cache l)(log_thread_id h \<mapsto> s)\<rparr>, content @ s))
               else None))"

text \<open>The letters of the levels: V D I W E F.\<close>

definition level_letters :: "u8 list" where
  "level_letters = [0x56, 0x44, 0x49, 0x57, 0x45, 0x46]"

definition layout_prefix :: "libc \<Rightarrow> u8 list list \<Rightarrow> log_head \<Rightarrow> mem \<Rightarrow> layout \<Rightarrow> (layout_result \<times> layout \<times> u8 list) option" where
  "layout_prefix c categories_name_array h m l =
     Option.bind (insert_time c h l []) (\<lambda>(l, content).
     map_option (\<lambda>(l, content).
       if unat (head_level h) \<ge> 6 then (Parse_error, l, content)
       else (let content = insert_char 0x09 (insert_str_utf8 [0x5B, level_letters ! unat (head_level h), 0x5D] content)
             in if unat (category_idx h) \<ge> length categories_name_array then (Parse_error, l, content)
                else (let category_str = categories_name_array ! unat (category_idx h)
                      in (Finished, l, if category_str = [] then content
                            else insert_str_utf8 [0x5D, 0x09] (insert_str_utf8 category_str (insert_char 0x5B content))))))
       (insert_thread_info h m l content))"

definition do_layout :: "libc \<Rightarrow> simd_target \<Rightarrow> bool \<Rightarrow> u8 list list \<Rightarrow> mem \<Rightarrow> layout \<Rightarrow> (layout_result \<times> layout \<times> u8 list) option" where
  "do_layout c t simd categories_name_array m l =
     Option.bind (get_log_head m) (\<lambda>h.
     Option.bind (layout_prefix c categories_name_array h m l) (\<lambda>(result, l, content).
       if result \<noteq> Finished then Some (result, l, content)
       else map_option (\<lambda>content. (Finished, l, content)) (python_style_format_content t simd h m content)))"

end
