(* ===== verification/Layout_Text.thy ===== *)
theory Layout_Text
  imports Layout Compressed_Reopen
begin

text \<open>
  What the text of a log line is: the loops of \<open>Layout\<close> unit by unit, the current version against the reference version, the text of an argument independent
  of the vector unit and of the form the codec keeps it in, and UTF-16 formats against UTF-8 formats. From this it follows
  that an entry read back from a compressed file has the text of the entry that was logged.
\<close>

section \<open>The loops, one unit at a time\<close>

text \<open>Both UTF-8 loops copy a unit that is no brace, and hand a brace over.\<close>

definition after_brace :: "('a \<Rightarrow> mem \<Rightarrow> u8 list \<Rightarrow> u8 list option) \<Rightarrow> ('a \<times> mem \<times> u8 list) option \<Rightarrow> u8 list option" where
  "after_brace loop r = Option.bind r (\<lambda>(fmt, args, content). loop fmt args content)"

lemma loop_utf8_Nil [simp]: "format_loop_utf8 t simd [] args content = Some content"
  by (subst format_loop_utf8.simps) simp

lemma drop_run: "drop (length (takeWhile P xs)) xs = dropWhile P xs"
  by (simp add: dropWhile_eq_drop)

lemma loop_utf8_brace:
  "is_brace c \<Longrightarrow> format_loop_utf8 t simd (c # fmt) args content =
     after_brace (format_loop_utf8 t simd) (brace_step (spec_len 20) t simd c fmt args content)"
  by (subst format_loop_utf8.simps)
    (auto simp: find_brace_copy_eq after_brace_def brace_utf8_def Let_def split: option.splits)

lemma loop_utf8_copy:
  assumes c: "\<not> is_brace c"
  shows "format_loop_utf8 t simd (c # fmt) args content = format_loop_utf8 t simd fmt args (content @ [c])"
proof (cases "fmt = []")
  case True
  then show ?thesis using c by (subst format_loop_utf8.simps) (simp add: find_brace_copy_eq)
next
  case False
  obtain run found where r: "find_brace_and_copy t fmt = (run, found)" by (metis surj_pair)
  then have "find_brace_and_copy t (c # fmt) = (c # run, found)" using c by (auto simp: find_brace_copy_eq)
  then show ?thesis using r False by (subst (1 2) format_loop_utf8.simps) (cases "drop (length run) fmt"; simp)
qed

lemma loop_utf8_run: "\<forall>c \<in> set a. \<not> is_brace c \<Longrightarrow> format_loop_utf8 t simd (a @ fmt) args content = format_loop_utf8 t simd fmt args (content @ a)"
  by (induction a arbitrary: content) (simp_all add: loop_utf8_copy)

lemma legacy_utf8_Nil [simp]: "format_content_utf8_legacy t simd [] args content = Some content"
  by (subst format_content_utf8_legacy.simps) simp

lemma legacy_utf8_brace:
  "is_brace c \<Longrightarrow> format_content_utf8_legacy t simd (c # fmt) args content =
     after_brace (format_content_utf8_legacy t simd) (brace_step (spec_len 20) t simd c fmt args content)"
  by (subst format_content_utf8_legacy.simps) (auto simp: is_brace_def after_brace_def brace_utf8_legacy_def split: option.splits)

lemma legacy_utf8_copy:
  "\<not> is_brace c \<Longrightarrow> format_content_utf8_legacy t simd (c # fmt) args content = format_content_utf8_legacy t simd fmt args (content @ [c])"
  by (subst (1 2) format_content_utf8_legacy.simps) (auto simp: is_brace_def split: prod.splits list.splits)

text \<open>The current loop, on every vector unit, writes what the reference version writes.\<close>

lemma loop_utf8_legacy: "format_loop_utf8 t simd fmt args content = format_content_utf8_legacy t simd fmt args content"
proof (induction "length fmt" arbitrary: fmt args content rule: less_induct)
  case less
  show ?case
  proof (cases fmt)
    case (Cons c fmt')
    show ?thesis
    proof (cases "is_brace c")
      case True
      have "after_brace (format_loop_utf8 t simd) r = after_brace (format_content_utf8_legacy t simd) r"
        if "r = brace_step (spec_len 20) t simd c fmt' args content" for r
        using that less Cons by (auto simp: after_brace_def bind_eq_None_conv dest!: brace_step_length split: option.split bind_split)
      then show ?thesis using True by (simp add: Cons loop_utf8_brace legacy_utf8_brace)
    next
      case False
      then show ?thesis using less Cons by (simp add: loop_utf8_copy legacy_utf8_copy)
    qed
  qed simp
qed

lemma utf16_Nil [simp]: "format_content_utf16 t simd [] args content = Some content"
  by (subst format_content_utf16.simps) simp

lemma utf16_brace:
  "is_brace c \<Longrightarrow> format_content_utf16 t simd (c # fmt) args content =
     after_brace (format_content_utf16 t simd) (brace_step (spec_len_utf16 20) t simd c fmt args content)"
  by (subst format_content_utf16.simps)
    (auto simp: find_brace_convert_eq after_brace_def brace_utf16_def is_brace_def split: option.splits)

lemma utf16_other:
  "\<not> c < 0x80 \<Longrightarrow> format_content_utf16 t simd (c # fmt) args content =
     (let (out, rest) = convert_unit c fmt in format_content_utf16 t simd rest args (content @ out))"
  by (subst format_content_utf16.simps) (auto simp: find_brace_convert_eq not_less split: prod.splits)

lemma utf16_copy:
  assumes "c < 0x80" "\<not> is_brace c"
  shows "format_content_utf16 t simd (c # fmt) args content = format_content_utf16 t simd fmt args (content @ [ucast c])"
proof (cases "fmt = []")
  case True
  then show ?thesis using assms
    by (subst format_content_utf16.simps) (auto simp: find_brace_convert_eq is_brace_def not_le)
next
  case False
  obtain run found na where r: "find_brace_and_convert_u16 t fmt = (run, found, na)" by (metis surj_pair)
  then have "find_brace_and_convert_u16 t (c # fmt) = (ucast c # run, found, na)" using assms
    by (simp add: find_brace_convert_eq is_brace_def not_le)
  then show ?thesis using r False by (subst (1 2) format_content_utf16.simps) (cases "drop (length run) fmt"; simp)
qed

section \<open>The text of an argument\<close>

text \<open>What is inserted for an argument of a log call, by its value.\<close>

fun arg_text :: "format_info \<Rightarrow> log_arg \<Rightarrow> u8 list \<Rightarrow> u8 list option" where
  "arg_text fi Arg_nullptr content = Some (content @ null_str)"
| "arg_text fi (Arg_pointer v) content = insert_pointer fi v content"
| "arg_text fi (Arg_bool v) content = Some (insert_bool (v \<noteq> 0) content)"
| "arg_text fi (Arg_char v) content = Some (content @ [v])"
| "arg_text fi (Arg_char16 v) content = Some (content @ utf16_to_utf8_sw [v])"
| "arg_text fi (Arg_char32 v) content = Some (content @ utf16_to_utf8_sw (utf16_units v))"
| "arg_text fi (Arg_int8 v) content = insert_integral_signed fi (sint v) 10 content"
| "arg_text fi (Arg_uint8 v) content = insert_integral_unsigned fi (ucast v) 10 content"
| "arg_text fi (Arg_int16 v) content = insert_integral_signed fi (sint v) 10 content"
| "arg_text fi (Arg_uint16 v) content = insert_integral_unsigned fi (ucast v) 10 content"
| "arg_text fi (Arg_int32 v) content = insert_integral_signed fi (sint v) 10 content"
| "arg_text fi (Arg_uint32 v) content = insert_integral_unsigned fi (ucast v) 10 content"
| "arg_text fi (Arg_int64 v) content = insert_integral_signed fi (sint v) 10 content"
| "arg_text fi (Arg_uint64 v) content = insert_integral_unsigned fi v 10 content"
| "arg_text fi (Arg_float v) content = insert_decimal_float fi v content"
| "arg_text fi (Arg_double v) content = insert_decimal_double fi v content"
| "arg_text fi (Arg_utf8 s) content = Some (content @ text_of (Arg_utf8 s))"
| "arg_text fi (Arg_utf16 s) content = Some (content @ utf16_to_utf8_sw (byte_units (text_of (Arg_utf16 s))))"
| "arg_text fi (Arg_utf32 s) content = Some (content @ utf16_to_utf8_sw (byte_units (text_of (Arg_utf32 s))))"

lemma insert_str_utf16_even: "insert_str_utf16 t simd (unit_bytes us) content = content @ utf16_to_utf8_sw us"
  using utf16_sw [of t simd us] by (simp add: insert_str_utf16_def byte_units_unit_bytes)

lemma insert_char32_units: "insert_char32 t simd v content = content @ utf16_to_utf8_sw (utf16_units v)"
  by (simp add: insert_char32_def insert_str_utf16_even utf16_units_def Let_def)

lemma read_text_cells:
  "length str < 2 ^ 30 \<Longrightarrow> read_text (text_cells t str @ rest) = Some (str, length (text_cells t str))"
  using text_reads [of str t rest] by (simp add: read_text_def length_text_cells unsigned_of_nat take_bit_nat_eq_self)

lemma text_of_even: "\<exists>us. text_of (Arg_utf16 s) = unit_bytes us" "\<exists>us. text_of (Arg_utf32 p) = unit_bytes us"
  by (auto simp: text_of_def)

lemma pod_words:
  "read_word 2 1 (pod_cells t 1 (b :: u8) @ rest) = Some (ucast b)" "read_word 2 2 (pod_cells t 2 (h :: u16) @ rest) = Some (ucast h)"
  "read_word 4 4 (pod_cells t 4 (w :: u32) @ rest) = Some (ucast w)" "read_word 4 8 (pod_cells t 8 (d :: u64) @ rest) = Some d"
  by (simp_all add: read_pod_word le_word_le_bytes_ucast)

lemma pod_lengths:
  "length (pod_cells t 1 (b :: u8)) = 4" "length (pod_cells t 2 (h :: u16)) = 4" "length (pod_cells t 4 (w :: u32)) = 8"
  "length (pod_cells t 8 (d :: u64)) = 12"
  by (simp_all add: pod_cells_def length_pod_copy)

lemma insert_arg_cells:
  assumes "arg_ok a"
  shows "insert_arg t simd fi (arg_cells a @ rest) content = map_option (\<lambda>c. (c, length (arg_cells a))) (arg_text fi a content)"
proof -
  have u: "ucast (ucast v :: u64) = (v :: 'v::len word)" if "LENGTH('v) \<le> 64" for v
    using that by (simp add: ucast_down_ucast_id is_down)
  have z: "(ucast (v :: u8) :: u64) = 0 \<longleftrightarrow> v = 0" for v using u [of v] by auto
  show ?thesis
  proof (cases a)
    case (Arg_utf8 s)
    then show ?thesis using assms text_reads(1) [of "text_of a" String_utf8_type rest] read_text_cells [of "text_of a" String_utf8_type rest]
      by (simp add: insert_arg_def arg_ok_def insert_str_utf8_def)
  next
    case (Arg_utf16 s)
    obtain us where "text_of a = unit_bytes us" using text_of_even(1) Arg_utf16 by auto
    then show ?thesis using Arg_utf16 assms text_reads(1) [of "text_of a" String_utf16_type rest] read_text_cells [of "text_of a" String_utf16_type rest]
      by (simp add: insert_arg_def arg_ok_def insert_str_utf16_even byte_units_unit_bytes)
  next
    case (Arg_utf32 s)
    obtain us where "text_of a = unit_bytes us" using text_of_even(2) Arg_utf32 by auto
    then show ?thesis using Arg_utf32 assms text_reads(1) [of "text_of a" String_utf16_type rest] read_text_cells [of "text_of a" String_utf16_type rest]
      by (simp add: insert_arg_def arg_ok_def insert_str_utf16_even byte_units_unit_bytes)
  qed (simp_all add: insert_arg_def pod_head [unfolded One_nat_def] pod_words [unfolded One_nat_def] pod_lengths [unfolded One_nat_def] u z insert_str_utf8_def insert_char_def
      insert_char16_def insert_str_utf16_even insert_char32_units del: utf16_to_utf8_sw.simps)
qed

lemma arg_text_as_utf8: "arg_text fi (as_utf8 a) content = arg_text fi a content"
proof -
  have "units_of a = byte_units (text_of a)" if "(\<exists>s. a = Arg_utf16 s) \<or> (\<exists>s. a = Arg_utf32 s)" for a
    using that by (auto simp: text_of_def byte_units_unit_bytes)
  then show ?thesis by (cases a) (simp_all add: as_utf8_def, simp_all add: text_of_def chars_or_null_def)
qed

section \<open>Formats do not depend on the form of their arguments\<close>

definition arg_mem :: "log_arg list \<Rightarrow> mem" where
  "arg_mem as = concat (map arg_cells as)"

lemma arg_mem_simps [simp]: "arg_mem [] = []" "arg_mem (a # as) = arg_cells a @ arg_mem as"
  by (simp_all add: arg_mem_def)

lemma arg_cells_not_Nil [simp]: "arg_cells a \<noteq> []"
  using length_arg_cells [of a] by auto

lemma arg_mem_Nil [simp]: "arg_mem as = [] \<longleftrightarrow> as = []"
  by (cases as) simp_all

lemma place_arg_cells:
  "arg_ok a \<Longrightarrow> place_arg t simd fi (arg_cells a @ rest) content =
     map_option (\<lambda>c. (rest, c)) (Option.bind (arg_text fi a content) (fill_and_alignment fi (length content)))"
  unfolding place_arg_def insert_arg_cells by (cases "arg_text fi a content") simp_all

text \<open>One brace of a format with its arguments as values: the rest of the format and of the arguments, and the content.\<close>

definition value_step :: "('a::len word list \<Rightarrow> nat option) \<Rightarrow> 'a word \<Rightarrow> 'a word list \<Rightarrow> log_arg list \<Rightarrow> u8 list
    \<Rightarrow> ('a word list \<times> log_arg list \<times> u8 list) option" where
  "value_step closing c fmt as content =
     (if fmt \<noteq> [] \<and> c = 0x7D \<and> hd fmt = 0x7D then Some (tl fmt, as, content @ [0x7D])
      else if c = 0x7D then Some (fmt, as, content @ [0x7D])
      else (case (as, closing fmt) of
              (a # as', Some n) \<Rightarrow>
                (let fi = c20_format (take (n + 1) fmt); rest = drop (if offset fi \<noteq> 0 then offset fi + 1 else n + 1) fmt
                 in map_option (\<lambda>c. (rest, as', c)) (Option.bind (arg_text fi a content) (fill_and_alignment fi (length content))))
            | _ \<Rightarrow> Some (fmt, as, content @ [0x7B])))"

lemma brace_step_values:
  "list_all arg_ok as \<Longrightarrow> brace_step closing t simd c fmt (arg_mem as) content =
     map_option (\<lambda>(fmt, as, content). (fmt, arg_mem as, content)) (value_step closing c fmt as content)"
  by (cases as) (auto simp: brace_step_def value_step_def Let_def place_arg_cells option.map_comp o_def split: option.split)

lemma value_step_as_utf8:
  "value_step closing c fmt (map as_utf8 as) content =
     map_option (\<lambda>(fmt, as, content). (fmt, map as_utf8 as, content)) (value_step closing c fmt as content)"
  by (cases as) (auto simp: value_step_def Let_def arg_text_as_utf8 option.map_comp o_def split: option.split)

lemma value_step_rest:
  "value_step closing c fmt as content = Some (fmt', as', content') \<Longrightarrow>
     length fmt' \<le> length fmt \<and> set as' \<subseteq> set as"
  by (auto simp: value_step_def Let_def split: if_splits list.splits option.splits)

text \<open>The format loop over values, which both serialised forms refine.\<close>

function value_loop :: "u8 list \<Rightarrow> log_arg list \<Rightarrow> u8 list \<Rightarrow> u8 list option" where
  "value_loop fmt as content =
     (case fmt of
        [] \<Rightarrow> Some content
      | c # fmt' \<Rightarrow>
          if is_brace c
          then (case value_step (spec_len 20) c fmt' as content of
                  None \<Rightarrow> None
                | Some (fmt'', as', content') \<Rightarrow> value_loop fmt'' as' content')
          else value_loop fmt' as (content @ [c]))"
  by pat_completeness auto
termination by (relation "measure (\<lambda>(fmt, _). length fmt)") (auto dest: value_step_rest)

declare value_loop.simps [simp del]

lemma loop_utf8_values: "list_all arg_ok as \<Longrightarrow> format_loop_utf8 t simd fmt (arg_mem as) content = value_loop fmt as content"
proof (induction fmt as content rule: value_loop.induct)
  case (1 fmt as content)
  show ?case
  proof (cases fmt)
    case Nil
    then show ?thesis by (subst value_loop.simps) simp
  next
    case (Cons c fmt')
    show ?thesis
    proof (cases "is_brace c")
      case False
      then show ?thesis using 1 Cons by (subst value_loop.simps) (simp add: loop_utf8_copy)
    next
      case True
      show ?thesis
      proof (cases "value_step (spec_len 20) c fmt' as content")
        case None
        then show ?thesis using True Cons brace_step_values [OF 1(3), of "spec_len 20" t simd c fmt' content]
          by (subst value_loop.simps) (simp add: loop_utf8_brace after_brace_def)
      next
        case (Some r)
        obtain fmt'' as' content' where r: "r = (fmt'', as', content')" by (metis surj_pair)
        have "list_all arg_ok as'" using value_step_rest Some r 1(3) by (fastforce simp: list_all_iff)
        then show ?thesis using True Cons Some r 1(1) brace_step_values [OF 1(3), of "spec_len 20" t simd c fmt' content]
          by (subst value_loop.simps) (simp add: loop_utf8_brace after_brace_def)
      qed
    qed
  qed
qed

lemma value_loop_as_utf8: "value_loop fmt (map as_utf8 as) content = value_loop fmt as content"
proof (induction fmt as content rule: value_loop.induct)
  case (1 fmt as content)
  show ?case
  proof (cases fmt)
    case (Cons c fmt')
    then show ?thesis using 1
      by (subst (1 2) value_loop.simps) (auto simp: value_step_as_utf8 split: option.split)
  qed (simp add: value_loop.simps)
qed

section \<open>Formats in UTF-16 against formats in UTF-8\<close>

lemma surrogate_pair:
  fixes c d :: u16
  assumes "c \<ge> 0xD800" "c \<le> 0xDBFF" "d \<ge> 0xDC00" "d \<le> (0xDFFF :: u16)"
  shows "(push_bit 10 (ucast c AND 0x3FF) OR (ucast d AND 0x3FF)) + 0x10000 = (0x10000 + (ucast c - 0xD800) * 0x400 + (ucast d - 0xDC00) :: u32)"
proof -
  have m: "(0x3FF :: u32) = mask 10" by (simp add: mask_eq_exp_minus_1)
  have s: "ucast x AND 0x3FF = (ucast x - ucast b :: u32)" if "unat b = 1024 * k" "unat b \<le> unat x" "unat x < unat b + 1024" for x b :: u16 and k
  proof -
    have x: "unat x = 1024 * k + (unat x - unat b)" "unat x - unat b < 1024" using that by auto
    have "unat x mod 1024 = unat x - unat b" by (subst x(1)) (simp only: mod_mult_self4 mod_less [OF x(2)])
    moreover have "unat (ucast x AND 0x3FF :: u32) = unat x mod 1024"
      using unat_lt2p [of x] unfolding m by (simp add: take_bit_eq_mask [symmetric] unsigned_take_bit_eq unsigned_ucast_eq take_bit_nat_eq_self)
        (simp add: take_bit_eq_mod)
    moreover have "unat (ucast x - ucast b :: u32) = unat x - unat b"
      using that unat_lt2p [of x] unat_lt2p [of b] by (simp add: unat_sub word_le_nat_alt unsigned_ucast_eq take_bit_nat_eq_self)
    ultimately show ?thesis by (simp only: word_unat_eq_iff)
  qed
  have c: "ucast c AND 0x3FF = (ucast c - 0xD800 :: u32)" using s [of "0xD800" 54 c] assms by (simp add: word_le_nat_alt)
  have d: "ucast d AND 0x3FF = (ucast d - 0xDC00 :: u32)" using s [of "0xDC00" 55 d] assms by (simp add: word_le_nat_alt)
  have "push_bit 10 (ucast c AND 0x3FF) OR (ucast d AND 0x3FF) = push_bit 10 (ucast c AND 0x3FF) + (ucast d AND 0x3FF :: u32)"
    by (rule disjunctive_add [symmetric]) (auto simp: m bit_simps)
  then show ?thesis unfolding c d by (simp add: push_bit_eq_mult ac_simps)
qed

lemma sw16_convert_unit: "\<not> c < 0x80 \<Longrightarrow> utf16_to_utf8_sw (c # s) = (let (out, rest) = convert_unit c s in out @ utf16_to_utf8_sw rest)"
proof -
  assume c: "\<not> c < 0x80"
  have l: "\<not> (ucast c :: u32) < 0x80" using c by (simp add: ucast_less_80)
  have step: "utf16_to_utf8_sw (c # s) =
      (if c < 0x800 then two_bytes (ucast c) @ utf16_to_utf8_sw s
       else if c \<ge> 0xD800 \<and> c \<le> 0xDFFF then
         (if c \<ge> 0xDC00 then utf16_to_utf8_sw s
          else (case s of [] \<Rightarrow> []
            | ch2 # s' \<Rightarrow> if ch2 \<ge> 0xDC00 \<and> ch2 \<le> 0xDFFF
                then four_bytes ((push_bit 10 (ucast c AND 0x3FF) OR (ucast ch2 AND 0x3FF)) + 0x10000) @ utf16_to_utf8_sw s'
                else utf16_to_utf8_sw s))
       else three_bytes (ucast c) @ utf16_to_utf8_sw s)"
    using l by (subst utf16_to_utf8_sw.simps(2)) (simp only: Let_def if_False ucast16_cmp)
  show ?thesis
  proof (cases "c \<ge> 0xD800 \<and> c \<le> 0xDBFF")
    case False
    then have h: "c \<ge> 0xD800 \<and> c \<le> 0xDFFF \<longleftrightarrow> c \<ge> 0xDC00 \<and> c \<le> 0xDFFF" by (auto simp: word_le_nat_alt)
    show ?thesis unfolding step convert_unit_def h using c False
      by (cases "c \<ge> 0xDC00 \<and> c \<le> 0xDFFF"; cases "c < 0x800") (simp_all only: if_True if_False Let_def prod.case simp_thms append_Nil)
  next
    case True
    then have h: "\<not> c < 0x800" "c \<ge> 0xD800" "c \<le> 0xDFFF" "\<not> c \<ge> 0xDC00" by (auto simp: word_le_nat_alt word_less_nat_alt)
    show ?thesis
    proof (cases s)
      case Nil
      then show ?thesis using c h True unfolding step by (simp add: convert_unit_def)
    next
      case (Cons d s')
      show ?thesis
      proof (cases "d \<ge> 0xDC00 \<and> d \<le> 0xDFFF")
        case here: True
        then have p: "four_bytes ((push_bit 10 (ucast c AND 0x3FF) OR (ucast d AND 0x3FF)) + 0x10000) =
            four_bytes (0x10000 + (ucast c - 0xD800) * 0x400 + (ucast d - 0xDC00))"
          using surrogate_pair [of c d] True by (simp only:)
        show ?thesis using c h True here unfolding step unfolding Cons convert_unit_def
          by (simp only: if_True if_False simp_thms list.case Let_def prod.case p)
      next
        case False
        then show ?thesis using c h True unfolding step unfolding Cons convert_unit_def
          by (simp only: if_True if_False simp_thms list.case Let_def prod.case append_Nil)
      qed
    qed
  qed
qed

lemma high_bytes:
  "\<forall>b \<in> set (two_bytes x). \<not> is_brace b" "\<forall>b \<in> set (three_bytes x). \<not> is_brace b" "\<forall>b \<in> set (four_bytes x). \<not> is_brace b"
proof -
  have b: "\<forall>b \<in> A. bit b 7 \<Longrightarrow> \<forall>b \<in> A. \<not> is_brace (b :: u8)" for A
    by (auto simp: is_brace_def)
  show "\<forall>b \<in> set (two_bytes x). \<not> is_brace b" "\<forall>b \<in> set (three_bytes x). \<not> is_brace b" "\<forall>b \<in> set (four_bytes x). \<not> is_brace b"
    by (rule b, simp add: two_bytes_def three_bytes_def four_bytes_def bit_ucast_iff bit_or_iff)+
qed

text \<open>
  The formats both loops read alike: an opening brace is followed by ASCII up to the next brace or for 20 units, where no doubled opening brace
  ends the search, and behind a closing brace there is no surrogate.
\<close>

fun format_ok :: "u16 list \<Rightarrow> bool" where
  "format_ok [] = True"
| "format_ok (c # s) =
     (format_ok s
      \<and> (c = 0x7B \<longrightarrow> list_all (\<lambda>u. u < 0x80) (take 20 (takeWhile (\<lambda>u. \<not> is_brace u) s))
             \<and> take 2 (dropWhile (\<lambda>u. \<not> is_brace u) s) \<noteq> [0x7B, 0x7B])
      \<and> (c = 0x7D \<longrightarrow> s = [] \<or> \<not> (hd s \<ge> 0xD800 \<and> hd s \<le> 0xDFFF)))"

lemma format_ok_drop: "format_ok s \<Longrightarrow> format_ok (drop k s)"
proof (induction s arbitrary: k)
  case (Cons c s)
  then show ?case by (cases k) auto
qed simp

lemma spec_len_eq:
  "spec_len n s = (if length (takeWhile (\<lambda>u. \<not> is_brace u) s) < n \<and> take 1 (dropWhile (\<lambda>u. \<not> is_brace u) s) = [0x7D]
     then Some (length (takeWhile (\<lambda>u. \<not> is_brace u) s)) else None)"
  by (induction n s rule: spec_len.induct) (auto simp: is_brace_def)

lemma spec_len_utf16_eq:
  "take 2 (dropWhile (\<lambda>u. \<not> is_brace u) s) \<noteq> [0x7B, 0x7B] \<Longrightarrow> spec_len_utf16 n s = spec_len n s"
  by (induction n s rule: spec_len_utf16.induct) (auto simp: is_brace_def split: list.splits)

lemma is_brace_ucast: "(u :: u16) < 0x80 \<Longrightarrow> is_brace (ucast u :: u8) = is_brace u"
proof -
  assume "u < 0x80"
  then have "unat (ucast u :: u8) = unat u"
    by (simp add: unsigned_ucast_eq take_bit_nat_eq_self word_less_nat_alt)
  then show ?thesis by (simp add: is_brace_def word_unat_eq_iff)
qed

lemma c20_loop_ucast: "c20_loop i st (map (ucast :: u16 \<Rightarrow> u8) us) = c20_loop i st us"
  by (induction us arbitrary: i st) (simp_all add: Let_def)

lemma c20_format_ucast: "list_all (\<lambda>u. u < 0x80) us \<Longrightarrow> c20_format (map (ucast :: u16 \<Rightarrow> u8) us) = c20_format us"
proof (cases us)
  case (Cons u us')
  assume "list_all (\<lambda>u. u < 0x80) us"
  then have "u < 0x80" by (simp add: Cons)
  then have "unat (ucast u :: u8) = unat u"
    by (simp add: unsigned_ucast_eq take_bit_nat_eq_self word_less_nat_alt)
  then have "(ucast u :: u8) = 0x3A \<longleftrightarrow> u = 0x3A" by (simp add: word_unat_eq_iff)
  then show ?thesis by (simp add: c20_format_def Cons Let_def c20_loop_ucast)
qed (simp add: c20_format_def)

lemma c20_loop_offset: "offset (c20_info (c20_loop i st style)) = 0 \<or> offset (c20_info (c20_loop i st style)) < i + length style"
proof (induction style arbitrary: i st)
  case (Cons u style)
  show ?case using Cons [of "i + 1" "c20_char (ucast u) st"] by (simp add: Let_def)
qed simp

lemma c20_format_offset: "style \<noteq> [] \<Longrightarrow> offset (c20_format style) < length style"
proof -
  assume "style \<noteq> []"
  moreover have "offset (c20_format style) = 0 \<or> offset (c20_format style) < 1 + length (tl style)"
    using c20_loop_offset [of 1 "\<lparr>c20_info = new_format_info\<lparr>used := True\<rparr>, digit0 = 0x30, digit1 = 0, has_precision = False, has_align = False, has_fill = False\<rparr>" "tl style"]
    by (auto simp: c20_format_def Let_def new_format_info_def)
  ultimately show ?thesis by (cases style) auto
qed

lemma sw16_closed:
  assumes "list_all (\<lambda>u. u < 0x80) r" "n \<le> length r"
  shows "take n (utf16_to_utf8_sw (r @ q)) = map ucast (take n r)" "drop n (utf16_to_utf8_sw (r @ q)) = utf16_to_utf8_sw (drop n (r @ q))"
proof -
  have e: "utf16_to_utf8_sw (r @ q) = map ucast r @ utf16_to_utf8_sw q" by (rule sw16_ascii_append [OF assms(1)])
  have d: "list_all (\<lambda>u. u < 0x80) (drop n r)" using assms(1) by (auto simp: list_all_iff dest: in_set_dropD)
  show "take n (utf16_to_utf8_sw (r @ q)) = map ucast (take n r)" using assms(2) by (simp add: e take_map)
  show "drop n (utf16_to_utf8_sw (r @ q)) = utf16_to_utf8_sw (drop n (r @ q))"
    using assms(2) sw16_ascii_append [OF d, of q] by (simp add: e drop_map)
qed

lemma sw16_brace: "is_brace (c :: u16) \<Longrightarrow> utf16_to_utf8_sw (c # s) = ucast c # utf16_to_utf8_sw s"
  by (rule sw16_ascii) (auto simp: is_brace_def)

lemma sw16_head:
  assumes "s = [] \<or> \<not> (hd s \<ge> 0xD800 \<and> hd s \<le> 0xDFFF)"
  shows "(utf16_to_utf8_sw s \<noteq> [] \<and> hd (utf16_to_utf8_sw s) = 0x7D) = (s \<noteq> [] \<and> hd s = 0x7D)"
proof (cases s)
  case (Cons d s')
  show ?thesis
  proof (cases "d < 0x80")
    case True
    then have "unat (ucast d :: u8) = unat d" by (simp add: unsigned_ucast_eq take_bit_nat_eq_self word_less_nat_alt)
    then show ?thesis using True by (simp add: Cons sw16_ascii word_unat_eq_iff del: utf16_to_utf8_sw.simps(2))
  next
    case False
    obtain out rest where o: "convert_unit d s' = (out, rest)" by (metis surj_pair)
    have ne: "\<not> (d \<ge> 0xD800 \<and> d \<le> 0xDFFF)" using assms Cons by simp
    then have n: "\<not> (d \<ge> 0xD800 \<and> d \<le> 0xDBFF)" "\<not> (d \<ge> 0xDC00 \<and> d \<le> 0xDFFF)" by (auto simp: word_le_nat_alt)
    have out: "out = (if d < 0x800 then two_bytes (ucast d) else three_bytes (ucast d))"
      using o False n unfolding convert_unit_def by (simp only: if_False) (auto split: if_splits)
    have "out \<noteq> [] \<and> \<not> is_brace (hd out)"
      using high_bytes(1,2) [of "ucast d"] unfolding out by (simp add: two_bytes_def three_bytes_def split: if_split)
    then have "utf16_to_utf8_sw s \<noteq> [] \<and> \<not> is_brace (hd (utf16_to_utf8_sw s))"
      unfolding Cons sw16_convert_unit [OF False] o Let_def by (auto simp: hd_append simp del: utf16_to_utf8_sw.simps(2))
    moreover have "d \<noteq> 0x7D" using False by auto
    ultimately show ?thesis by (auto simp: Cons is_brace_def)
  qed
qed simp

lemma sw16_at_brace:
  "q = [] \<or> is_brace (hd q) \<Longrightarrow>
     (utf16_to_utf8_sw q = [] \<or> is_brace (hd (utf16_to_utf8_sw q))) \<and> (take 1 (utf16_to_utf8_sw q) = [0x7D] \<longleftrightarrow> take 1 q = [0x7D])"
proof (cases q)
  case (Cons b q')
  assume "q = [] \<or> is_brace (hd q)"
  then have b: "is_brace b" by (simp add: Cons)
  show ?thesis unfolding Cons sw16_brace [OF b] using b by (auto simp: is_brace_def)
qed simp

lemma brace_step_sw16:
  assumes c: "is_brace c" and ok: "format_ok (c # s)"
  shows "brace_step (spec_len 20) t simd (ucast c :: u8) (utf16_to_utf8_sw s) args content =
    map_option (\<lambda>(f, a, k). (utf16_to_utf8_sw f, a, k)) (brace_step (spec_len_utf16 20) t simd c s args content)"
proof (cases "c = 0x7D")
  case True
  have h: "(utf16_to_utf8_sw s \<noteq> [] \<and> hd (utf16_to_utf8_sw s) = 0x7D) = (s \<noteq> [] \<and> hd s = 0x7D)"
    using sw16_head [of s] ok True by simp
  have tl: "tl (utf16_to_utf8_sw s) = utf16_to_utf8_sw (tl s)" if "s \<noteq> [] \<and> hd s = 0x7D"
    using that sw16_brace [of "hd s" "tl s"] by (cases s) (simp_all add: is_brace_def del: utf16_to_utf8_sw.simps(2))
  show ?thesis using h tl True
    by (cases "s \<noteq> [] \<and> hd s = 0x7D") (auto simp: brace_step_def simp del: utf16_to_utf8_sw.simps(2))
next
  case False
  then have c: "c = 0x7B" using c by (simp add: is_brace_def)
  let ?r = "takeWhile (\<lambda>u. \<not> is_brace u) s" and ?q = "dropWhile (\<lambda>u. \<not> is_brace u) s"
  have r: "list_all (\<lambda>u. u < 0x80) (take 20 ?r)" and two: "take 2 ?q \<noteq> [0x7B, 0x7B]" using ok c by auto
  have s: "s = ?r @ ?q" by simp
  have l16: "spec_len_utf16 20 s = spec_len 20 s" by (rule spec_len_utf16_eq [OF two])
  show ?thesis
  proof (cases "length ?r < 20")
    case short: True
    then have ra: "list_all (\<lambda>u. u < 0x80) ?r" using r by simp
    have q: "?q = [] \<or> is_brace (hd ?q)" using hd_dropWhile [of "\<lambda>u. \<not> is_brace u" s] by blast
    have sws: "utf16_to_utf8_sw s = map ucast ?r @ utf16_to_utf8_sw ?q" by (subst s, rule sw16_ascii_append [OF ra])
    have nb: "\<forall>u \<in> set (map ucast ?r). \<not> is_brace (u :: u8)"
      using ra is_brace_ucast set_takeWhileD [of _ "\<lambda>u. \<not> is_brace u" s] by (fastforce simp: list_all_iff)
    have hq: "utf16_to_utf8_sw ?q = [] \<or> is_brace (hd (utf16_to_utf8_sw ?q))" "take 1 (utf16_to_utf8_sw ?q) = [0x7D] \<longleftrightarrow> take 1 ?q = [0x7D]"
      using sw16_at_brace [OF q] by simp_all
    have run: "takeWhile (\<lambda>u. \<not> is_brace u) (a @ b) = a \<and> dropWhile (\<lambda>u. \<not> is_brace u) (a @ b) = b"
      if "\<forall>u \<in> set a. \<not> is_brace u" "b = [] \<or> is_brace (hd b)" for a b :: "u8 list"
      using that by (cases b) auto
    have tw: "takeWhile (\<lambda>u. \<not> is_brace u) (utf16_to_utf8_sw s) = map ucast ?r" "dropWhile (\<lambda>u. \<not> is_brace u) (utf16_to_utf8_sw s) = utf16_to_utf8_sw ?q"
      unfolding sws using run [OF nb hq(1)] by blast+
    have l: "spec_len 20 (utf16_to_utf8_sw s) = spec_len 20 s"
      unfolding spec_len_eq tw hq(2) by simp
    show ?thesis
    proof (cases "spec_len 20 s")
      case None
      then show ?thesis by (simp add: brace_step_def c l l16 del: utf16_to_utf8_sw.simps(2))
    next
      case (Some n)
      then have n: "n = length ?r" and q1: "take 1 ?q = [0x7D]" unfolding spec_len_eq by (auto split: if_splits)
      define a where "a = ?r @ [0x7D]"
      have sa: "s = a @ tl ?q" using s q1 by (cases ?q) (auto simp: a_def)
      have aa: "list_all (\<lambda>u. u < 0x80) a" "length a = n + 1" using ra by (simp_all add: a_def n)
      have st: "take (n + 1) s = a" "take (n + 1) (utf16_to_utf8_sw s) = map ucast a"
        using sw16_closed(1) [OF aa(1), of "n + 1" "tl ?q"] aa(2) sa by (metis append_eq_conv_conj, simp)
      let ?k = "if offset (c20_format a) \<noteq> 0 then offset (c20_format a) + 1 else n + 1"
      have "a \<noteq> []" by (simp add: a_def)
      then have "?k \<le> length a" using c20_format_offset [of a] aa(2) by simp
      then have dk: "drop ?k (utf16_to_utf8_sw s) = utf16_to_utf8_sw (drop ?k s)"
        using sw16_closed(2) [OF aa(1), of ?k "tl ?q"] sa by simp
      show ?thesis
        unfolding brace_step_def l16 l Some option.case Let_def st c20_format_ucast [OF aa(1)] dk
        by (simp add: c option.map_comp o_def split_def del: utf16_to_utf8_sw.simps(2))
    qed
  next
    case long: False
    define p where "p = take 20 ?r"
    have p: "list_all (\<lambda>u. u < 0x80) p" "length p = 20" "s = p @ drop 20 s"
      using r long s by (simp_all add: p_def) (metis append_take_drop_id takeWhile_eq_take take_take min.absorb1 not_less)
    have "\<forall>u \<in> set (map ucast p). \<not> is_brace (u :: u8)"
      using p(1) is_brace_ucast set_takeWhileD [of _ "\<lambda>u. \<not> is_brace u" s] by (fastforce simp: list_all_iff p_def dest: in_set_takeD)
    then have "takeWhile (\<lambda>u. \<not> is_brace u) (map ucast p @ utf16_to_utf8_sw (drop 20 s)) =
        map ucast p @ takeWhile (\<lambda>u :: u8. \<not> is_brace u) (utf16_to_utf8_sw (drop 20 s))"
      by (intro takeWhile_append2) blast
    moreover have "utf16_to_utf8_sw s = map ucast p @ utf16_to_utf8_sw (drop 20 s)"
      using sw16_ascii_append [OF p(1), of "drop 20 s"] p(3) by simp
    ultimately have "20 \<le> length (takeWhile (\<lambda>u. \<not> is_brace u) (utf16_to_utf8_sw s))"
      using p(2) by simp
    then have "spec_len 20 (utf16_to_utf8_sw s) = None" "spec_len 20 s = None" using long by (simp_all add: spec_len_eq)
    then show ?thesis by (simp add: brace_step_def c l16 del: utf16_to_utf8_sw.simps(2))
  qed
qed

lemma brace_step_drop: "brace_step closing t simd c fmt args content = Some (fmt', r) \<Longrightarrow> \<exists>k. fmt' = drop k fmt"
  by (auto simp: brace_step_def Let_def split: if_splits option.splits) (metis drop0 drop_Suc)+

lemma convert_unit_drop: "convert_unit c fmt = (out, rest) \<Longrightarrow> \<exists>k. rest = drop k fmt"
  by (auto simp: convert_unit_def split: if_splits list.splits intro: exI [of _ 0] exI [of _ "Suc 0"])

lemma convert_unit_no_brace: "\<not> c < 0x80 \<Longrightarrow> convert_unit c fmt = (out, rest) \<Longrightarrow> \<forall>b \<in> set out. \<not> is_brace b"
  using high_bytes by (auto simp: convert_unit_def split: if_splits list.splits)

lemma utf16_as_utf8:
  "format_ok fmt \<Longrightarrow> format_content_utf16 t simd fmt args content = format_loop_utf8 t simd (utf16_to_utf8_sw fmt) args content"
proof (induction "length fmt" arbitrary: fmt args content rule: less_induct)
  case less
  show ?case
  proof (cases fmt)
    case (Cons c s)
    have ok: "format_ok (drop k s)" for k using less(2) format_ok_drop [of s k] Cons by simp
    show ?thesis
    proof (cases "c < 0x80")
      case False
      obtain out rest where o: "convert_unit c s = (out, rest)" by (metis surj_pair)
      obtain k where "rest = drop k s" using convert_unit_drop [OF o] by blast
      then have "format_content_utf16 t simd rest args (content @ out) = format_loop_utf8 t simd (utf16_to_utf8_sw rest) args (content @ out)"
        using ok less(1) by (simp add: Cons)
      then show ?thesis
        using loop_utf8_run [OF convert_unit_no_brace [OF False o]]
        by (simp add: Cons utf16_other [OF False] sw16_convert_unit [OF False] o del: utf16_to_utf8_sw.simps(2))
    next
      case ascii: True
      note sw = sw16_ascii [OF ascii, of s]
      show ?thesis
      proof (cases "is_brace c")
        case False
        then show ?thesis using less(1) [of s] ok [of 0] is_brace_ucast [OF ascii]
          by (simp add: Cons sw utf16_copy [OF ascii False] loop_utf8_copy del: utf16_to_utf8_sw.simps(2))
      next
        case True
        show ?thesis
        proof (cases "brace_step (spec_len_utf16 20) t simd c s args content")
          case None
          then show ?thesis
            using True is_brace_ucast [OF ascii] brace_step_sw16 [OF True, of s t simd args content] less(2)
            by (simp add: Cons sw utf16_brace loop_utf8_brace after_brace_def del: utf16_to_utf8_sw.simps(2))
        next
          case (Some r)
          obtain fmt' args' content' where r: "r = (fmt', args', content')" by (metis surj_pair)
          obtain k where k: "fmt' = drop k s" using brace_step_drop Some r by blast
          show ?thesis
            using True is_brace_ucast [OF ascii] brace_step_sw16 [OF True, of s t simd args content] less(2) Some r k ok less(1) [of fmt']
            by (simp add: Cons sw utf16_brace loop_utf8_brace after_brace_def del: utf16_to_utf8_sw.simps(2))
        qed
      qed
    qed
  qed simp
qed

section \<open>No dependence on the vector unit\<close>

lemma insert_str_utf16_target: "insert_str_utf16 t simd = insert_str_utf16 t' simd'"
  unfolding insert_str_utf16_def using utf16_sw by auto

lemma place_arg_target: "place_arg t simd = place_arg t' simd'"
proof -
  have "insert_arg t simd = insert_arg t' simd'"
    unfolding insert_arg_def insert_char16_def insert_char32_def insert_str_utf16_target [of t simd t' simd'] ..
  then show ?thesis unfolding place_arg_def by simp
qed

lemma brace_step_target: "brace_step closing t simd = brace_step closing t' simd'"
  unfolding brace_step_def place_arg_target [of t simd t' simd'] ..

lemma legacy_target: "format_content_utf8_legacy t simd fmt args content = format_content_utf8_legacy t' simd' fmt args content"
proof (induction t simd fmt args content rule: format_content_utf8_legacy.induct)
  case (1 t simd fmt args content)
  then show ?case
    by (subst (1 2) format_content_utf8_legacy.simps)
      (auto simp: brace_utf8_legacy_def brace_step_target [of _ t simd t' simd'] split: prod.split list.split option.split)
qed

text \<open>
  C8. With arguments, the current formatting of UTF-8 formats gives on every target, with or without vector support, what the reference version gives;
  without arguments it copies the format as it stands, which the reference version does not.
\<close>

theorem format_utf8_equals_legacy:
  "(args \<noteq> [] \<longrightarrow> format_content_utf8 t simd fmt args content = format_content_utf8_legacy t' simd' fmt args content)
     \<and> format_content_utf8 t simd fmt [] content = Some (content @ fmt)"
  by (simp add: format_content_utf8_def loop_utf8_legacy legacy_target [of t simd fmt args content t' simd'])

theorem format_utf8_equals_legacy_witness:
  "format_content_utf8 (Simd_x86 True) True [0x61, 0x7D, 0x7D] [Some 1, None, None, None] [] = format_content_utf8_legacy Simd_none False [0x61, 0x7D, 0x7D] [Some 1, None, None, None] []"
  using format_utf8_equals_legacy [of "[Some 1, None, None, None]" "Simd_x86 True" True "[0x61, 0x7D, 0x7D]" "[]" Simd_none False] by simp

text \<open>The reference version collapses a doubled closing brace of a format without arguments.\<close>

lemma legacy_differs_without_arguments:
  "format_content_utf8 t simd [0x7D, 0x7D] [] [] = Some [0x7D, 0x7D]" "format_content_utf8_legacy t simd [0x7D, 0x7D] [] [] = Some [0x7D]"
  by (simp_all add: format_content_utf8_def legacy_utf8_brace is_brace_def after_brace_def brace_step_def)

lemma loop_no_args:
  "0x7D \<notin> set fmt \<Longrightarrow> format_loop_utf8 t simd fmt [] content = Some (content @ fmt)"
proof (induction fmt arbitrary: content)
  case (Cons c fmt)
  then show ?case
    by (cases "is_brace c") (auto simp: loop_utf8_copy loop_utf8_brace after_brace_def brace_step_def is_brace_def)
qed simp

lemma sw16_no_closing: "0x7D \<notin> set us \<Longrightarrow> 0x7D \<notin> set (utf16_to_utf8_sw us)"
proof (induction "length us" arbitrary: us rule: less_induct)
  case less
  show ?case
  proof (cases us)
    case (Cons c s)
    show ?thesis
    proof (cases "c < 0x80")
      case True
      have u: "unat (ucast c :: u8) = unat c" using True by (simp add: unsigned_ucast_eq take_bit_nat_eq_self word_less_nat_alt)
      then have "(ucast c :: u8) \<noteq> 0x7D" using less(2) by (auto simp: Cons word_unat_eq_iff)
      then show ?thesis using less by (simp add: Cons sw16_ascii [OF True] del: utf16_to_utf8_sw.simps(2))
    next
      case False
      obtain out rest where o: "convert_unit c s = (out, rest)" by (metis surj_pair)
      obtain k where k: "rest = drop k s" using convert_unit_drop [OF o] by blast
      have "0x7D \<notin> set out" using convert_unit_no_brace [OF False o] by (auto simp: is_brace_def)
      moreover have "0x7D \<notin> set (utf16_to_utf8_sw rest)"
        using less k in_set_dropD [of _ k s] by (intro less(1)) (auto simp: Cons)
      ultimately show ?thesis by (simp add: Cons sw16_convert_unit [OF False] o del: utf16_to_utf8_sw.simps(2))
    qed
  qed simp
qed

text \<open>
  C9. A format in UTF-16 is laid out like its conversion to UTF-8, on every target, if both loops read it alike: behind an opening
  brace there is ASCII up to the next brace or for 20 units, that next brace is not a doubled opening brace, no surrogate follows a closing brace
  (\<open>format_ok\<close>), and there are arguments or no closing brace: without arguments only the loop for UTF-16 collapses doubled closing braces.
\<close>

theorem format_utf16_equals_utf8:
  assumes "format_ok fmt" "args \<noteq> [] \<or> 0x7D \<notin> set fmt"
  shows "format_content_utf16 t simd fmt args content = format_content_utf8 t' simd' (utf16_to_utf8_sw fmt) args content"
proof -
  have "format_loop_utf8 t simd f args content = format_loop_utf8 t' simd' f args content" for f
    unfolding loop_utf8_legacy using legacy_target by blast
  moreover have "format_loop_utf8 t' simd' (utf16_to_utf8_sw fmt) [] content = Some (content @ utf16_to_utf8_sw fmt)" if "args = []"
    using assms(2) that by (intro loop_no_args sw16_no_closing) simp
  ultimately show ?thesis by (auto simp: utf16_as_utf8 [OF assms(1)] format_content_utf8_def)
qed

theorem format_utf16_equals_utf8_witness:
  "format_content_utf16 (Simd_x86 True) True [0x503C, 0x7B, 0x3A, 0x64, 0x7D, 0x4E2D] (map Some [7, 0, 42, 0]) [] =
     format_content_utf8 Simd_none False [0xE5, 0x80, 0xBC, 0x7B, 0x3A, 0x64, 0x7D, 0xE4, 0xB8, 0xAD] (map Some [7, 0, 42, 0]) []"
proof -
  have sw: "utf16_to_utf8_sw [0x503C, 0x7B, 0x3A, 0x64, 0x7D, 0x4E2D] = [0xE5, 0x80, 0xBC, 0x7B, 0x3A, 0x64, 0x7D, 0xE4, 0xB8, 0xAD]"
    by (simp add: three_bytes_def Let_def)
  show ?thesis unfolding sw [symmetric] by (rule format_utf16_equals_utf8) (simp_all add: is_brace_def)
qed

section \<open>The text of an entry read back\<close>

text \<open>
  The calls whose text does not change: the read entry is small enough, and a wide format is one both loops read alike, without closing braces
  when there are no arguments.
\<close>

definition text_kept :: "log_call \<Rightarrow> bool" where
  "text_kept c \<longleftrightarrow> length (format_utf8 c) + length (arg_mem (map as_utf8 (call_args c))) < 2 ^ 31
     \<and> (call_type c \<noteq> String_utf8_type \<longrightarrow> format_ok (byte_units (call_format c))
         \<and> (call_args c = [] \<longrightarrow> 0x7D \<notin> set (byte_units (call_format c))))"

text \<open>The content of a call: what both entries are laid out to.\<close>

lemma utf8_content:
  assumes "list_all arg_ok as"
  shows "format_content_utf8 t simd fmt (arg_mem as) content = (if as = [] then Some (content @ fmt) else value_loop fmt as content)"
  using assms by (simp add: format_content_utf8_def loop_utf8_values)

lemma layout_prefix_cong:
  assumes "timestamp_epoch h = timestamp_epoch h'" "category_idx h = category_idx h'" "log_thread_id h = log_thread_id h'"
    "head_level h = head_level h'" "get_thread_name h m = get_thread_name h' m'"
  shows "layout_prefix lc cats h m l = layout_prefix lc cats h' m' l"
  unfolding layout_prefix_def insert_time_def insert_thread_info_def assms ..

lemma log_args_mem: "list_all arg_ok as \<Longrightarrow> log_args_fill as = Some (arg_mem as)"
  using log_args_fill_cells [of as] by (simp add: arg_mem_def list_all_iff)

lemma even_take: "even (length b) \<Longrightarrow> take (length b div 2 * 2) b = b"
  by simp

text \<open>
  C7. An entry read back from a compressed file is laid out to the line the logged entry is laid out to, for all types of arguments,
  whatever vector units the writer and the reader have: the codec changes the form of texts, not what is printed. This is for the calls of C1
  (\<open>call_ok\<close>: no text argument begins with a NUL character, a thread other than the largest number, sizes below \<open>2 ^ 29\<close>) whose entry read back is below 2 GB
  and whose format is in UTF-8, or in UTF-16 and read alike by both loops as in C9 (\<open>text_kept\<close>: no closing brace when there are no arguments, no
  doubled opening brace behind a specification, only ASCII within one, no surrogate behind a closing brace).
\<close>

theorem decoded_entry_text:
  assumes "call_ok categories c" "text_kept c"
  shows "do_layout lc t simd cats (decoded_entry c) l = do_layout lc t' simd' cats (call_entry hash c) l"
proof -
  let ?as = "call_args c" and ?us = "byte_units (call_format c)"
  have ok: "list_all arg_ok ?as" "list_all arg_ok (map as_utf8 ?as)"
    using assms(1) by (auto simp: call_ok_def list_all_iff)
  have size: "40 + align_4 (length (format_utf8 c)) + length (arg_mem (map as_utf8 ?as)) < 2 ^ 32"
    using assms(2) align_4_bounds(2) [of "length (format_utf8 c)"] by (simp add: text_kept_def)
  note d = log_write_reads(1-3,7) [OF size, where hash = "\<lambda>_. 0" and known = False and epoch = "call_epoch c" and lv = "call_level c" and cat = "call_category c"
      and ty = String_utf8_type and tid = "call_thread c" and name = "call_thread_name c"]
  have de: "decoded_entry c = log_write (\<lambda>_. 0) False (call_epoch c) (call_level c) (call_category c) String_utf8_type (format_utf8 c)
      (arg_mem (map as_utf8 ?as)) (call_thread c) (call_thread_name c)"
    by (simp add: decoded_entry_def log_args_mem [OF ok(2)])
  define D where "D = \<lparr>timestamp_epoch = call_epoch c,
      ext_info_offset = of_nat (40 + align_4 (length (format_utf8 c)) + length (arg_mem (map as_utf8 ?as))), category_idx = call_category c,
      log_thread_id = call_thread c, format_hash = (if False \<and> String_utf8_type \<noteq> String_utf32_type then 0 else 0),
      log_format_str_type = arg_code String_utf8_type, head_level = call_level c, log_format_data_len = of_nat (length (format_utf8 c))\<rparr>"
  note d = d [folded de, folded D_def]
  note e = call_entry_reads(1-3,5) [OF assms(1), where hash = hash]
  have args: "the (log_args_fill ?as) = arg_mem ?as" by (simp add: log_args_mem [OF ok(1)])
  have laid: "format_content_utf8 t simd (format_utf8 c) (arg_mem (map as_utf8 ?as)) k =
      (if call_type c = String_utf8_type then format_content_utf8 t' simd' (call_format c) (arg_mem ?as) k
       else format_content_utf16 t' simd' (byte_units (take (length (call_format c) div 2 * 2) (call_format c))) (arg_mem ?as) k)" for k
  proof (cases "call_type c = String_utf8_type")
    case True
    then show ?thesis by (simp add: format_utf8_def utf8_content [OF ok(1)] utf8_content [OF ok(2)] value_loop_as_utf8)
  next
    case False
    then have even: "even (length (call_format c))" and f: "format_ok ?us" "?as = [] \<Longrightarrow> 0x7D \<notin> set ?us"
      using assms by (auto simp: call_ok_def text_kept_def)
    have "format_content_utf16 t' simd' ?us (arg_mem ?as) k = value_loop (utf16_to_utf8_sw ?us) ?as k"
      by (simp add: utf16_as_utf8 [OF f(1)] loop_utf8_values [OF ok(1)])
    moreover have "value_loop (utf16_to_utf8_sw ?us) [] k = Some (k @ utf16_to_utf8_sw ?us)" if "?as = []"
      using loop_no_args [OF sw16_no_closing [OF f(2) [OF that]]] loop_utf8_values [of "[]"] by simp
    ultimately show ?thesis
      using False by (simp add: format_utf8_def utf8_content [OF ok(2)] value_loop_as_utf8 even_take [OF even])
  qed
  have code: "arg_code (call_type c) = arg_code String_utf8_type \<longleftrightarrow> call_type c = String_utf8_type"
    using assms(1) by (auto simp: call_ok_def arg_code_def arg_types_def)
  have heads: "log_format_str_type D = arg_code String_utf8_type" "log_format_str_type (call_head hash c) = arg_code (call_type c)"
    "timestamp_epoch D = timestamp_epoch (call_head hash c)" "category_idx D = category_idx (call_head hash c)"
    "log_thread_id D = log_thread_id (call_head hash c)" "head_level D = head_level (call_head hash c)"
    by (simp_all add: D_def call_head_def)
  have "layout_prefix lc cats D (decoded_entry c) l = layout_prefix lc cats (call_head hash c) (call_entry hash c) l"
    by (rule layout_prefix_cong) (simp_all only: heads d(4) e(4))
  moreover have "python_style_format_content t simd D (decoded_entry c) = python_style_format_content t' simd' (call_head hash c) (call_entry hash c)"
    unfolding python_style_format_content_def d(2,3) e(2,3) bind.bind_lunit heads(1,2) code args laid by (simp cong: if_cong)
  ultimately show ?thesis unfolding do_layout_def d(1) e(1) bind.bind_lunit by (simp cong: if_cong)
qed

text \<open>A call with a UTF-16 format and a wide text.\<close>

definition wide_call :: log_call where
  "wide_call = \<lparr>call_known = True, call_epoch = 1700000000123, call_level = 2, call_category = 0, call_type = String_utf16_type,
     call_format = [0x3C, 0x50, 0x7B, 0, 0x7D, 0], call_args = [Arg_utf16 (Some [0x4E2D])], call_thread = 7, call_thread_name = [0x6D]\<rparr>"

lemma wide_call_ok: "call_ok 1 wide_call" "text_kept wide_call"
proof -
  have args: "log_args_fill [Arg_utf16 (Some [0x4E2D])] = Some (arg_mem [Arg_utf16 (Some [0x4E2D])])"
    by (rule log_args_mem) (simp add: arg_ok_def text_of_def chars_or_null_def)
  have units: "byte_units [0x3C, 0x50, 0x7B, 0, 0x7D, 0] = [0x503C, 0x7B, 0x7D]" by code_simp
  show "call_ok 1 wide_call"
    by (simp del: log_args_fill.simps add: call_ok_def wide_call_def args no_leading_null_def arg_ok_def as_utf8_def text_of_def chars_or_null_def length_text_cells
        three_bytes_def unit_bytes_def align_4_def)
  show "text_kept wide_call"
    by (simp add: text_kept_def wide_call_def units format_utf8_def as_utf8_def text_of_def chars_or_null_def length_text_cells
        three_bytes_def Let_def is_brace_def align_4_def)
qed

theorem decoded_entry_text_witness:
  "\<forall>lc l. do_layout lc (Simd_x86 True) True [[0x41]] (decoded_entry wide_call) l = do_layout lc Simd_none False [[0x41]] (call_entry (\<lambda>_. 5) wide_call) l"
  by (intro allI decoded_entry_text [OF wide_call_ok])

end
