(* ===== verification/File_Cache.thy ===== *)
theory File_Cache
  imports Ring_Memory
begin

text \<open>
  The write cache and the read cache of \<open>src/bq_log/log/appender/appender_file_base.cpp\<close>, over a file as the operating system offers it: its bytes,
  the position, and the answers of the system to the next calls of \<open>write\<close>; without answers left the system takes all bytes. The cache memory is
  \<open>head\<close>, padding, then the written bytes below the cursor: a list. Behind the cursor nothing is kept. \<open>None\<close> is a failed assertion or
  undefined behaviour, a \<open>memcpy\<close> between overlapping ranges. The
  cache lies in memory of the heap; its copy in a memory mapped file is not modelled.
\<close>

section \<open>Files\<close>

datatype errno = Enospc | Other_errno

text \<open>Answers of \<open>write\<close>: a number of bytes taken, an interrupted call, an error.\<close>

datatype sys_write = Written nat | Eintr | Sys_error errno

record os_file =
  file_bytes :: "u8 list"
  file_pos :: nat
  write_answers :: "sys_write list"

datatype seek_option = Seek_begin | Seek_current | Seek_end

definition overwrite :: "nat \<Rightarrow> u8 list \<Rightarrow> u8 list \<Rightarrow> u8 list" where
  "overwrite p bs c = take p c @ replicate (p - length c) 0 @ bs @ drop (p + length bs) c"

text \<open>The loop over \<open>write\<close>: the error, the number of bytes taken, and the answers left.\<close>

fun write_loop :: "sys_write list \<Rightarrow> u8 list \<Rightarrow> errno option \<times> nat \<times> sys_write list" where
  "write_loop ans [] = (None, 0, ans)"
| "write_loop [] data = (None, length data, [])"
| "write_loop (Eintr # ans) data = write_loop ans data"
| "write_loop (Sys_error e # ans) data = (Some e, 0, ans)"
| "write_loop (Written n # ans) data =
     (let written = min n (length data)
      in if written = 0 then (None, 0, ans)
         else (case write_loop ans (drop written data) of (e, m, ans') \<Rightarrow> (e, written + m, ans')))"

definition platform_write_file :: "u8 list \<Rightarrow> os_file \<Rightarrow> errno option \<times> nat \<times> os_file" where
  "platform_write_file data f =
     (case write_loop (write_answers f) data of
        (e, n, ans) \<Rightarrow> (e, n, f\<lparr>file_bytes := overwrite (file_pos f) (take n data) (file_bytes f), file_pos := file_pos f + n, write_answers := ans\<rparr>))"

definition file_seek :: "seek_option \<Rightarrow> int \<Rightarrow> os_file \<Rightarrow> os_file option" where
  "file_seek opt off f =
     (let target = (case opt of Seek_begin \<Rightarrow> 0 | Seek_current \<Rightarrow> int (file_pos f) | Seek_end \<Rightarrow> int (length (file_bytes f))) + off
      in if target < 0 then None else Some (f\<lparr>file_pos := nat target\<rparr>))"

definition file_manager_write_file :: "u8 list \<Rightarrow> seek_option \<Rightarrow> int \<Rightarrow> os_file \<Rightarrow> nat \<times> os_file" where
  "file_manager_write_file data opt off f =
     (if data = [] then (0, f)
      else (case file_seek opt off f of
              None \<Rightarrow> (0, f)
            | Some f \<Rightarrow> (case platform_write_file data f of (_, n, f) \<Rightarrow> (n, f))))"

definition file_manager_read_file :: "nat \<Rightarrow> os_file \<Rightarrow> u8 list \<times> os_file" where
  "file_manager_read_file n f =
     (let bs = take n (drop (file_pos f) (file_bytes f)) in (bs, f\<lparr>file_pos := file_pos f + length bs\<rparr>))"

definition truncate_file :: "nat \<Rightarrow> os_file \<Rightarrow> os_file" where
  "truncate_file n f = f\<lparr>file_bytes := take n (file_bytes f) @ replicate (n - length (file_bytes f)) 0\<rparr>"

section \<open>State\<close>

record file_appender =
  afile :: "os_file option"
  current_file_size :: nat
  cache_entity_size :: nat
  write_cache_target_size :: nat
  cache_write_head_size :: nat
  cache_write_padding :: nat
  cache_write :: "u8 list"
  finished_cursor :: nat
  disk_full_drop :: bool
  cache_read :: "u8 list"
  cache_read_cursor :: nat
  read_file_pos :: nat
  cache_read_eof :: bool
  max_file_size :: nat
  enable_rolling_log_file :: bool
  current_file_expire_time :: u64
  gmt_offset_ms :: int

definition cache_read_default_size :: nat where
  "cache_read_default_size = 32 * 1024"

text \<open>\<open>write_cache_size_\<close> is what \<open>refresh_cache_write_ptr\<close> stores: the room from \<open>cache_write_\<close> to the end of the memory.\<close>

definition get_cache_write_size :: "'a file_appender_scheme \<Rightarrow> nat" where
  "get_cache_write_size a = cache_entity_size a - cache_write_head_size a - cache_write_padding a"

definition get_total_used_write_cache_size :: "'a file_appender_scheme \<Rightarrow> nat" where
  "get_total_used_write_cache_size a = cache_write_head_size a + cache_write_padding a + length (cache_write a)"

section \<open>The write cache\<close>

definition resize_cache_write_entity :: "nat \<Rightarrow> 'a file_appender_scheme \<Rightarrow> 'a file_appender_scheme option" where
  "resize_cache_write_entity new_size a =
     (if get_total_used_write_cache_size a \<le> new_size then Some (a\<lparr>cache_entity_size := new_size\<rparr>) else None)"

text \<open>
  Bytes left after a write: \<open>memcpy\<close> moves what was not written to the front, then \<open>memmove\<close> moves what is not finished yet to the front as well.
  The ranges of the \<open>memcpy\<close> overlap if something was taken, but less than half; what it does then is not defined. If nothing
  was taken, its source is its target, and the bytes stay.
\<close>

definition move_rest :: "nat \<Rightarrow> nat \<Rightarrow> u8 list \<Rightarrow> u8 list option" where
  "move_rest need real c =
     (if 0 < real \<and> real < need - real then None
      else
        (let c1 = (if real < need then drop real (take need c) @ drop (need - real) c else c);
             c2 = (if need < length c then drop need c1 @ drop (length c - need) c1 else c1)
         in Some (take (length c - real) c2)))"

definition flush_write_cache ::
    "('a file_appender_scheme \<Rightarrow> 'a file_appender_scheme option) \<Rightarrow> 'a file_appender_scheme \<Rightarrow> 'a file_appender_scheme option" where
  "flush_write_cache open_new a =
     (case afile a of
        None \<Rightarrow> Some a
      | Some f \<Rightarrow>
          (let need = finished_cursor a;
               (err, real, f) = platform_write_file (take need (cache_write a)) f
           in Option.bind (move_rest need real (cache_write a)) (\<lambda>rest.
              let a = a\<lparr>afile := Some f, cache_write := rest, finished_cursor := need - real,
                     current_file_size := current_file_size a + real\<rparr>
              in Option.bind
                (if cache_entity_size a > write_cache_target_size a
                    \<and> get_total_used_write_cache_size a \<le> cache_read_default_size div 2
                 then resize_cache_write_entity (write_cache_target_size a) a else Some a)
                (\<lambda>a. let a = a\<lparr>disk_full_drop := (if err = Some Enospc then True else if err = None \<and> real = need then False else disk_full_drop a)\<rparr>
                     in if err \<noteq> None \<and> err \<noteq> Some Enospc then open_new a else Some a))))"

text \<open>
  \<open>alloc_write_cache\<close> calls the virtual \<open>flush_write_cache\<close>, here the parameter \<open>flush\<close>. \<open>write_bytes\<close> is the pattern all callers
  follow: allocate, fill, return.
\<close>

definition alloc_write_cache ::
    "('a file_appender_scheme \<Rightarrow> 'a file_appender_scheme option) \<Rightarrow> nat \<Rightarrow> 'a file_appender_scheme \<Rightarrow> 'a file_appender_scheme option" where
  "alloc_write_cache flush len a =
     (if length (cache_write a) + len > get_cache_write_size a
      then Option.bind (flush a) (\<lambda>a.
             let need = length (cache_write a) + len
             in if need > get_cache_write_size a
                then resize_cache_write_entity (unat (roundup_pow_of_two (of_nat (need + cache_write_head_size a + cache_write_padding a) :: u64))) a
                else Some a)
      else Some a)"

definition return_write_cache :: "u8 list \<Rightarrow> 'a file_appender_scheme \<Rightarrow> 'a file_appender_scheme" where
  "return_write_cache used a = a\<lparr>cache_write := cache_write a @ used\<rparr>"

definition write_bytes ::
    "('a file_appender_scheme \<Rightarrow> 'a file_appender_scheme option) \<Rightarrow> u8 list \<Rightarrow> 'a file_appender_scheme \<Rightarrow> 'a file_appender_scheme option" where
  "write_bytes flush data a = map_option (return_write_cache data) (alloc_write_cache flush (length data) a)"

definition mark_write_finished :: "'a file_appender_scheme \<Rightarrow> 'a file_appender_scheme" where
  "mark_write_finished a = a\<lparr>finished_cursor := length (cache_write a)\<rparr>"

definition set_cache_write_padding :: "nat \<Rightarrow> 'a file_appender_scheme \<Rightarrow> 'a file_appender_scheme option" where
  "set_cache_write_padding new_padding a =
     (if cache_write_padding a = new_padding then Some a
      else map_option (\<lambda>a. a\<lparr>cache_write_padding := new_padding\<rparr>)
             (if new_padding > cache_write_padding a
              then (let used = get_total_used_write_cache_size a + new_padding - cache_write_padding a
                    in if used > cache_entity_size a then resize_cache_write_entity used a else Some a)
              else Some a))"

text \<open>\<open>clean_cache_write\<close>, run when a new file is opened.\<close>

definition clean_cache_write :: "'a file_appender_scheme \<Rightarrow> 'a file_appender_scheme" where
  "clean_cache_write a = a\<lparr>finished_cursor := 0, cache_write := [], cache_write_padding := 0\<rparr>"

text \<open>\<open>direct_write\<close> bypasses the cache.\<close>

definition direct_write :: "u8 list \<Rightarrow> seek_option \<Rightarrow> int \<Rightarrow> 'a file_appender_scheme \<Rightarrow> nat \<times> 'a file_appender_scheme" where
  "direct_write data opt off a =
     (case afile a of
        None \<Rightarrow> (0, a)
      | Some f \<Rightarrow>
          (case file_manager_write_file data opt off f of
             (n, f) \<Rightarrow> (n, a\<lparr>afile := Some (f\<lparr>file_pos := length (file_bytes f)\<rparr>), current_file_size := length (file_bytes f)\<rparr>)))"

section \<open>The read cache\<close>

text \<open>The position is cast to 32 bits before it is handed to \<open>seek\<close>.\<close>

definition cast_i32 :: "nat \<Rightarrow> int" where
  "cast_i32 pos = sint (word_of_nat pos :: u32)"

definition clear_read_cache :: "'a file_appender_scheme \<Rightarrow> 'a file_appender_scheme" where
  "clear_read_cache a = a\<lparr>cache_read_cursor := 0, cache_read := []\<rparr>"

definition seek_read_file_absolute :: "nat \<Rightarrow> 'a file_appender_scheme \<Rightarrow> 'a file_appender_scheme option" where
  "seek_read_file_absolute pos a =
     Option.bind (afile a) (\<lambda>f.
     map_option (\<lambda>f. (clear_read_cache (a\<lparr>afile := Some f, read_file_pos := pos\<rparr>))\<lparr>cache_read_eof := False\<rparr>)
       (file_seek Seek_begin (cast_i32 pos) f))"

definition read_with_cache :: "nat \<Rightarrow> 'a file_appender_scheme \<Rightarrow> u8 list \<times> 'a file_appender_scheme" where
  "read_with_cache len a =
     (let left_size = length (cache_read a) - cache_read_cursor a;
          a = (if left_size < len
               then (let kept = drop (cache_read_cursor a) (cache_read a);
                         total_size = max len cache_read_default_size;
                         readable = current_file_size a - (read_file_pos a + left_size);
                         fill_size = min (total_size - left_size) readable;
                         (bs, file') = (case afile a of
                            None \<Rightarrow> ([], None)
                          | Some f \<Rightarrow> (case file_manager_read_file fill_size f of (bs, f) \<Rightarrow> (bs, Some f)))
                     in a\<lparr>cache_read := kept @ bs, cache_read_cursor := 0, afile := file'\<rparr>)
               else a);
          result = take len (drop (cache_read_cursor a) (cache_read a))
      in (result, a\<lparr>cache_read_eof := cache_read_eof a \<or> length result < len,
                    cache_read_cursor := cache_read_cursor a + length result, read_file_pos := read_file_pos a + length result\<rparr>))"

section \<open>File rotation\<close>

definition is_file_oversize :: "'a file_appender_scheme \<Rightarrow> bool" where
  "is_file_oversize a \<longleftrightarrow> max_file_size a > 0 \<and> current_file_size a \<ge> max_file_size a"

definition ms_per_day :: u64 where
  "ms_per_day = 60 * 60 * 24 * 1000"

text \<open>The end of the local day of an entry.\<close>

definition expire_time :: "int \<Rightarrow> u64 \<Rightarrow> u64" where
  "expire_time diff epoch =
     (let local = epoch + word_of_int diff in local - local mod ms_per_day + ms_per_day - word_of_int diff)"

definition refresh_file_handle ::
    "('a file_appender_scheme \<Rightarrow> 'a file_appender_scheme option) \<Rightarrow> ('a file_appender_scheme \<Rightarrow> 'a file_appender_scheme option) \<Rightarrow>
     u64 \<Rightarrow> 'a file_appender_scheme \<Rightarrow> (bool \<times> 'a file_appender_scheme) option" where
  "refresh_file_handle open_new flush epoch a =
     (if afile a = None \<or> is_file_oversize a \<or> enable_rolling_log_file a \<and> epoch > current_file_expire_time a
      then (let a = a\<lparr>current_file_expire_time := expire_time (gmt_offset_ms a) epoch\<rparr>
            in Option.bind (if afile a \<noteq> None then flush a else Some a) (\<lambda>a.
               map_option (\<lambda>a. (afile a \<noteq> None, a)) (open_new (clear_read_cache a))))
      else Some (True, a))"

text \<open>Entries that arrive while the disk is full are dropped.\<close>

definition file_log_impl ::
    "('a file_appender_scheme \<Rightarrow> 'a file_appender_scheme option) \<Rightarrow> ('a file_appender_scheme \<Rightarrow> 'a file_appender_scheme option) \<Rightarrow>
     u64 \<Rightarrow> 'a file_appender_scheme \<Rightarrow> (bool \<times> 'a file_appender_scheme) option" where
  "file_log_impl open_new flush epoch a = (if disk_full_drop a then Some (False, a) else refresh_file_handle open_new flush epoch a)"


section \<open>Laws\<close>

text \<open>The cache fits its memory, and the file is at its end.\<close>

definition write_cache_ok :: "'a file_appender_scheme \<Rightarrow> bool" where
  "write_cache_ok a \<longleftrightarrow> finished_cursor a \<le> length (cache_write a)
     \<and> get_total_used_write_cache_size a \<le> cache_entity_size a \<and> cache_read_default_size \<le> write_cache_target_size a
     \<and> (\<forall>f. afile a = Some f \<longrightarrow> file_pos f = length (file_bytes f) \<and> current_file_size a = length (file_bytes f))"

lemma write_loop_bounds:
  "write_loop ans data = (e, n, ans') \<Longrightarrow> n \<le> length data \<and> set ans' \<subseteq> set ans \<and> (e = Some x \<longrightarrow> Sys_error x \<in> set ans)"
proof (induction ans data arbitrary: e n ans' rule: write_loop.induct)
  case (5 k ans v va)
  let ?w = "min k (length (v # va))"
  obtain e2 n2 ans2 where r: "write_loop ans (drop ?w (v # va)) = (e2, n2, ans2)" by (metis prod_cases3)
  have eq: "write_loop (Written k # ans) (v # va) = (if ?w = 0 then (None, 0, ans) else (e2, ?w + n2, ans2))"
    unfolding write_loop.simps Let_def r prod.case ..
  show ?case
  proof (cases "?w = 0")
    case True
    then show ?thesis using 5(2) unfolding eq by auto
  next
    case False
    have "n2 \<le> length (drop ?w (v # va)) \<and> set ans2 \<subseteq> set ans \<and> (e2 = Some x \<longrightarrow> Sys_error x \<in> set ans)"
      by (rule 5(1) [OF refl False r])
    moreover have "e = e2" "n = ?w + n2" "ans' = ans2" using 5(2) unfolding eq if_not_P [OF False] by simp_all
    ultimately show ?thesis unfolding length_drop by auto
  qed
qed auto

lemma write_loop_nil [simp]: "write_loop [] data = (None, length data, [])"
  by (cases data) simp_all

lemma overwrite_end: "p = length c \<Longrightarrow> overwrite p bs c = c @ bs"
  by (simp add: overwrite_def)

lemma platform_write_end:
  assumes "file_pos f = length (file_bytes f)" "write_loop (write_answers f) data = (e, n, ans)"
  shows "platform_write_file data f = (e, n, f\<lparr>file_bytes := file_bytes f @ take n data, file_pos := file_pos f + n, write_answers := ans\<rparr>)"
  using assms by (simp add: platform_write_file_def overwrite_end)

text \<open>How much of a write is taken depends on its size only.\<close>

lemma write_loop_size:
  "write_loop ans data = (e, n, ans') \<Longrightarrow> length data' = length data \<Longrightarrow> write_loop ans data' = (e, n, ans')"
proof (induction ans data arbitrary: e n ans' data' rule: write_loop.induct)
  case (2 v va)
  then show ?case by (auto simp only: write_loop_nil list.size)
next
  case (3 ans v va)
  have "write_loop ans data' = (e, n, ans')" using 3(1) [of e n ans' data'] 3(2,3) by simp
  then show ?case using 3(3) by (cases data') simp_all
next
  case (4 x ans v va)
  then show ?case by (cases data') simp_all
next
  case (5 k ans v va)
  obtain w d where d: "data' = w # d" using 5(3) by (cases data') auto
  have l: "length d = length va" using 5(3) d by simp
  obtain e2 n2 ans2 where r: "write_loop ans (drop (min k (length (v # va))) (v # va)) = (e2, n2, ans2)" by (metis prod_cases3)
  show ?case
  proof (cases "min k (length (v # va)) = 0")
    case True
    then show ?thesis using 5(2) l by (auto simp: d)
  next
    case False
    have "write_loop ans (drop (min k (length (v # va))) (w # d)) = (e2, n2, ans2)"
      by (rule 5(1) [OF refl False r]) (simp add: l)
    then show ?thesis using 5(2) r False by (auto simp: d l Let_def split: if_splits)
  qed
qed simp

text \<open>
  A flush is defined if the system takes nothing, or at least half of the finished bytes. This holds whenever each call takes
  something until all is written, and whenever no call takes anything but the whole.
\<close>

definition flush_defined :: "'a file_appender_scheme \<Rightarrow> os_file \<Rightarrow> bool" where
  "flush_defined a f \<longleftrightarrow> (case write_loop (write_answers f) (replicate (finished_cursor a) 0) of
     (e, n, ans) \<Rightarrow> n = 0 \<or> finished_cursor a \<le> 2 * n)"

definition clean_answers :: "sys_write list \<Rightarrow> bool" where
  "clean_answers ans \<longleftrightarrow> (\<forall>x \<in> set ans. x = Eintr \<or> (\<exists>n > 0. x = Written n)) \<or> (\<forall>x \<in> set ans. x = Eintr \<or> (\<exists>e. x = Sys_error e))"

lemma write_loop_takes:
  "write_loop ans data = (e, n, ans') \<Longrightarrow> \<forall>x \<in> set ans. x = Eintr \<or> (\<exists>n > 0. x = Written n) \<Longrightarrow> n = length data"
proof (induction ans data arbitrary: e n ans' rule: write_loop.induct)
  case (5 k ans v va)
  obtain e2 n2 ans2 where r: "write_loop ans (drop (min k (length (v # va))) (v # va)) = (e2, n2, ans2)" by (metis prod_cases3)
  have k: "0 < k" using 5(3) by simp
  have "n2 = length (drop (min k (length (v # va))) (v # va))" by (rule 5(1) [OF refl _ r]) (use k 5(3) in auto)
  then show ?case using 5(2) r k by (auto simp: Let_def split: if_splits)
qed auto

lemma write_loop_refuses:
  "write_loop ans data = (e, n, ans') \<Longrightarrow> \<forall>x \<in> set ans. x = Eintr \<or> (\<exists>e. x = Sys_error e) \<Longrightarrow> n = 0 \<or> n = length data"
  by (induction ans data arbitrary: e n ans' rule: write_loop.induct) auto

lemma clean_defined: "clean_answers (write_answers f) \<Longrightarrow> flush_defined a f"
proof -
  assume c: "clean_answers (write_answers f)"
  obtain e n ans where w: "write_loop (write_answers f) (replicate (finished_cursor a) 0) = (e, n, ans)" by (metis prod_cases3)
  then have "n = 0 \<or> n = finished_cursor a"
    using c write_loop_takes [OF w] write_loop_refuses [OF w] by (auto simp: clean_answers_def)
  then show ?thesis using w by (auto simp: flush_defined_def)
qed

lemma clean_answers_Nil: "clean_answers []"
  by (simp add: clean_answers_def)

lemma clean_answers_subset: "clean_answers ans \<Longrightarrow> set ans' \<subseteq> set ans \<Longrightarrow> clean_answers ans'"
  unfolding clean_answers_def by blast

lemma flush_defined_iff:
  assumes "write_loop (write_answers f) data = (e, n, ans)" "length data = finished_cursor a"
  shows "flush_defined a f \<longleftrightarrow> n = 0 \<or> finished_cursor a \<le> 2 * n"
  using write_loop_size [OF assms(1), of "replicate (finished_cursor a) 0"] assms(2) by (simp add: flush_defined_def)

lemma move_rest_done:
  assumes "real \<le> need" "need \<le> length c" "real = need \<or> need = length c" "real = 0 \<or> need \<le> 2 * real"
  shows "move_rest need real c = Some (drop real c)"
  using assms by (auto simp: move_rest_def Let_def)

lemma flush_undefined:
  assumes "write_cache_ok a" "afile a = Some f" "\<not> flush_defined a f"
  shows "flush_write_cache open_new a = None"
proof -
  let ?data = "take (finished_cursor a) (cache_write a)"
  obtain e n ans where w: "write_loop (write_answers f) ?data = (e, n, ans)" by (metis prod_cases3)
  have l: "length ?data = finished_cursor a" using assms(1) by (simp add: write_cache_ok_def)
  have "move_rest (finished_cursor a) n (cache_write a) = None"
    using assms(3) flush_defined_iff [OF w l] by (auto simp: move_rest_def)
  moreover have "\<exists>g. platform_write_file ?data f = (e, n, g)" by (simp add: platform_write_file_def w)
  ultimately show ?thesis using assms(2) by (auto simp: flush_write_cache_def Let_def)
qed

text \<open>A flush moves what the system takes from the cache to the file. Bytes that are not finished must not be there when the system takes only a part.\<close>

lemma flush_file:
  assumes ok: "write_cache_ok a" and f: "afile a = Some f" "Sys_error Other_errno \<notin> set (write_answers f)"
    and w: "write_loop (write_answers f) (take (finished_cursor a) (cache_write a)) = (e, n, ans)"
    and whole: "finished_cursor a = length (cache_write a) \<or> n = finished_cursor a" and D: "flush_defined a f"
  obtains es b where
    "flush_write_cache open_new a = Some (a\<lparr>afile := Some (f\<lparr>file_bytes := file_bytes f @ take n (cache_write a),
        file_pos := file_pos f + n, write_answers := ans\<rparr>), cache_write := drop n (cache_write a),
        finished_cursor := finished_cursor a - n, current_file_size := current_file_size a + n, cache_entity_size := es, disk_full_drop := b\<rparr>)"
    "n \<le> finished_cursor a" "b = (if e = Some Enospc then True else if e = None \<and> n = finished_cursor a then False else disk_full_drop a)"
    "cache_write_head_size a + cache_write_padding a + (length (cache_write a) - n) \<le> es"
proof -
  have n: "n \<le> finished_cursor a" using write_loop_bounds [OF w] ok by (auto simp: write_cache_ok_def)
  have e: "e \<noteq> Some Other_errno" using write_loop_bounds [OF w] f(2) by auto
  have pos: "file_pos f = length (file_bytes f)" and len: "finished_cursor a \<le> length (cache_write a)" using ok f(1) by (auto simp: write_cache_ok_def)
  have mv: "move_rest (finished_cursor a) n (cache_write a) = Some (drop n (cache_write a))"
    using n whole len D flush_defined_iff [OF w] by (intro move_rest_done) auto
  have tk: "take n (take (finished_cursor a) (cache_write a)) = take n (cache_write a)" using n by (simp add: min_absorb1)
  define es where "es = (if cache_entity_size a > write_cache_target_size a
      \<and> cache_write_head_size a + cache_write_padding a + (length (cache_write a) - n) \<le> cache_read_default_size div 2
      then write_cache_target_size a else cache_entity_size a)"
  have es: "cache_write_head_size a + cache_write_padding a + (length (cache_write a) - n) \<le> es"
    using ok by (auto simp: es_def write_cache_ok_def get_total_used_write_cache_size_def)
  have eo: "e \<noteq> None \<and> e \<noteq> Some Enospc \<longleftrightarrow> False" using e by (cases e) (auto intro: errno.exhaust)
  define a1 where "a1 = a\<lparr>afile := Some (f\<lparr>file_bytes := file_bytes f @ take n (cache_write a), file_pos := file_pos f + n, write_answers := ans\<rparr>),
      cache_write := drop n (cache_write a), finished_cursor := finished_cursor a - n, current_file_size := current_file_size a + n\<rparr>"
  have used: "get_total_used_write_cache_size a1 = cache_write_head_size a + cache_write_padding a + (length (cache_write a) - n)"
    "cache_entity_size a1 = cache_entity_size a" "write_cache_target_size a1 = write_cache_target_size a" "disk_full_drop a1 = disk_full_drop a"
    by (simp_all add: a1_def get_total_used_write_cache_size_def)
  have r1: "(if cache_entity_size a1 > write_cache_target_size a1 \<and> get_total_used_write_cache_size a1 \<le> cache_read_default_size div 2
      then resize_cache_write_entity (write_cache_target_size a1) a1 else Some a1) = Some (a1\<lparr>cache_entity_size := es\<rparr>)"
  proof (cases "cache_entity_size a1 > write_cache_target_size a1 \<and> get_total_used_write_cache_size a1 \<le> cache_read_default_size div 2")
    case True
    then show ?thesis using es by (simp add: es_def resize_cache_write_entity_def used)
  next
    case False
    have "a1 = a1\<lparr>cache_entity_size := cache_entity_size a\<rparr>" by (simp add: a1_def)
    moreover have "es = cache_entity_size a" using False unfolding es_def used by (simp only: if_False)
    ultimately show ?thesis using False by (simp only: if_False)
  qed
  let ?b = "if e = Some Enospc then True else if e = None \<and> n = finished_cursor a then False else disk_full_drop a"
  have "flush_write_cache open_new a = Some (a1\<lparr>cache_entity_size := es, disk_full_drop := ?b\<rparr>)"
    unfolding flush_write_cache_def f(1) option.case platform_write_end [OF pos w] Let_def prod.case mv tk Option.bind.bind_lunit a1_def [symmetric] r1
    by (simp only: eo if_False) (simp add: a1_def)
  from that [OF this [unfolded a1_def] n refl es] show ?thesis .
qed


text \<open>Rounding up does not lose a size below \<open>2 ^ 63\<close>.\<close>

lemma roundup_loop_bits:
  "unat x < 2 ^ k \<Longrightarrow> k = 0 \<or> 2 ^ (k - 1) \<le> unat x \<Longrightarrow> roundup_loop x r = push_bit k r"
proof (induction k arbitrary: x r)
  case 0
  then show ?case by (subst roundup_loop.simps) (simp add: word_greater_zero_iff unat_eq_zero)
next
  case (Suc k)
  have d: "unat (drop_bit 1 x) = unat x div 2" by (rule unat_drop_bit_1)
  have pos: "x > 0" using Suc.prems(2) by (auto simp: word_greater_zero_iff unat_gt_0 [symmetric] simp del: unat_gt_0 intro: gr0I)
  have "roundup_loop (drop_bit 1 x) (push_bit 1 r) = push_bit k (push_bit 1 r)"
  proof (rule Suc.IH)
    show "unat (drop_bit 1 x) < 2 ^ k" using Suc.prems(1) by (simp only: d) simp
    show "k = 0 \<or> 2 ^ (k - 1) \<le> unat (drop_bit 1 x)"
      using Suc.prems(2) by (cases k) (simp_all only: d, auto)
  qed
  then show ?case using pos by (subst roundup_loop.simps) (simp add: push_bit_push_bit)
qed

lemma roundup_pow_of_two_ge:
  assumes "unat (x :: u64) \<le> 2 ^ 63"
  shows "unat x \<le> unat (roundup_pow_of_two x)"
proof (cases "x AND (x - 1) = 0")
  case False
  then have x: "0 < unat x" by (cases "x = 0") (auto simp: unat_gt_0)
  obtain k where k: "2 ^ k \<le> unat x" "unat x < 2 ^ Suc k" using ex_power_ivl1 [of 2 "unat x"] x by auto
  have "unat x \<noteq> 2 ^ 63"
  proof
    assume "unat x = 2 ^ 63"
    then have "x = 2 ^ 63" by (simp add: word_unat_eq_iff)
    then show False using False by simp
  qed
  then have "unat x < 2 ^ 63" using assms by simp
  then have "k < 63" using k(1) by (metis le_less_trans nat_power_less_imp_less zero_less_numeral)
  have "roundup_loop x 1 = push_bit (Suc k) 1" by (rule roundup_loop_bits) (use k in auto)
  moreover have "(2 :: nat) ^ Suc k < 2 ^ 64" using \<open>k < 63\<close> by (intro power_strict_increasing) auto
  then have "unat (push_bit (Suc k) (1 :: u64)) = 2 ^ Suc k"
    by (subst unsigned_push_bit_eq) (simp add: take_bit_push_bit push_bit_eq_mult take_bit_nat_eq_self)
  ultimately show ?thesis using False k(2) by (simp add: roundup_pow_of_two_def)
qed (simp add: roundup_pow_of_two_def)

text \<open>The padding changes the memory only.\<close>

lemma set_padding:
  assumes "write_cache_ok a"
  obtains es where "set_cache_write_padding q a = Some (a\<lparr>cache_entity_size := es, cache_write_padding := q\<rparr>)"
    "cache_write_head_size a + q + length (cache_write a) \<le> es"
proof -
  have "\<exists>es. set_cache_write_padding q a = Some (a\<lparr>cache_entity_size := es, cache_write_padding := q\<rparr>)
      \<and> cache_write_head_size a + q + length (cache_write a) \<le> es"
  proof (cases "cache_write_padding a = q")
    case True
    then have "a = a\<lparr>cache_entity_size := cache_entity_size a, cache_write_padding := q\<rparr>" by simp
    then show ?thesis using assms True
      by (intro exI [of _ "cache_entity_size a"]) (simp add: set_cache_write_padding_def write_cache_ok_def get_total_used_write_cache_size_def)
  next
    case False
    have keep: "a = a\<lparr>cache_entity_size := cache_entity_size a\<rparr>" by simp
    let ?u = "cache_write_head_size a + cache_write_padding a + length (cache_write a) + q - cache_write_padding a"
    have u: "?u = cache_write_head_size a + q + length (cache_write a)" by simp
    have used: "cache_write_head_size a + cache_write_padding a + length (cache_write a) \<le> cache_entity_size a"
      using assms by (simp add: write_cache_ok_def get_total_used_write_cache_size_def)
    show ?thesis
    proof (cases "q > cache_write_padding a \<and> ?u > cache_entity_size a")
      case True
      then have c: "cache_write_padding a \<noteq> q" "q > cache_write_padding a" "?u > cache_entity_size a"
        "cache_write_head_size a + cache_write_padding a + length (cache_write a) \<le> ?u" by auto
      then have "set_cache_write_padding q a = Some (a\<lparr>cache_entity_size := ?u, cache_write_padding := q\<rparr>)"
        unfolding set_cache_write_padding_def resize_cache_write_entity_def Let_def get_total_used_write_cache_size_def
        by (simp only: if_P if_not_P c option.map not_False_eq_True)
      then show ?thesis using u by fastforce
    next
      case ne: False
      have "set_cache_write_padding q a = Some (a\<lparr>cache_write_padding := q\<rparr>)"
        unfolding set_cache_write_padding_def Let_def get_total_used_write_cache_size_def
        using False ne by (cases "q > cache_write_padding a") (simp_all only: if_P if_not_P option.map if_True if_False not_False_eq_True, simp_all)
      moreover have "a\<lparr>cache_write_padding := q\<rparr> = a\<lparr>cache_entity_size := cache_entity_size a, cache_write_padding := q\<rparr>" by simp
      moreover have "cache_write_head_size a + q + length (cache_write a) \<le> cache_entity_size a" using ne used u by linarith
      ultimately show ?thesis by metis
    qed
  qed
  then show ?thesis using that by blast
qed

text \<open>
  A write that the system takes only in part, while the last entry is not finished: the bytes of the unfinished entry overwrite the bytes that still
  have to be written. And one of which it takes less than half.
\<close>

lemma partial_write_loses_bytes: "move_rest 3 2 [1, 2, 3, 4, 5] = Some [4, 5, 3]" "move_rest 3 1 [1, 2, 3, 4, 5] = None"
  by (simp_all add: move_rest_def)

end
