(* ===== verification/Binary_File.thy ===== *)
theory Binary_File
  imports File_Cache Vernam Aes Rsa_Keys Crc_Hash Time_Zone
begin

text \<open>
  The container of binary logs, \<open>src/bq_log/log/appender/appender_file_binary.cpp\<close>, and the raw appender on top of it: a file header, then a chain of
  segments. A segment has a head with the position of the next one, in an encrypted file the keys of the segment, and the payload. The payload is encrypted
  in the write cache right before a flush, and what was not written is decrypted again. The random material of a segment and the opening of
  another file (\<open>open_new_indexed_file_by_name\<close>) are parameters.
\<close>

section \<open>Formats\<close>

datatype appender_format = Raw_format | Compressed_format
datatype encryption_type = Plaintext | Rsa_aes_xor
datatype segment_type = Normal_segment | Recovery_by_appender | Recovery_by_log_buffer

fun format_code :: "appender_format \<Rightarrow> u8" where
  "format_code Raw_format = 1"
| "format_code Compressed_format = 2"

fun enc_code :: "encryption_type \<Rightarrow> u8" where
  "enc_code Plaintext = 1"
| "enc_code Rsa_aes_xor = 2"

fun seg_code :: "segment_type \<Rightarrow> u8" where
  "seg_code Normal_segment = 1"
| "seg_code Recovery_by_appender = 2"
| "seg_code Recovery_by_log_buffer = 3"

definition enc_of_code :: "u8 \<Rightarrow> encryption_type option" where
  "enc_of_code c = (if c = 1 then Some Plaintext else if c = 2 then Some Rsa_aes_xor else None)"

definition seg_of_code :: "u8 \<Rightarrow> segment_type option" where
  "seg_of_code c = (if c = 1 then Some Normal_segment else if c = 2 then Some Recovery_by_appender
     else if c = 3 then Some Recovery_by_log_buffer else None)"

text \<open>The virtual functions of a kind of file: its version and its format.\<close>

record binary_kind =
  binary_format_version :: u32
  kind_format :: appender_format

definition file_header :: "binary_kind \<Rightarrow> u8 list" where
  "file_header k = le_bytes 4 (binary_format_version k) @ [format_code (kind_format k), 0, 0, 0]"

definition segment_head :: "u64 \<Rightarrow> segment_type \<Rightarrow> encryption_type \<Rightarrow> u8 list" where
  "segment_head next_pos ty enc = le_bytes 8 next_pos @ [seg_code ty, enc_code enc, 0, 0]"

definition no_next_segment :: u64 where
  "no_next_segment = - 1"

text \<open>The metadata in front of the first segment's entries. \<open>filler\<close> is what the buffer of the zone holds behind the terminator.\<close>

definition payload_metadata :: "u8 list \<Rightarrow> time_zone \<Rightarrow> nat \<Rightarrow> u8 list" where
  "payload_metadata filler z category_count =
     (let s = takeWhile (\<lambda>b. b \<noteq> 0) (take 31 (map of_char (time_zone_str z)))
      in [2, 2, 7, if use_local_time z then 1 else 0] @ le_bytes 4 (word_of_int (gmt_offset_hours z) :: u32)
         @ le_bytes 4 (word_of_int (gmt_offset_minutes z) :: u32) @ le_bytes 4 (word_of_int (time_zone_diff_to_gmt_ms z) :: u32)
         @ s @ [0] @ take (31 - length s) filler @ le_bytes 4 (of_nat category_count :: u32))"

definition category_bytes :: "u8 list \<Rightarrow> u8 list" where
  "category_bytes name = le_bytes 4 (of_nat (length name) :: u32) @ name"

definition get_xor_key_blob_size :: nat where
  "get_xor_key_blob_size = 32 * 1024"

definition get_encryption_keys_size :: nat where
  "get_encryption_keys_size = 8 + 256 + 16 + get_xor_key_blob_size"

section \<open>State\<close>

record binary_appender = file_appender +
  enc_type :: encryption_type
  rsa_pub_key :: public_key
  rsa_key_fingerprint :: u64
  xor_key_blob :: "u8 list"
  cur_read_start :: u64
  cur_read_end :: u64
  current_file_is_new_created :: bool

record topology =
  has_segment :: bool
  all_segments_are_plaintext :: bool
  has_encrypted_segment :: bool
  topology_fingerprint :: u64
  last_segment_start_pos :: nat

definition no_topology :: topology where
  "no_topology = \<lparr>has_segment = False, all_segments_are_plaintext = True, has_encrypted_segment = False, topology_fingerprint = 0,
     last_segment_start_pos = 0\<rparr>"

text \<open>The fingerprint hashes both numbers with their sizes in front, big-endian.\<close>

definition be_size :: "nat \<Rightarrow> u8 list" where
  "be_size n = rev (le_bytes 4 (of_nat n :: u32))"

definition get_public_key_fingerprint :: "crc_target \<Rightarrow> crc_ops \<Rightarrow> bool \<Rightarrow> public_key \<Rightarrow> u64" where
  "get_public_key_fingerprint t insn crc32_supported k =
     (if pub_n k = [] \<or> pub_e k = [] then 0
      else get_hash_64 t insn crc32_supported (be_size (length (pub_n k)) @ pub_n k @ be_size (length (pub_e k)) @ pub_e k))"

text \<open>The part of \<open>init_impl\<close> that sets the encryption: \<open>pub_key\<close> is the text of the key if the configuration has one.\<close>

definition init_encryption :: "crc_target \<Rightarrow> crc_ops \<Rightarrow> bool \<Rightarrow> u8 list option \<Rightarrow> binary_appender \<Rightarrow> bool \<times> binary_appender" where
  "init_encryption t insn crc32_supported pub_key a =
     (case pub_key of
        Some pub_key_str \<Rightarrow>
          (case parse_public_key_ssh pub_key_str of
             Rsa_ok k \<Rightarrow> (True, a\<lparr>enc_type := Rsa_aes_xor, rsa_pub_key := k, rsa_key_fingerprint := get_public_key_fingerprint t insn crc32_supported k\<rparr>)
           | _ \<Rightarrow> (False, a\<lparr>enc_type := Rsa_aes_xor\<rparr>))
      | None \<Rightarrow> (True, a\<lparr>enc_type := Plaintext, rsa_pub_key := \<lparr>pub_n = [], pub_e = []\<rparr>, rsa_key_fingerprint := 0\<rparr>))"

definition invalid_file :: "binary_appender \<Rightarrow> binary_appender" where
  "invalid_file a = a\<lparr>afile := None\<rparr>"

section \<open>The chain of segments\<close>

text \<open>The fields of a segment head: next position, type, encryption.\<close>

definition parse_segment_head :: "u8 list \<Rightarrow> (u64 \<times> segment_type \<times> encryption_type) option" where
  "parse_segment_head h =
     (case (enc_of_code (h ! 9), seg_of_code (h ! 8)) of
        (Some enc, Some ty) \<Rightarrow> Some (le_word (take 8 h), ty, enc)
      | _ \<Rightarrow> None)"

text \<open>The keys of an encrypted segment: the fingerprint must be the same in all of them.\<close>

definition scan_keys :: "nat \<Rightarrow> nat \<Rightarrow> topology \<Rightarrow> binary_appender \<Rightarrow> (nat \<times> topology) option \<times> binary_appender" where
  "scan_keys file_size min_next result a =
     (if file_size - min_next < get_encryption_keys_size then (None, a)
      else (case read_with_cache 8 a of
              (bs, a) \<Rightarrow>
                if length bs \<noteq> 8 then (None, a)
                else if \<not> has_encrypted_segment result
                then (Some (min_next + get_encryption_keys_size, result\<lparr>has_encrypted_segment := True, topology_fingerprint := le_word bs\<rparr>), a)
                else if topology_fingerprint result \<noteq> le_word bs then (None, a)
                else (Some (min_next + get_encryption_keys_size, result), a)))"

lemma scan_keys_min: "(Some (n, r), a') = scan_keys file_size m result a \<Longrightarrow> m \<le> n"
  by (auto simp: scan_keys_def split: if_splits prod.splits)

function scan_loop :: "nat \<Rightarrow> nat \<Rightarrow> topology \<Rightarrow> binary_appender \<Rightarrow> topology option \<times> binary_appender" where
  "scan_loop file_size start result a =
     (if start > file_size \<or> file_size - start < 12 then (None, a)
      else (case seek_read_file_absolute start a of
              None \<Rightarrow> (None, a)
            | Some a \<Rightarrow>
                (case read_with_cache 12 a of
                   (h, a) \<Rightarrow>
                     if length h \<noteq> 12 then (None, a)
                     else (case parse_segment_head h of
                             None \<Rightarrow> (None, a)
                           | Some (next_seg_pos, ty, enc) \<Rightarrow>
                               (case (if enc = Rsa_aes_xor then scan_keys file_size (start + 12) result a else (Some (start + 12, result), a)) of
                                  (None, a) \<Rightarrow> (None, a)
                                | (Some (min_next, result), a) \<Rightarrow>
                                    (let result = result\<lparr>has_segment := True, last_segment_start_pos := start,
                                           all_segments_are_plaintext := all_segments_are_plaintext result \<and> enc = Plaintext\<rparr>
                                     in if next_seg_pos = no_next_segment then (if file_size \<ge> min_next then (Some result, a) else (None, a))
                                        else if unat next_seg_pos < min_next \<or> unat next_seg_pos > file_size
                                                \<or> file_size - unat next_seg_pos < 12
                                        then (None, a)
                                        else scan_loop file_size (unat next_seg_pos) result a))))))"
  by pat_completeness auto
termination
  by (relation "measure (\<lambda>(file_size, start, _, _). file_size - start)") (auto split: if_splits dest!: scan_keys_min)

declare scan_loop.simps [simp del]

definition scan_segment_topology :: "binary_kind \<Rightarrow> binary_appender \<Rightarrow> topology option \<times> binary_appender" where
  "scan_segment_topology k a =
     (if afile a = None then (None, a)
      else (let file_size = current_file_size a
            in if file_size < 8 then (None, a)
               else (case seek_read_file_absolute 0 a of
                       None \<Rightarrow> (None, a)
                     | Some a \<Rightarrow>
                         (case read_with_cache 8 a of
                            (h, a) \<Rightarrow>
                              if length h \<noteq> 8 then (None, a)
                              else if le_word (take 4 h) \<noteq> binary_format_version k \<or> h ! 4 \<noteq> format_code (kind_format k) then (None, a)
                              else if file_size = 8 then (Some no_topology, a)
                              else scan_loop file_size 8 no_topology a))))"

section \<open>Padding and flush\<close>

text \<open>The cipher wants a buffer aligned like its position in the key stream.\<close>

definition update_write_cache_padding :: "binary_appender \<Rightarrow> binary_appender option" where
  "update_write_cache_padding a =
     (if enc_type a \<noteq> Rsa_aes_xor \<or> xor_key_blob a = [] then set_cache_write_padding 0 a
      else (let target_align = (current_file_size a AND (length (xor_key_blob a) - 1)) AND 31;
                current_align = cache_write_head_size a AND 31
            in set_cache_write_padding ((target_align + 32 - current_align) AND 31) a))"

text \<open>The cipher on the finished part of the cache. The address of the memory is a multiple of 64, so the head and the padding give the alignment.\<close>

definition crypt_cache :: "platform \<Rightarrow> binary_appender \<Rightarrow> binary_appender option" where
  "crypt_cache p a =
     map_option (\<lambda>c. a\<lparr>cache_write := c @ drop (finished_cursor a) (cache_write a)\<rparr>)
       (vernam_encrypt_32bytes_aligned p (take (finished_cursor a) (cache_write a)) (cache_write_head_size a + cache_write_padding a)
          (xor_key_blob a) (current_file_size a))"

definition flush_binary :: "platform \<Rightarrow> (binary_appender \<Rightarrow> binary_appender option) \<Rightarrow> binary_appender \<Rightarrow> binary_appender option" where
  "flush_binary p open_new a =
     (if enc_type a \<noteq> Rsa_aes_xor \<or> xor_key_blob a = [] \<or> finished_cursor a = 0 then flush_write_cache open_new a
      else Option.bind (crypt_cache p a) (\<lambda>a.
           Option.bind (flush_write_cache open_new a) (\<lambda>a.
           Option.bind (update_write_cache_padding a) (\<lambda>a.
             if enc_type a = Rsa_aes_xor \<and> finished_cursor a > 0 then crypt_cache p a else Some a))))"

section \<open>New segments\<close>

text \<open>What a new segment takes from the random generators; \<open>fresh_byte\<close> replaces a zero in front of the key.\<close>

record segment_secrets =
  fresh_aes_key :: "u8 list"
  fresh_byte :: u8
  fresh_iv :: "u8 list"
  fresh_blob :: "u8 list"

definition segment_aes_key :: "segment_secrets \<Rightarrow> u8 list" where
  "segment_aes_key s = (if fresh_aes_key s ! 0 = 0 then (fresh_aes_key s)[0 := fresh_byte s] else fresh_aes_key s)"

text \<open>The key under RSA, the initialisation vector, and the stream key under AES.\<close>

definition make_segment_keys :: "public_key \<Rightarrow> segment_secrets \<Rightarrow> (u8 list \<times> u8 list \<times> u8 list) option" where
  "make_segment_keys pub s =
     (if length (fresh_aes_key s) \<noteq> key_size AES_256 then None
      else if length (fresh_iv s) \<noteq> iv_size then None
      else (case rsa_encrypt pub (segment_aes_key s) of
              Rsa_ok c \<Rightarrow>
                if length c \<noteq> length (pub_n pub) then None
                else (case aes_encrypt AES_256 (segment_aes_key s) (fresh_iv s) (fresh_blob s) (replicate (length (fresh_blob s)) 0) of
                        (ok, blob) \<Rightarrow> if ok then Some (c, fresh_iv s, blob) else None)
            | _ \<Rightarrow> None))"

fun write_pieces :: "u8 list list \<Rightarrow> binary_appender \<Rightarrow> bool \<times> binary_appender" where
  "write_pieces [] a = (True, a)"
| "write_pieces (d # ds) a =
     (case direct_write d Seek_current 0 a of (n, a) \<Rightarrow> if n \<noteq> length d then (False, a) else write_pieces ds a)"

text \<open>The file is cut, the size the appender remembers is not.\<close>

definition truncate_appender :: "nat \<Rightarrow> binary_appender \<Rightarrow> binary_appender" where
  "truncate_appender n a = a\<lparr>afile := map_option (\<lambda>f. (truncate_file n f)\<lparr>file_pos := n\<rparr>) (afile a)\<rparr>"

definition append_new_segment :: "binary_kind \<Rightarrow> segment_secrets \<Rightarrow> segment_type \<Rightarrow> binary_appender \<Rightarrow> (bool \<times> binary_appender) option" where
  "append_new_segment k secrets ty a =
     (case scan_segment_topology k (clear_read_cache a) of
        (None, a) \<Rightarrow> Some (False, a)
      | (Some topology, a) \<Rightarrow>
          if \<not> has_segment topology \<and> \<not> current_file_is_new_created a then Some (False, a)
          else if enc_type a = Rsa_aes_xor \<and> has_encrypted_segment topology \<and> topology_fingerprint topology \<noteq> rsa_key_fingerprint a
          then Some (False, a)
          else (case (if enc_type a = Rsa_aes_xor then make_segment_keys (rsa_pub_key a) secrets else Some ([], [], [])) of
                  None \<Rightarrow> Some (False, a)
                | Some (key, iv, blob) \<Rightarrow>
                    (let new_seg_start_pos = current_file_size a;
                         (n, a) = direct_write (segment_head no_next_segment ty (enc_type a)) Seek_end 0 a
                     in if n \<noteq> 12 then Some (False, truncate_appender new_seg_start_pos a)
                        else (case (if enc_type a = Rsa_aes_xor then write_pieces [le_bytes 8 (rsa_key_fingerprint a), key, iv, blob] a
                                    else (True, a)) of
                                (False, a) \<Rightarrow> Some (False, truncate_appender new_seg_start_pos a)
                              | (True, a) \<Rightarrow>
                                  (case (if has_segment topology
                                         then direct_write (le_bytes 8 (of_nat new_seg_start_pos :: u64)) Seek_begin (int (last_segment_start_pos topology)) a
                                         else (8, a)) of
                                     (n, a) \<Rightarrow>
                                       if n \<noteq> 8 then Some (False, truncate_appender new_seg_start_pos a)
                                       else map_option (Pair True)
                                              (update_write_cache_padding (a\<lparr>xor_key_blob := if enc_type a = Rsa_aes_xor then fresh_blob secrets else []\<rparr>)))))))"

section \<open>Opening a file\<close>

fun write_categories :: "(binary_appender \<Rightarrow> binary_appender option) \<Rightarrow> u8 list list \<Rightarrow> binary_appender \<Rightarrow> binary_appender option" where
  "write_categories flush [] a = Some a"
| "write_categories flush (c # cs) a = Option.bind (write_bytes flush (category_bytes c) a) (write_categories flush cs)"

text \<open>\<open>on_file_open\<close> of the binary appender. An encrypted file is never continued.\<close>

definition on_file_open ::
    "platform \<Rightarrow> (binary_appender \<Rightarrow> binary_appender option) \<Rightarrow> binary_kind \<Rightarrow> segment_secrets \<Rightarrow> u8 list \<Rightarrow> time_zone \<Rightarrow> u8 list list \<Rightarrow>
     bool \<Rightarrow> binary_appender \<Rightarrow> binary_appender option" where
  "on_file_open p open_new k secrets filler z categories is_new_created a =
     (let a = a\<lparr>current_file_is_new_created := is_new_created\<rparr>
      in if enc_type a = Rsa_aes_xor \<and> \<not> is_new_created then Some (invalid_file a)
         else (let a = a\<lparr>xor_key_blob := if enc_type a = Rsa_aes_xor then [] else xor_key_blob a,
                         cur_read_start := 8, cur_read_end := of_nat (current_file_size a)\<rparr>
               in if \<not> is_new_created then Some a
                  else (case direct_write (file_header k) Seek_end 0 a of
                          (n, a) \<Rightarrow>
                            if n \<noteq> 8 then Some (invalid_file a)
                            else Option.bind (append_new_segment k secrets Normal_segment a) (\<lambda>(ok, a).
                                   if \<not> ok then Some (invalid_file a)
                                   else Option.bind (write_bytes (flush_binary p open_new) (payload_metadata filler z (length categories)) a) (\<lambda>a.
                                        Option.bind (write_categories (flush_binary p open_new) categories a) (\<lambda>a.
                                          flush_binary p open_new (mark_write_finished a)))))))"

section \<open>Entries\<close>

text \<open>The first entry of this run: what an earlier run left in the cache is flushed, then a new segment begins.\<close>

definition on_log_item_new_begin ::
    "platform \<Rightarrow> (binary_appender \<Rightarrow> binary_appender option) \<Rightarrow> binary_kind \<Rightarrow> segment_secrets \<Rightarrow> u64 \<Rightarrow> binary_appender \<Rightarrow>
     (bool \<times> binary_appender) option" where
  "on_log_item_new_begin p open_new k secrets epoch a =
     Option.bind (flush_binary p open_new a) (\<lambda>a.
     Option.bind (refresh_file_handle open_new (flush_binary p open_new) epoch a) (\<lambda>(ok, a).
       if \<not> ok then Some (False, a)
       else map_option (\<lambda>(ok, a). if ok then (True, a) else (False, invalid_file a)) (append_new_segment k secrets Normal_segment a)))"

text \<open>The first entry recovered from the log buffer of an earlier run. Only a file of this run or one without encryption is continued.\<close>

definition on_log_item_recovery_begin ::
    "platform \<Rightarrow> (binary_appender \<Rightarrow> binary_appender option) \<Rightarrow> binary_kind \<Rightarrow> segment_secrets \<Rightarrow> segment_secrets \<Rightarrow> u64 \<Rightarrow> binary_appender \<Rightarrow>
     (bool \<times> binary_appender) option" where
  "on_log_item_recovery_begin p open_new k secrets secrets' epoch a =
     Option.bind (flush_binary p open_new a) (\<lambda>a.
     Option.bind (refresh_file_handle open_new (flush_binary p open_new) epoch a) (\<lambda>(ok, a).
       if \<not> ok then Some (False, a)
       else (let (can_append_to_original, a) =
                   (if \<not> current_file_is_new_created a \<and> enc_type a = Plaintext
                    then (case scan_segment_topology k a of
                            (None, a) \<Rightarrow> (False, a)
                          | (Some t, a) \<Rightarrow> (has_segment t \<and> all_segments_are_plaintext t, a))
                    else (False, a))
             in Option.bind (if current_file_is_new_created a \<or> can_append_to_original
                             then append_new_segment k secrets Recovery_by_log_buffer a else Some (False, a)) (\<lambda>(ok, a).
                  if ok then Some (True, a)
                  else if current_file_is_new_created a then Some (False, invalid_file a)
                  else Option.bind (open_new a) (\<lambda>a.
                         if afile a = None then Some (False, invalid_file a)
                         else map_option (\<lambda>(ok, a). if ok then (True, a) else (False, invalid_file a))
                                (append_new_segment k secrets' Recovery_by_log_buffer a))))))"

text \<open>The raw appender writes the size of an entry and its bytes.\<close>

definition raw_item :: "u8 list \<Rightarrow> u8 list" where
  "raw_item e = le_bytes 4 (of_nat (length e) :: u32) @ e"

definition raw_log_impl ::
    "platform \<Rightarrow> (binary_appender \<Rightarrow> binary_appender option) \<Rightarrow> u64 \<Rightarrow> u8 list \<Rightarrow> binary_appender \<Rightarrow> (bool \<times> binary_appender) option" where
  "raw_log_impl p open_new epoch e a =
     Option.bind (file_log_impl open_new (flush_binary p open_new) epoch a) (\<lambda>(ok, a).
       if \<not> ok then Some (False, a)
       else map_option (\<lambda>a. (True, mark_write_finished a)) (write_bytes (flush_binary p open_new) (raw_item e) a))"

end
