(* ===== verification/Binary_Stream.thy ===== *)
theory Binary_Stream
  imports Binary_File "HOL-Library.Sublist"
begin

text \<open>
  The laws of the binary appender. \<open>seg_crypt\<close> is the cipher of a segment, an instance of the locale \<open>stream_cipher\<close>. The padding of the
  cache keeps its address aligned like the position in the file, which the vectorised cipher needs; \<open>flush_binary_spec\<close> is the effect of a flush whatever part of
  the bytes the disk takes, unless it takes less than half, which makes the flush copy between overlapping ranges; the stream of decrypted bytes
  is kept by every event.
\<close>

section \<open>The bytes of a segment\<close>

text \<open>The payload at position \<open>off\<close> of the file, and the state in which the cipher and the file agree.\<close>

definition seg_crypt :: "encryption_type \<Rightarrow> u8 list \<Rightarrow> nat \<Rightarrow> u8 list \<Rightarrow> u8 list" where
  "seg_crypt enc blob off bs = (if enc = Rsa_aes_xor then key_stream_xor blob off bs else bs)"

interpretation seg_cipher: stream_cipher "seg_crypt enc blob" for enc blob
  by unfold_locales (simp_all add: seg_crypt_def vernam.crypt_append vernam.crypt_involution)

definition bin_ok :: "binary_appender \<Rightarrow> bool" where
  "bin_ok a \<longleftrightarrow> write_cache_ok a \<and> afile a \<noteq> None \<and> cache_write_padding a < 32 \<and> cache_write_head_size a \<le> 2 ^ 16
     \<and> (enc_type a = Rsa_aes_xor \<longrightarrow> length (xor_key_blob a) = get_xor_key_blob_size
          \<and> (cache_write_head_size a + cache_write_padding a) mod 32 = current_file_size a mod 32)"

definition same_segment :: "binary_appender \<Rightarrow> binary_appender \<Rightarrow> bool" where
  "same_segment a a' \<longleftrightarrow> enc_type a' = enc_type a \<and> xor_key_blob a' = xor_key_blob a \<and> rsa_pub_key a' = rsa_pub_key a
     \<and> rsa_key_fingerprint a' = rsa_key_fingerprint a \<and> current_file_is_new_created a' = current_file_is_new_created a
     \<and> max_file_size a' = max_file_size a \<and> enable_rolling_log_file a' = enable_rolling_log_file a
     \<and> current_file_expire_time a' = current_file_expire_time a"

lemma same_segment_trans: "same_segment a b \<Longrightarrow> same_segment b c \<Longrightarrow> same_segment a c"
  by (simp add: same_segment_def)

lemma blob_size_pow2: "pow2 get_xor_key_blob_size" "32 \<le> get_xor_key_blob_size"
  unfolding pow2_def get_xor_key_blob_size_def by (rule exI [of _ 15], simp_all)

lemma vernam_blob:
  assumes "length key = get_xor_key_blob_size" "addr mod 32 = off mod 32"
  shows "vernam_encrypt_32bytes_aligned p buf addr key off = Some (key_stream_xor key off buf)"
  using vernam_all_eq [of key addr off buf] assms blob_size_pow2 by (cases p) auto

lemma and_31: "(x :: nat) AND 31 = x mod 32"
  using nat_and_mask [of x 5] by simp

lemma and_blob: "length blob = get_xor_key_blob_size \<Longrightarrow> ((x :: nat) AND (length blob - 1)) mod 32 = x mod 32"
  using pow2_and_mask [OF blob_size_pow2(1), of x] by (simp add: mod_mod_cancel get_xor_key_blob_size_def)

lemma pad_to: "(h + (s mod 32 + 32 - h mod 32) mod 32) mod 32 = (s mod 32 :: nat)"
proof -
  define k r where "k = h div 32" and "r = h mod 32"
  then have h: "h = 32 * k + r" "r \<le> 31" by simp_all
  have e: "h + (s mod 32 + 32 - h mod 32) = s mod 32 + 32 * (h div 32 + 1)"
    unfolding k_def [symmetric] r_def [symmetric] using h by simp
  have "(h + (s mod 32 + 32 - h mod 32) mod 32) mod 32 = (h + (s mod 32 + 32 - h mod 32)) mod 32" by (simp only: mod_add_right_eq)
  then show ?thesis unfolding e mod_mult_self2 by simp
qed

lemma update_padding:
  assumes "write_cache_ok a" "enc_type a = Rsa_aes_xor" "length (xor_key_blob a) = get_xor_key_blob_size"
  obtains es q where "update_write_cache_padding a = Some (a\<lparr>cache_entity_size := es, cache_write_padding := q\<rparr>)"
    "cache_write_head_size a + q + length (cache_write a) \<le> es" "(cache_write_head_size a + q) mod 32 = current_file_size a mod 32" "q < 32"
proof -
  define q where "q = (current_file_size a mod 32 + 32 - cache_write_head_size a mod 32) mod 32"
  have "xor_key_blob a \<noteq> []" using assms(3) blob_size_pow2(2) by auto
  then have u: "update_write_cache_padding a = set_cache_write_padding q a"
    unfolding update_write_cache_padding_def Let_def and_31 and_blob [OF assms(3)] q_def using assms(2) by (simp only: not_True_eq_False simp_thms if_False)
  have "(cache_write_head_size a + q) mod 32 = current_file_size a mod 32"
    unfolding q_def by (rule pad_to)
  moreover have "q < 32" by (simp add: q_def)
  ultimately show ?thesis using set_padding [OF assms(1), of q] that u by metis
qed

lemma crypt_cache_ok:
  assumes "length (xor_key_blob a) = get_xor_key_blob_size" "(cache_write_head_size a + cache_write_padding a) mod 32 = current_file_size a mod 32"
  shows "crypt_cache p a = Some (a\<lparr>cache_write := key_stream_xor (xor_key_blob a) (current_file_size a) (take (finished_cursor a) (cache_write a))
            @ drop (finished_cursor a) (cache_write a)\<rparr>)"
  by (simp add: crypt_cache_def vernam_blob [OF assms])

section \<open>A flush keeps the stream\<close>

lemma write_answers_empty: "write_loop [] data = (e, n, ans) \<Longrightarrow> e = None \<and> n = length data \<and> ans = []"
  by simp

lemma crypt_start: "seg_crypt Rsa_aes_xor blob off bs = key_stream_xor blob off bs" "seg_crypt Plaintext blob off bs = bs"
  by (simp_all add: seg_crypt_def)

lemma flush_binary_core:
  assumes ok: "bin_ok a" and f: "afile a = Some f" "Sys_error Other_errno \<notin> set (write_answers f)"
    and whole: "finished_cursor a = length (cache_write a) \<or> write_answers f = []" and D: "flush_defined a f"
  obtains a' f' n where "flush_binary p open_new a = Some a'" "bin_ok a'" "same_segment a a'" "afile a' = Some f'"
    "file_bytes f' = file_bytes f @ seg_crypt (enc_type a) (xor_key_blob a) (length (file_bytes f)) (take n (cache_write a))"
    "cache_write a' = drop n (cache_write a)" "finished_cursor a' = finished_cursor a - n" "n \<le> finished_cursor a"
    "set (write_answers f') \<subseteq> set (write_answers f)"
    "write_answers f = [] \<Longrightarrow> n = finished_cursor a \<and> write_answers f' = [] \<and> \<not> disk_full_drop a'"
proof -
  have cok: "write_cache_ok a" and pos: "file_pos f = length (file_bytes f)" "current_file_size a = length (file_bytes f)"
    and len: "finished_cursor a \<le> length (cache_write a)"
    using ok f(1) by (auto simp: bin_ok_def write_cache_ok_def)
  show ?thesis
  proof (cases "enc_type a \<noteq> Rsa_aes_xor \<or> xor_key_blob a = [] \<or> finished_cursor a = 0")
    case True
    obtain e n ans where w: "write_loop (write_answers f) (take (finished_cursor a) (cache_write a)) = (e, n, ans)" by (metis prod_cases3)
    have n: "write_answers f = [] \<Longrightarrow> e = None \<and> n = finished_cursor a \<and> ans = []" using w len by (auto simp: min_absorb2)
    have "finished_cursor a = length (cache_write a) \<or> n = finished_cursor a" using whole n by blast
    from flush_file [OF cok f w this D, of open_new] obtain es b where
      r: "flush_write_cache open_new a = Some (a\<lparr>afile := Some (f\<lparr>file_bytes := file_bytes f @ take n (cache_write a),
        file_pos := file_pos f + n, write_answers := ans\<rparr>), cache_write := drop n (cache_write a),
        finished_cursor := finished_cursor a - n, current_file_size := current_file_size a + n, cache_entity_size := es, disk_full_drop := b\<rparr>)"
      "n \<le> finished_cursor a" "b = (if e = Some Enospc then True else if e = None \<and> n = finished_cursor a then False else disk_full_drop a)"
      "cache_write_head_size a + cache_write_padding a + (length (cache_write a) - n) \<le> es" by blast
    let ?f = "f\<lparr>file_bytes := file_bytes f @ take n (cache_write a), file_pos := file_pos f + n, write_answers := ans\<rparr>"
    let ?a = "a\<lparr>afile := Some ?f, cache_write := drop n (cache_write a), finished_cursor := finished_cursor a - n,
        current_file_size := current_file_size a + n, cache_entity_size := es, disk_full_drop := b\<rparr>"
    have nl: "n \<le> length (cache_write a)" using r(2) len by simp
    have n0: "enc_type a = Rsa_aes_xor \<Longrightarrow> n = 0"
      using True r(2) ok blob_size_pow2(2) by (auto simp: bin_ok_def)
    have "flush_binary p open_new a = Some ?a" using True r(1) by (simp only: flush_binary_def if_True)
    moreover have "bin_ok ?a"
      using ok r(4) len pos nl n0 by (auto simp: bin_ok_def write_cache_ok_def get_total_used_write_cache_size_def)
    moreover have "same_segment a ?a" by (simp add: same_segment_def)
    moreover have "file_bytes ?f = file_bytes f @ seg_crypt (enc_type a) (xor_key_blob a) (length (file_bytes f)) (take n (cache_write a))"
      using n0 by (cases "enc_type a") (simp_all add: crypt_start)
    moreover have "set (write_answers ?f) \<subseteq> set (write_answers f)" using write_loop_bounds [OF w] by simp
    moreover have "write_answers f = [] \<Longrightarrow> n = finished_cursor a \<and> write_answers ?f = [] \<and> \<not> disk_full_drop ?a"
      using n r(3) by simp
    ultimately show ?thesis using r(2) by (intro that [of ?a ?f n]) simp_all
  next
    case False
    then have enc: "enc_type a = Rsa_aes_xor" and fin: "finished_cursor a > 0" by auto
    have blob: "length (xor_key_blob a) = get_xor_key_blob_size"
      and al: "(cache_write_head_size a + cache_write_padding a) mod 32 = current_file_size a mod 32" using ok enc by (auto simp: bin_ok_def)
    let ?s = "length (file_bytes f)" and ?key = "xor_key_blob a" and ?m = "finished_cursor a"
    define c1 where "c1 = key_stream_xor ?key ?s (take ?m (cache_write a)) @ drop ?m (cache_write a)"
    define a1 where "a1 = a\<lparr>cache_write := c1\<rparr>"
    have c1: "length c1 = length (cache_write a)" "take ?m c1 = key_stream_xor ?key ?s (take ?m (cache_write a))"
      using len by (simp_all add: c1_def min_absorb2)
    have cr: "crypt_cache p a = Some a1" by (simp only: crypt_cache_ok [OF blob al] a1_def c1_def pos(2))
    have ok1: "write_cache_ok a1" using cok c1(1) by (simp add: a1_def write_cache_ok_def get_total_used_write_cache_size_def)
    obtain e n ans where w: "write_loop (write_answers f) (take (finished_cursor a1) (cache_write a1)) = (e, n, ans)" by (metis prod_cases3)
    have n: "write_answers f = [] \<Longrightarrow> e = None \<and> n = ?m \<and> ans = []" using w len c1(1) by (auto simp: a1_def min_absorb2)
    have "finished_cursor a1 = length (cache_write a1) \<or> n = finished_cursor a1" using whole n c1(1) by (auto simp: a1_def)
    moreover have "flush_defined a1 f" using D by (simp add: a1_def flush_defined_def)
    moreover have "afile a1 = Some f" using f(1) by (simp add: a1_def)
    ultimately obtain es b where
      r: "flush_write_cache open_new a1 = Some (a1\<lparr>afile := Some (f\<lparr>file_bytes := file_bytes f @ take n (cache_write a1),
        file_pos := file_pos f + n, write_answers := ans\<rparr>), cache_write := drop n (cache_write a1),
        finished_cursor := finished_cursor a1 - n, current_file_size := current_file_size a1 + n, cache_entity_size := es, disk_full_drop := b\<rparr>)"
      "n \<le> finished_cursor a1" "b = (if e = Some Enospc then True else if e = None \<and> n = finished_cursor a1 then False else disk_full_drop a1)"
      "cache_write_head_size a1 + cache_write_padding a1 + (length (cache_write a1) - n) \<le> es"
      using flush_file [OF ok1 _ f(2) w, of open_new] by metis
    have nm: "n \<le> ?m" using r(2) by (simp add: a1_def)
    define f2 where "f2 = f\<lparr>file_bytes := file_bytes f @ take n c1, file_pos := file_pos f + n, write_answers := ans\<rparr>"
    define a2 where "a2 = a\<lparr>afile := Some f2, cache_write := drop n c1, finished_cursor := ?m - n, current_file_size := ?s + n,
        cache_entity_size := es, disk_full_drop := b\<rparr>"
    have fl: "flush_write_cache open_new a1 = Some a2" using r(1) by (simp add: a1_def a2_def f2_def pos(2))
    have ok2: "write_cache_ok a2"
      using cok r(4) nm c1(1) len pos by (auto simp: a2_def a1_def f2_def write_cache_ok_def get_total_used_write_cache_size_def)
    obtain es' q where u: "update_write_cache_padding a2 = Some (a2\<lparr>cache_entity_size := es', cache_write_padding := q\<rparr>)"
      "cache_write_head_size a2 + q + length (cache_write a2) \<le> es'" "(cache_write_head_size a2 + q) mod 32 = current_file_size a2 mod 32"
      "q < 32"
    proof -
      have "enc_type a2 = Rsa_aes_xor" "length (xor_key_blob a2) = get_xor_key_blob_size" using enc blob by (simp_all add: a2_def)
      from update_padding [OF ok2 this] that show ?thesis by metis
    qed
    define a3 where "a3 = a2\<lparr>cache_entity_size := es', cache_write_padding := q\<rparr>"
    have undone: "key_stream_xor ?key (?s + n) (take (?m - n) (drop n c1)) @ drop (?m - n) (drop n c1) = drop n (cache_write a)"
    proof -
      have "take (?m - n) (drop n c1) = drop n (take ?m c1)" by (simp add: drop_take)
      also have "\<dots> = key_stream_xor ?key (?s + n) (drop n (take ?m (cache_write a)))" by (simp only: c1(2) vernam.crypt_drop)
      finally have "key_stream_xor ?key (?s + n) (take (?m - n) (drop n c1)) = drop n (take ?m (cache_write a))"
        by (simp only: vernam.crypt_involution)
      moreover have "drop (?m - n) (drop n c1) = drop ?m (cache_write a)" using nm len by (simp add: c1_def)
      ultimately show ?thesis using nm len
        by (simp add: drop_take) (metis append_take_drop_id drop_drop le_add_diff_inverse2)
    qed
    define a4 where "a4 = a3\<lparr>cache_write := drop n (cache_write a)\<rparr>"
    have last: "(if enc_type a3 = Rsa_aes_xor \<and> finished_cursor a3 > 0 then crypt_cache p a3 else Some a3) = Some a4"
    proof (cases "finished_cursor a3 > 0")
      case True
      have "crypt_cache p a3 = Some a4"
        using crypt_cache_ok [of a3 p] blob u(3) undone by (simp add: a4_def a3_def a2_def)
      then show ?thesis using True enc by (simp add: a3_def a2_def)
    next
      case False
      then have "drop n c1 = drop n (cache_write a)" using undone by (simp add: a3_def a2_def)
      then have "a3 = a4" by (simp add: a4_def a3_def a2_def)
      then show ?thesis using False by simp
    qed
    have "flush_binary p open_new a = Some a4"
      using False by (simp only: flush_binary_def if_False cr fl u(1) a3_def [symmetric] Option.bind.bind_lunit last)
    moreover have "cache_write_head_size a \<le> 2 ^ 16" using ok by (simp add: bin_ok_def)
    then have "bin_ok a4"
      using ok2 u enc blob c1(1) len nm by (auto simp: bin_ok_def a4_def a3_def a2_def write_cache_ok_def get_total_used_write_cache_size_def)
    moreover have "same_segment a a4" by (simp add: same_segment_def a4_def a3_def a2_def)
    moreover have "take n c1 = key_stream_xor ?key ?s (take n (cache_write a))"
      using nm c1(2) by (metis min.absorb1 take_take vernam.crypt_take)
    then have "file_bytes f2 = file_bytes f @ seg_crypt (enc_type a) ?key ?s (take n (cache_write a))"
      using enc by (simp add: f2_def crypt_start)
    moreover have "set (write_answers f2) \<subseteq> set (write_answers f)" using write_loop_bounds [OF w] by (simp add: f2_def)
    moreover have "write_answers f = [] \<Longrightarrow> n = ?m \<and> write_answers f2 = [] \<and> \<not> disk_full_drop a4"
      using n r(3) by (simp add: f2_def a4_def a3_def a2_def a1_def)
    ultimately show ?thesis using nm by (intro that [of a4 f2 n]) (simp_all add: a4_def a3_def a2_def)
  qed
qed

lemma flush_binary_undefined:
  assumes ok: "bin_ok a" and f: "afile a = Some f" "\<not> flush_defined a f"
  shows "flush_binary p open_new a = None"
proof -
  have cok: "write_cache_ok a" using ok by (simp add: bin_ok_def)
  show ?thesis
  proof (cases "enc_type a \<noteq> Rsa_aes_xor \<or> xor_key_blob a = [] \<or> finished_cursor a = 0")
    case True
    then show ?thesis using flush_undefined [OF cok f, of open_new] by (simp add: flush_binary_def)
  next
    case False
    then have blob: "length (xor_key_blob a) = get_xor_key_blob_size"
      and al: "(cache_write_head_size a + cache_write_padding a) mod 32 = current_file_size a mod 32" using ok by (auto simp: bin_ok_def)
    obtain c where c: "crypt_cache p a = Some (a\<lparr>cache_write := c\<rparr>)" "length c = length (cache_write a)"
      using crypt_cache_ok [OF blob al, of p] cok by (auto simp: write_cache_ok_def)
    have "flush_write_cache open_new (a\<lparr>cache_write := c\<rparr>) = None"
      using cok f c(2) by (intro flush_undefined [where f = f])
        (auto simp: write_cache_ok_def get_total_used_write_cache_size_def flush_defined_def)
    then show ?thesis using False c(1) by (simp add: flush_binary_def)
  qed
qed

text \<open>
  A flush is defined when the answers of the disk are clean, and for other answers if it returns at all. The premise \<open>D\<close> of the lemmas below
  says either, so that they serve for both.
\<close>

lemma flush_binary_spec:
  assumes ok: "bin_ok a" and f: "afile a = Some f" "Sys_error Other_errno \<notin> set (write_answers f)"
    and whole: "finished_cursor a = length (cache_write a) \<or> write_answers f = []"
    and D: "clean_answers (write_answers f) \<or> flush_binary p open_new a \<noteq> None"
  obtains a' f' n where "flush_binary p open_new a = Some a'" "bin_ok a'" "same_segment a a'" "afile a' = Some f'"
    "file_bytes f' = file_bytes f @ seg_crypt (enc_type a) (xor_key_blob a) (length (file_bytes f)) (take n (cache_write a))"
    "cache_write a' = drop n (cache_write a)" "finished_cursor a' = finished_cursor a - n" "n \<le> finished_cursor a"
    "set (write_answers f') \<subseteq> set (write_answers f)"
    "write_answers f = [] \<Longrightarrow> n = finished_cursor a \<and> write_answers f' = [] \<and> \<not> disk_full_drop a'"
proof -
  have "flush_defined a f" using D clean_defined [of f a] flush_binary_undefined [OF ok f(1), of p open_new] by metis
  from flush_binary_core [OF ok f whole this, of p open_new] that show ?thesis by metis
qed

section \<open>Entries keep the stream\<close>

text \<open>The decrypted bytes of the segment whose payload begins at \<open>ds\<close>: those in the file, then those in the cache.\<close>

definition payload :: "nat \<Rightarrow> binary_appender \<Rightarrow> u8 list" where
  "payload ds a = seg_crypt (enc_type a) (xor_key_blob a) ds (drop ds (file_bytes (the (afile a)))) @ cache_write a"

lemma payload_grows:
  assumes "afile a = Some f" "afile a' = Some f'" "same_segment a a'" "ds \<le> length (file_bytes f)"
    "file_bytes f' = file_bytes f @ seg_crypt (enc_type a) (xor_key_blob a) (length (file_bytes f)) (take n (cache_write a))"
    "cache_write a' = drop n (cache_write a) @ ext"
  shows "payload ds a' = payload ds a @ ext"
  using assms by (simp add: payload_def same_segment_def seg_cipher.crypt_append seg_cipher.crypt_involution)

lemma write_bytes_spec:
  assumes ok: "bin_ok a" and f: "afile a = Some f" "Sys_error Other_errno \<notin> set (write_answers f)"
    and whole: "finished_cursor a = length (cache_write a) \<or> write_answers f = []"
    and room: "length (cache_write a) + length data \<le> 2 ^ 62"
    and D: "clean_answers (write_answers f) \<or> write_bytes (flush_binary p open_new) data a \<noteq> None"
  obtains a' f' n where "write_bytes (flush_binary p open_new) data a = Some a'" "bin_ok a'" "same_segment a a'" "afile a' = Some f'"
    "file_bytes f' = file_bytes f @ seg_crypt (enc_type a) (xor_key_blob a) (length (file_bytes f)) (take n (cache_write a))"
    "cache_write a' = drop n (cache_write a) @ data" "finished_cursor a' = finished_cursor a - n" "n \<le> finished_cursor a"
    "set (write_answers f') \<subseteq> set (write_answers f)"
    "write_answers f = [] \<Longrightarrow> (disk_full_drop a' \<longrightarrow> disk_full_drop a)"
proof (cases "length (cache_write a) + length data > get_cache_write_size a")
  case False
  let ?a = "return_write_cache data a"
  have "write_bytes (flush_binary p open_new) data a = Some ?a" using False by (simp add: write_bytes_def alloc_write_cache_def)
  moreover have "bin_ok ?a"
  proof -
    have "cache_write_head_size a + cache_write_padding a \<le> cache_entity_size a"
      using ok by (auto simp: bin_ok_def write_cache_ok_def get_total_used_write_cache_size_def)
    then show ?thesis using ok False
      by (auto simp: bin_ok_def write_cache_ok_def get_total_used_write_cache_size_def get_cache_write_size_def return_write_cache_def)
  qed
  moreover have "same_segment a ?a" by (simp add: same_segment_def return_write_cache_def)
  ultimately show ?thesis using f(1) by (intro that [of ?a f 0]) (simp_all add: return_write_cache_def seg_crypt_def)
next
  case True
  have D': "clean_answers (write_answers f) \<or> flush_binary p open_new a \<noteq> None"
    using D True by (cases "flush_binary p open_new a") (auto simp: write_bytes_def alloc_write_cache_def)
  obtain b f' n where b: "flush_binary p open_new a = Some b" "bin_ok b" "same_segment a b" "afile b = Some f'"
    "file_bytes f' = file_bytes f @ seg_crypt (enc_type a) (xor_key_blob a) (length (file_bytes f)) (take n (cache_write a))"
    "cache_write b = drop n (cache_write a)" "finished_cursor b = finished_cursor a - n" "n \<le> finished_cursor a"
    "set (write_answers f') \<subseteq> set (write_answers f)" "write_answers f = [] \<Longrightarrow> \<not> disk_full_drop b"
    using flush_binary_spec [OF ok f whole D'] by metis
  let ?need = "length (cache_write b) + length data"
  let ?r = "unat (roundup_pow_of_two (of_nat (?need + cache_write_head_size b + cache_write_padding b) :: u64))"
  have small: "?need + cache_write_head_size b + cache_write_padding b \<le> 2 ^ 63"
  proof -
    have "cache_write_padding b < 32" "cache_write_head_size b \<le> 2 ^ 16" "length (cache_write b) \<le> length (cache_write a)"
      using b(2,6) by (auto simp: bin_ok_def)
    then show ?thesis using room by simp
  qed
  then have "?need + cache_write_head_size b + cache_write_padding b \<le> ?r"
    using roundup_pow_of_two_ge [of "of_nat (?need + cache_write_head_size b + cache_write_padding b) :: u64"]
    by (simp add: unat_of_nat take_bit_nat_eq_self del: of_nat_add)
  then have r: "cache_write_head_size b + cache_write_padding b + (length (cache_write b) + length data) \<le> ?r" by simp
  define es where "es = (if ?need > get_cache_write_size b then ?r else cache_entity_size b)"
  have al: "alloc_write_cache (flush_binary p open_new) (length data) a = Some (b\<lparr>cache_entity_size := es\<rparr>)"
    using True b(1) r by (simp add: alloc_write_cache_def es_def resize_cache_write_entity_def get_total_used_write_cache_size_def Let_def)
  define c where "c = return_write_cache data (b\<lparr>cache_entity_size := es\<rparr>)"
  have "write_bytes (flush_binary p open_new) data a = Some c" by (simp add: write_bytes_def al c_def)
  moreover have "bin_ok c"
  proof -
    have "cache_write_head_size b + cache_write_padding b + (length (cache_write b) + length data) \<le> es"
    proof (cases "?need > get_cache_write_size b")
      case True
      then show ?thesis using r by (simp add: es_def)
    next
      case False
      moreover have "cache_write_head_size b + cache_write_padding b \<le> cache_entity_size b"
        using b(2) by (auto simp: bin_ok_def write_cache_ok_def get_total_used_write_cache_size_def)
      ultimately show ?thesis by (simp add: es_def get_cache_write_size_def)
    qed
    then show ?thesis using b(2) by (auto simp: bin_ok_def write_cache_ok_def get_total_used_write_cache_size_def c_def return_write_cache_def)
  qed
  moreover have "same_segment a c" using b(3) by (simp add: same_segment_def c_def return_write_cache_def)
  ultimately show ?thesis using b by (intro that [of c f' n]) (simp_all add: c_def return_write_cache_def)
qed

text \<open>The events in the life of a raw appender. The entries that were taken come with the new state.\<close>

datatype log_event = Log_event u64 "u8 list" | Flush_event

fun run_events :: "platform \<Rightarrow> (binary_appender \<Rightarrow> binary_appender option) \<Rightarrow> log_event list \<Rightarrow> binary_appender \<Rightarrow> (u8 list list \<times> binary_appender) option" where
  "run_events p open_new [] a = Some ([], a)"
| "run_events p open_new (Log_event epoch e # evs) a =
     Option.bind (raw_log_impl p open_new epoch e a) (\<lambda>(ok, a).
       map_option (\<lambda>(es, a). (if ok then e # es else es, a)) (run_events p open_new evs a))"
| "run_events p open_new (Flush_event # evs) a = Option.bind (flush_binary p open_new a) (run_events p open_new evs)"

fun logged :: "log_event list \<Rightarrow> u8 list list" where
  "logged [] = []"
| "logged (Log_event _ e # evs) = e # logged evs"
| "logged (Flush_event # evs) = logged evs"

text \<open>The file is not rotated at an entry of this time: there is no size limit, and the day of the file is not over.\<close>

definition no_rotation :: "u64 \<Rightarrow> binary_appender \<Rightarrow> bool" where
  "no_rotation epoch a \<longleftrightarrow> max_file_size a = 0 \<and> (enable_rolling_log_file a \<longrightarrow> epoch \<le> current_file_expire_time a)"

fun stays_in_file :: "log_event list \<Rightarrow> binary_appender \<Rightarrow> bool" where
  "stays_in_file [] a = True"
| "stays_in_file (Log_event epoch _ # evs) a = (no_rotation epoch a \<and> stays_in_file evs a)"
| "stays_in_file (Flush_event # evs) a = stays_in_file evs a"

lemma stays_same: "same_segment a b \<Longrightarrow> stays_in_file evs b = stays_in_file evs a"
  by (induction evs a rule: stays_in_file.induct) (auto simp: no_rotation_def same_segment_def)

definition steady :: "binary_appender \<Rightarrow> bool" where
  "steady a \<longleftrightarrow> bin_ok a \<and> finished_cursor a = length (cache_write a)
     \<and> (\<forall>f. afile a = Some f \<longrightarrow> Sys_error Other_errno \<notin> set (write_answers f))"

lemma steadyE:
  assumes "steady a"
  obtains f where "afile a = Some f" "Sys_error Other_errno \<notin> set (write_answers f)" "bin_ok a" "finished_cursor a = length (cache_write a)"
  using assms by (auto simp: steady_def bin_ok_def)

definition clean_disk :: "binary_appender \<Rightarrow> bool" where
  "clean_disk a \<longleftrightarrow> clean_answers (write_answers (the (afile a)))"

definition accepts_all :: "binary_appender \<Rightarrow> bool" where
  "accepts_all a \<longleftrightarrow> write_answers (the (afile a)) = [] \<and> \<not> disk_full_drop a"

lemma raw_log_spec:
  assumes st: "steady a" and ds: "ds \<le> length (file_bytes (the (afile a)))"
    and room: "length (cache_write a) + length e + 4 \<le> 2 ^ 62" and nr: "no_rotation epoch a"
    and D: "clean_disk a \<or> raw_log_impl p open_new epoch e a \<noteq> None"
  obtains a' ext where "raw_log_impl p open_new epoch e a = Some (\<not> disk_full_drop a, a')" "steady a'" "same_segment a a'"
    "file_bytes (the (afile a')) = file_bytes (the (afile a)) @ ext"
    "payload ds a' = payload ds a @ (if disk_full_drop a then [] else raw_item e)"
    "length (cache_write a') \<le> length (cache_write a) + length e + 4" "accepts_all a \<Longrightarrow> accepts_all a'"
    "clean_disk a \<Longrightarrow> clean_disk a'"
proof -
  obtain f where f: "afile a = Some f" "Sys_error Other_errno \<notin> set (write_answers f)" "bin_ok a" "finished_cursor a = length (cache_write a)"
    using st by (rule steadyE)
  show ?thesis
  proof (cases "disk_full_drop a")
    case True
    then show ?thesis using st
      by (intro that [of a "[]"]) (simp_all add: raw_log_impl_def file_log_impl_def same_segment_def)
  next
    case False
    have nr: "file_log_impl open_new (flush_binary p open_new) epoch a = Some (True, a)"
      using nr False f(1) by (auto simp: file_log_impl_def refresh_file_handle_def no_rotation_def is_file_oversize_def not_less)
    have room': "length (cache_write a) + length (raw_item e) \<le> 2 ^ 62" using room by (simp add: raw_item_def)
    have D': "clean_answers (write_answers f) \<or> write_bytes (flush_binary p open_new) (raw_item e) a \<noteq> None"
      using D f(1) nr by (cases "write_bytes (flush_binary p open_new) (raw_item e) a") (auto simp: clean_disk_def raw_log_impl_def)
    obtain b f' n where b: "write_bytes (flush_binary p open_new) (raw_item e) a = Some b" "bin_ok b" "same_segment a b" "afile b = Some f'"
      "file_bytes f' = file_bytes f @ seg_crypt (enc_type a) (xor_key_blob a) (length (file_bytes f)) (take n (cache_write a))"
      "cache_write b = drop n (cache_write a) @ raw_item e" "finished_cursor b = finished_cursor a - n" "n \<le> finished_cursor a"
      "set (write_answers f') \<subseteq> set (write_answers f)" "write_answers f = [] \<Longrightarrow> (disk_full_drop b \<longrightarrow> disk_full_drop a)"
      using write_bytes_spec [OF f(3,1,2) _ room' D'] f(4) by metis
    let ?a = "mark_write_finished b"
    have "raw_log_impl p open_new epoch e a = Some (\<not> disk_full_drop a, ?a)" using False by (simp add: raw_log_impl_def nr b(1))
    moreover have same: "same_segment a ?a" using b(3) by (simp add: same_segment_def mark_write_finished_def)
    moreover have "steady ?a"
      using st b(2,4,9) same f(1,2) by (auto simp: steady_def bin_ok_def write_cache_ok_def mark_write_finished_def same_segment_def
          get_total_used_write_cache_size_def)
    moreover have "payload ds ?a = payload ds a @ raw_item e"
      using payload_grows [OF f(1) _ same _ b(5), of ds "raw_item e"] b(4,6) ds f(1) by (simp add: mark_write_finished_def)
    moreover have "accepts_all a \<Longrightarrow> accepts_all ?a"
      using b(4,9,10) f(1) by (auto simp: accepts_all_def mark_write_finished_def)
    moreover have "clean_disk a \<Longrightarrow> clean_disk ?a"
      using b(4) f(1) clean_answers_subset [OF _ b(9)] by (simp add: clean_disk_def mark_write_finished_def)
    ultimately show ?thesis using False f(1) b(4,5,6)
      by (intro that [of ?a "seg_crypt (enc_type a) (xor_key_blob a) (length (file_bytes f)) (take n (cache_write a))"])
        (simp_all add: mark_write_finished_def raw_item_def)
  qed
qed

lemma flush_steady:
  assumes st: "steady a" and ds: "ds \<le> length (file_bytes (the (afile a)))"
    and D: "clean_disk a \<or> flush_binary p open_new a \<noteq> None"
  obtains a' ext where "flush_binary p open_new a = Some a'" "steady a'" "same_segment a a'"
    "file_bytes (the (afile a')) = file_bytes (the (afile a)) @ ext" "payload ds a' = payload ds a"
    "length (cache_write a') \<le> length (cache_write a)" "accepts_all a \<Longrightarrow> accepts_all a' \<and> cache_write a' = []"
    "clean_disk a \<Longrightarrow> clean_disk a'"
proof -
  obtain f where f: "afile a = Some f" "Sys_error Other_errno \<notin> set (write_answers f)" "bin_ok a" "finished_cursor a = length (cache_write a)"
    using st by (rule steadyE)
  have D': "clean_answers (write_answers f) \<or> flush_binary p open_new a \<noteq> None" using D f(1) by (auto simp: clean_disk_def)
  obtain b f' n where b: "flush_binary p open_new a = Some b" "bin_ok b" "same_segment a b" "afile b = Some f'"
    "file_bytes f' = file_bytes f @ seg_crypt (enc_type a) (xor_key_blob a) (length (file_bytes f)) (take n (cache_write a))"
    "cache_write b = drop n (cache_write a)" "finished_cursor b = finished_cursor a - n" "n \<le> finished_cursor a"
    "set (write_answers f') \<subseteq> set (write_answers f)" "write_answers f = [] \<Longrightarrow> n = finished_cursor a \<and> write_answers f' = [] \<and> \<not> disk_full_drop b"
    using flush_binary_spec [OF f(3,1,2) _ D'] f(4) by metis
  have "steady b" using st b(2,3,4,6,7,9) f(1,2,4) by (auto simp: steady_def same_segment_def)
  moreover have "payload ds b = payload ds a"
    using payload_grows [OF f(1) b(4,3) _ b(5), of ds "[]"] b(6) ds f(1) by simp
  moreover have "accepts_all a \<Longrightarrow> accepts_all b \<and> cache_write b = []"
    using b(4,6,10) f(1,4) by (auto simp: accepts_all_def)
  moreover have "clean_disk a \<Longrightarrow> clean_disk b" using b(4) f(1) clean_answers_subset [OF _ b(9)] by (simp add: clean_disk_def)
  ultimately show ?thesis using b(1,3,4,5,6) f(1)
    by (intro that [of b "seg_crypt (enc_type a) (xor_key_blob a) (length (file_bytes f)) (take n (cache_write a))"]) simp_all
qed

lemma run_events_spec:
  assumes "steady a" "ds \<le> length (file_bytes (the (afile a)))"
    "length (cache_write a) + sum_list (map (\<lambda>e. length e + 4) (logged evs)) \<le> 2 ^ 62"
    "stays_in_file evs a" "clean_disk a \<or> run_events p open_new evs a \<noteq> None"
  shows "\<exists>es b ext. run_events p open_new evs a = Some (es, b) \<and> steady b \<and> same_segment a b
     \<and> file_bytes (the (afile b)) = file_bytes (the (afile a)) @ ext \<and> payload ds b = payload ds a @ concat (map raw_item es)
     \<and> subseq es (logged evs) \<and> (accepts_all a \<longrightarrow> accepts_all b \<and> es = logged evs)"
  using assms
proof (induction evs arbitrary: a)
  case Nil
  then show ?case by (auto simp: same_segment_def)
next
  case (Cons ev evs)
  show ?case
  proof (cases ev)
    case (Log_event epoch e)
    obtain a1 ext where a1: "raw_log_impl p open_new epoch e a = Some (\<not> disk_full_drop a, a1)" "steady a1" "same_segment a a1"
      "file_bytes (the (afile a1)) = file_bytes (the (afile a)) @ ext"
      "payload ds a1 = payload ds a @ (if disk_full_drop a then [] else raw_item e)"
      "length (cache_write a1) \<le> length (cache_write a) + length e + 4" "accepts_all a \<Longrightarrow> accepts_all a1"
      "clean_disk a \<Longrightarrow> clean_disk a1"
    proof -
      have D: "clean_disk a \<or> raw_log_impl p open_new epoch e a \<noteq> None"
        using Cons.prems(5) Log_event by (cases "raw_log_impl p open_new epoch e a") auto
      have "length (cache_write a) + length e + 4 \<le> 2 ^ 62" "no_rotation epoch a" using Cons.prems(3,4) Log_event by auto
      from raw_log_spec [OF Cons.prems(1,2) this D] that show ?thesis by metis
    qed
    have "clean_disk a1 \<or> run_events p open_new evs a1 \<noteq> None" using Cons.prems(5) Log_event a1(1,8) by auto
    moreover have "stays_in_file evs a1" using Cons.prems(4) Log_event stays_same [OF a1(3)] by simp
    ultimately
    obtain es b ext' where b: "run_events p open_new evs a1 = Some (es, b)" "steady b" "same_segment a1 b"
      "file_bytes (the (afile b)) = file_bytes (the (afile a1)) @ ext'" "payload ds b = payload ds a1 @ concat (map raw_item es)"
      "subseq es (logged evs)" "accepts_all a1 \<longrightarrow> accepts_all b \<and> es = logged evs"
      using Cons.IH [OF a1(2)] a1(4,6) Cons.prems(2,3) Log_event by auto
    show ?thesis
      using a1(1,4,5,7) b same_segment_trans [OF a1(3) b(3)] Log_event
      by (cases "disk_full_drop a") (auto simp: accepts_all_def)
  next
    case Flush_event
    obtain a1 ext where a1: "flush_binary p open_new a = Some a1" "steady a1" "same_segment a a1"
      "file_bytes (the (afile a1)) = file_bytes (the (afile a)) @ ext" "payload ds a1 = payload ds a"
      "length (cache_write a1) \<le> length (cache_write a)" "accepts_all a \<Longrightarrow> accepts_all a1 \<and> cache_write a1 = []"
      "clean_disk a \<Longrightarrow> clean_disk a1"
    proof -
      have "clean_disk a \<or> flush_binary p open_new a \<noteq> None"
        using Cons.prems(5) Flush_event by (cases "flush_binary p open_new a") auto
      from flush_steady [OF Cons.prems(1,2) this] that show ?thesis by metis
    qed
    have "clean_disk a1 \<or> run_events p open_new evs a1 \<noteq> None" using Cons.prems(5) Flush_event a1(1,8) by auto
    moreover have "stays_in_file evs a1" using Cons.prems(4) Flush_event stays_same [OF a1(3)] by simp
    ultimately
    obtain es b ext' where b: "run_events p open_new evs a1 = Some (es, b)" "steady b" "same_segment a1 b"
      "file_bytes (the (afile b)) = file_bytes (the (afile a1)) @ ext'" "payload ds b = payload ds a1 @ concat (map raw_item es)"
      "subseq es (logged evs)" "accepts_all a1 \<longrightarrow> accepts_all b \<and> es = logged evs"
      using Cons.IH [OF a1(2)] a1(4,6) Cons.prems(2,3) Flush_event by auto
    show ?thesis using a1(1,4,5,7) b same_segment_trans [OF a1(3) b(3)] Flush_event by (auto simp: accepts_all_def)
  qed
qed

text \<open>
  C13. A raw appender whose disk takes a part of each write, is interrupted or full (but gives no other error), in a file with or without encryption, as
  long as the file is not rotated: the size is not limited, and no entry lies behind the day of the file if files are changed daily.
  Whenever the events run through, the decrypted bytes of the file followed by the bytes in the cache are the items of the entries
  that were accepted, in their order, and the file is only appended to; when the disk takes every write at once, all entries
  are accepted. They do run through if each call of the disk takes something until all is written, or none takes
  anything but the whole; a flush of which the disk takes less than half copies between overlapping ranges, and its effect is
  not defined (\<open>flush_binary_undefined\<close>).
\<close>

theorem raw_log_keeps_stream:
  assumes "steady a" "ds \<le> length (file_bytes (the (afile a)))"
    "length (cache_write a) + sum_list (map (\<lambda>e. length e + 4) (logged evs)) \<le> 2 ^ 62" "stays_in_file evs a"
  shows "(run_events p open_new evs a = Some (es, b) \<longrightarrow> subseq es (logged evs) \<and> (accepts_all a \<longrightarrow> es = logged evs)
     \<and> seg_crypt (enc_type a) (xor_key_blob a) ds (drop ds (file_bytes (the (afile b)))) @ cache_write b
       = seg_crypt (enc_type a) (xor_key_blob a) ds (drop ds (file_bytes (the (afile a)))) @ cache_write a @ concat (map raw_item es)
     \<and> take (length (file_bytes (the (afile a)))) (file_bytes (the (afile b))) = file_bytes (the (afile a)))
     \<and> (clean_answers (write_answers (the (afile a))) \<longrightarrow> run_events p open_new evs a \<noteq> None)"
proof (intro conjI impI)
  assume run: "run_events p open_new evs a = Some (es, b)"
  obtain ext where r: "subseq es (logged evs)" "accepts_all a \<longrightarrow> es = logged evs" "payload ds b = payload ds a @ concat (map raw_item es)"
      "same_segment a b" "file_bytes (the (afile b)) = file_bytes (the (afile a)) @ ext"
    using run_events_spec [OF assms, of p open_new] run by auto
  show "subseq es (logged evs)" by (rule r(1))
  show "es = logged evs" if "accepts_all a" using r(2) that by simp
  show "seg_crypt (enc_type a) (xor_key_blob a) ds (drop ds (file_bytes (the (afile b)))) @ cache_write b
      = seg_crypt (enc_type a) (xor_key_blob a) ds (drop ds (file_bytes (the (afile a)))) @ cache_write a @ concat (map raw_item es)"
    using r(3,4) by (simp add: payload_def same_segment_def)
  show "take (length (file_bytes (the (afile a)))) (file_bytes (the (afile b))) = file_bytes (the (afile a))" using r(5) by simp
next
  assume "clean_answers (write_answers (the (afile a)))"
  then show "run_events p open_new evs a \<noteq> None"
    using run_events_spec [OF assms, of p open_new] by (auto simp: clean_disk_def)
qed

text \<open>An encrypted file that is changed daily, on a disk that is full at the first flush and then has room again.\<close>

definition full_disk_appender :: binary_appender where
  "full_disk_appender = \<lparr>afile = Some \<lparr>file_bytes = replicate 20 1, file_pos = 20, write_answers = [Eintr, Sys_error Enospc, Eintr]\<rparr>,
     current_file_size = 20, cache_entity_size = 65536, write_cache_target_size = 65536, cache_write_head_size = 32, cache_write_padding = 20,
     cache_write = [], finished_cursor = 0, disk_full_drop = False, cache_read = [], cache_read_cursor = 0, read_file_pos = 0, cache_read_eof = False,
     max_file_size = 0, enable_rolling_log_file = True, current_file_expire_time = 100, gmt_offset_ms = 0,
     enc_type = Rsa_aes_xor, rsa_pub_key = \<lparr>pub_n = [], pub_e = []\<rparr>, rsa_key_fingerprint = 0, xor_key_blob = replicate 32768 7,
     cur_read_start = 0, cur_read_end = 0, current_file_is_new_created = True\<rparr>"

theorem raw_log_keeps_stream_witness:
  "\<exists>es b. run_events Other_cpu Some [Log_event 5 [1, 2, 3], Flush_event, Log_event 6 [4], Flush_event] full_disk_appender = Some (es, b)
     \<and> subseq es [[1, 2, 3], [4]]
     \<and> seg_crypt Rsa_aes_xor (replicate 32768 7) 20 (drop 20 (file_bytes (the (afile b)))) @ cache_write b = concat (map raw_item es)"
proof -
  let ?evs = "[Log_event 5 [1, 2, 3], Flush_event, Log_event 6 [4], Flush_event]" and ?a = full_disk_appender
  have "steady ?a"
    by (simp add: steady_def bin_ok_def write_cache_ok_def full_disk_appender_def get_total_used_write_cache_size_def cache_read_default_size_def
        get_xor_key_blob_size_def)
  moreover have "stays_in_file ?evs ?a" by (simp add: full_disk_appender_def no_rotation_def)
  moreover have "20 \<le> length (file_bytes (the (afile ?a)))"
    "length (cache_write ?a) + sum_list (map (\<lambda>e. length e + 4) (logged ?evs)) \<le> 2 ^ 62"
    by (simp_all add: full_disk_appender_def)
  ultimately have keeps: "(run_events Other_cpu Some ?evs ?a = Some (es, b) \<longrightarrow> subseq es (logged ?evs) \<and> (accepts_all ?a \<longrightarrow> es = logged ?evs)
     \<and> seg_crypt (enc_type ?a) (xor_key_blob ?a) 20 (drop 20 (file_bytes (the (afile b)))) @ cache_write b
       = seg_crypt (enc_type ?a) (xor_key_blob ?a) 20 (drop 20 (file_bytes (the (afile ?a)))) @ cache_write ?a @ concat (map raw_item es)
     \<and> take (length (file_bytes (the (afile ?a)))) (file_bytes (the (afile b))) = file_bytes (the (afile ?a)))
     \<and> (clean_answers (write_answers (the (afile ?a))) \<longrightarrow> run_events Other_cpu Some ?evs ?a \<noteq> None)" for es b
    by (rule_tac raw_log_keeps_stream)
  have "clean_answers (write_answers (the (afile ?a)))" by (simp add: full_disk_appender_def clean_answers_def)
  then have "run_events Other_cpu Some ?evs ?a \<noteq> None" using keeps by blast
  then obtain es b where r: "run_events Other_cpu Some ?evs ?a = Some (es, b)" by fast
  have f: "enc_type ?a = Rsa_aes_xor" "xor_key_blob ?a = replicate 32768 7" "drop 20 (file_bytes (the (afile ?a))) = []" "cache_write ?a = []"
    by (simp_all add: full_disk_appender_def)
  have l: "logged ?evs = [[1, 2, 3], [4]]" by simp
  have "seg_crypt Rsa_aes_xor (replicate 32768 7) 20 (drop 20 (file_bytes (the (afile b)))) @ cache_write b
      = seg_crypt Rsa_aes_xor (replicate 32768 7) 20 [] @ [] @ concat (map raw_item es)" "subseq es [[1, 2, 3], [4]]"
    using keeps [of es b] r unfolding f l by blast+
  moreover have "seg_crypt Rsa_aes_xor (replicate 32768 7) 20 [] = []" by (simp add: length_0_conv [symmetric] seg_cipher.crypt_length del: length_0_conv)
  ultimately show ?thesis using r by auto
qed

end
