(* ===== verification/Binary_Decoder.thy ===== *)
theory Binary_Decoder
  imports Binary_File Layout Compressed_Args
begin

text \<open>
  The reading side of binary logs, \<open>src/bq_log/log/decoder/appender_decoder_base.cpp\<close> and \<open>appender_decoder_raw.cpp\<close>: the walk over the segments, the
  keys of an encrypted segment, the read cache, and the loop of the decoder with its text. \<open>None\<close> is a loop that does not end, a read past the end of a key, or
  a failed assertion of the layout.
\<close>

section \<open>State\<close>

record binary_decoder =
  dec_file :: os_file
  dec_file_size :: nat
  dec_cursor :: nat
  dec_private_key :: private_key
  seg_start :: nat
  seg_end :: nat
  seg_type :: segment_type
  seg_enc :: encryption_type
  seg_blob :: "u8 list"
  dec_cache :: "u8 list"
  dec_cache_cursor :: nat
  decoded_text :: "u8 list"
  dec_zone :: time_zone
  category_names :: "u8 list list"
  dec_layout :: layout

definition no_private_key :: private_key where
  "no_private_key = \<lparr>pri_n = [], pri_e = [], pri_d = [], pri_p = [], pri_q = [], pri_dp = [], pri_dq = [], pri_qinv = []\<rparr>"

definition new_decoder :: "os_file \<Rightarrow> binary_decoder" where
  "new_decoder f = \<lparr>dec_file = f, dec_file_size = 0, dec_cursor = 2 ^ 64 - 1, dec_private_key = no_private_key, seg_start = 0, seg_end = 0,
     seg_type = Normal_segment, seg_enc = Plaintext, seg_blob = [], dec_cache = [], dec_cache_cursor = 0, decoded_text = [],
     dec_zone = zone_reset, category_names = [], dec_layout = \<lparr>layout_zone = zone_reset, thread_names_cache = Map.empty\<rparr>\<rparr>"

definition dec_clear_read_cache :: "binary_decoder \<Rightarrow> binary_decoder" where
  "dec_clear_read_cache d = d\<lparr>dec_cache_cursor := 0, dec_cache := []\<rparr>"

definition dec_seek_absolute :: "nat \<Rightarrow> binary_decoder \<Rightarrow> bool \<times> binary_decoder" where
  "dec_seek_absolute pos d =
     (if dec_cursor d = pos then (True, d)
      else (case file_seek Seek_begin (cast_i32 pos) (dec_file d) of
              None \<Rightarrow> (False, d)
            | Some f \<Rightarrow> (True, (dec_clear_read_cache d)\<lparr>dec_file := f, dec_cursor := pos\<rparr>)))"

definition read_from_file_directly :: "nat \<Rightarrow> binary_decoder \<Rightarrow> u8 list \<times> binary_decoder" where
  "read_from_file_directly n d =
     (case file_manager_read_file n (dec_file d) of (bs, f) \<Rightarrow> (bs, d\<lparr>dec_file := f, dec_cursor := dec_cursor d + length bs\<rparr>))"

section \<open>Segments\<close>

text \<open>The stream key of an encrypted segment. The outer \<open>None\<close> is a read past the end of the decrypted number.\<close>

definition read_segment_keys :: "private_key \<Rightarrow> u8 list \<Rightarrow> u8 list option option" where
  "read_segment_keys pri enc_data =
     (let n = length (pri_n pri); encryption_data = drop 8 enc_data;
          aes_key_ciphertext = take n encryption_data; aes_iv = take iv_size (drop n encryption_data)
      in case rsa_decrypt pri aes_key_ciphertext of
           Rsa_fail \<Rightarrow> Some None
         | Overread \<Rightarrow> None
         | Rsa_ok aes_key \<Rightarrow>
             (case aes_decrypt AES_256 aes_key aes_iv (take get_xor_key_blob_size (drop (n + iv_size) encryption_data))
                     (replicate get_xor_key_blob_size 0) of
                (ok, blob) \<Rightarrow> Some (if ok then Some blob else None)))"

definition bytes_of :: "string \<Rightarrow> u8 list" where
  "bytes_of s = map of_char s"

definition log_recover_start_str :: "u8 list" where
  "log_recover_start_str = bytes_of ''/************************************* BQLOG RECOVER START *************************************/''"

definition log_recover_end_str :: "u8 list" where
  "log_recover_end_str = bytes_of ''/************************************* BQLOG RECOVER END *************************************/''"

definition is_recovery :: "segment_type \<Rightarrow> bool" where
  "is_recovery ty \<longleftrightarrow> ty = Recovery_by_appender \<or> ty = Recovery_by_log_buffer"

text \<open>The marks in the text where recovered entries begin and end.\<close>

definition recovery_marks :: "segment_type \<Rightarrow> segment_type \<Rightarrow> u8 list" where
  "recovery_marks last_type cur_type =
     (if is_recovery last_type \<noteq> is_recovery cur_type
      then (if is_recovery cur_type then log_recover_start_str else log_recover_end_str) @ [0x0A] else [])"

definition read_to_next_segment :: "binary_decoder \<Rightarrow> (appender_decode_result \<times> binary_decoder) option" where
  "read_to_next_segment d =
     (let new_seg_start_pos = seg_end d;
          d = d\<lparr>dec_file_size := length (file_bytes (dec_file d))\<rparr>
      in case dec_seek_absolute new_seg_start_pos d of
           (False, d) \<Rightarrow> Some (Decode_eof, d)
         | (True, d) \<Rightarrow>
             (case read_from_file_directly 12 d of
                (h, d) \<Rightarrow>
                  if length h < 12 then Some (Decode_eof, d)
                  else (case parse_segment_head h of
                          None \<Rightarrow> Some (Failed_decode_error, d)
                        | Some (next_seg_pos, ty, enc) \<Rightarrow>
                            (let d = d\<lparr>seg_blob := []\<rparr>
                             in case (if enc = Plaintext then Some (Some [], d)
                                      else if length (pri_n (dec_private_key d)) \<noteq> 256 then Some (None, d)
                                      else (case read_from_file_directly get_encryption_keys_size d of
                                              (enc_data, d) \<Rightarrow>
                                                if length enc_data < get_encryption_keys_size then Some (None, d)
                                                else map_option (\<lambda>blob. (blob, d)) (read_segment_keys (dec_private_key d) enc_data))) of
                                  None \<Rightarrow> None
                                | Some (None, d) \<Rightarrow> Some (Failed_decode_error, d)
                                | Some (Some blob, d) \<Rightarrow>
                                    (let d = d\<lparr>seg_blob := blob\<rparr>; file_size = dec_file_size d
                                     in if next_seg_pos \<noteq> no_next_segment
                                           \<and> (unat next_seg_pos < dec_cursor d \<or> unat next_seg_pos > file_size \<or> file_size - unat next_seg_pos < 12)
                                        then Some (Failed_decode_error, d)
                                        else (let last_type = (if new_seg_start_pos = 8 then Normal_segment else seg_type d)
                                              in Some (Decode_success, d\<lparr>seg_enc := enc, seg_start := new_seg_start_pos,
                                                   seg_end := (if next_seg_pos = no_next_segment then file_size else unat next_seg_pos), seg_type := ty,
                                                   decoded_text := decoded_text d @ recovery_marks last_type ty\<rparr>)))))))"

section \<open>The read cache\<close>

definition decoder_cache_default_size :: nat where
  "decoder_cache_default_size = 32 * 1024"

text \<open>The loop at the end of a segment.\<close>

partial_function (option) skip_segments :: "binary_decoder \<Rightarrow> (bool \<times> binary_decoder) option" where
  "skip_segments d =
     (if dec_cursor d = seg_end d
      then Option.bind (read_to_next_segment d) (\<lambda>(r, d). if r = Decode_success then skip_segments d else Some (False, d))
      else Some (True, d))"

text \<open>
  The cache is filled again from the position of the bytes not yet read. In an encrypted segment the bytes are placed at an address
  aligned like their position in the file, behind \<open>read_offset\<close> bytes that are never read.
\<close>

definition fill_cache :: "platform \<Rightarrow> nat \<Rightarrow> nat \<Rightarrow> binary_decoder \<Rightarrow> binary_decoder option" where
  "fill_cache p left_size len d =
     (let d = dec_clear_read_cache d;
          d = (if left_size \<noteq> 0 then snd (dec_seek_absolute (dec_cursor d - left_size) d) else d);
          read_offset = (if seg_enc d = Rsa_aes_xor then dec_cursor d mod 32 else 0);
          total_size = max (len + read_offset) decoder_cache_default_size;
          seg_left_size = unat (of_nat (seg_end d) - of_nat (dec_cursor d) :: u64);
          (bs, d) = read_from_file_directly (min (total_size - read_offset) seg_left_size) d
      in map_option (\<lambda>bs. d\<lparr>dec_cache_cursor := read_offset, dec_cache := replicate read_offset 0 @ bs\<rparr>)
           (if seg_enc d = Rsa_aes_xor \<and> bs \<noteq> []
            then vernam_encrypt_32bytes_aligned p bs read_offset (seg_blob d) (dec_cursor d - length bs)
            else Some bs))"

definition dec_read_with_cache :: "platform \<Rightarrow> nat \<Rightarrow> binary_decoder \<Rightarrow> (u8 list \<times> binary_decoder) option" where
  "dec_read_with_cache p len d =
     (let left_size = length (dec_cache d) - dec_cache_cursor d
      in Option.bind
           (if left_size < len
            then Option.bind (if left_size = 0 then skip_segments d else Some (True, d)) (\<lambda>(ok, d).
                   if ok then map_option (Pair True) (fill_cache p left_size len d) else Some (False, d))
            else Some (True, d))
           (\<lambda>(ok, d).
             if \<not> ok then Some ([], d)
             else (let bs = take len (drop (dec_cache_cursor d) (dec_cache d))
                   in Some (bs, d\<lparr>dec_cache_cursor := dec_cache_cursor d + length bs\<rparr>))))"

section \<open>Opening a file\<close>

definition zone_of_metadata :: "u8 list \<Rightarrow> time_zone" where
  "zone_of_metadata m =
     restore_by_config (m ! 3 \<noteq> 0) (sint (le_word (take 4 (drop 4 m)) :: u32)) (sint (le_word (take 4 (drop 8 m)) :: u32))
       (sint (le_word (take 4 (drop 12 m)) :: u32)) (map (\<lambda>b. char_of (unat b)) (takeWhile (\<lambda>b. b \<noteq> 0) (take 32 (drop 16 m)))) zone_reset"

fun read_categories :: "platform \<Rightarrow> nat \<Rightarrow> nat \<Rightarrow> binary_decoder \<Rightarrow> (appender_decode_result \<times> binary_decoder) option" where
  "read_categories p i 0 d = Some (Decode_success, d)"
| "read_categories p i (Suc n) d =
     Option.bind (dec_read_with_cache p 4 d) (\<lambda>(bs, d).
       if length bs < 4 then Some (Failed_io_error, d)
       else (let name_len = unat (le_word bs :: u32)
             in if name_len > 0
                then Option.bind (dec_read_with_cache p name_len d) (\<lambda>(name, d).
                       if length name < name_len then Some (Failed_io_error, d)
                       else read_categories p (i + 1) n (d\<lparr>category_names := category_names d @ [name]\<rparr>))
                else if i \<noteq> 0 then Some (Failed_decode_error, d)
                else read_categories p (i + 1) n (d\<lparr>category_names := category_names d @ [[]]\<rparr>)))"

text \<open>\<open>private_key\<close> is the trimmed text of the key. The size of the metadata is 52.\<close>

definition binary_decoder_init :: "platform \<Rightarrow> binary_kind \<Rightarrow> os_file \<Rightarrow> u8 list \<Rightarrow> (appender_decode_result \<times> binary_decoder) option" where
  "binary_decoder_init p k f private_key_str =
     (let d = (new_decoder f)\<lparr>dec_file_size := length (file_bytes f)\<rparr>;
          d = snd (dec_seek_absolute 0 d)
      in if dec_file_size d \<le> 8 + 12 + 52 then Some (Failed_decode_error, d)
         else (case read_from_file_directly 8 d of
                 (h, d) \<Rightarrow>
                   if le_word (take 4 h) \<noteq> binary_format_version k then Some (Failed_decode_error, d)
                   else (case (if private_key_str = [] then Rsa_ok no_private_key else parse_private_key_pem private_key_str) of
                           Overread \<Rightarrow> None
                         | Rsa_fail \<Rightarrow> Some (Failed_decode_error, d)
                         | Rsa_ok key \<Rightarrow>
                             if private_key_str \<noteq> [] \<and> length (pri_n key) \<noteq> 256 then Some (Failed_decode_error, d\<lparr>dec_private_key := key\<rparr>)
                             else Option.bind (read_to_next_segment (d\<lparr>dec_private_key := key, seg_end := 8\<rparr>)) (\<lambda>(r, d).
                                    if r \<noteq> Decode_success then Some (r, d)
                                    else Option.bind (dec_read_with_cache p 52 d) (\<lambda>(m, d).
                                      if length m \<noteq> 52 then Some (Failed_io_error, d)
                                      else if take 3 m \<noteq> [2, 2, 7] then Some (Failed_decode_error, d)
                                      else read_categories p 0 (unat (le_word (drop 48 m) :: u32)) (d\<lparr>dec_zone := zone_of_metadata m\<rparr>))))))"

section \<open>Decoding\<close>

text \<open>One entry becomes text; the zone is built anew for each, the names of threads are kept.\<close>

definition do_decode_by_log_entry_handle ::
    "libc \<Rightarrow> simd_target \<Rightarrow> bool \<Rightarrow> u8 list \<Rightarrow> binary_decoder \<Rightarrow> (appender_decode_result \<times> binary_decoder) option" where
  "do_decode_by_log_entry_handle c t simd e d =
     map_option (\<lambda>(r, l, s).
         if r \<noteq> Finished then (Failed_decode_error, d\<lparr>dec_layout := l\<rparr>) else (Decode_success, d\<lparr>dec_layout := l, decoded_text := decoded_text d @ s\<rparr>))
       (do_layout c t simd (category_names d) (map Some e) ((dec_layout d)\<lparr>layout_zone := dec_zone d\<rparr>))"

definition raw_decode_private :: "platform \<Rightarrow> libc \<Rightarrow> simd_target \<Rightarrow> bool \<Rightarrow> binary_decoder \<Rightarrow> (appender_decode_result \<times> binary_decoder) option" where
  "raw_decode_private p c t simd d =
     Option.bind (dec_read_with_cache p 4 (d\<lparr>decoded_text := []\<rparr>)) (\<lambda>(bs, d).
       if length bs = 0 then Some (Decode_eof, d)
       else if length bs \<noteq> 4 then Some (Failed_io_error, d)
       else (let item_size = unat (le_word bs :: u32)
             in Option.bind (dec_read_with_cache p item_size d) (\<lambda>(e, d).
                  if length e < item_size then Some (Failed_io_error, d)
                  else do_decode_by_log_entry_handle c t simd e d)))"

definition lost_data_tips :: "u8 list" where
  "lost_data_tips =
     bytes_of ''/*********************************************************************/'' @ [0x0A]
     @ bytes_of ''/*       WARNING: Some log data may be lost or corrupted here        */'' @ [0x0A]
     @ bytes_of ''/*********************************************************************/'' @ [0x0A]"

text \<open>After a failure the decoder goes on with the next segment.\<close>

partial_function (option) decode_loop ::
    "(binary_decoder \<Rightarrow> (appender_decode_result \<times> binary_decoder) option) \<Rightarrow> bool \<Rightarrow> binary_decoder \<Rightarrow> (appender_decode_result \<times> bool \<times> binary_decoder) option" where
  "decode_loop decode_private lose_data d =
     Option.bind (decode_private d) (\<lambda>(r, d).
       if r = Decode_success \<or> r = Decode_eof then Some (r, lose_data, d)
       else Option.bind (read_to_next_segment d) (\<lambda>(r', d).
              if r' \<noteq> Decode_success then Some (r, True, d) else decode_loop decode_private True d))"

definition decode ::
    "(binary_decoder \<Rightarrow> (appender_decode_result \<times> binary_decoder) option) \<Rightarrow> binary_decoder \<Rightarrow> (appender_decode_result \<times> binary_decoder) option" where
  "decode decode_private d =
     map_option (\<lambda>(r, lose_data, d). (r, if lose_data then d\<lparr>decoded_text := lost_data_tips @ decoded_text d\<rparr> else d))
       (decode_loop decode_private False d)"

end
