(* ===== verification/Binary_Roundtrip.thy ===== *)
theory Binary_Roundtrip
  imports Binary_Stream Binary_Decoder
begin

text \<open>
  The way through a binary file: what the raw appender writes into a new file is read back by the raw decoder.
\<close>

section \<open>Reading a segment\<close>

text \<open>The position of the next byte the reader hands out, and the bytes that are left, decrypted.\<close>

definition unread :: "binary_decoder \<Rightarrow> u8 list" where
  "unread d = drop (dec_cache_cursor d) (dec_cache d)"

definition read_pos :: "binary_decoder \<Rightarrow> nat" where
  "read_pos d = dec_cursor d - length (unread d)"

definition rest_of :: "binary_decoder \<Rightarrow> u8 list" where
  "rest_of d = seg_crypt (seg_enc d) (seg_blob d) (read_pos d) (drop (read_pos d) (file_bytes (dec_file d)))"

definition in_last_segment :: "binary_decoder \<Rightarrow> bool" where
  "in_last_segment d \<longleftrightarrow> file_pos (dec_file d) = dec_cursor d \<and> dec_cursor d \<le> seg_end d \<and> seg_end d = length (file_bytes (dec_file d))
     \<and> seg_end d < 2 ^ 31 \<and> dec_cache_cursor d \<le> length (dec_cache d) \<and> length (unread d) \<le> dec_cursor d
     \<and> unread d = take (length (unread d)) (rest_of d)
     \<and> (seg_enc d = Rsa_aes_xor \<longrightarrow> length (seg_blob d) = get_xor_key_blob_size)"

text \<open>What reading does not touch.\<close>

definition same_decoding :: "binary_decoder \<Rightarrow> binary_decoder \<Rightarrow> bool" where
  "same_decoding d d' \<longleftrightarrow> decoded_text d' = decoded_text d \<and> category_names d' = category_names d \<and> dec_zone d' = dec_zone d
     \<and> dec_layout d' = dec_layout d \<and> file_bytes (dec_file d') = file_bytes (dec_file d)"

lemma same_decoding_trans: "same_decoding a b \<Longrightarrow> same_decoding b c \<Longrightarrow> same_decoding a c"
  by (simp add: same_decoding_def)

lemma cast_i32_small: "n < 2 ^ 31 \<Longrightarrow> cast_i32 n = int n"
  by (simp add: cast_i32_def sint_uint unsigned_of_nat take_bit_nat_eq_self signed_take_bit_int_eq_self)

lemma length_seg_crypt [simp]: "length (seg_crypt e k off bs) = length bs"
  by (simp add: seg_cipher.crypt_length)

lemma seek_small:
  assumes "pos < 2 ^ 31" "dec_cursor d \<noteq> pos"
  shows "dec_seek_absolute pos d = (True, d\<lparr>dec_cache_cursor := 0, dec_cache := [], dec_file := (dec_file d)\<lparr>file_pos := pos\<rparr>, dec_cursor := pos\<rparr>)"
  using assms by (simp add: dec_seek_absolute_def file_seek_def cast_i32_small dec_clear_read_cache_def)

text \<open>Behind the last segment there is no head.\<close>

lemma end_of_file:
  assumes "in_last_segment d" "dec_cursor d = seg_end d"
  obtains d' where "read_to_next_segment d = Some (Decode_eof, d')" "d' = d\<lparr>dec_file_size := length (file_bytes (dec_file d))\<rparr>"
proof -
  have "read_to_next_segment d = Some (Decode_eof, d\<lparr>dec_file_size := length (file_bytes (dec_file d))\<rparr>)"
    using assms by (simp add: read_to_next_segment_def Let_def dec_seek_absolute_def read_from_file_directly_def file_manager_read_file_def in_last_segment_def)
  then show ?thesis using that by blast
qed

lemma fill_cache_spec:
  assumes ok: "in_last_segment d" and left: "length (unread d) < len"
  obtains d' where "fill_cache p (length (unread d)) len d = Some d'" "in_last_segment d'" "rest_of d' = rest_of d" "same_decoding d d'"
    "seg_enc d' = seg_enc d" "len \<le> length (unread d') \<or> unread d' = rest_of d"
proof -
  let ?F = "file_bytes (dec_file d)" and ?q = "read_pos d" and ?e = "seg_enc d" and ?b = "seg_blob d"
  have q: "?q \<le> length ?F" "length ?F < 2 ^ 31" "seg_end d = length ?F" using ok by (auto simp: in_last_segment_def read_pos_def)
  define d1 where "d1 = d\<lparr>dec_cache_cursor := 0, dec_cache := [], dec_file := (dec_file d)\<lparr>file_pos := ?q\<rparr>, dec_cursor := ?q\<rparr>"
  have sk: "(if length (unread d) \<noteq> 0 then snd (dec_seek_absolute (dec_cursor (dec_clear_read_cache d) - length (unread d)) (dec_clear_read_cache d))
      else dec_clear_read_cache d) = d1"
  proof (cases "length (unread d) = 0")
    case True
    then have "?q = dec_cursor d" "file_pos (dec_file d) = dec_cursor d" using ok by (simp_all add: read_pos_def in_last_segment_def)
    then show ?thesis using True by (simp add: d1_def dec_clear_read_cache_def)
  next
    case False
    moreover have "length (unread d) \<le> dec_cursor d" using ok by (simp add: in_last_segment_def)
    ultimately have "dec_cursor d \<noteq> ?q" by (simp only: read_pos_def)
    then show ?thesis using False q seek_small [of ?q "dec_clear_read_cache d"]
      by (simp add: d1_def dec_clear_read_cache_def read_pos_def)
  qed
  define ro where "ro = (if ?e = Rsa_aes_xor then ?q mod 32 else 0)"
  define K where "K = min (max (len + ro) decoder_cache_default_size - ro) (length ?F - ?q)"
  have ul: "unat (of_nat (seg_end d) - of_nat ?q :: u64) = length ?F - ?q"
  proof -
    have "(of_nat (seg_end d) - of_nat ?q :: u64) = of_nat (length ?F - ?q)" using q by (simp add: of_nat_diff)
    moreover have "unat (of_nat (length ?F - ?q) :: u64) = length ?F - ?q"
      using q by (simp only: unsigned_of_nat) (simp add: take_bit_nat_eq_self)
    ultimately show ?thesis by (simp only:)
  qed
  define bs where "bs = take K (drop ?q ?F)"
  have lb: "length bs = K" by (simp add: bs_def K_def)
  define d2 where "d2 = d1\<lparr>dec_file := (dec_file d)\<lparr>file_pos := ?q + K\<rparr>, dec_cursor := ?q + K\<rparr>"
  have rd: "read_from_file_directly K d1 = (bs, d2)"
    using lb by (simp add: read_from_file_directly_def file_manager_read_file_def d1_def d2_def bs_def)
  have cr: "(if ?e = Rsa_aes_xor \<and> bs \<noteq> [] then vernam_encrypt_32bytes_aligned p bs ro ?b ?q else Some bs) = Some (seg_crypt ?e ?b ?q bs)"
  proof (cases "?e = Rsa_aes_xor")
    case True
    then have "length ?b = get_xor_key_blob_size" using ok by (simp add: in_last_segment_def)
    then have "vernam_encrypt_32bytes_aligned p bs ro ?b ?q = Some (key_stream_xor ?b ?q bs)" using True by (intro vernam_blob) (simp_all add: ro_def)
    then show ?thesis using True vernam.crypt_length [of ?b ?q "[]"] by (cases bs) (simp_all add: crypt_start del: vernam.crypt_length)
  next
    case False
    then show ?thesis by (simp add: seg_crypt_def)
  qed
  define d' where "d' = d2\<lparr>dec_cache_cursor := ro, dec_cache := replicate ro 0 @ seg_crypt ?e ?b ?q bs\<rparr>"
  have f1: "seg_enc d1 = ?e" "dec_cursor d1 = ?q" "seg_end d1 = seg_end d" by (simp_all add: d1_def)
  have f2: "seg_enc d2 = ?e" "seg_blob d2 = ?b" "dec_cursor d2 - length bs = ?q" using lb by (simp_all add: d2_def d1_def)
  have res: "fill_cache p (length (unread d)) len d = Some d'"
    unfolding fill_cache_def Let_def sk f1 ro_def [symmetric] ul K_def [symmetric] rd prod.case f2 cr option.map d'_def ..
  have fd: "dec_cache_cursor d' = ro" "dec_cache d' = replicate ro 0 @ seg_crypt ?e ?b ?q bs" "dec_cursor d' = ?q + K" "seg_enc d' = ?e"
    "seg_blob d' = ?b" "seg_end d' = seg_end d" "file_bytes (dec_file d') = ?F" "file_pos (dec_file d') = ?q + K"
    by (simp_all add: d'_def d2_def d1_def)
  have un: "unread d' = seg_crypt ?e ?b ?q bs" by (simp add: unread_def fd)
  then have lu: "length (unread d') = K" by (simp add: lb)
  have rp: "read_pos d' = ?q" unfolding read_pos_def [of d'] lu fd by simp
  have rs: "rest_of d' = rest_of d" unfolding rest_of_def rp fd ..
  have rest: "rest_of d = seg_crypt ?e ?b ?q (drop ?q ?F)" by (simp add: rest_of_def)
  have tk: "seg_crypt ?e ?b ?q bs = take K (rest_of d)" by (simp add: rest bs_def seg_cipher.crypt_take)
  have K: "?q + K \<le> seg_end d" unfolding q(3) K_def using q(1) by linarith
  have "unread d' = take (length (unread d')) (rest_of d')" unfolding rs lu unfolding un tk ..
  then have "in_last_segment d'"
    using ok K unfolding in_last_segment_def lu fd by simp
  moreover have "same_decoding d d'" "seg_enc d' = ?e" by (simp_all add: same_decoding_def d'_def d2_def d1_def)
  moreover have "len \<le> K \<or> K = length (rest_of d)" unfolding K_def rest by auto
  then have "len \<le> length (unread d') \<or> unread d' = rest_of d" using un tk lb by auto
  ultimately show ?thesis using res rs that by blast
qed

lemma skip_in_segment: "dec_cursor d \<noteq> seg_end d \<Longrightarrow> skip_segments d = Some (True, d)"
  by (subst skip_segments.simps) simp

lemma skip_at_end:
  assumes "in_last_segment d" "dec_cursor d = seg_end d"
  shows "skip_segments d = Some (False, d\<lparr>dec_file_size := length (file_bytes (dec_file d))\<rparr>)"
proof -
  have "read_to_next_segment d = Some (Decode_eof, d\<lparr>dec_file_size := length (file_bytes (dec_file d))\<rparr>)"
    using end_of_file [OF assms] by metis
  then show ?thesis using assms(2) by (subst skip_segments.simps) simp
qed

text \<open>A read of the cache hands out the next bytes of the decrypted file, fewer only at its end.\<close>

lemma take_unread:
  assumes "in_last_segment d" "len \<le> length (unread d) \<or> unread d = rest_of d"
  obtains d' where "d' = d\<lparr>dec_cache_cursor := dec_cache_cursor d + length (take len (unread d))\<rparr>" "take len (unread d) = take len (rest_of d)"
    "in_last_segment d'" "rest_of d' = drop len (rest_of d)" "same_decoding d d'"
proof -
  let ?n = "length (take len (unread d))"
  define d' where "d' = d\<lparr>dec_cache_cursor := dec_cache_cursor d + ?n\<rparr>"
  have u: "unread d = take (length (unread d)) (rest_of d)" "length (unread d) \<le> dec_cursor d" using assms(1) by (simp_all add: in_last_segment_def)
  have tk: "take len (unread d) = take len (rest_of d)" using assms(2) u(1) by (metis min.absorb1 take_take)
  have fd: "dec_cache_cursor d' = dec_cache_cursor d + ?n" "dec_cache d' = dec_cache d" "dec_cursor d' = dec_cursor d" "seg_enc d' = seg_enc d"
    "seg_blob d' = seg_blob d" "seg_end d' = seg_end d" "dec_file d' = dec_file d"
    by (simp_all add: d'_def del: length_take)
  have un: "unread d' = drop ?n (unread d)" unfolding unread_def fd by (simp add: add.commute)
  have n: "?n \<le> length (unread d)" by simp
  have rp: "read_pos d' = read_pos d + ?n" unfolding read_pos_def un fd length_drop using u(2) n by linarith
  have dr: "rest_of d' = drop ?n (rest_of d)"
    unfolding rest_of_def rp fd seg_cipher.crypt_drop drop_drop by (simp only: add.commute)
  have "drop ?n (rest_of d) = drop len (rest_of d)" unfolding tk by (cases "len \<le> length (rest_of d)") simp_all
  moreover have "unread d' = take (length (unread d')) (rest_of d')"
    unfolding un dr using u(1) by (metis drop_take length_drop)
  moreover have "dec_cache_cursor d + ?n \<le> length (dec_cache d)" "length (unread d') \<le> dec_cursor d"
  proof -
    have "dec_cache_cursor d \<le> length (dec_cache d)" using assms(1) by (simp only: in_last_segment_def)
    moreover have "length (unread d) = length (dec_cache d) - dec_cache_cursor d" by (simp add: unread_def)
    ultimately show "dec_cache_cursor d + ?n \<le> length (dec_cache d)" using n by linarith
    show "length (unread d') \<le> dec_cursor d" unfolding un length_drop using u(2) by linarith
  qed
  ultimately have "in_last_segment d'" "rest_of d' = drop len (rest_of d)"
    using assms(1) dr unfolding in_last_segment_def fd by (metis, metis)
  moreover have "same_decoding d d'" unfolding same_decoding_def d'_def by simp
  ultimately show ?thesis using that [OF d'_def tk] by blast
qed

lemma dec_read_spec:
  assumes ok: "in_last_segment d"
  obtains d' where "dec_read_with_cache p len d = Some (take len (rest_of d), d')" "in_last_segment d'" "rest_of d' = drop len (rest_of d)"
    "same_decoding d d'"
proof -
  have left: "length (dec_cache d) - dec_cache_cursor d = length (unread d)" by (simp add: unread_def)
  have un: "drop (dec_cache_cursor x) (dec_cache x) = unread x" for x by (simp add: unread_def)
  show ?thesis
  proof (cases "length (unread d) < len")
    case False
    then obtain d' where d': "d' = d\<lparr>dec_cache_cursor := dec_cache_cursor d + length (take len (unread d))\<rparr>" "take len (unread d) = take len (rest_of d)"
      "in_last_segment d'" "rest_of d' = drop len (rest_of d)" "same_decoding d d'"
      using take_unread [OF ok, of len] by fastforce
    then have "dec_read_with_cache p len d = Some (take len (rest_of d), d')"
      unfolding dec_read_with_cache_def left Let_def if_not_P [OF False] Option.bind.bind_lunit prod.case un d'(1) by simp
    then show ?thesis using d' that by blast
  next
    case True
    show ?thesis
    proof (cases "unread d = [] \<and> dec_cursor d = seg_end d")
      case eof: True
      let ?d = "d\<lparr>dec_file_size := length (file_bytes (dec_file d))\<rparr>"
      have z: "rest_of d = []" using eof ok by (simp add: rest_of_def read_pos_def in_last_segment_def length_0_conv [symmetric] del: length_0_conv)
      have "dec_read_with_cache p len d = Some (take len (rest_of d), ?d)"
        using eof True by (simp add: dec_read_with_cache_def left skip_at_end [OF ok] z)
      moreover have e: "unread ?d = unread d" "rest_of ?d = rest_of d" by (simp_all add: unread_def rest_of_def read_pos_def)
      then have "in_last_segment ?d" using ok by (simp add: in_last_segment_def)
      moreover have "same_decoding d ?d" by (simp add: same_decoding_def)
      ultimately show ?thesis using that [of ?d] e z by simp
    next
      case inside: False
      have sk: "(if length (unread d) = 0 then skip_segments d else Some (True, d)) = Some (True, d)"
        using inside by (simp add: skip_in_segment)
      obtain d1 where d1: "fill_cache p (length (unread d)) len d = Some d1" "in_last_segment d1" "rest_of d1 = rest_of d" "same_decoding d d1"
        "len \<le> length (unread d1) \<or> unread d1 = rest_of d1"
        using fill_cache_spec [OF ok True] by metis
      obtain d' where d': "d' = d1\<lparr>dec_cache_cursor := dec_cache_cursor d1 + length (take len (unread d1))\<rparr>" "take len (unread d1) = take len (rest_of d1)"
        "in_last_segment d'" "rest_of d' = drop len (rest_of d1)" "same_decoding d1 d'"
        using take_unread [OF d1(2,5)] by metis
      have "dec_read_with_cache p len d = Some (take len (rest_of d), d')"
        unfolding dec_read_with_cache_def left Let_def if_P [OF True] sk Option.bind.bind_lunit prod.case if_True d1(1) option.map un
        using d'(1,2) d1(3) by simp
      then show ?thesis using d' d1(3) same_decoding_trans [OF d1(4) d'(5)] that by simp
    qed
  qed
qed

section \<open>Reading the head of a segment\<close>

text \<open>What stands in front of the payload of a segment: the head and, in an encrypted one, the keys of the stream key \<open>blob\<close>.\<close>

definition seg_front :: "u8 list \<Rightarrow> segment_type \<Rightarrow> encryption_type \<Rightarrow> u8 list" where
  "seg_front keys ty enc = segment_head no_next_segment ty enc @ (if enc = Rsa_aes_xor then keys else [])"

definition opens :: "private_key \<Rightarrow> encryption_type \<Rightarrow> u8 list \<Rightarrow> u8 list \<Rightarrow> bool" where
  "opens pri enc keys blob \<longleftrightarrow> (if enc = Rsa_aes_xor then length (pri_n pri) = 256 \<and> length keys = get_encryption_keys_size
     \<and> read_segment_keys pri keys = Some (Some blob) \<and> length blob = get_xor_key_blob_size else blob = [])"

lemma parse_written_head: "parse_segment_head (segment_head n ty enc) = Some (n, ty, enc)"
  by (cases ty; cases enc) (simp_all add: parse_segment_head_def segment_head_def enc_of_code_def seg_of_code_def nth_append le_word_le_bytes_id)

lemma length_segment_head [simp]: "length (segment_head n ty enc) = 12"
  by (simp add: segment_head_def)

lemma enter_last_segment:
  assumes F: "file_bytes (dec_file d) = pre @ seg_front keys ty enc @ body" "seg_end d = length pre" "length pre < 2 ^ 31"
    and small: "length (file_bytes (dec_file d)) < 2 ^ 31"
    and here: "dec_cursor d = length pre \<longrightarrow> file_pos (dec_file d) = length pre \<and> dec_cache d = [] \<and> dec_cache_cursor d = 0"
    and key: "opens (dec_private_key d) enc keys blob"
  obtains d' where "read_to_next_segment d = Some (Decode_success, d')" "in_last_segment d'" "rest_of d' = seg_crypt enc blob (length (pre @ seg_front keys ty enc)) body"
    "decoded_text d' = decoded_text d @ recovery_marks (if length pre = 8 then Normal_segment else seg_type d) ty" "category_names d' = category_names d"
    "dec_zone d' = dec_zone d" "dec_layout d' = dec_layout d" "file_bytes (dec_file d') = file_bytes (dec_file d)"
proof -
  let ?F = "file_bytes (dec_file d)" and ?s = "length pre" and ?front = "length (pre @ seg_front keys ty enc)"
  define d1 where "d1 = d\<lparr>dec_file_size := length ?F, dec_cache_cursor := 0, dec_cache := [],
     dec_file := (dec_file d)\<lparr>file_pos := ?s\<rparr>, dec_cursor := ?s\<rparr>"
  have sk: "dec_seek_absolute (seg_end d) (d\<lparr>dec_file_size := length ?F\<rparr>) = (True, d1)"
  proof (cases "dec_cursor d = ?s")
    case True
    then show ?thesis using here F(2) by (simp add: d1_def dec_seek_absolute_def)
  next
    case False
    then show ?thesis using F(2,3) seek_small [of ?s "d\<lparr>dec_file_size := length ?F\<rparr>"] by (simp add: d1_def)
  qed
  have dr: "drop ?s ?F = segment_head no_next_segment ty enc @ (if enc = Rsa_aes_xor then keys else []) @ body"
    by (simp add: F(1) seg_front_def)
  define d2 where "d2 = d1\<lparr>dec_file := (dec_file d)\<lparr>file_pos := ?s + 12\<rparr>, dec_cursor := ?s + 12\<rparr>"
  have rd: "read_from_file_directly 12 d1 = (segment_head no_next_segment ty enc, d2)"
    by (simp add: read_from_file_directly_def file_manager_read_file_def d1_def d2_def dr)
  define d3 where "d3 = d2\<lparr>seg_blob := blob, dec_file := (dec_file d)\<lparr>file_pos := ?front\<rparr>, dec_cursor := ?front\<rparr>"
  have keys: "(if enc = Plaintext then Some (Some [], d2\<lparr>seg_blob := []\<rparr>)
      else if length (pri_n (dec_private_key (d2\<lparr>seg_blob := []\<rparr>))) \<noteq> 256 then Some (None, d2\<lparr>seg_blob := []\<rparr>)
      else (case read_from_file_directly get_encryption_keys_size (d2\<lparr>seg_blob := []\<rparr>) of
              (enc_data, d) \<Rightarrow>
                if length enc_data < get_encryption_keys_size then Some (None, d)
                else map_option (\<lambda>blob. (blob, d)) (read_segment_keys (dec_private_key d) enc_data)))
      = Some (Some blob, d3\<lparr>seg_blob := []\<rparr>)"
  proof (cases enc)
    case Plaintext
    then show ?thesis using key by (simp add: opens_def d3_def d2_def d1_def seg_front_def)
  next
    case Rsa_aes_xor
    have k: "length (pri_n (dec_private_key d)) = 256" "length keys = get_encryption_keys_size" "read_segment_keys (dec_private_key d) keys = Some (Some blob)"
      using key Rsa_aes_xor by (simp_all add: opens_def)
    have "take get_encryption_keys_size (drop (12 + ?s) ?F) = keys"
      using Rsa_aes_xor k(2) dr by (simp add: drop_drop [symmetric] del: drop_drop)
    then have "read_from_file_directly get_encryption_keys_size (d2\<lparr>seg_blob := []\<rparr>) = (keys, d3\<lparr>seg_blob := []\<rparr>)"
      using Rsa_aes_xor k(2) by (simp add: read_from_file_directly_def file_manager_read_file_def d3_def d2_def d1_def seg_front_def add.commute add.left_commute)
    then show ?thesis using Rsa_aes_xor k by (simp add: d3_def d2_def d1_def)
  qed
  define d' where "d' = d3\<lparr>seg_enc := enc, seg_start := ?s, seg_end := length ?F, seg_type := ty,
     decoded_text := decoded_text d3 @ recovery_marks (if ?s = 8 then Normal_segment else seg_type d3) ty\<rparr>"
  have b: "(d3\<lparr>seg_blob := []\<rparr>)\<lparr>seg_blob := blob\<rparr> = d3" "dec_file_size d3 = length ?F" by (simp_all add: d3_def d2_def d1_def)
  have len: "\<not> length (segment_head no_next_segment ty enc) < 12" by simp
  have res: "read_to_next_segment d = Some (Decode_success, d')"
    unfolding read_to_next_segment_def Let_def sk prod.case bool.case rd if_not_P [OF len] parse_written_head option.case keys b
    by (simp add: d'_def F(2))
  have fd: "dec_cache d' = []" "dec_cursor d' = ?front" "seg_enc d' = enc" "seg_blob d' = blob" "seg_end d' = length ?F" "file_bytes (dec_file d') = ?F"
    "file_pos (dec_file d') = ?front" "dec_cache_cursor d' = 0"
    by (simp_all add: d'_def d3_def d2_def d1_def)
  have un: "unread d' = []" by (simp add: unread_def fd)
  have lF: "?front \<le> length ?F" by (simp add: F(1))
  have bl: "enc = Rsa_aes_xor \<longrightarrow> length blob = get_xor_key_blob_size" using key by (auto simp: opens_def)
  have rp: "read_pos d' = ?front" unfolding read_pos_def un fd by simp
  have "drop ?front ?F = body" by (simp add: F(1))
  then have rs: "rest_of d' = seg_crypt enc blob ?front body" unfolding rest_of_def rp fd by (simp only:)
  have "in_last_segment d'" unfolding in_last_segment_def un fd using lF small bl by simp
  moreover have "decoded_text d' = decoded_text d @ recovery_marks (if ?s = 8 then Normal_segment else seg_type d) ty" "category_names d' = category_names d"
    "dec_zone d' = dec_zone d" "dec_layout d' = dec_layout d"
    by (simp_all add: d'_def d3_def d2_def d1_def)
  ultimately show ?thesis using that [OF res _ rs _ _ _ _ fd(6)] by blast
qed

section \<open>Reading the entries\<close>

text \<open>The texts that the layout gives to the entries one after the other.\<close>

fun entry_texts :: "libc \<Rightarrow> simd_target \<Rightarrow> bool \<Rightarrow> u8 list list \<Rightarrow> time_zone \<Rightarrow> u8 list list \<Rightarrow> layout \<Rightarrow> u8 list list option" where
  "entry_texts c t simd names z [] l = Some []"
| "entry_texts c t simd names z (e # es) l =
     Option.bind (do_layout c t simd names (map Some e) (l\<lparr>layout_zone := z\<rparr>)) (\<lambda>(r, l, s).
       if r = Finished then map_option (Cons s) (entry_texts c t simd names z es l) else None)"

text \<open>The results and texts of \<open>n\<close> calls of the decoder.\<close>

fun decode_calls :: "platform \<Rightarrow> libc \<Rightarrow> simd_target \<Rightarrow> bool \<Rightarrow> nat \<Rightarrow> binary_decoder \<Rightarrow> (appender_decode_result \<times> u8 list) list option" where
  "decode_calls p c t simd 0 d = Some []"
| "decode_calls p c t simd (Suc n) d =
     Option.bind (decode (raw_decode_private p c t simd) d) (\<lambda>(r, d). map_option (Cons (r, decoded_text d)) (decode_calls p c t simd n d))"

lemma without_text_aux:
  "unread (d\<lparr>decoded_text := s\<rparr>) = unread d" "rest_of (d\<lparr>decoded_text := s\<rparr>) = rest_of d"
  "unread (d\<lparr>dec_layout := l\<rparr>) = unread d" "rest_of (d\<lparr>dec_layout := l\<rparr>) = rest_of d"
  by (simp_all add: rest_of_def read_pos_def unread_def)

lemma without_text:
  "in_last_segment d \<Longrightarrow> in_last_segment (d\<lparr>decoded_text := s\<rparr>)" "rest_of (d\<lparr>decoded_text := s\<rparr>) = rest_of d"
  "in_last_segment d \<Longrightarrow> in_last_segment (d\<lparr>dec_layout := l\<rparr>)" "rest_of (d\<lparr>dec_layout := l\<rparr>) = rest_of d"
  unfolding in_last_segment_def without_text_aux by simp_all

lemma decode_done:
  assumes "f d = Some (r, d')" "r = Decode_success \<or> r = Decode_eof"
  shows "decode f d = Some (r, d')"
proof -
  have "decode_loop f False d = Some (r, False, d')"
    by (subst decode_loop.simps) (use assms in simp)
  then show ?thesis by (simp add: decode_def)
qed

lemma decode_raw_item:
  assumes ok: "in_last_segment d" and rest: "rest_of d = raw_item e @ r" and small: "length e < 2 ^ 32"
    and lay: "do_layout c t simd (category_names d) (map Some e) ((dec_layout d)\<lparr>layout_zone := dec_zone d\<rparr>) = Some (Finished, l, s)"
  obtains d' where "decode (raw_decode_private p c t simd) d = Some (Decode_success, d')" "in_last_segment d'" "rest_of d' = r" "decoded_text d' = s"
    "category_names d' = category_names d" "dec_zone d' = dec_zone d" "dec_layout d' = l"
proof -
  let ?d = "d\<lparr>decoded_text := []\<rparr>"
  have n: "unat (le_word (le_bytes 4 (of_nat (length e) :: u32)) :: u32) = length e"
    using small by (simp add: le_word_le_bytes_id unsigned_of_nat take_bit_nat_eq_self)
  have ne: "le_bytes 4 (of_nat (length e) :: u32) \<noteq> []" by (simp add: length_0_conv [symmetric] del: length_0_conv)
  obtain d1 where d1: "dec_read_with_cache p 4 ?d = Some (take 4 (rest_of ?d), d1)" "in_last_segment d1" "rest_of d1 = drop 4 (rest_of ?d)"
    "same_decoding ?d d1" by (rule dec_read_spec [OF without_text(1) [OF ok]])
  have r1: "take 4 (rest_of ?d) = le_bytes 4 (of_nat (length e) :: u32)" "rest_of d1 = e @ r"
    by (simp_all add: d1(3) without_text rest raw_item_def)
  obtain d2 where d2: "dec_read_with_cache p (length e) d1 = Some (take (length e) (rest_of d1), d2)" "in_last_segment d2"
    "rest_of d2 = drop (length e) (rest_of d1)" "same_decoding d1 d2" by (rule dec_read_spec [OF d1(2)])
  have r2: "take (length e) (rest_of d1) = e" "rest_of d2 = r" by (simp_all add: d2(3) r1)
  have s: "same_decoding ?d d2" using same_decoding_trans [OF d1(4) d2(4)] .
  define d3 where "d3 = d2\<lparr>dec_layout := l, decoded_text := s\<rparr>"
  have "do_decode_by_log_entry_handle c t simd e d2 = Some (Decode_success, d3)"
    using s lay by (simp add: do_decode_by_log_entry_handle_def same_decoding_def d3_def)
  then have "raw_decode_private p c t simd d = Some (Decode_success, d3)"
    using d1(1) d2(1) n by (simp add: raw_decode_private_def Let_def r1(1) r2(1) ne)
  from decode_done [where f = "raw_decode_private p c t simd", OF this] have "decode (raw_decode_private p c t simd) d = Some (Decode_success, d3)" by simp
  moreover have "in_last_segment d3" "rest_of d3 = r" using d2(2) r2(2) without_text by (simp_all add: d3_def)
  ultimately show ?thesis using s that by (simp add: same_decoding_def d3_def)
qed

lemma decode_at_end:
  assumes ok: "in_last_segment d" and rest: "rest_of d = []"
  obtains d' where "decode (raw_decode_private p c t simd) d = Some (Decode_eof, d')" "decoded_text d' = []"
proof -
  let ?d = "d\<lparr>decoded_text := []\<rparr>"
  obtain d1 where d1: "dec_read_with_cache p 4 ?d = Some (take 4 (rest_of ?d), d1)" "same_decoding ?d d1"
    by (rule dec_read_spec [OF without_text(1) [OF ok]])
  then have "raw_decode_private p c t simd d = Some (Decode_eof, d1)" by (simp add: raw_decode_private_def without_text rest)
  from decode_done [where f = "raw_decode_private p c t simd", OF this] show ?thesis using d1(2) that by (simp add: same_decoding_def)
qed

lemma decode_raw_items:
  assumes "in_last_segment d" "rest_of d = concat (map raw_item es)" "\<forall>e \<in> set es. length e < 2 ^ 32"
    "entry_texts c t simd (category_names d) (dec_zone d) es (dec_layout d) = Some texts"
  shows "decode_calls p c t simd (length es + 1) d = Some (map (Pair Decode_success) texts @ [(Decode_eof, [])])"
  using assms
proof (induction es arbitrary: d texts)
  case Nil
  obtain d' where "decode (raw_decode_private p c t simd) d = Some (Decode_eof, d')" "decoded_text d' = []"
    using decode_at_end [OF Nil.prems(1), of p c t simd] Nil.prems(2) by auto
  then show ?case using Nil.prems(4) by simp
next
  case (Cons e es)
  obtain l s texts' where l: "do_layout c t simd (category_names d) (map Some e) ((dec_layout d)\<lparr>layout_zone := dec_zone d\<rparr>) = Some (Finished, l, s)"
    "entry_texts c t simd (category_names d) (dec_zone d) es l = Some texts'" "texts = s # texts'"
    using Cons.prems(4) by (auto simp: bind_eq_Some_conv split: if_splits)
  obtain d' where d': "decode (raw_decode_private p c t simd) d = Some (Decode_success, d')" "in_last_segment d'" "rest_of d' = concat (map raw_item es)"
    "decoded_text d' = s" "category_names d' = category_names d" "dec_zone d' = dec_zone d" "dec_layout d' = l"
    using decode_raw_item [OF Cons.prems(1) _ _ l(1), of "concat (map raw_item es)" p] Cons.prems(2,3) by auto
  then have "decode_calls p c t simd (length es + 1) d' = Some (map (Pair Decode_success) texts' @ [(Decode_eof, [])])"
    using Cons.IH [of d' texts'] Cons.prems(3) l(2) by simp
  then show ?case using d'(1,4) l(3) by simp
qed

section \<open>Opening the file\<close>

lemma read_categories_spec:
  assumes "in_last_segment d" "rest_of d = concat (map category_bytes names) @ r" "\<forall>n \<in> set names. length n < 2 ^ 32"
    "[] \<notin> set (if i = 0 then tl names else names)"
  obtains d' where "read_categories p i (length names) d = Some (Decode_success, d')" "in_last_segment d'" "rest_of d' = r"
    "category_names d' = category_names d @ names" "decoded_text d' = decoded_text d" "dec_zone d' = dec_zone d" "dec_layout d' = dec_layout d"
proof -
  have "\<exists>d'. read_categories p i (length names) d = Some (Decode_success, d') \<and> in_last_segment d' \<and> rest_of d' = r
    \<and> category_names d' = category_names d @ names \<and> decoded_text d' = decoded_text d \<and> dec_zone d' = dec_zone d \<and> dec_layout d' = dec_layout d"
    using assms
  proof (induction names arbitrary: i d)
    case Nil
    then show ?case by auto
  next
    case (Cons n names)
    let ?h = "le_bytes 4 (of_nat (length n) :: u32)"
    have len: "unat (le_word ?h :: u32) = length n"
      using Cons.prems(3) by (simp add: le_word_le_bytes_id unsigned_of_nat take_bit_nat_eq_self)
    obtain d1 where d1: "dec_read_with_cache p 4 d = Some (take 4 (rest_of d), d1)" "in_last_segment d1" "rest_of d1 = drop 4 (rest_of d)" "same_decoding d d1"
      by (rule dec_read_spec [OF Cons.prems(1)])
    have r1: "take 4 (rest_of d) = ?h" "rest_of d1 = n @ concat (map category_bytes names) @ r"
      by (simp_all add: d1(3) Cons.prems(2) category_bytes_def [of n])
    have stay: "in_last_segment (x\<lparr>category_names := y\<rparr>) = in_last_segment x" "rest_of (x\<lparr>category_names := y\<rparr>) = rest_of x" for x y
      by (simp_all add: in_last_segment_def rest_of_def read_pos_def unread_def)
    obtain d2 where d2: "(if length n > 0 then dec_read_with_cache p (length n) d1 else Some ([], d1)) = Some (n, d2)" "in_last_segment d2"
      "rest_of d2 = concat (map category_bytes names) @ r" "same_decoding d d2"
    proof (cases "n = []")
      case True
      then show ?thesis using that [of d1] d1(2,4) r1(2) by simp
    next
      case False
      obtain d2 where "dec_read_with_cache p (length n) d1 = Some (take (length n) (rest_of d1), d2)" "in_last_segment d2"
        "rest_of d2 = drop (length n) (rest_of d1)" "same_decoding d1 d2" by (rule dec_read_spec [OF d1(2)])
      then show ?thesis using that [of d2] r1(2) False same_decoding_trans [OF d1(4)] by simp
    qed
    let ?d = "d2\<lparr>category_names := category_names d2 @ [n]\<rparr>"
    have later: "[] \<notin> set (if i + 1 = 0 then tl names else names)" using Cons.prems(4) by (cases "i = 0") auto
    have first: "length n = 0 \<Longrightarrow> i = 0" using Cons.prems(4) by (cases "i = 0") auto
    obtain d' where d': "read_categories p (i + 1) (length names) ?d = Some (Decode_success, d')" "in_last_segment d'" "rest_of d' = r"
      "category_names d' = category_names ?d @ names" "decoded_text d' = decoded_text ?d" "dec_zone d' = dec_zone ?d" "dec_layout d' = dec_layout ?d"
      using Cons.IH [of ?d "i + 1"] d2(2,3) Cons.prems(3) later stay by auto
    have "read_categories p i (length (n # names)) d = read_categories p (i + 1) (length names) ?d"
    proof (cases "n = []")
      case True
      then have "d2 = d1" "i = 0" using d2(1) first by simp_all
      then show ?thesis using True len by (simp add: d1(1) r1(1) Let_def)
    next
      case False
      then have "dec_read_with_cache p (length n) d1 = Some (n, d2)" using d2(1) by simp
      then show ?thesis using False len by (simp add: d1(1) r1(1) Let_def)
    qed
    then show ?case using d' d2(4) by (auto simp: same_decoding_def)
  qed
  then show ?thesis using that by blast
qed

lemma length_payload_metadata: "31 \<le> length filler \<Longrightarrow> length (payload_metadata filler z n) = 52"
proof -
  have "length (takeWhile (\<lambda>b. b \<noteq> 0) (take 31 (map of_char (time_zone_str z) :: u8 list))) \<le> 31"
    by (rule order_trans [OF length_takeWhile_le]) simp
  then show "31 \<le> length filler \<Longrightarrow> length (payload_metadata filler z n) = 52" by (simp add: payload_metadata_def Let_def)
qed

lemma metadata_count:
  assumes "31 \<le> length filler" "n < 2 ^ 32"
  shows "unat (le_word (drop 48 (payload_metadata filler z n)) :: u32) = n" "take 3 (payload_metadata filler z n) = [2, 2, 7]"
proof -
  obtain A where A: "payload_metadata filler z n = A @ le_bytes 4 (of_nat n :: u32)"
    by (simp add: payload_metadata_def Let_def)
  then have "length A = 48" using length_payload_metadata [OF assms(1), of z n] by simp
  then show "unat (le_word (drop 48 (payload_metadata filler z n)) :: u32) = n"
    using assms(2) by (simp add: A le_word_le_bytes_id unsigned_of_nat take_bit_nat_eq_self)
  show "take 3 (payload_metadata filler z n) = [2, 2, 7]" by (simp add: payload_metadata_def Let_def)
qed

text \<open>
  A zone whose numbers fit into the 32 bits of their fields, and whose name into the 31 characters of its field. The decoder gets it
  back, with an empty cache for the text of the time.
\<close>

definition zone_ok :: "time_zone \<Rightarrow> bool" where
  "zone_ok z \<longleftrightarrow> (\<forall>i \<in> {gmt_offset_hours z, gmt_offset_minutes z, time_zone_diff_to_gmt_ms z}. - (2 ^ 31) \<le> i \<and> i < 2 ^ 31)
     \<and> length (time_zone_str z) \<le> 31 \<and> CHR 0x00 \<notin> set (time_zone_str z)"

definition uncached :: "time_zone \<Rightarrow> time_zone" where
  "uncached z = z\<lparr>time_cache := '''', last_time_epoch_cache := 0\<rparr>"

lemma unat_of_char: "unat (of_char c :: u8) = of_char c"
proof -
  have "(of_char c :: u8) = of_nat (of_char c)" by (simp only: of_nat_of_char)
  moreover have "(of_char c :: nat) < 256" by simp
  ultimately show ?thesis by (simp only: unsigned_of_nat) (simp add: take_bit_nat_eq_self)
qed

lemma byte_of_char_eq_0: "(of_char c :: u8) = 0 \<longleftrightarrow> c = CHR 0x00"
proof -
  have "(of_char c :: u8) = 0 \<longleftrightarrow> (of_char c :: nat) = of_char (CHR 0x00)"
    using unat_of_char [of c] unat_eq_zero [of "of_char c :: u8"] by simp
  then show ?thesis by (simp only: of_char_eq_iff)
qed

lemma i32_field: "- (2 ^ 31) \<le> i \<Longrightarrow> i < 2 ^ 31 \<Longrightarrow> sint (word_of_int i :: u32) = i"
  by (simp add: sint_sbintrunc' signed_take_bit_int_eq_self)

lemma char_field: "CHR 0x00 \<notin> set s \<Longrightarrow> map (\<lambda>b :: u8. char_of (unat b)) (takeWhile (\<lambda>b. b \<noteq> 0) (map of_char s @ 0 # r)) = s"
  by (induction s) (auto simp: byte_of_char_eq_0 unat_of_char)

lemma metadata_zone:
  assumes z: "zone_ok z" and filler: "31 \<le> length filler"
  shows "zone_of_metadata (payload_metadata filler z n) = uncached z"
proof -
  let ?s = "map of_char (time_zone_str z) :: u8 list"
  have l: "length ?s \<le> 31" "\<forall>b \<in> set ?s. b \<noteq> 0" "CHR 0x00 \<notin> set (time_zone_str z)"
    using z by (auto simp: zone_ok_def byte_of_char_eq_0)
  then have s: "takeWhile (\<lambda>b. b \<noteq> 0) (take 31 ?s) = ?s" by (simp add: takeWhile_eq_all_conv)
  let ?c = "le_bytes 4 (of_nat n :: u32)"
  define name where "name = ?s @ 0 # take (31 - length ?s) filler"
  have m: "payload_metadata filler z n = [2, 2, 7, if use_local_time z then 1 else 0] @ le_bytes 4 (word_of_int (gmt_offset_hours z) :: u32)
      @ le_bytes 4 (word_of_int (gmt_offset_minutes z) :: u32) @ le_bytes 4 (word_of_int (time_zone_diff_to_gmt_ms z) :: u32)
      @ name @ ?c"
    unfolding payload_metadata_def Let_def s name_def by simp
  have "length name = 32" using l(1) filler by (simp add: name_def)
  then have "take 32 (drop 16 (payload_metadata filler z n)) = name" unfolding m by simp
  moreover have "payload_metadata filler z n ! 3 = (if use_local_time z then 1 else 0)" "take 4 (drop 4 (payload_metadata filler z n)) = le_bytes 4 (word_of_int (gmt_offset_hours z) :: u32)"
    "take 4 (drop 8 (payload_metadata filler z n)) = le_bytes 4 (word_of_int (gmt_offset_minutes z) :: u32)"
    "take 4 (drop 12 (payload_metadata filler z n)) = le_bytes 4 (word_of_int (time_zone_diff_to_gmt_ms z) :: u32)"
    unfolding m by simp_all
  ultimately show ?thesis using z char_field [OF l(3)]
    by (cases z) (simp add: zone_of_metadata_def restore_by_config_def uncached_def zone_ok_def i32_field zone_reset_def name_def)
qed

definition key_given :: "u8 list \<Rightarrow> private_key \<Rightarrow> bool" where
  "key_given str key \<longleftrightarrow> (if str = [] then key = no_private_key else parse_private_key_pem str = Rsa_ok key \<and> length (pri_n key) = 256)"

lemma file_header_read: "length (file_header k) = 8" "le_word (take 4 (file_header k)) = binary_format_version k"
  by (simp_all add: file_header_def le_word_le_bytes_id)

lemma decoder_opens:
  assumes F: "file_bytes f = file_header k @ seg_front keys Normal_segment enc
      @ seg_crypt enc blob (length (file_header k @ seg_front keys Normal_segment enc))
          (payload_metadata filler z (length names) @ concat (map category_bytes names) @ r)"
    and small: "length (file_bytes f) < 2 ^ 31" and filler: "31 \<le> length filler"
    and names: "\<forall>n \<in> set names. length n < 2 ^ 32" "names \<noteq> []" "[] \<notin> set (tl names)" "length names < 2 ^ 32"
    and key: "key_given str key" "opens key enc keys blob"
  obtains d where "binary_decoder_init p k f str = Some (Decode_success, d)" "in_last_segment d" "rest_of d = r" "category_names d = names"
    "dec_zone d = zone_of_metadata (payload_metadata filler z (length names))" "dec_layout d = dec_layout (new_decoder f)" "decoded_text d = []"
proof -
  let ?m = "payload_metadata filler z (length names)" and ?body = "payload_metadata filler z (length names) @ concat (map category_bytes names) @ r"
  let ?cb = "seg_crypt enc blob (length (file_header k @ seg_front keys Normal_segment enc)) ?body"
  have lm: "length ?m = 52" by (rule length_payload_metadata [OF filler])
  have lb: "length ?body > 52" using lm names(2) by (cases names) (simp_all add: category_bytes_def)
  have big: "\<not> length (file_bytes f) \<le> 8 + 12 + 52"
    using lb by (simp add: F file_header_read seg_front_def)
  define d0 where "d0 = (new_decoder f)\<lparr>dec_file_size := length (file_bytes f)\<rparr>"
  define d1 where "d1 = d0\<lparr>dec_cache_cursor := 0, dec_cache := [], dec_file := (dec_file d0)\<lparr>file_pos := 0\<rparr>, dec_cursor := 0\<rparr>"
  have sk: "dec_seek_absolute 0 d0 = (True, d1)"
    unfolding d1_def by (rule seek_small) (simp_all add: d0_def new_decoder_def)
  define d2 where "d2 = d1\<lparr>dec_file := (dec_file d0)\<lparr>file_pos := 8\<rparr>, dec_cursor := 8\<rparr>"
  have rd: "read_from_file_directly 8 d1 = (file_header k, d2)"
    by (simp add: read_from_file_directly_def file_manager_read_file_def d2_def d1_def d0_def new_decoder_def F file_header_read)
  define d3 where "d3 = d2\<lparr>dec_private_key := key, seg_end := 8\<rparr>"
  have fd: "file_bytes (dec_file d3) = file_bytes f" "dec_cursor d3 = 8" "file_pos (dec_file d3) = 8" "dec_cache d3 = []" "dec_cache_cursor d3 = 0"
    "seg_end d3 = 8" "dec_private_key d3 = key" "category_names d3 = []" "decoded_text d3 = []" "dec_layout d3 = dec_layout (new_decoder f)"
    by (simp_all add: d3_def d2_def d1_def d0_def new_decoder_def)
  have e: "file_bytes (dec_file d3) = file_header k @ seg_front keys Normal_segment enc @ ?cb" "seg_end d3 = length (file_header k)" "length (file_header k) < 2 ^ 31"
    "length (file_bytes (dec_file d3)) < 2 ^ 31"
    "dec_cursor d3 = length (file_header k) \<longrightarrow> file_pos (dec_file d3) = length (file_header k) \<and> dec_cache d3 = [] \<and> dec_cache_cursor d3 = 0"
    "opens (dec_private_key d3) enc keys blob"
    using small key(2) by (simp_all add: fd F file_header_read)
  obtain d4 where d4: "read_to_next_segment d3 = Some (Decode_success, d4)" "in_last_segment d4"
    "rest_of d4 = seg_crypt enc blob (length (file_header k @ seg_front keys Normal_segment enc)) ?cb"
    "decoded_text d4 = decoded_text d3 @ recovery_marks (if length (file_header k) = 8 then Normal_segment else seg_type d3) Normal_segment"
    "category_names d4 = category_names d3" "dec_layout d4 = dec_layout d3"
    by (rule enter_last_segment [OF e])
  have r4: "rest_of d4 = ?body" "decoded_text d4 = []" "category_names d4 = []" "dec_layout d4 = dec_layout (new_decoder f)"
    using d4(3-6) by (simp_all add: seg_cipher.crypt_involution recovery_marks_def file_header_read fd)
  obtain d5 where d5: "dec_read_with_cache p 52 d4 = Some (take 52 (rest_of d4), d5)" "in_last_segment d5" "rest_of d5 = drop 52 (rest_of d4)" "same_decoding d4 d5"
    by (rule dec_read_spec [OF d4(2)])
  have r5: "take 52 (rest_of d4) = ?m" "rest_of d5 = concat (map category_bytes names) @ r" using lm by (simp_all add: d5(3) r4(1))
  define d6 where "d6 = d5\<lparr>dec_zone := zone_of_metadata ?m\<rparr>"
  have stay: "in_last_segment d6 = in_last_segment d5" "rest_of d6 = rest_of d5"
    by (simp_all add: d6_def in_last_segment_def rest_of_def read_pos_def unread_def)
  have i6: "in_last_segment d6" "rest_of d6 = concat (map category_bytes names) @ r" "[] \<notin> set (if 0 = (0 :: nat) then tl names else names)"
    using stay d5(2) r5(2) names(3) by simp_all
  obtain d7 where d7: "read_categories p 0 (length names) d6 = Some (Decode_success, d7)" "in_last_segment d7" "rest_of d7 = r"
    "category_names d7 = category_names d6 @ names" "decoded_text d7 = decoded_text d6" "dec_zone d7 = dec_zone d6" "dec_layout d7 = dec_layout d6"
    by (rule read_categories_spec [OF i6(1,2) names(1) i6(3)])
  have kp: "(if str = [] then Rsa_ok no_private_key else parse_private_key_pem str) = Rsa_ok key" "\<not> (str \<noteq> [] \<and> length (pri_n key) \<noteq> 256)"
    using key(1) by (auto simp: key_given_def split: if_splits)
  have b0: "\<not> dec_file_size d1 \<le> 8 + 12 + 52" using big by (simp add: d1_def d0_def)
  have v: "\<not> le_word (take 4 (file_header k)) \<noteq> binary_format_version k" by (simp add: file_header_read)
  have m: "\<not> length ?m \<noteq> 52" "\<not> take 3 ?m \<noteq> [2, 2, 7]" "unat (le_word (drop 48 ?m) :: u32) = length names"
    using lm metadata_count [OF filler names(4), of z] by simp_all
  have ok: "\<not> Decode_success \<noteq> Decode_success" by simp
  have "binary_decoder_init p k f str = Some (Decode_success, d7)"
    unfolding binary_decoder_init_def Let_def d0_def [symmetric] sk snd_conv if_not_P [OF b0] rd prod.case if_not_P [OF v] kp(1) rsa_result.case if_not_P [OF kp(2)]
      d3_def [symmetric] d4(1) Option.bind.bind_lunit if_not_P [OF ok] d5(1) r5(1) if_not_P [OF m(1)] if_not_P [OF m(2)] m(3) d6_def [symmetric] d7(1) ..
  moreover have "category_names d7 = names" "dec_zone d7 = zone_of_metadata ?m" "dec_layout d7 = dec_layout (new_decoder f)" "decoded_text d7 = []"
    using d7(4-7) d5(4) r4 by (simp_all add: d6_def same_decoding_def)
  ultimately show ?thesis using that d7(2,3) by blast
qed

section \<open>Creating the file\<close>

text \<open>What decides on a rotation, and a file that was just created, empty, on a disk that takes all bytes.\<close>

definition same_limits :: "binary_appender \<Rightarrow> binary_appender \<Rightarrow> bool" where
  "same_limits a b \<longleftrightarrow> max_file_size b = max_file_size a \<and> enable_rolling_log_file b = enable_rolling_log_file a
     \<and> current_file_expire_time b = current_file_expire_time a"

lemma limits_stay: "same_limits a b \<Longrightarrow> stays_in_file evs b = stays_in_file evs a"
  by (induction evs a rule: stays_in_file.induct) (auto simp: no_rotation_def same_limits_def)

definition new_file :: "binary_appender \<Rightarrow> bool" where
  "new_file a \<longleftrightarrow> write_cache_ok a \<and> cache_write a = [] \<and> \<not> disk_full_drop a \<and> cache_write_head_size a \<le> 2 ^ 16
     \<and> (\<exists>f. afile a = Some f \<and> file_bytes f = [] \<and> write_answers f = [])"

lemma direct_write_end:
  assumes "afile a = Some f" "write_answers f = []" "o' = Seek_end \<or> o' = Seek_current \<and> file_pos f = length (file_bytes f)"
    "file_pos f = length (file_bytes f)" "current_file_size a = length (file_bytes f)"
  shows "direct_write bs o' 0 a = (length bs, a\<lparr>afile := Some (f\<lparr>file_bytes := file_bytes f @ bs, file_pos := length (file_bytes f @ bs)\<rparr>),
     current_file_size := length (file_bytes f @ bs)\<rparr>)"
proof -
  obtain B P A where f: "f = \<lparr>file_bytes = B, file_pos = P, write_answers = A\<rparr>" by (cases f)
  show ?thesis
    using assms by (cases "bs = []") (auto simp: f direct_write_def file_manager_write_file_def file_seek_def platform_write_file_def overwrite_end)
qed

lemma write_pieces_end:
  assumes "afile a = Some f" "write_answers f = []" "file_pos f = length (file_bytes f)" "current_file_size a = length (file_bytes f)"
  shows "write_pieces ps a = (True, a\<lparr>afile := Some (f\<lparr>file_bytes := file_bytes f @ concat ps, file_pos := length (file_bytes f @ concat ps)\<rparr>),
     current_file_size := length (file_bytes f @ concat ps)\<rparr>)"
  using assms
proof (induction ps arbitrary: a f)
  case Nil
  obtain B P A where f: "f = \<lparr>file_bytes = B, file_pos = P, write_answers = A\<rparr>" by (cases f)
  show ?case using Nil by (simp add: f)
next
  case (Cons p ps)
  show ?case
    using Cons.prems by (simp add: direct_write_end [OF Cons.prems(1,2) _ Cons.prems(3,4)] Cons.IH)
qed

lemma scan_new_file:
  assumes "afile a = Some f" "file_bytes f = file_header k" "current_file_size a = 8"
  obtains c n e where "scan_segment_topology k (clear_read_cache a) = (Some no_topology, a\<lparr>afile := Some (f\<lparr>file_pos := 8\<rparr>), cache_read := c,
     cache_read_cursor := n, read_file_pos := 8, cache_read_eof := e\<rparr>)"
proof -
  have h: "length (file_header k) = 8" "le_word (take 4 (file_header k)) = binary_format_version k" "file_header k ! 4 = format_code (kind_format k)"
    by (simp_all add: file_header_def le_word_le_bytes_id nth_append)
  define a1 where "a1 = a\<lparr>afile := Some (f\<lparr>file_pos := 0\<rparr>), cache_read := [], cache_read_cursor := 0, read_file_pos := 0, cache_read_eof := False\<rparr>"
  define a2 where "a2 = a\<lparr>afile := Some (f\<lparr>file_pos := 8\<rparr>), cache_read := file_header k, cache_read_cursor := 8, read_file_pos := 8, cache_read_eof := False\<rparr>"
  have sk: "seek_read_file_absolute 0 (clear_read_cache a) = Some a1"
    using assms(1) by (simp add: a1_def clear_read_cache_def seek_read_file_absolute_def cast_i32_def file_seek_def)
  have rd: "read_with_cache 8 a1 = (file_header k, a2)"
    using assms h(1) by (simp add: a1_def a2_def read_with_cache_def Let_def file_manager_read_file_def cache_read_default_size_def)
  have "scan_segment_topology k (clear_read_cache a) = (Some no_topology, a2)"
    using assms h by (simp add: scan_segment_topology_def sk rd Let_def) (simp add: clear_read_cache_def)
  from that [OF this [unfolded a2_def]] show ?thesis .
qed

text \<open>The keys that are written, and those that are kept to encrypt with.\<close>

definition written_keys :: "binary_appender \<Rightarrow> segment_secrets \<Rightarrow> u8 list \<Rightarrow> bool" where
  "written_keys a secrets keys \<longleftrightarrow> enc_type a = Rsa_aes_xor \<longrightarrow>
     (\<exists>key iv blob. make_segment_keys (rsa_pub_key a) secrets = Some (key, iv, blob) \<and> keys = le_bytes 8 (rsa_key_fingerprint a) @ key @ iv @ blob
        \<and> length (fresh_blob secrets) = get_xor_key_blob_size)"

definition kept_key :: "binary_appender \<Rightarrow> segment_secrets \<Rightarrow> u8 list" where
  "kept_key a secrets = (if enc_type a = Rsa_aes_xor then fresh_blob secrets else [])"

lemma first_segment:
  assumes a: "write_cache_ok a" "afile a = Some f" "file_bytes f = file_header k" "write_answers f = []" "cache_write a = []" "current_file_is_new_created a"
    and head: "cache_write_head_size a \<le> 2 ^ 16" and keys: "written_keys a secrets keys"
  obtains b g where "append_new_segment k secrets Normal_segment a = Some (True, b)" "bin_ok b" "afile b = Some g"
    "file_bytes g = file_header k @ seg_front keys Normal_segment (enc_type a)" "write_answers g = []" "cache_write b = []" "finished_cursor b = 0"
    "enc_type b = enc_type a" "xor_key_blob b = kept_key a secrets" "disk_full_drop b = disk_full_drop a" "same_limits a b"
proof -
  have pos: "file_pos f = 8" "current_file_size a = 8" and fin: "finished_cursor a = 0"
    using a(1-3,5) by (auto simp: write_cache_ok_def file_header_read)
  obtain c n e where sc: "scan_segment_topology k (clear_read_cache a) = (Some no_topology, a\<lparr>afile := Some (f\<lparr>file_pos := 8\<rparr>), cache_read := c,
     cache_read_cursor := n, read_file_pos := 8, cache_read_eof := e\<rparr>)" by (rule scan_new_file [OF a(2,3) pos(2)])
  define a1 where "a1 = a\<lparr>afile := Some (f\<lparr>file_pos := 8\<rparr>), cache_read := c, cache_read_cursor := n, read_file_pos := 8, cache_read_eof := e\<rparr>"
  define h where "h = segment_head no_next_segment Normal_segment (enc_type a)"
  define f2 where "f2 = f\<lparr>file_bytes := file_header k @ h, file_pos := 20\<rparr>"
  define a2 where "a2 = a1\<lparr>afile := Some f2, current_file_size := 20\<rparr>"
  have w1: "direct_write h Seek_end 0 a1 = (12, a2)"
    using direct_write_end [of a1 "f\<lparr>file_pos := 8\<rparr>" Seek_end h] a pos by (simp add: a1_def a2_def f2_def h_def file_header_read)
  define f3 where "f3 = f\<lparr>file_bytes := file_header k @ seg_front keys Normal_segment (enc_type a), file_pos := length (file_header k @ seg_front keys Normal_segment (enc_type a))\<rparr>"
  define a3 where "a3 = a2\<lparr>afile := Some f3, current_file_size := length (file_bytes f3)\<rparr>"
  obtain key iv blob where mk: "(if enc_type a = Rsa_aes_xor then make_segment_keys (rsa_pub_key a) secrets else Some ([], [], [])) = Some (key, iv, blob)"
    and ks: "enc_type a = Rsa_aes_xor \<Longrightarrow> keys = concat [le_bytes 8 (rsa_key_fingerprint a), key, iv, blob] \<and> length (fresh_blob secrets) = get_xor_key_blob_size"
    using keys by (cases "enc_type a") (auto simp: written_keys_def)
  have w2: "(if enc_type a = Rsa_aes_xor then write_pieces [le_bytes 8 (rsa_key_fingerprint a), key, iv, blob] a2 else (True, a2)) = (True, a3)"
  proof (cases "enc_type a = Rsa_aes_xor")
    case True
    have p: "afile a2 = Some f2" "write_answers f2 = []" "file_pos f2 = length (file_bytes f2)" "current_file_size a2 = length (file_bytes f2)"
      using a by (simp_all add: a2_def f2_def h_def file_header_read)
    show ?thesis
      unfolding if_P [OF True] write_pieces_end [OF p] ks [OF True, THEN conjunct1, symmetric]
      using True by (simp add: a3_def f3_def f2_def h_def seg_front_def)
  next
    case False
    then show ?thesis by (simp add: a3_def f3_def a2_def f2_def h_def seg_front_def file_header_read)
  qed
  define a4 where "a4 = a3\<lparr>xor_key_blob := kept_key a secrets\<rparr>"
  have fd: "enc_type a1 = enc_type a" "enc_type a2 = enc_type a" "enc_type a3 = enc_type a" "rsa_pub_key a1 = rsa_pub_key a" "current_file_is_new_created a1"
    "rsa_key_fingerprint a2 = rsa_key_fingerprint a" "current_file_size a1 = 8" "rsa_key_fingerprint a1 = rsa_key_fingerprint a"
    using a(6) pos by (simp_all add: a1_def a2_def a3_def)
  have ok4: "write_cache_ok a4" using a(1) by (auto simp: a4_def a3_def f3_def a2_def a1_def write_cache_ok_def get_total_used_write_cache_size_def)
  have e4: "enc_type a4 = enc_type a" "xor_key_blob a4 = kept_key a secrets" "cache_write a4 = []" "finished_cursor a4 = 0" "afile a4 = Some f3"
    "cache_write_head_size a4 = cache_write_head_size a" "current_file_size a4 = length (file_bytes f3)"
    using a(5) fin by (simp_all add: a4_def a3_def a2_def a1_def)
  obtain es q where u: "update_write_cache_padding a4 = Some (a4\<lparr>cache_entity_size := es, cache_write_padding := q\<rparr>)" "q < 32"
    "cache_write_head_size a4 + q + length (cache_write a4) \<le> es" "enc_type a = Rsa_aes_xor \<longrightarrow> (cache_write_head_size a4 + q) mod 32 = current_file_size a4 mod 32"
  proof (cases "enc_type a = Rsa_aes_xor")
    case True
    then have "length (xor_key_blob a4) = get_xor_key_blob_size" using ks by (simp add: e4 kept_key_def)
    with True obtain es q where "update_write_cache_padding a4 = Some (a4\<lparr>cache_entity_size := es, cache_write_padding := q\<rparr>)"
      "cache_write_head_size a4 + q + length (cache_write a4) \<le> es" "(cache_write_head_size a4 + q) mod 32 = current_file_size a4 mod 32" "q < 32"
      using update_padding [OF ok4] e4(1) by metis
    then show ?thesis using that by blast
  next
    case False
    obtain es where "set_cache_write_padding 0 a4 = Some (a4\<lparr>cache_entity_size := es, cache_write_padding := 0\<rparr>)"
      "cache_write_head_size a4 + 0 + length (cache_write a4) \<le> es" by (rule set_padding [OF ok4])
    then show ?thesis by (intro that [of 0 es]) (use False in \<open>simp_all add: update_write_cache_padding_def e4(1)\<close>)
  qed
  define b where "b = a4\<lparr>cache_entity_size := es, cache_write_padding := q\<rparr>"
  have res: "append_new_segment k secrets Normal_segment a = Some (True, b)"
  proof -
    have c: "\<not> (\<not> has_segment no_topology \<and> \<not> True)" "\<not> has_segment no_topology"
      "\<not> (enc_type a = Rsa_aes_xor \<and> has_encrypted_segment no_topology \<and> topology_fingerprint no_topology \<noteq> rsa_key_fingerprint a)"
      "\<not> (12 :: nat) \<noteq> 12" "\<not> (8 :: nat) \<noteq> 8"
      by (simp_all add: no_topology_def)
    have kept: "kept_key a3 secrets = kept_key a secrets" by (simp add: kept_key_def fd)
    have new: "current_file_is_new_created a1 = True" using fd(5) by simp
    show ?thesis
      unfolding append_new_segment_def sc a1_def [symmetric] prod.case option.case fd(1-4,6-) new if_not_P [OF c(1)] if_not_P [OF c(3)] mk Let_def
        h_def [symmetric] w1 if_not_P [OF c(4)] w2 bool.case if_not_P [OF c(2)] if_not_P [OF c(5)] kept_key_def [symmetric] kept a4_def [symmetric] u(1)
        b_def [symmetric] option.map ..
  qed
  have "bin_ok b"
    using ok4 u(2-4) head ks by (auto simp: bin_ok_def b_def write_cache_ok_def get_total_used_write_cache_size_def e4 kept_key_def)
  moreover have "afile b = Some f3" "cache_write b = []" "finished_cursor b = 0" "enc_type b = enc_type a" "xor_key_blob b = kept_key a secrets"
    by (simp_all add: b_def e4)
  moreover have "disk_full_drop b = disk_full_drop a" "same_limits a b"
    by (simp_all add: b_def a4_def a3_def a2_def a1_def same_limits_def)
  moreover have "file_bytes f3 = file_header k @ seg_front keys Normal_segment (enc_type a)" "write_answers f3 = []" using a(4) by (simp_all add: f3_def)
  ultimately show ?thesis using that [OF res] by blast
qed

text \<open>What the cache takes before the first mark stays in the cache.\<close>

definition filling :: "binary_appender \<Rightarrow> os_file \<Rightarrow> bool" where
  "filling a f \<longleftrightarrow> bin_ok a \<and> afile a = Some f \<and> write_answers f = [] \<and> finished_cursor a = 0 \<and> \<not> disk_full_drop a"

lemma fill_bytes:
  assumes "filling a f" "length (cache_write a) + length bs \<le> 2 ^ 62"
  obtains b where "write_bytes (flush_binary p open_new) bs a = Some b" "filling b (f\<lparr>write_answers := []\<rparr>)" "cache_write b = cache_write a @ bs"
    "same_segment a b"
proof -
  have a: "bin_ok a" "afile a = Some f" "write_answers f = []" "finished_cursor a = 0" "\<not> disk_full_drop a"
    using assms(1) by (simp_all add: filling_def)
  then have pre: "Sys_error Other_errno \<notin> set (write_answers f)" "finished_cursor a = length (cache_write a) \<or> write_answers f = []" by simp_all
  have D: "clean_answers (write_answers f) \<or> write_bytes (flush_binary p open_new) bs a \<noteq> None" using a(3) by (simp add: clean_answers_def)
  obtain b g n where b: "write_bytes (flush_binary p open_new) bs a = Some b" "bin_ok b" "same_segment a b" "afile b = Some g"
    "file_bytes g = file_bytes f @ seg_crypt (enc_type a) (xor_key_blob a) (length (file_bytes f)) (take n (cache_write a))"
    "cache_write b = drop n (cache_write a) @ bs" "finished_cursor b = finished_cursor a - n" "n \<le> finished_cursor a"
    "set (write_answers g) \<subseteq> set (write_answers f)" "write_answers f = [] \<Longrightarrow> (disk_full_drop b \<longrightarrow> disk_full_drop a)"
    using write_bytes_spec [OF a(1,2) pre assms(2) D] by metis
  have n: "n = 0" using b(8) a(4) by simp
  have "length (file_bytes g) = length (file_bytes f)" "file_bytes g = file_bytes f" "write_answers g = []"
    using b(5,9) a(3) by (simp_all add: n seg_crypt_def)
  moreover have "file_pos g = length (file_bytes g)" "file_pos f = length (file_bytes f)"
    using b(2,4) a(1,2) by (auto simp: bin_ok_def write_cache_ok_def)
  ultimately have "g = f\<lparr>write_answers := []\<rparr>" by (cases g; cases f) simp
  then have "filling b (f\<lparr>write_answers := []\<rparr>)"
    using b(2,3,4,7,10) a by (simp add: filling_def)
  then show ?thesis using that [OF b(1) _ _ b(3)] b(6) n by simp
qed

lemma fill_categories:
  assumes "filling a f" "length (cache_write a) + length (concat (map category_bytes names)) \<le> 2 ^ 62"
  shows "\<exists>b. write_categories (flush_binary p open_new) names a = Some b \<and> filling b (f\<lparr>write_answers := []\<rparr>)
     \<and> cache_write b = cache_write a @ concat (map category_bytes names) \<and> same_segment a b"
  using assms
proof (induction names arbitrary: a f)
  case Nil
  then have "f\<lparr>write_answers := []\<rparr> = f" by (cases f) (simp add: filling_def)
  then show ?case using Nil by (simp add: same_segment_def)
next
  case (Cons n names)
  have l: "length (cache_write a) + length (category_bytes n) \<le> 2 ^ 62" using Cons.prems(2) by simp
  obtain b where b: "write_bytes (flush_binary p open_new) (category_bytes n) a = Some b" "filling b (f\<lparr>write_answers := []\<rparr>)"
    "cache_write b = cache_write a @ category_bytes n" "same_segment a b"
    by (rule fill_bytes [OF Cons.prems(1) l, where p = p and open_new = open_new])
  have "length (cache_write b) + length (concat (map category_bytes names)) \<le> 2 ^ 62" using Cons.prems(2) b(3) by simp
  from Cons.IH [OF b(2) this] obtain c where "write_categories (flush_binary p open_new) names b = Some c" "filling c (f\<lparr>write_answers := []\<rparr>)"
    "cache_write c = cache_write b @ concat (map category_bytes names)" "same_segment b c" by auto
  then show ?case using b same_segment_trans [OF b(4)] by simp
qed

lemma flush_filled:
  assumes "filling a f"
  obtains b where "flush_binary p open_new (mark_write_finished a) = Some b" "steady b" "accepts_all b" "cache_write b = []" "same_segment a b"
    "file_bytes (the (afile b)) = file_bytes f @ seg_crypt (enc_type a) (xor_key_blob a) (length (file_bytes f)) (cache_write a)"
proof -
  let ?a = "mark_write_finished a"
  have a: "bin_ok ?a" "afile ?a = Some f" "write_answers f = []" "finished_cursor ?a = length (cache_write ?a)"
    using assms by (simp_all add: filling_def mark_write_finished_def bin_ok_def write_cache_ok_def get_total_used_write_cache_size_def)
  then have pre: "Sys_error Other_errno \<notin> set (write_answers f)" "finished_cursor ?a = length (cache_write ?a) \<or> write_answers f = []" by simp_all
  have D: "clean_answers (write_answers f) \<or> flush_binary p open_new ?a \<noteq> None" using a(3) by (simp add: clean_answers_def)
  obtain b g n where b: "flush_binary p open_new ?a = Some b" "bin_ok b" "same_segment ?a b" "afile b = Some g"
    "file_bytes g = file_bytes f @ seg_crypt (enc_type ?a) (xor_key_blob ?a) (length (file_bytes f)) (take n (cache_write ?a))"
    "cache_write b = drop n (cache_write ?a)" "finished_cursor b = finished_cursor ?a - n" "n \<le> finished_cursor ?a"
    "set (write_answers g) \<subseteq> set (write_answers f)"
    "write_answers f = [] \<Longrightarrow> n = finished_cursor ?a \<and> write_answers g = [] \<and> \<not> disk_full_drop b"
    using flush_binary_spec [OF a(1,2) pre D] by metis
  have n: "n = length (cache_write ?a)" "write_answers g = []" "\<not> disk_full_drop b" using b(10) a(3,4) by simp_all
  have m: "cache_write ?a = cache_write a" "enc_type ?a = enc_type a" "xor_key_blob ?a = xor_key_blob a" by (simp_all add: mark_write_finished_def)
  have "steady b" using b(2,4,6,7) a(4) n by (simp add: steady_def)
  moreover have "accepts_all b" using b(4) n by (simp add: accepts_all_def)
  moreover have "same_segment a b" using b(3) by (simp add: same_segment_def mark_write_finished_def)
  ultimately show ?thesis using that [OF b(1)] b(4,5,6) n m by simp
qed

text \<open>The file after its opening.\<close>

definition opening_bytes :: "u8 list \<Rightarrow> time_zone \<Rightarrow> u8 list list \<Rightarrow> u8 list" where
  "opening_bytes filler z names = payload_metadata filler z (length names) @ concat (map category_bytes names)"

lemma open_new_file:
  assumes a: "new_file a" and keys: "written_keys a secrets keys" and small: "length (opening_bytes filler z names) \<le> 2 ^ 62"
  obtains b where "on_file_open p open_new k secrets filler z names True a = Some b" "steady b" "accepts_all b" "cache_write b = []"
    "enc_type b = enc_type a" "xor_key_blob b = kept_key a secrets" "same_limits a b"
    "file_bytes (the (afile b)) = file_header k @ seg_front keys Normal_segment (enc_type a)
       @ seg_crypt (enc_type a) (kept_key a secrets) (length (file_header k @ seg_front keys Normal_segment (enc_type a))) (opening_bytes filler z names)"
proof -
  obtain f where f: "afile a = Some f" "file_bytes f = []" "write_answers f = []" using a by (auto simp: new_file_def)
  have ok: "write_cache_ok a" "cache_write a = []" "\<not> disk_full_drop a" "cache_write_head_size a \<le> 2 ^ 16"
    using a by (simp_all add: new_file_def)
  have pos: "file_pos f = 0" "current_file_size a = 0" using ok(1) f by (auto simp: write_cache_ok_def)
  define a0 where "a0 = a\<lparr>current_file_is_new_created := True, xor_key_blob := if enc_type a = Rsa_aes_xor then [] else xor_key_blob a,
     cur_read_start := 8, cur_read_end := of_nat (current_file_size a)\<rparr>"
  define f1 where "f1 = f\<lparr>file_bytes := file_header k, file_pos := 8\<rparr>"
  define a1 where "a1 = a0\<lparr>afile := Some f1, current_file_size := 8\<rparr>"
  have w: "direct_write (file_header k) Seek_end 0 a0 = (8, a1)"
    using direct_write_end [of a0 f Seek_end "file_header k"] f pos by (simp add: a0_def a1_def f1_def file_header_read)
  have fd: "enc_type a1 = enc_type a" "kept_key a1 secrets = kept_key a secrets" "disk_full_drop a1 = disk_full_drop a" "same_limits a a1"
    by (simp_all add: a1_def a0_def kept_key_def same_limits_def)
  have i: "write_cache_ok a1" "afile a1 = Some f1" "file_bytes f1 = file_header k" "write_answers f1 = []" "cache_write a1 = []"
    "current_file_is_new_created a1" "cache_write_head_size a1 \<le> 2 ^ 16" "written_keys a1 secrets keys"
    using ok f keys by (auto simp: a1_def a0_def f1_def write_cache_ok_def file_header_read get_total_used_write_cache_size_def written_keys_def)
  obtain b g where b: "append_new_segment k secrets Normal_segment a1 = Some (True, b)" "bin_ok b" "afile b = Some g"
    "file_bytes g = file_header k @ seg_front keys Normal_segment (enc_type a1)" "write_answers g = []" "cache_write b = []" "finished_cursor b = 0"
    "enc_type b = enc_type a1" "xor_key_blob b = kept_key a1 secrets" "disk_full_drop b = disk_full_drop a1" "same_limits a1 b"
    by (rule first_segment [OF i])
  have fb: "filling b g" using b ok(3) fd by (simp add: filling_def)
  have l: "length (cache_write b) + length (payload_metadata filler z (length names)) \<le> 2 ^ 62" using small b(6) by (simp add: opening_bytes_def)
  obtain c where c: "write_bytes (flush_binary p open_new) (payload_metadata filler z (length names)) b = Some c" "filling c (g\<lparr>write_answers := []\<rparr>)"
    "cache_write c = cache_write b @ payload_metadata filler z (length names)" "same_segment b c"
    by (rule fill_bytes [OF fb l, where p = p and open_new = open_new])
  have "length (cache_write c) + length (concat (map category_bytes names)) \<le> 2 ^ 62" using small b(6) c(3) by (simp add: opening_bytes_def)
  from fill_categories [OF c(2) this, where p = p and open_new = open_new] obtain d where
    d: "write_categories (flush_binary p open_new) names c = Some d" "filling d (g\<lparr>write_answers := []\<rparr>)"
    "cache_write d = opening_bytes filler z names" "same_segment c d" using b(6) c(3) by (auto simp: opening_bytes_def)
  obtain e where e: "flush_binary p open_new (mark_write_finished d) = Some e" "steady e" "accepts_all e" "cache_write e = []" "same_segment d e"
    "file_bytes (the (afile e)) = file_bytes (g\<lparr>write_answers := []\<rparr>)
       @ seg_crypt (enc_type d) (xor_key_blob d) (length (file_bytes (g\<lparr>write_answers := []\<rparr>))) (cache_write d)"
    by (rule flush_filled [OF d(2), where p = p and open_new = open_new])
  have same: "same_segment b d" "same_segment b e" using same_segment_trans [OF c(4) d(4)] same_segment_trans e(5) by blast+
  have "on_file_open p open_new k secrets filler z names True a = Some e"
    using w b(1) c(1) d(1) e(1) by (simp add: on_file_open_def a0_def Let_def cong: if_cong)
  moreover have "same_limits a e" using fd(4) b(11) same(2) by (simp add: same_limits_def same_segment_def)
  ultimately show ?thesis using that e(2-4) e(6) same b(4,8,9) fd d(3) by (simp add: same_segment_def)
qed

section \<open>The keys of an encrypted file\<close>

text \<open>What the random generators have to deliver.\<close>

definition good_secrets :: "public_key \<Rightarrow> segment_secrets \<Rightarrow> bool" where
  "good_secrets pub s \<longleftrightarrow> length (fresh_aes_key s) = 32 \<and> length (fresh_iv s) = 16 \<and> length (fresh_blob s) = get_xor_key_blob_size
     \<and> (fresh_aes_key s ! 0 = 0 \<longrightarrow> fresh_byte s \<noteq> 0) \<and> length (pub_n pub) = 256 \<and> be_val (segment_aes_key s) < be_val (pub_n pub)"

lemma segment_keys_open:
  assumes pair: "rsa_pair p q pub pri" and s: "good_secrets pub s"
  obtains key iv blob where "make_segment_keys pub s = Some (key, iv, blob)"
    "\<And>fp. length (le_bytes 8 (fp :: u64) @ key @ iv @ blob) = get_encryption_keys_size"
    "\<And>fp. read_segment_keys pri (le_bytes 8 (fp :: u64) @ key @ iv @ blob) = Some (Some (fresh_blob s))" "length (pri_n pri) = 256"
proof -
  let ?k = "segment_aes_key s"
  have l: "length ?k = 32" "length (fresh_aes_key s) = 32" "length (fresh_iv s) = 16" "length (fresh_blob s) = 32768" "length (pub_n pub) = 256"
    "get_xor_key_blob_size = 32768"
    using s by (simp_all add: good_secrets_def segment_aes_key_def get_xor_key_blob_size_def)
  have ne: "?k \<noteq> []" "fresh_aes_key s \<noteq> []" using l by auto
  have hd: "hd ?k \<noteq> 0" using s ne by (auto simp: good_secrets_def segment_aes_key_def hd_conv_nth)
  have n: "pri_n pri = pub_n pub" using pair by (simp add: rsa_pair_def)
  obtain c where c: "rsa_encrypt pub ?k = Rsa_ok c" "length c = 256" "rsa_decrypt pri c = Rsa_ok ?k"
    using rsa_roundtrip [OF pair ne(1) hd] s l by (auto simp: good_secrets_def)
  have "length ?k = key_size AES_256" "16 dvd length (fresh_blob s)" "length (fresh_blob s) \<le> length (replicate 32768 (0 :: u8))"
    using l(1,4) by simp_all
  from cbc_buffers_roundtrip [OF this(1) l(3) this(2,3,3)] obtain x where x: "length x = 32768"
    "aes_encrypt AES_256 ?k (fresh_iv s) (fresh_blob s) (replicate 32768 0) = (True, x)"
    "aes_decrypt AES_256 ?k (fresh_iv s) x (replicate 32768 0) = (True, fresh_blob s)" using l by auto
  have "make_segment_keys pub s = Some (c, fresh_iv s, x)"
    using l c x by (simp add: make_segment_keys_def iv_size_def)
  moreover have "length (le_bytes 8 (fp :: u64) @ c @ fresh_iv s @ x) = get_encryption_keys_size" for fp
    using l c(2) x(1) by (simp add: get_encryption_keys_size_def)
  moreover have "read_segment_keys pri (le_bytes 8 (fp :: u64) @ c @ fresh_iv s @ x) = Some (Some (fresh_blob s))" for fp
    using l c x by (simp add: read_segment_keys_def Let_def n iv_size_def)
  ultimately show ?thesis using that n l(5) by metis
qed

text \<open>What the disk answers from here on.\<close>

definition with_answers :: "sys_write list \<Rightarrow> binary_appender \<Rightarrow> binary_appender" where
  "with_answers ans a = a\<lparr>afile := map_option (\<lambda>f. f\<lparr>write_answers := ans\<rparr>) (afile a)\<rparr>"

lemma with_answers_keeps:
  assumes "steady a" "Sys_error Other_errno \<notin> set ans"
  shows "steady (with_answers ans a)" "file_bytes (the (afile (with_answers ans a))) = file_bytes (the (afile a))" "cache_write (with_answers ans a) = cache_write a"
    "payload ds (with_answers ans a) = payload ds a" "same_segment a (with_answers ans a)"
    "ans = [] \<Longrightarrow> \<not> disk_full_drop a \<Longrightarrow> accepts_all (with_answers ans a)"
proof -
  obtain f where f: "afile a = Some f" using assms(1) by (rule steadyE)
  show "steady (with_answers ans a)"
    using assms f by (simp add: steady_def bin_ok_def write_cache_ok_def with_answers_def get_total_used_write_cache_size_def)
  show "file_bytes (the (afile (with_answers ans a))) = file_bytes (the (afile a))" "cache_write (with_answers ans a) = cache_write a"
    "payload ds (with_answers ans a) = payload ds a" "same_segment a (with_answers ans a)"
    "ans = [] \<Longrightarrow> \<not> disk_full_drop a \<Longrightarrow> accepts_all (with_answers ans a)"
    using f by (simp_all add: with_answers_def payload_def same_segment_def accepts_all_def)
qed

lemma flush_all:
  assumes st: "steady a" and ans: "write_answers (the (afile a)) = []" and ds: "ds \<le> length (file_bytes (the (afile a)))"
  obtains b ext where "flush_binary p open_new a = Some b" "steady b" "same_segment a b" "cache_write b = []" "payload ds b = payload ds a"
    "file_bytes (the (afile b)) = file_bytes (the (afile a)) @ ext"
proof -
  obtain f where f: "afile a = Some f" "Sys_error Other_errno \<notin> set (write_answers f)" "bin_ok a" "finished_cursor a = length (cache_write a)"
    using st by (rule steadyE)
  obtain b g n where b: "flush_binary p open_new a = Some b" "bin_ok b" "same_segment a b" "afile b = Some g"
    "file_bytes g = file_bytes f @ seg_crypt (enc_type a) (xor_key_blob a) (length (file_bytes f)) (take n (cache_write a))"
    "cache_write b = drop n (cache_write a)" "finished_cursor b = finished_cursor a - n"
    "set (write_answers g) \<subseteq> set (write_answers f)" "write_answers f = [] \<Longrightarrow> n = finished_cursor a"
    using flush_binary_spec [OF f(3,1,2), of p open_new] f(1,4) ans by (metis clean_answers_Nil option.sel)
  have n: "n = length (cache_write a)" using b(9) ans f by simp
  have "steady b" using b(2,4,6,7,8) f(1,2,4) n by (auto simp: steady_def)
  moreover have "payload ds b = payload ds a"
    using payload_grows [OF f(1) b(4,3) _ b(5), of ds "[]"] b(6) ds f(1) by simp
  ultimately show ?thesis using that [OF b(1) _ b(3)] b(4,5,6) f(1) n by simp
qed

text \<open>The bytes of a file whose payload is known from its beginning on.\<close>

lemma file_of_payload:
  assumes "payload ds a = body" "cache_write a = []" "take ds (file_bytes (the (afile a))) = pre" "length pre = ds"
  shows "file_bytes (the (afile a)) = pre @ seg_crypt (enc_type a) (xor_key_blob a) ds body"
proof -
  have "seg_crypt (enc_type a) (xor_key_blob a) ds body = drop ds (file_bytes (the (afile a)))"
    using assms(1,2) seg_cipher.crypt_involution by (metis append_Nil2 payload_def)
  then show ?thesis using assms(3) by (metis append_take_drop_id)
qed

text \<open>The events behind the opening of a file, and the bytes of the file when all is flushed.\<close>

lemma raw_file_bytes:
  assumes a: "new_file a" "stays_in_file evs a" and keys: "written_keys a secrets keys" and ans: "Sys_error Other_errno \<notin> set ans"
    and small: "length (opening_bytes filler z names) + sum_list (map (\<lambda>e. length e + 4) (logged evs)) \<le> 2 ^ 62"
  obtains a1 where "on_file_open p open_new k secrets filler z names True a = Some a1"
    "clean_answers ans \<longrightarrow> run_events p open_new evs (with_answers ans a1) \<noteq> None"
    "\<And>es a2. run_events p open_new evs (with_answers ans a1) = Some (es, a2) \<Longrightarrow> subseq es (logged evs) \<and> (ans = [] \<longrightarrow> es = logged evs)
       \<and> (\<exists>a3. flush_binary p open_new (with_answers [] a2) = Some a3
          \<and> file_bytes (the (afile a3)) = file_header k @ seg_front keys Normal_segment (enc_type a)
             @ seg_crypt (enc_type a) (kept_key a secrets) (length (file_header k @ seg_front keys Normal_segment (enc_type a)))
                 (payload_metadata filler z (length names) @ concat (map category_bytes names) @ concat (map raw_item es)))"
proof -
  let ?pre = "file_header k @ seg_front keys Normal_segment (enc_type a)" and ?op = "opening_bytes filler z names"
  have so: "length ?op \<le> 2 ^ 62" using small by simp
  obtain a1 where a1: "on_file_open p open_new k secrets filler z names True a = Some a1" "steady a1" "accepts_all a1" "cache_write a1 = []"
    "enc_type a1 = enc_type a" "xor_key_blob a1 = kept_key a secrets" "same_limits a a1"
    "file_bytes (the (afile a1)) = file_header k @ seg_front keys Normal_segment (enc_type a) @ seg_crypt (enc_type a) (kept_key a secrets) (length ?pre) ?op"
    by (rule open_new_file [OF a(1) keys so, where p = p and open_new = open_new and k = k])
  define F where "F = file_bytes (the (afile a1))"
  have F: "F = ?pre @ seg_crypt (enc_type a) (kept_key a secrets) (length ?pre) ?op" "length ?pre \<le> length F" by (simp_all add: F_def a1(8))
  note w1 = with_answers_keeps [OF a1(2) ans]
  have p1: "payload (length ?pre) a1 = ?op"
    unfolding payload_def a1(4,5,6) F_def [symmetric] F(1) by (simp add: seg_cipher.crypt_involution)
  have d1: "length ?pre \<le> length (file_bytes (the (afile (with_answers ans a1))))" unfolding w1(2) F_def [symmetric] by (rule F(2))
  have s1: "length (cache_write (with_answers ans a1)) + sum_list (map (\<lambda>e. length e + 4) (logged evs)) \<le> 2 ^ 62"
    unfolding w1(3) a1(4) using small by simp
  have st: "stays_in_file evs (with_answers ans a1)" using a(2) limits_stay [OF a1(7)] stays_same [OF w1(5)] by simp
  have cl: "clean_disk (with_answers ans a1) \<longleftrightarrow> clean_answers ans" using a1(2) by (auto simp: clean_disk_def with_answers_def elim: steadyE)
  have fin: "subseq es (logged evs) \<and> (ans = [] \<longrightarrow> es = logged evs) \<and> (\<exists>a3. flush_binary p open_new (with_answers [] a2) = Some a3
      \<and> file_bytes (the (afile a3)) = ?pre @ seg_crypt (enc_type a) (kept_key a secrets) (length ?pre) (?op @ concat (map raw_item es)))"
    if run: "run_events p open_new evs (with_answers ans a1) = Some (es, a2)" for es a2
  proof -
    obtain ext where r: "steady a2" "same_segment (with_answers ans a1) a2"
      "file_bytes (the (afile a2)) = F @ ext" "payload (length ?pre) a2 = ?op @ concat (map raw_item es)"
      "subseq es (logged evs)" "accepts_all (with_answers ans a1) \<longrightarrow> accepts_all a2 \<and> es = logged evs"
      using run_events_spec [OF w1(1) d1 s1 st, of p open_new] run unfolding w1(2,4) p1 F_def [symmetric] by auto
    have all: "ans = [] \<longrightarrow> es = logged evs" using r(6) w1(6) a1(3) by (simp add: accepts_all_def)
    have none: "Sys_error Other_errno \<notin> set []" by simp
    note w2 = with_answers_keeps [OF r(1) none]
    have h: "write_answers (the (afile (with_answers [] a2))) = []" using r(1) by (auto simp: with_answers_def elim: steadyE)
    have d2: "length ?pre \<le> length (file_bytes (the (afile (with_answers [] a2))))" unfolding w2(2) r(3) using F(2) by simp
    obtain a3 ext' where f: "flush_binary p open_new (with_answers [] a2) = Some a3" "steady a3" "same_segment (with_answers [] a2) a3" "cache_write a3 = []"
      "payload (length ?pre) a3 = payload (length ?pre) (with_answers [] a2)"
      "file_bytes (the (afile a3)) = file_bytes (the (afile (with_answers [] a2))) @ ext'"
      by (rule flush_all [OF w2(1) h d2, where p = p and open_new = open_new])
    have same: "enc_type a3 = enc_type a" "xor_key_blob a3 = kept_key a secrets"
      using w1(5) r(2) w2(5) f(3) a1(5,6) by (simp_all add: same_segment_def)
    have "payload (length ?pre) a3 = ?op @ concat (map raw_item es)" unfolding f(5) w2(4) r(4) ..
    moreover have "take (length ?pre) (file_bytes (the (afile a3))) = ?pre" unfolding f(6) w2(2) r(3) F(1) by simp
    ultimately have "file_bytes (the (afile a3)) = ?pre @ seg_crypt (enc_type a3) (xor_key_blob a3) (length ?pre) (?op @ concat (map raw_item es))"
      by (intro file_of_payload f(4) refl)
    then show ?thesis using f(1) r(5) all unfolding same by blast
  qed
  have cl: "clean_answers ans \<longrightarrow> run_events p open_new evs (with_answers ans a1) \<noteq> None"
    using run_events_spec [OF w1(1) d1 s1 st, of p open_new] cl by auto
  show ?thesis by (rule that [OF a1(1) cl]) (erule fin [unfolded opening_bytes_def append_assoc])
qed

definition small_run :: "u8 list \<Rightarrow> time_zone \<Rightarrow> u8 list list \<Rightarrow> log_event list \<Rightarrow> bool" where
  "small_run filler z names evs \<longleftrightarrow> 31 \<le> length filler \<and> names \<noteq> [] \<and> [] \<notin> set (tl names)
     \<and> length (opening_bytes filler z names) + sum_list (map (\<lambda>e. length e + 4) (logged evs)) + 33068 < 2 ^ 31"

lemma subseq_size: "subseq es fs \<Longrightarrow> sum_list (map (\<lambda>e. length e + 4) es) \<le> sum_list (map (\<lambda>e. length e + (4 :: nat)) fs)"
  by (induction rule: list_emb.induct) auto

lemma length_raw_items: "length (concat (map raw_item es)) = sum_list (map (\<lambda>e. length e + 4) es)"
  by (induction es) (simp_all add: raw_item_def)

lemma length_opening: "31 \<le> length filler \<Longrightarrow> length (opening_bytes filler z names) = 52 + sum_list (map (\<lambda>n. length n + 4) names)"
  by (simp add: opening_bytes_def length_payload_metadata) (induction names, simp_all add: category_bytes_def)

lemma member_size: "e \<in> set es \<Longrightarrow> length e \<le> sum_list (map (\<lambda>e. length e + (4 :: nat)) es)"
  by (induction es) auto

lemma list_size: "length es \<le> sum_list (map (\<lambda>e. length e + (4 :: nat)) es)"
  by (induction es) auto

section \<open>A written file is read\<close>

definition raw_file :: "binary_kind \<Rightarrow> u8 list \<Rightarrow> encryption_type \<Rightarrow> u8 list \<Rightarrow> u8 list \<Rightarrow> time_zone \<Rightarrow> u8 list list \<Rightarrow> u8 list list \<Rightarrow> u8 list" where
  "raw_file k keys enc blob filler z names es = file_header k @ seg_front keys Normal_segment enc
     @ seg_crypt enc blob (length (file_header k @ seg_front keys Normal_segment enc))
         (payload_metadata filler z (length names) @ concat (map category_bytes names) @ concat (map raw_item es))"

lemma raw_file_decoded:
  assumes small: "small_run filler z names evs" and z: "zone_ok z" and key: "key_given str pri" "opens pri enc keys blob"
    and es: "subseq es (logged evs)" and f: "file_bytes f = raw_file k keys enc blob filler z names es"
  shows "\<exists>d. binary_decoder_init p k f str = Some (Decode_success, d) \<and> category_names d = names \<and> dec_zone d = uncached z
     \<and> (\<forall>texts. entry_texts c t simd names (uncached z) es \<lparr>layout_zone = zone_reset, thread_names_cache = Map.empty\<rparr> = Some texts \<longrightarrow>
          decode_calls p c t simd (length es + 1) d = Some (map (Pair Decode_success) texts @ [(Decode_eof, [])]))"
proof -
  let ?m = "payload_metadata filler z (length names) @ concat (map category_bytes names) @ concat (map raw_item es)"
  have w: "file_bytes f = file_header k @ seg_front keys Normal_segment enc @ seg_crypt enc blob (length (file_header k @ seg_front keys Normal_segment enc)) ?m"
    using f by (simp add: raw_file_def)
  have fill: "31 \<le> length filler" "names \<noteq> []" "[] \<notin> set (tl names)"
    and total: "length (opening_bytes filler z names) + sum_list (map (\<lambda>e. length e + 4) (logged evs)) + 33068 < 2 ^ 31"
    using small by (simp_all add: small_run_def)
  have es: "sum_list (map (\<lambda>e. length e + 4) es) \<le> sum_list (map (\<lambda>e. length e + 4) (logged evs))" by (rule subseq_size [OF es])
  then have "length ?m \<le> length (opening_bytes filler z names) + sum_list (map (\<lambda>e. length e + 4) (logged evs))"
    by (simp add: opening_bytes_def length_raw_items)
  moreover have "length (seg_front keys Normal_segment enc) \<le> 33060"
    using key(2) by (auto simp: seg_front_def opens_def get_encryption_keys_size_def get_xor_key_blob_size_def)
  ultimately have len: "length (file_bytes f) < 2 ^ 31" unfolding w using total by (simp add: file_header_read)
  have sz: "sum_list (map (\<lambda>n. length n + 4) names) < 2 ^ 31" using total length_opening [OF fill(1), of z names] by simp
  have nm: "\<forall>n \<in> set names. length n < 2 ^ 32" "length names < 2 ^ 32"
    using sz member_size [of _ names] list_size [of names] by fastforce+
  have ee: "\<forall>e \<in> set es. length e < 2 ^ 32" using es total member_size [of _ es] by fastforce
  obtain d where d: "binary_decoder_init p k f str = Some (Decode_success, d)" "in_last_segment d" "rest_of d = concat (map raw_item es)"
    "category_names d = names" "dec_zone d = zone_of_metadata (payload_metadata filler z (length names))" "dec_layout d = dec_layout (new_decoder f)"
    by (rule decoder_opens [OF w len fill(1) nm(1) fill(2,3) nm(2) key])
  have "dec_layout d = \<lparr>layout_zone = zone_reset, thread_names_cache = Map.empty\<rparr>" using d(6) by (simp add: new_decoder_def)
  moreover have "dec_zone d = uncached z" using d(5) metadata_zone [OF z fill(1)] by simp
  ultimately show ?thesis using d(1,4) decode_raw_items [OF d(2,3) ee, of c t simd _ p] by metis
qed

text \<open>An entry of level \<open>info\<close> that says \<open>hi\<close>, and the line it becomes.\<close>

definition hi_entry :: "u8 list" where
  "hi_entry = le_bytes 8 (1700000000123 :: u64) @ le_bytes 4 (44 :: u32) @ le_bytes 4 (0 :: u32) @ le_bytes 8 (7 :: u64) @ le_bytes 8 (0 :: u64)
     @ [arg_code String_utf8_type, 2, 0, 0] @ le_bytes 4 (2 :: u32) @ [0x68, 0x69, 0, 0] @ [1, 0x6D]"

definition fixed_clock :: libc where
  "fixed_clock = \<lparr>localtime = \<lambda>_. None, gmtime = \<lambda>_. Some \<lparr>tm_year = 123, tm_mon = 10, tm_mday = 14, tm_hour = 22, tm_min = 13, tm_sec = 20\<rparr>,
     strftime_zone = \<lambda>_. [], time_now = 0, mktime = \<lambda>_. 0\<rparr>"

definition utc_zone :: time_zone where
  "utc_zone = zone_reset\<lparr>use_local_time := False, time_zone_str := ''UTC''\<rparr>"


definition hi_head :: log_head where
  "hi_head = \<lparr>timestamp_epoch = 1700000000123, ext_info_offset = 44, category_idx = 0, log_thread_id = 7, format_hash = 0,
     log_format_str_type = arg_code String_utf8_type, head_level = 2, log_format_data_len = 2\<rparr>"

lemma hi_reads: "get_log_head (map Some hi_entry) = Some hi_head" "get_thread_name hi_head (map Some hi_entry) = Some [0x6D]"
  "get_format_string_data hi_head (map Some hi_entry) = Some [0x68, 0x69]" "get_log_args_data hi_head (map Some hi_entry) = []"
  by code_simp+

definition hi_zone :: time_zone where
  "hi_zone = utc_zone\<lparr>time_cache := ''UTC 2023-11-14 22:13:20.'', last_time_epoch_cache := 1700000000123\<rparr>"

lemma hi_time: "refresh_time_string_cache fixed_clock 1700000000123 utc_zone = Some hi_zone"
proof -
  have "get_tm_by_epoch fixed_clock utc_zone e = Some \<lparr>tm_year = 123, tm_mon = 10, tm_mday = 14, tm_hour = 22, tm_min = 13, tm_sec = 20\<rparr>" for e
    by (simp add: get_tm_by_epoch_def fixed_clock_def utc_zone_def zone_reset_def)
  then have A: "refresh_time_string_cache fixed_clock 1700000000123 utc_zone =
      (let s = ''UTC'' @ '' '' @ print_width 0 (123 + 1900) @ print_time \<lparr>tm_year = 123, tm_mon = 10, tm_mday = 14, tm_hour = 22, tm_min = 13, tm_sec = 20\<rparr> @ ''.''
       in if length s \<le> 128 then Some (utc_zone\<lparr>time_cache := s, last_time_epoch_cache := 1700000000123\<rparr>) else None)"
    by (simp add: refresh_time_string_cache_def inner_refresh_time_string_cache_def tm_or_zero_def) (simp add: utc_zone_def zone_reset_def)
  have B: "''UTC'' @ '' '' @ print_width 0 (123 + 1900) @ print_time \<lparr>tm_year = 123, tm_mon = 10, tm_mday = 14, tm_hour = 22, tm_min = 13, tm_sec = 20\<rparr> @ ''.''
      = ''UTC 2023-11-14 22:13:20.''" by code_simp
  show ?thesis unfolding A B Let_def by (simp add: hi_zone_def)
qed

definition hi_line :: "u8 list" where
  "hi_line = bytes_of ''UTC 2023-11-14 22:13:20.123[tid-7 m]'' @ [9] @ bytes_of ''[I]'' @ [9] @ bytes_of ''[A]'' @ [9] @ bytes_of ''hi''"

lemma hi_pieces: "format_content_utf8 Simd_none False [0x68, 0x69] [] c = Some (c @ [0x68, 0x69])"
  by (simp add: format_content_utf8_def)

lemma hi_text:
  "entry_texts fixed_clock Simd_none False [[0x41]] utc_zone [hi_entry] \<lparr>layout_zone = zone_reset, thread_names_cache = Map.empty\<rparr> = Some [hi_line]"
proof -
  have d: "digit3 123 = [0x31, 0x32, 0x33]" "digits_of True 10 7 = [0x37]" by code_simp+
  have L: "map of_char (time_cache hi_zone) @ [0x31, 0x32, 0x33, 91, 116, 105, 100, 45, 0x37, 32, 109, 93, 9, 91, 73, 93, 9, 91, 65, 93, 9, 104, 105] = hi_line"
    by code_simp
  have h: "timestamp_epoch hi_head = 1700000000123" "log_thread_id hi_head = 7" "unat (head_level hi_head) = 2" "unat (category_idx hi_head) = 0"
    "log_format_str_type hi_head = arg_code String_utf8_type"
    by (simp_all add: hi_head_def)
  have "\<exists>l. do_layout fixed_clock Simd_none False [[0x41]] (map Some hi_entry) \<lparr>layout_zone = utc_zone, thread_names_cache = Map.empty\<rparr> = Some (Finished, l, hi_line)"
    using L by (simp add: do_layout_def hi_reads layout_prefix_def insert_time_def h hi_time insert_thread_info_def d python_style_format_content_def hi_pieces
        insert_char_def insert_str_utf8_def level_letters_def Let_def)
  then show ?thesis by auto
qed

lemma utc_ok: "zone_ok utc_zone" "uncached utc_zone = utc_zone"
  by (simp_all add: zone_ok_def uncached_def utc_zone_def zone_reset_def)

definition raw_kind :: binary_kind where
  "raw_kind = \<lparr>binary_format_version = 7, kind_format = Raw_format\<rparr>"

definition hi_appender :: binary_appender where
  "hi_appender = full_disk_appender\<lparr>afile := Some \<lparr>file_bytes = [], file_pos = 0, write_answers = []\<rparr>, current_file_size := 0, cache_write_padding := 0,
     current_file_expire_time := 1700006400000, enc_type := Plaintext, xor_key_blob := []\<rparr>"

definition no_secrets :: segment_secrets where
  "no_secrets = \<lparr>fresh_aes_key = [], fresh_byte = 0, fresh_iv = [], fresh_blob = []\<rparr>"

lemma hi_new: "new_file hi_appender" "stays_in_file [Log_event 1700000000123 hi_entry] hi_appender"
  "small_run (replicate 31 0) utc_zone [[0x41]] [Log_event 1700000000123 hi_entry]"
proof -
  show "new_file hi_appender"
    by (simp add: new_file_def hi_appender_def full_disk_appender_def write_cache_ok_def get_total_used_write_cache_size_def
        cache_read_default_size_def)
  show "stays_in_file [Log_event 1700000000123 hi_entry] hi_appender"
    by (simp add: no_rotation_def hi_appender_def full_disk_appender_def)
  have "length hi_entry = 46" by (simp add: hi_entry_def)
  then show "small_run (replicate 31 0) utc_zone [[0x41]] [Log_event 1700000000123 hi_entry]"
    by (simp add: small_run_def length_opening)
qed

text \<open>
  C2. A new raw file, encrypted or not, opened on a disk that takes the head, the keys, the zone and the names. Of each later write the disk may take a
  part, it may be interrupted or full (no other error), as long as the file is not rotated (no limit on its size, no entry behind its day) and
  stays below 2 GB. Whenever the events run through (they do if the answers of the disk are clean, see C13), a flush that succeeds gives a file that
  opens in the decoder with the names of the categories and the zone of the writer, field by field, and the decoder gives the texts that
  the layout makes with this zone of the entries that were accepted, each once and in order, and then the end. Without failures of the disk all entries are
  accepted. In an encrypted file the keys of the segment go through RSA and AES.
\<close>

theorem raw_log_roundtrip:
  assumes a: "new_file a" "stays_in_file evs a" and ans: "Sys_error Other_errno \<notin> set ans" and small: "small_run filler z names evs" and z: "zone_ok z"
    and key: "key_given str pri" "enc_type a = Rsa_aes_xor \<Longrightarrow> rsa_pair u v (rsa_pub_key a) pri \<and> good_secrets (rsa_pub_key a) secrets"
  shows "\<exists>a1. on_file_open p open_new k secrets filler z names True a = Some a1
     \<and> (clean_answers ans \<longrightarrow> run_events p open_new evs (with_answers ans a1) \<noteq> None)
     \<and> (\<forall>es a2. run_events p open_new evs (with_answers ans a1) = Some (es, a2) \<longrightarrow> subseq es (logged evs) \<and> (ans = [] \<longrightarrow> es = logged evs)
        \<and> (\<exists>a3 d. flush_binary p open_new (with_answers [] a2) = Some a3
           \<and> binary_decoder_init q k (the (afile a3)) str = Some (Decode_success, d)
           \<and> category_names d = names \<and> dec_zone d = z\<lparr>time_cache := [], last_time_epoch_cache := 0\<rparr>
           \<and> (\<forall>texts. entry_texts c t simd names (z\<lparr>time_cache := [], last_time_epoch_cache := 0\<rparr>) es
                  \<lparr>layout_zone = zone_reset, thread_names_cache = Map.empty\<rparr> = Some texts \<longrightarrow>
                decode_calls q c t simd (length es + 1) d = Some (map (Pair Decode_success) texts @ [(Decode_eof, [])]))))"
proof -
  obtain keys where keys: "written_keys a secrets keys" "opens pri (enc_type a) keys (kept_key a secrets)"
  proof (cases "enc_type a = Rsa_aes_xor")
    case True
    obtain x iv blob where "make_segment_keys (rsa_pub_key a) secrets = Some (x, iv, blob)"
      "\<And>fp. length (le_bytes 8 (fp :: u64) @ x @ iv @ blob) = get_encryption_keys_size"
      "\<And>fp. read_segment_keys pri (le_bytes 8 (fp :: u64) @ x @ iv @ blob) = Some (Some (fresh_blob secrets))" "length (pri_n pri) = 256"
      using segment_keys_open key(2) [OF True] by metis
    then show ?thesis
      using key(2) [OF True] True by (intro that [of "le_bytes 8 (rsa_key_fingerprint a) @ x @ iv @ blob"])
        (simp_all add: written_keys_def opens_def kept_key_def good_secrets_def)
  next
    case False
    then show ?thesis by (intro that [of "[]"]) (simp_all add: written_keys_def opens_def kept_key_def)
  qed
  have "length (opening_bytes filler z names) + sum_list (map (\<lambda>e. length e + 4) (logged evs)) \<le> 2 ^ 62" using small by (simp add: small_run_def)
  from raw_file_bytes [OF a keys(1) ans this, where p = p and open_new = open_new and k = k]
  obtain a1 where a1: "on_file_open p open_new k secrets filler z names True a = Some a1"
    "clean_answers ans \<longrightarrow> run_events p open_new evs (with_answers ans a1) \<noteq> None"
    and run: "\<And>es a2. run_events p open_new evs (with_answers ans a1) = Some (es, a2) \<Longrightarrow> subseq es (logged evs) \<and> (ans = [] \<longrightarrow> es = logged evs)
       \<and> (\<exists>a3. flush_binary p open_new (with_answers [] a2) = Some a3 \<and> file_bytes (the (afile a3)) = raw_file k keys (enc_type a) (kept_key a secrets) filler z names es)"
    unfolding raw_file_def by metis
  show ?thesis
    using a1 run raw_file_decoded [OF small z key(1) keys(2), where p = q and k = k and c = c and t = t and simd = simd]
    unfolding uncached_def by meson
qed

theorem raw_log_roundtrip_witness:
  "\<exists>a1 a2 a3 d. on_file_open Other_cpu Some raw_kind no_secrets (replicate 31 0) utc_zone [[0x41]] True hi_appender = Some a1
     \<and> run_events Other_cpu Some [Log_event 1700000000123 hi_entry] (with_answers [] a1) = Some ([hi_entry], a2)
     \<and> flush_binary Other_cpu Some (with_answers [] a2) = Some a3
     \<and> binary_decoder_init Other_cpu raw_kind (the (afile a3)) [] = Some (Decode_success, d) \<and> dec_zone d = utc_zone
     \<and> decode_calls Other_cpu fixed_clock Simd_none False 2 d = Some [(Decode_success, hi_line), (Decode_eof, [])]"
proof -
  have none: "Sys_error Other_errno \<notin> set []" "key_given [] no_private_key" "clean_answers []" by (simp_all add: key_given_def clean_answers_Nil)
  have plain: "enc_type hi_appender = Rsa_aes_xor \<Longrightarrow> rsa_pair 0 0 (rsa_pub_key hi_appender) no_private_key \<and> good_secrets (rsa_pub_key hi_appender) no_secrets"
    by (simp add: hi_appender_def)
  have z: "utc_zone\<lparr>time_cache := [], last_time_epoch_cache := 0\<rparr> = utc_zone" using utc_ok(2) by (simp add: uncached_def)
  have l: "logged [Log_event 1700000000123 hi_entry] = [hi_entry]" by simp
  obtain a1 es a2 a3 d where r: "on_file_open Other_cpu Some raw_kind no_secrets (replicate 31 0) utc_zone [[0x41]] True hi_appender = Some a1"
    "run_events Other_cpu Some [Log_event 1700000000123 hi_entry] (with_answers [] a1) = Some (es, a2)" "es = [hi_entry]"
    "flush_binary Other_cpu Some (with_answers [] a2) = Some a3" "binary_decoder_init Other_cpu raw_kind (the (afile a3)) [] = Some (Decode_success, d)"
    "dec_zone d = utc_zone"
    "\<forall>texts. entry_texts fixed_clock Simd_none False [[0x41]] utc_zone es \<lparr>layout_zone = zone_reset, thread_names_cache = Map.empty\<rparr> = Some texts \<longrightarrow>
       decode_calls Other_cpu fixed_clock Simd_none False (length es + 1) d = Some (map (Pair Decode_success) texts @ [(Decode_eof, [])])"
    using raw_log_roundtrip [OF hi_new(1,2) none(1) hi_new(3) utc_ok(1) none(2) plain, where p = Other_cpu and open_new = Some and q = Other_cpu
      and k = raw_kind and c = fixed_clock and t = Simd_none and simd = False, unfolded z l] none(3) by fast
  have "decode_calls Other_cpu fixed_clock Simd_none False (length [hi_entry] + 1) d = Some (map (Pair Decode_success) [hi_line] @ [(Decode_eof, [])])"
    using r(7) hi_text unfolding r(3) by blast
  then have "decode_calls Other_cpu fixed_clock Simd_none False 2 d = Some [(Decode_success, hi_line), (Decode_eof, [])]" by (simp only: list.size) (simp add: numeral_2_eq_2)
  then show ?thesis using r(1,2,4-6) unfolding r(3) by blast
qed

end
