(* ===== verification/Spec2Isabelle.thy ===== *)
theory Spec2Isabelle
  imports Prelude Vlq Bq_String Level_Bitmap Vernam Aes Crc_Hash Utf Utf_Mixed Ring_Memory Siso Siso_Fifo Siso_System Miso Miso_Tickets Miso_System Bignum Rsa Rsa_Keys Compressed_Reopen Layout_Scan Layout_Format Layout_Decimal Time_Zone Layout Layout_Text File_Cache Binary_File Binary_Stream Binary_Decoder Binary_Roundtrip
begin

text \<open>
  BqLog: a verification library for the core of the logging engine.

  \<^bold>\<open>The program.\<close> A log call serialises its arguments behind a head and a format text into an entry and puts the entry into a ring
  buffer: one with a single producer per thread (\<open>siso_ring_buffer\<close>) or one shared by all (\<open>miso_ring_buffer\<close>). A worker takes the entries out, filters
  them by level and category, and hands them to appenders. The compressed appender writes each entry as a few items: a format or a thread that the file
  does not know yet becomes a template, the entry itself refers to both by index and packs its arguments. Template indices are found in two levels of
  caches, the second one a hash table with bounded size (\<open>bounded_hash_cache\<close>). A decoder rebuilds the entries. Binary files may be encrypted: a stream
  cipher with a key that is itself sent under AES and RSA. Wide texts are kept in a mixed form of ASCII bytes and raw UTF-16.

  \<^bold>\<open>Theories.\<close>
  \<^item> \<open>Prelude\<close>: words as little-endian bytes, lists, and what the other theories share.
  \<^item> \<open>Vlq\<close>: \<open>src/bq_log/utils/log_utils.h\<close> and \<open>.cpp\<close>, zigzag and variable length integers.
  \<^item> \<open>Bq_String\<close>, \<open>Level_Bitmap\<close>: the string algorithms of \<open>string_impl.h\<close>, \<open>log_level_bitmap.cpp\<close> and the category mask of \<open>log_imp.cpp\<close>.
  \<^item> \<open>Vernam\<close>, \<open>Aes\<close>, \<open>Bignum\<close>, \<open>Rsa\<close>, \<open>Rsa_Keys\<close>: \<open>src/bq_common/encryption\<close>. The word-wise and the byte-wise stream cipher, AES in CBC mode over
    the locale \<open>block_cipher\<close>, the limb arithmetic and the key parsers.
  \<^item> \<open>Crc_Hash\<close>, \<open>Utf\<close>, \<open>Utf_Mixed\<close>: \<open>src/bq_common/utils/util.cpp\<close>, checksums, hashes, random numbers and the UTF conversions with their vectorised
    paths; each path is a definition, and the targets are shown to agree.
  \<^item> \<open>Ring_Memory\<close>, \<open>Siso\<close>, \<open>Siso_Fifo\<close>, \<open>Siso_System\<close>, \<open>Miso\<close>, \<open>Miso_Tickets\<close>, \<open>Miso_System\<close>: \<open>src/bq_log/types/buffer\<close>. Block memory, the operations of the
    rings in the order of the code's loads and stores, and step relations that interleave them; the refinement of a queue, progress and recovery. What is
    pending is read off the shared memory: by recovery and \<open>data_traverse\<close> for the one ring, by \<open>published_chunk\<close> and \<open>miso_drain\<close> for the other.
  \<^item> \<open>Hash_Cache\<close>, \<open>Hash_Probing\<close>, \<open>Hash_Cache_Laws\<close>: \<open>src/bq_log/types/bounded_hash_cache.h\<close>; the table refines a map that forgets (locale \<open>forgetful_map\<close>).
  \<^item> \<open>Log_Args\<close>, \<open>Log_Entry\<close>: \<open>bq_log_wrapper_tools.h\<close>, \<open>bq_log_api.cpp\<close>, \<open>log_types.h\<close> and \<open>.cpp\<close>: the bytes of an entry, its accessors and \<open>validate\<close>.
  \<^item> \<open>Compressed_Args\<close>, \<open>Compressed_Items\<close>, \<open>Compressed_Log\<close>, \<open>Compressed_Decoder\<close>, \<open>Compressed_Roundtrip\<close>, \<open>Compressed_Reopen\<close>: \<open>appender_file_compressed.cpp\<close> and
    \<open>appender_decoder_compressed.cpp\<close>. The caches enter through the locale \<open>template_cache\<close>, which extends \<open>forgetful_map\<close>; the interpretation on the
    hash table gives that every index written refers to the right template.
  \<^item> \<open>Layout_Scan\<close>, \<open>Layout_Format\<close>, \<open>Layout_Decimal\<close>, \<open>Layout\<close>, \<open>Layout_Text\<close>: \<open>layout.cpp\<close>, the text of an entry. The vectorised searches for braces agree
    with the plain ones, the current loop over a format with the older one, the text of a UTF-16 format with that of its UTF-8 form; numbers are their digits (floats by
    an exact model of the operations used); an entry that went through the compressed file has the text of the entry that was logged.
  \<^item> \<open>Time_Zone\<close>: \<open>time_zone.cpp\<close>. The calendar functions of the C library are the fields of a record \<open>libc\<close>; a zone name survives printing and parsing.
  \<^item> \<open>File_Cache\<close>, \<open>Binary_File\<close>, \<open>Binary_Stream\<close>: \<open>appender_file_base.cpp\<close>, \<open>appender_file_binary.cpp\<close>, \<open>appender_file_raw.cpp\<close> over an operating system file that
    answers each write with the number of bytes it took. Flushing, padding, rotation and encryption of the write cache, the heads and keys of the segments and the scan over
    their chain; the decrypted file followed by the cache is the stream of the accepted entries, as long as the file is not rotated. The locale \<open>stream_cipher\<close> is the contract of
    the cipher with the cache.
  \<^item> \<open>Binary_Decoder\<close>: \<open>appender_decoder_base.cpp\<close>, \<open>appender_decoder_raw.cpp\<close>, the way back: keys, segments, the read cache, the text of raw entries.
    \<open>Binary_Roundtrip\<close> puts both sides together: a file that is opened in full, written by the raw appender with whatever the disk takes of each later write, and flushed opens in
    the decoder, which gets the zone and the names of the writer and yields the texts of the accepted entries; in an encrypted file the keys travel through RSA and AES.

  \<^bold>\<open>How state and failures are modelled.\<close> Objects are records, operations return the new record. Memory that nobody wrote is \<open>None\<close> in a list of cells;
  reading it, a failed assertion and a read over the end make the result \<open>None\<close>. Where the code reads behind its data and goes on, the memory there is an argument
  (\<open>behind\<close>): behind a text for the UTF-8 decoders, behind an item for the reader of compressed files. A \<open>memcpy\<close> between overlapping ranges is
  \<open>None\<close> (\<open>move_rest\<close>). Whether an allocation fails is decided anew for each entry. A conversion has the room its caller gives it. The CRC
  instruction is an argument of its own for each target. Loops that may not end are \<open>partial_function (option)\<close>, and the
  theorems show that they return; the loops of the ring buffers and of the decoders are \<open>function\<close>s with a measure. Integers have their width.

  \<^bold>\<open>Bounds.\<close> Texts are below \<open>2 ^ 30\<close> bytes and argument areas below \<open>2 ^ 29\<close> in the theorems on the compressed file, so that the 32-bit size
  arithmetic of the code does not wrap; the cache theorem covers maximal sizes up to \<open>2 ^ 29\<close>, the code uses at most \<open>2 ^ 24\<close>. The write cache is below
  \<open>2 ^ 62\<close> bytes; positions in a file are cast to 32 bits before seeking, as in the code. The ring models are sequentially
  consistent: the atomic accesses of the code interleave one by one, reordering within the memory model of C++ is not covered.
  The steps of the shared ring are unrestricted; its theorems are about the executions in which no thread that takes blocks has slept while \<open>2 ^ 32\<close> blocks were
  handed out (\<open>in_time\<close>), since the 32-bit cursors of the code wrap around there. The theorems on binary files exclude errors of the disk other than a full disk and
  interruptions, which make the code open another file, and rotation, which drops what is left in the cache.

  \<^bold>\<open>Not modelled.\<close> The operating system layer, atomics and locks as such, the bindings to other languages, the Unreal and Unity plugins, tools, tests and benchmarks.
  Of the engine itself: the groups of the log buffer, the opening and deleting of log files (a parameter of the write cache) and the recovery of its mapped
  form, the check of an existing binary file before it is continued, the configuration parser and the management of log objects.
\<close>

end
